(* ===== verification/Tetra_Prelude.thy ===== *)
theory Tetra_Prelude
  imports Main "HOL-Library.Word"
begin

text \<open>
  Shared vocabulary of the development: the machine integers and byte strings of the
  program, little-endian byte codes (the layout the code gets from writing a machine integer
  with \<open>memcpy\<close>), and the lemma collections the component theories rest on.
\<close>

unbundle bit_operations_syntax

section \<open>Machine types\<close>

type_synonym byte = "8 word"
type_synonym u16 = "16 word"
type_synonym u32 = "32 word"
type_synonym u64 = "64 word"

text \<open>\<open>int64\<close> of the code: 64 bits read as two's complement by \<open>sint\<close>.\<close>
type_synonym i64 = "64 word"

named_theorems opcode_simps \<open>unfolding of the groups of script instructions\<close>
named_theorems codec_simps \<open>round trips of byte codes\<close>

section \<open>Little-endian byte codes\<close>

fun le_bytes :: "nat \<Rightarrow> nat \<Rightarrow> byte list" where
  "le_bytes 0 n = []"
| "le_bytes (Suc k) n = word_of_nat (n mod 256) # le_bytes k (n div 256)"

fun le_val :: "byte list \<Rightarrow> nat" where
  "le_val [] = 0"
| "le_val (b # bs) = unat b + 256 * le_val bs"

lemma length_le_bytes [simp]: "length (le_bytes k n) = k"
  by (induction k arbitrary: n) auto

lemma unat_byte_of_mod [simp]: "unat (word_of_nat (n mod 256) :: byte) = n mod 256"
  by (simp add: unat_of_nat)

lemma unat_byte_less [simp]: "unat (b :: byte) < 256"
  using unsigned_less [of b] by simp

lemma le_val_le_bytes [codec_simps]: "n < 256 ^ k \<Longrightarrow> le_val (le_bytes k n) = n"
proof (induction k arbitrary: n)
  case 0
  then show ?case by simp
next
  case (Suc k)
  then have "n div 256 < 256 ^ k"
    by (simp add: div_less_iff_less_mult ac_simps)
  with Suc.IH show ?case by simp
qed

lemma le_val_bound: "le_val bs < 256 ^ length bs"
proof (induction bs)
  case Nil
  then show ?case by simp
next
  case (Cons b bs)
  have "unat b + 256 * le_val bs < 256 + 256 * le_val bs"
    by simp
  also have "\<dots> \<le> 256 * 256 ^ length bs"
    using Cons.IH by simp
  finally show ?case by simp
qed

lemma le_bytes_le_val [codec_simps]: "length bs = k \<Longrightarrow> le_bytes k (le_val bs) = bs"
proof (induction bs arbitrary: k)
  case Nil
  then show ?case by simp
next
  case (Cons b bs)
  have "(unat b + 256 * le_val bs) mod 256 = unat b"
    by simp
  moreover have "(unat b + 256 * le_val bs) div 256 = le_val bs"
    by simp
  ultimately show ?case
    using Cons by auto
qed

section \<open>The top bit of a byte\<close>

lemma mask7: "(0x7F :: 'a::len word) = mask 7"
  by (simp add: mask_eq_exp_minus_1)

lemma and_7F: "n AND 0x7F = take_bit 7 (n :: 'a::len word)"
  by (simp only: mask7 take_bit_eq_mask)

lemma b80: "(0x80 :: byte) = push_bit 7 1"
  by simp

lemma bit_80: "bit (push_bit 7 1 :: byte) i \<longleftrightarrow> i = 7"
  by (auto simp: bit_push_bit_iff bit_1_iff possible_bit_def simp del: push_bit_of_1)

lemma and_80: "b AND 0x80 \<noteq> 0 \<longleftrightarrow> bit (b :: byte) 7"
  by (simp only: b80 bit_iff_and_push_bit_not_eq_0)

lemma bit_or_80 [simp]: "bit (b OR 0x80 :: byte) 7"
  unfolding b80 by (simp add: bit_or_iff bit_80 del: push_bit_of_1)

lemma bit_and_7f [simp]: "\<not> bit (b AND 0x7f :: byte) 7"
  by (simp only: and_7F bit_take_bit_iff) simp

lemma or_80_and_7f [simp]: "(b OR 0x80) AND 0x7f = (b AND 0x7f :: byte)"
  unfolding and_7F b80
  by (rule bit_word_eqI) (auto simp: bit_take_bit_iff bit_or_iff bit_80 simp del: push_bit_of_1)

lemma and_7f_self: "\<not> bit (b :: byte) 7 \<Longrightarrow> b AND 0x7f = b"
proof -
  assume b: "\<not> bit b 7"
  have "bit (take_bit 7 b) i = bit b i" if "i < 8" for i
    using b that by (cases "i = 7") (auto simp: bit_take_bit_iff)
  then show ?thesis unfolding and_7F by (intro bit_word_eqI) simp
qed

lemma or_80_and_7f_self: "bit (b :: byte) 7 \<Longrightarrow> (b AND 0x7f) OR 0x80 = b"
proof -
  assume b: "bit b 7"
  have "bit (take_bit 7 b OR push_bit 7 1) i = bit b i" if "i < 8" for i
    using b that by (cases "i = 7") (auto simp: bit_take_bit_iff bit_or_iff bit_80 simp del: push_bit_of_1)
  then show ?thesis unfolding and_7F b80 by (intro bit_word_eqI) simp
qed

section \<open>Generic lemmas\<close>

lemma unat_ucast_small:
  "unat (n :: 'a::len word) < 2 ^ LENGTH('b) \<Longrightarrow> unat (ucast n :: 'b::len word) = unat n"
  by (simp add: unsigned_ucast_eq unsigned_take_bit_eq take_bit_nat_eq_self)

lemma take_drop_bit_or: "take_bit n b OR push_bit n (drop_bit n b) = (b :: 'a::len word)"
proof (rule bit_word_eqI)
  fix i assume "i < LENGTH('a)"
  then show "bit (take_bit n b OR push_bit n (drop_bit n b)) i = bit b i"
    by (cases "i < n") (simp_all add: bit_or_iff bit_take_bit_iff bit_push_bit_iff bit_drop_bit_eq)
qed

lemma take_prefix_append: "length bs = k \<Longrightarrow> take k (bs @ xs) = bs"
  by simp

lemma drop_prefix_append: "length bs = k \<Longrightarrow> drop k (bs @ xs) = xs"
  by simp

lemma list_split_at: "k \<le> length xs \<Longrightarrow> \<exists>as bs. xs = as @ bs \<and> length as = k"
  by (rule exI [of _ "take k xs"], rule exI [of _ "drop k xs"]) simp

end
