(* ===== verification/Omap.thy ===== *)
theory Omap
  imports Tetra_Prelude "HOL-Library.Char_ord" "HOL-Library.List_Lexorder"
begin

text \<open>
  The program keeps its keyed data in \<open>std::map\<close>: an ordered map whose iteration
  visits the keys in ascending order.  The interface the components use is the locale
  \<open>ordered_map\<close>; \<open>om_find\<close>, \<open>om_put\<close>, \<open>om_insert\<close> and \<open>om_del\<close> on key-sorted
  association lists provide it.  A \<open>std::string\<close> compares by unsigned characters, which is
  the order of \<open>Char_ord\<close> and \<open>List_Lexorder\<close> on \<open>string\<close>.
\<close>

section \<open>The interface\<close>

locale ordered_map =
  fixes find :: "'m \<Rightarrow> 'k \<Rightarrow> 'v option"
    and put :: "'m \<Rightarrow> 'k \<Rightarrow> 'v \<Rightarrow> 'm"
    and del :: "'m \<Rightarrow> 'k \<Rightarrow> 'm"
    and entries :: "'m \<Rightarrow> ('k \<times> 'v) list"
    and wf :: "'m \<Rightarrow> bool"
  assumes find_put: "wf m \<Longrightarrow> find (put m k v) = (find m)(k \<mapsto> v)"
    and find_del: "wf m \<Longrightarrow> find (del m k) = (find m)(k := None)"
    and wf_put: "wf m \<Longrightarrow> wf (put m k v)"
    and wf_del: "wf m \<Longrightarrow> wf (del m k)"
    and entries_distinct: "wf m \<Longrightarrow> distinct (map fst (entries m))"
    and entries_find: "wf m \<Longrightarrow> map_of (entries m) = find m"
    and ext: "wf m \<Longrightarrow> wf m' \<Longrightarrow> find m = find m' \<Longrightarrow> m = m'"
begin

text \<open>
  A loop over the entries of one map that updates another: each visited key \<open>k\<close> is
  rewritten from its old value and the visited value.
\<close>

definition update_all :: "('v option \<Rightarrow> 'w \<Rightarrow> 'v) \<Rightarrow> ('k \<times> 'w) list \<Rightarrow> 'm \<Rightarrow> 'm" where
  "update_all f es m = foldl (\<lambda>m (k, w). put m k (f (find m k) w)) m es"

lemma update_all_simps [simp]:
  "update_all f [] m = m"
  "update_all f ((k, w) # es) m = update_all f es (put m k (f (find m k) w))"
  by (simp_all add: update_all_def)

lemma wf_update_all: "wf m \<Longrightarrow> wf (update_all f es m)"
  by (induction es arbitrary: m) (auto simp: wf_put)

lemma find_update_all:
  "wf m \<Longrightarrow> distinct (map fst es) \<Longrightarrow>
   find (update_all f es m) k =
     (case map_of es k of None \<Rightarrow> find m k | Some w \<Rightarrow> Some (f (find m k) w))"
proof (induction es arbitrary: m)
  case Nil
  then show ?case by simp
next
  case (Cons e es)
  obtain a w where e: "e = (a, w)" by (cases e)
  from Cons.prems e have d: "distinct (map fst es)" and notin: "map_of es a = None"
    by (auto simp: map_of_eq_None_iff)
  have "find (update_all f (e # es) m) k =
    (case map_of es k of None \<Rightarrow> find (put m a (f (find m a) w)) k
     | Some u \<Rightarrow> Some (f (find (put m a (f (find m a) w)) k) u))"
    using Cons.IH [OF wf_put [OF Cons.prems(1)] d] e by simp
  then show ?case
    using Cons.prems(1) e notin by (auto simp: find_put split: option.split)
qed

lemma find_in_entries: "wf m \<Longrightarrow> find m k = Some v \<longleftrightarrow> (k, v) \<in> set (entries m)"
  using entries_distinct entries_find by (metis map_of_eq_Some_iff)

text \<open>Two maps rewritten by the same function of their values agree when their sources do.\<close>

lemma update_all_eqI:
  assumes "wf m" and "wf m'" and "distinct (map fst es)" and "distinct (map fst es')"
    and "\<And>k. (case map_of es k of None \<Rightarrow> find m k | Some w \<Rightarrow> Some (f (find m k) w)) =
              (case map_of es' k of None \<Rightarrow> find m' k | Some w \<Rightarrow> Some (g (find m' k) w))"
  shows "update_all f es m = update_all g es' m'"
  by (rule ext) (auto simp: assms wf_update_all find_update_all fun_eq_iff)

end

section \<open>Sorted association lists\<close>

type_synonym ('k, 'v) omap = "('k \<times> 'v) list"

fun om_find :: "('k, 'v) omap \<Rightarrow> 'k \<Rightarrow> 'v option" where
  "om_find [] k = None"
| "om_find ((a, v) # m) k = (if k = a then Some v else om_find m k)"

text \<open>\<open>m[k] = v\<close>\<close>
fun om_put :: "('k::linorder, 'v) omap \<Rightarrow> 'k \<Rightarrow> 'v \<Rightarrow> ('k, 'v) omap" where
  "om_put [] k v = [(k, v)]"
| "om_put ((a, w) # m) k v =
     (if k < a then (k, v) # (a, w) # m
      else if k = a then (k, v) # m
      else (a, w) # om_put m k v)"

text \<open>\<open>m.insert(make_pair(k, v))\<close>: a key that is present keeps its value.\<close>
definition om_insert :: "('k::linorder, 'v) omap \<Rightarrow> 'k \<Rightarrow> 'v \<Rightarrow> ('k, 'v) omap" where
  "om_insert m k v = (case om_find m k of Some _ \<Rightarrow> m | None \<Rightarrow> om_put m k v)"

fun om_del :: "('k, 'v) omap \<Rightarrow> 'k \<Rightarrow> ('k, 'v) omap" where
  "om_del [] k = []"
| "om_del ((a, w) # m) k = (if k = a then m else (a, w) # om_del m k)"

fun om_wf :: "('k::linorder, 'v) omap \<Rightarrow> bool" where
  "om_wf [] = True"
| "om_wf ((a, v) # m) = (list_all (\<lambda>e. a < fst e) m \<and> om_wf m)"

lemma om_find_map_of: "om_find m = map_of m"
proof
  fix k show "om_find m k = map_of m k"
    by (induction m k rule: om_find.induct) auto
qed

lemma om_wf_sorted: "om_wf m \<longleftrightarrow> sorted_wrt (<) (map fst m)"
  by (induction m rule: om_wf.induct) (auto simp: list_all_iff)

lemma om_put_keys: "fst ` set (om_put m k v) = insert k (fst ` set m)"
  by (induction m k v rule: om_put.induct) auto

lemma om_wf_put [simp]: "om_wf m \<Longrightarrow> om_wf (om_put m k v)"
proof (induction m k v rule: om_put.induct)
  case (1 k v)
  then show ?case by simp
next
  case (2 a w m k v)
  have "\<forall>e\<in>set (om_put m k v). fst e = k \<or> (\<exists>e'\<in>set m. fst e = fst e')"
    using om_put_keys [of m k v] by (metis image_iff insertE imageI)
  then show ?case
    using 2 by (fastforce simp: list_all_iff)
qed

lemma om_del_subset: "set (om_del m k) \<subseteq> set m"
  by (induction m k rule: om_del.induct) auto

lemma om_wf_del [simp]: "om_wf m \<Longrightarrow> om_wf (om_del m k)"
  by (induction m k rule: om_del.induct) (use om_del_subset in \<open>fastforce simp: list_all_iff\<close>)+

lemma om_find_put: "om_wf m \<Longrightarrow> om_find (om_put m k v) k' = (if k' = k then Some v else om_find m k')"
  by (induction m k v rule: om_put.induct) auto

lemma om_wf_notin: "list_all (\<lambda>e. (a :: 'k::linorder) < fst e) m \<Longrightarrow> om_find m a = None"
  by (induction m) auto

lemma om_find_del: "om_wf m \<Longrightarrow> om_find (om_del m k) k' = (if k' = k then None else om_find m k')"
  by (induction m k rule: om_del.induct) (auto simp: om_wf_notin)

lemma om_wf_distinct: "om_wf m \<Longrightarrow> distinct (map fst m)"
  by (auto simp: om_wf_sorted strict_sorted_iff)

lemma om_ext_aux:
  assumes "om_wf m" and "om_wf m'" and "map_of m = map_of m'"
  shows "m = m'"
proof -
  have "set m = set m'"
    by (rule map_of_inject_set [THEN iffD1]) (use assms om_wf_distinct in auto)
  moreover have "inj_on fst (set m)"
    using assms(1) om_wf_distinct by (auto simp: distinct_map)
  ultimately show ?thesis
    using assms(1,2) map_sorted_distinct_set_unique [of fst m m']
    by (simp add: om_wf_sorted strict_sorted_iff)
qed

interpretation om: ordered_map om_find om_put om_del "\<lambda>m. m" om_wf
proof unfold_locales
  fix m m' :: "('a, 'b) omap" and k v
  assume "om_wf m"
  show "om_find (om_put m k v) = (om_find m)(k \<mapsto> v)"
    using \<open>om_wf m\<close> by (auto simp: om_find_put fun_eq_iff)
  show "om_find (om_del m k) = (om_find m)(k := None)"
    using \<open>om_wf m\<close> by (auto simp: om_find_del fun_eq_iff)
  show "om_wf (om_put m k v)" and "om_wf (om_del m k)"
    using \<open>om_wf m\<close> by simp_all
  show "distinct (map fst m)" and "map_of m = om_find m"
    using \<open>om_wf m\<close> by (simp_all add: om_wf_distinct om_find_map_of)
  assume "om_wf m'" and "om_find m = om_find m'"
  then show "m = m'"
    using \<open>om_wf m\<close> by (simp add: om_ext_aux om_find_map_of)
qed

lemma om_wf_insert [simp]: "om_wf m \<Longrightarrow> om_wf (om_insert m k v)"
  by (simp add: om_insert_def split: option.split)

lemma om_find_insert:
  "om_wf m \<Longrightarrow> om_find (om_insert m k v) k' =
     (if k' = k then Some (case om_find m k of Some w \<Rightarrow> w | None \<Rightarrow> v) else om_find m k')"
  by (auto simp: om_insert_def om_find_put split: option.split)

text \<open>Rebuilding a map from its entries, in order, gives the map back.\<close>

lemma om_insert_last:
  "list_all (\<lambda>e. fst e < k) m \<Longrightarrow> om_insert m k v = m @ [(k, v)]"
proof -
  assume a: "list_all (\<lambda>e. fst e < k) m"
  then have "om_find m k = None"
    by (auto simp: om_find_map_of map_of_eq_None_iff list_all_iff)
  moreover from a have "om_put m k v = m @ [(k, v)]"
    by (induction m k v rule: om_put.induct) auto
  ultimately show ?thesis by (simp add: om_insert_def)
qed

end
