(* ===== verification/Cash.thy ===== *)
theory Cash
  imports Omap
begin

text \<open>
  The multi-circuit amount of the program (\<open>cash.h\<close>, \<open>cash.cpp\<close>): a map from circuit names
  to signed 64-bit amounts (\<open>local\<close>) and one \<open>fixed\<close> amount.  Every member function that
  does not involve \<open>Fees\<close> is here, loop by loop; the overloads with \<open>Fees\<close> are in theory
  \<open>Fees\<close>.  Signed overflow, undefined in C++, is two's complement wrap-around here; a signed
  division the machine traps on is \<open>None\<close>.
\<close>

section \<open>Signed 64-bit arithmetic\<close>

definition i64_less :: "i64 \<Rightarrow> i64 \<Rightarrow> bool" where
  "i64_less a b \<longleftrightarrow> sint a < sint b"

definition i64_le :: "i64 \<Rightarrow> i64 \<Rightarrow> bool" where
  "i64_le a b \<longleftrightarrow> sint a \<le> sint b"

lemma i64_not_le [simp]: "\<not> i64_le a b \<longleftrightarrow> i64_less b a"
  by (auto simp: i64_le_def i64_less_def)

lemma i64_not_less [simp]: "\<not> i64_less a b \<longleftrightarrow> i64_le b a"
  by (auto simp: i64_le_def i64_less_def)

text \<open>C++ truncates the quotient towards zero; division by zero and \<open>INT64_MIN / -1\<close> trap.\<close>
definition i64_div :: "i64 \<Rightarrow> i64 \<Rightarrow> i64 option" where
  "i64_div a b =
     (if b = 0 \<or> (sint a = - (2 ^ 63) \<and> b = -1) then None
      else Some (word_of_int (sgn (sint a) * sgn (sint b) * (\<bar>sint a\<bar> div \<bar>sint b\<bar>))))"

section \<open>The class and its constructors\<close>

type_synonym CashName = string
type_synonym CashStruct = "(CashName, i64) omap"

record cash =
  local_map :: CashStruct
  fixed :: i64

definition cash_empty :: cash where
  "cash_empty = \<lparr>local_map = [], fixed = 0\<rparr>"

definition cash_of_money :: "CashName \<times> i64 \<Rightarrow> cash" where
  "cash_of_money x = \<lparr>local_map = om_put [] (fst x) (snd x), fixed = 0\<rparr>"

text \<open>The constructor from an amount does not store the amount.\<close>
definition cash_of_amount :: "i64 \<Rightarrow> cash" where
  "cash_of_amount x = \<lparr>local_map = [], fixed = 0\<rparr>"

definition cash_of_struct :: "CashStruct \<Rightarrow> cash" where
  "cash_of_struct x = \<lparr>local_map = x, fixed = 0\<rparr>"

definition cash_assign :: "cash \<Rightarrow> cash \<Rightarrow> cash" where
  "cash_assign this x = this\<lparr>fixed := fixed x, local_map := local_map x\<rparr>"

definition cash_assign_int :: "cash \<Rightarrow> i64 \<Rightarrow> cash" where
  "cash_assign_int this x = this\<lparr>fixed := x, local_map := []\<rparr>"

definition cash_size :: "cash \<Rightarrow> nat" where
  "cash_size c = length (local_map c)"

definition getLocal :: "cash \<Rightarrow> CashStruct" where
  "getLocal c = local_map c"

text \<open>\<open>m[k]\<close> on a map of amounts: a missing key is created with amount 0.\<close>
definition at :: "CashStruct \<Rightarrow> CashName \<Rightarrow> i64" where
  "at m k = (case om_find m k of Some v \<Rightarrow> v | None \<Rightarrow> 0)"

definition amount :: "cash \<Rightarrow> CashName \<Rightarrow> i64" where
  "amount c k = at (local_map c) k"

definition cash_wf :: "cash \<Rightarrow> bool" where
  "cash_wf c \<longleftrightarrow> om_wf (local_map c)"

section \<open>Sums and differences\<close>

fun plus_loop :: "(CashName \<times> i64) list \<Rightarrow> CashStruct \<Rightarrow> CashStruct" where
  "plus_loop [] l = l"
| "plus_loop ((k, v) # it) l =
     (if om_find l k \<noteq> None then plus_loop it (om_put l k (at l k + v))
      else plus_loop it (om_put l k v))"

definition cash_plus_assign :: "cash \<Rightarrow> cash \<Rightarrow> cash" where
  "cash_plus_assign this y =
     (let x = getLocal y;
          f = (if fixed this \<noteq> 0 \<or> fixed y \<noteq> 0 then fixed this + fixed y else fixed this)
      in this\<lparr>fixed := f, local_map := plus_loop x (local_map this)\<rparr>)"

fun minus_loop :: "(CashName \<times> i64) list \<Rightarrow> CashStruct \<Rightarrow> CashStruct" where
  "minus_loop [] l = l"
| "minus_loop ((k, v) # it) l =
     (if om_find l k \<noteq> None then minus_loop it (om_put l k (at l k - v))
      else minus_loop it (om_put l k (- v)))"

definition cash_minus_assign :: "cash \<Rightarrow> cash \<Rightarrow> cash" where
  "cash_minus_assign this y =
     (let x = getLocal y;
          f = (if fixed this \<noteq> 0 \<or> fixed y \<noteq> 0 then fixed this - fixed y else fixed this)
      in this\<lparr>fixed := f, local_map := minus_loop x (local_map this)\<rparr>)"

definition cash_plus :: "cash \<Rightarrow> cash \<Rightarrow> cash" where
  "cash_plus this x =
     (let tmp = cash_empty; tmp = cash_plus_assign tmp x in cash_plus_assign tmp this)"

definition cash_minus :: "cash \<Rightarrow> cash \<Rightarrow> cash" where
  "cash_minus this x =
     (let tmp = cash_empty; tmp = cash_plus_assign tmp this in cash_minus_assign tmp x)"

fun plus_int_loop :: "i64 \<Rightarrow> (CashName \<times> i64) list \<Rightarrow> CashStruct \<Rightarrow> CashStruct" where
  "plus_int_loop x [] tmp = tmp"
| "plus_int_loop x ((k, v) # it) tmp =
     (let tmp = om_put tmp k (at tmp k + v); tmp = om_put tmp k (at tmp k + x)
      in plus_int_loop x it tmp)"

definition cash_plus_int :: "cash \<Rightarrow> i64 \<Rightarrow> cash" where
  "cash_plus_int this x =
     \<lparr>local_map = plus_int_loop x (local_map this) [],
      fixed = (if fixed this \<noteq> 0 then fixed this + x else fixed this)\<rparr>"

fun minus_int_loop :: "i64 \<Rightarrow> (CashName \<times> i64) list \<Rightarrow> CashStruct \<Rightarrow> CashStruct" where
  "minus_int_loop x [] tmp = tmp"
| "minus_int_loop x ((k, v) # it) tmp =
     (let tmp = om_put tmp k (at tmp k + v); tmp = om_put tmp k (at tmp k - x)
      in minus_int_loop x it tmp)"

definition cash_minus_int :: "cash \<Rightarrow> i64 \<Rightarrow> cash" where
  "cash_minus_int this x =
     \<lparr>local_map = minus_int_loop x (local_map this) [],
      fixed = (if fixed this \<noteq> 0 then fixed this - x else fixed this)\<rparr>"

fun neg_loop :: "(CashName \<times> i64) list \<Rightarrow> CashStruct \<Rightarrow> CashStruct" where
  "neg_loop [] tmp = tmp"
| "neg_loop ((k, v) # it) tmp = neg_loop it (om_put tmp k (- v))"

definition cash_neg :: "cash \<Rightarrow> cash" where
  "cash_neg this =
     \<lparr>local_map = neg_loop (local_map this) (local_map this), fixed = - fixed this\<rparr>"

section \<open>Products and quotients\<close>

fun times_loop :: "i64 \<Rightarrow> (CashName \<times> i64) list \<Rightarrow> CashStruct \<Rightarrow> CashStruct" where
  "times_loop x [] tmp = tmp"
| "times_loop x ((k, v) # it) tmp =
     (let tmp = om_put tmp k (at tmp k + v); tmp = om_put tmp k (at tmp k * x)
      in times_loop x it tmp)"

definition cash_times :: "cash \<Rightarrow> i64 \<Rightarrow> cash" where
  "cash_times this x =
     \<lparr>local_map = times_loop x (local_map this) [], fixed = fixed this * x\<rparr>"

fun div_loop :: "i64 \<Rightarrow> (CashName \<times> i64) list \<Rightarrow> CashStruct \<Rightarrow> CashStruct option" where
  "div_loop x [] tmp = Some tmp"
| "div_loop x ((k, v) # it) tmp =
     (let tmp = om_put tmp k (at tmp k + v)
      in case i64_div (at tmp k) x of
           None \<Rightarrow> None
         | Some q \<Rightarrow> div_loop x it (om_put tmp k q))"

definition cash_div :: "cash \<Rightarrow> i64 \<Rightarrow> cash option" where
  "cash_div this x =
     (if x = 0 then Some this
      else case div_loop x (local_map this) [] of
             None \<Rightarrow> None
           | Some l \<Rightarrow> (case i64_div (fixed this) x of
                         None \<Rightarrow> None
                       | Some q \<Rightarrow> Some \<lparr>local_map = l, fixed = q\<rparr>))"

definition cash_times_assign :: "cash \<Rightarrow> i64 \<Rightarrow> cash \<times> bool" where
  "cash_times_assign this x = (cash_assign this (cash_times this x), True)"

definition cash_div_assign :: "cash \<Rightarrow> i64 \<Rightarrow> (cash \<times> bool) option" where
  "cash_div_assign this x =
     (if x = 0 then Some (this, False)
      else map_option (\<lambda>q. (cash_assign this q, True)) (cash_div this x))"

section \<open>Comparisons\<close>

fun gt_loop :: "(CashName \<times> i64) list \<Rightarrow> CashStruct \<Rightarrow> bool" where
  "gt_loop [] x = True"
| "gt_loop ((k, v) # it) x =
     (case om_find x k of
        Some w \<Rightarrow> if i64_le v w then False else gt_loop it x
      | None \<Rightarrow> if i64_le v 0 then False else gt_loop it x)"

definition cash_gt :: "cash \<Rightarrow> cash \<Rightarrow> bool" where
  "cash_gt this y =
     (let x = getLocal y
      in if cash_size this = 0 \<and> cash_size y = 0 then False else gt_loop (local_map this) x)"

fun lt_loop :: "(CashName \<times> i64) list \<Rightarrow> CashStruct \<Rightarrow> bool" where
  "lt_loop [] x = True"
| "lt_loop ((k, v) # it) x =
     (case om_find x k of
        Some w \<Rightarrow> if i64_le w v then False else lt_loop it x
      | None \<Rightarrow> if i64_le 0 v then False else lt_loop it x)"

definition cash_lt :: "cash \<Rightarrow> cash \<Rightarrow> bool" where
  "cash_lt this y =
     (let x = getLocal y
      in if cash_size this = 0 \<and> cash_size y = 0 then False else lt_loop (local_map this) x)"

definition cash_eq :: "cash \<Rightarrow> cash \<Rightarrow> bool" where
  "cash_eq this x =
     (if fixed this \<noteq> fixed x then False
      else if cash_lt this x \<or> cash_gt this x then False
      else True)"

definition cash_neq :: "cash \<Rightarrow> cash \<Rightarrow> bool" where
  "cash_neq this x = (\<not> cash_eq this x)"

text \<open>\<open>operator!=(int64)\<close> compares with an empty amount, not with its argument.\<close>
definition cash_neq_int :: "cash \<Rightarrow> i64 \<Rightarrow> bool" where
  "cash_neq_int this x = (let y = cash_empty in \<not> cash_eq this y)"

definition cash_le :: "cash \<Rightarrow> cash \<Rightarrow> bool" where
  "cash_le this x = (\<not> cash_gt this x)"

definition cash_ge :: "cash \<Rightarrow> cash \<Rightarrow> bool" where
  "cash_ge this y = (\<not> cash_lt this y)"

fun max_loop :: "(CashName \<times> i64) list \<Rightarrow> i64 \<Rightarrow> i64" where
  "max_loop [] m = m"
| "max_loop ((k, v) # it) m = max_loop it (if i64_less m v then v else m)"

definition Cash_Max :: "cash \<Rightarrow> i64" where
  "Cash_Max c =
     (let m = max_loop (local_map c) 0
      in if fixed c \<noteq> 0 \<and> i64_less m (fixed c) then fixed c else m)"

fun min_loop :: "(CashName \<times> i64) list \<Rightarrow> i64 \<Rightarrow> i64" where
  "min_loop [] m = m"
| "min_loop ((k, v) # it) m = min_loop it (if i64_less v m then v else m)"

definition Cash_Min :: "cash \<Rightarrow> i64" where
  "Cash_Min c =
     (case local_map c of
        [] \<Rightarrow> fixed c
      | (k, v) # it \<Rightarrow>
          (let m = v
           in case it of
                [] \<Rightarrow> (if fixed c = 0 then m else if i64_less (fixed c) m then fixed c else m)
              | _ \<Rightarrow> min_loop it m))"

definition cash_le_int :: "cash \<Rightarrow> i64 \<Rightarrow> bool" where
  "cash_le_int this x = i64_le (Cash_Min this) x"

definition cash_lt_int :: "cash \<Rightarrow> i64 \<Rightarrow> bool" where
  "cash_lt_int this x = i64_less (Cash_Min this) x"

definition cash_ge_int :: "cash \<Rightarrow> i64 \<Rightarrow> bool" where
  "cash_ge_int this x = i64_le x (Cash_Max this)"

definition cash_gt_int :: "cash \<Rightarrow> i64 \<Rightarrow> bool" where
  "cash_gt_int this x = i64_less x (Cash_Max this)"

section \<open>The money range\<close>

definition COIN :: i64 where "COIN = 100"

definition MAX_MONEY :: i64 where "MAX_MONEY = 18400000000 * COIN"

definition MoneyRange :: "cash \<Rightarrow> bool" where
  "MoneyRange nValue \<longleftrightarrow> cash_ge_int nValue 0 \<and> cash_le_int nValue MAX_MONEY"

section \<open>Amount compression\<close>

text \<open>\<open>while (((n % 10) == 0) && e < 9) { n /= 10; e++; }\<close>\<close>
function strip_zeros :: "u64 \<Rightarrow> nat \<Rightarrow> u64 \<times> nat" where
  "strip_zeros n e = (if n mod 10 = 0 \<and> e < 9 then strip_zeros (n div 10) (Suc e) else (n, e))"
  by pat_completeness auto
termination
  by (relation "measure (\<lambda>(n, e). 9 - e)") auto

declare strip_zeros.simps [simp del]

definition CompressAmount :: "u64 \<Rightarrow> u64" where
  "CompressAmount n =
     (if n = 0 then 0
      else case strip_zeros n 0 of (n, e) \<Rightarrow>
        if e < 9 then
          (let d = n mod 10; n = n div 10
           in 1 + (n * 9 + d - 1) * 10 + word_of_nat e)
        else 1 + (n - 1) * 10 + 9)"

text \<open>\<open>while (e) { n *= 10; e--; }\<close>\<close>
fun scale10 :: "u64 \<Rightarrow> nat \<Rightarrow> u64" where
  "scale10 n 0 = n"
| "scale10 n (Suc e) = scale10 (n * 10) e"

definition DecompressAmount :: "u64 \<Rightarrow> u64" where
  "DecompressAmount x =
     (if x = 0 then 0
      else
        (let x = x - 1;
             e = unat (x mod 10);
             x = x div 10;
             n = (if e < 9 then
                    (let d = x mod 9 + 1; x = x div 9 in x * 10 + d)
                  else x + 1)
         in scale10 n e))"

section \<open>Lemmas: sums and differences\<close>

abbreviation held :: "cash \<Rightarrow> CashName \<Rightarrow> bool" where
  "held c k \<equiv> om_find (local_map c) k \<noteq> None"

lemma at_put [simp]: "om_wf m \<Longrightarrow> at (om_put m k v) k' = (if k' = k then v else at m k')"
  by (simp add: at_def om_find_put)

lemma at_nil [simp]: "at [] k = 0"
  by (simp add: at_def)

lemma plus_loop_update_all: "plus_loop es l = om.update_all (\<lambda>old v. (case old of None \<Rightarrow> 0 | Some a \<Rightarrow> a) + v) es l"
  by (induction es l rule: plus_loop.induct) (auto simp: at_def split: option.splits)

lemma minus_loop_update_all: "minus_loop es l = om.update_all (\<lambda>old v. (case old of None \<Rightarrow> 0 | Some a \<Rightarrow> a) - v) es l"
  by (induction es l rule: minus_loop.induct) (auto simp: at_def split: option.splits)

lemma neg_loop_update_all: "neg_loop es l = om.update_all (\<lambda>_ v. - v) es l"
  by (induction es l rule: neg_loop.induct) auto

lemma find_plus_loop:
  "om_wf l \<Longrightarrow> om_wf es \<Longrightarrow>
   om_find (plus_loop es l) k =
     (if om_find l k = None \<and> om_find es k = None then None else Some (at l k + at es k))"
  by (simp add: plus_loop_update_all om.find_update_all om_wf_distinct om_find_map_of [symmetric] at_def
        split: option.split)

lemma find_minus_loop:
  "om_wf l \<Longrightarrow> om_wf es \<Longrightarrow>
   om_find (minus_loop es l) k =
     (if om_find l k = None \<and> om_find es k = None then None else Some (at l k - at es k))"
  by (simp add: minus_loop_update_all om.find_update_all om_wf_distinct om_find_map_of [symmetric] at_def
        split: option.split)

lemma find_neg_loop:
  "om_wf l \<Longrightarrow> om_find (neg_loop l l) k = map_option uminus (om_find l k)"
  by (simp add: neg_loop_update_all om.find_update_all om_wf_distinct om_find_map_of [symmetric]
        split: option.split)

lemma wf_loops [simp]:
  "om_wf l \<Longrightarrow> om_wf (plus_loop es l)"
  "om_wf l \<Longrightarrow> om_wf (minus_loop es l)"
  "om_wf l \<Longrightarrow> om_wf (neg_loop es l)"
  by (simp_all add: plus_loop_update_all minus_loop_update_all neg_loop_update_all om.wf_update_all)

lemma cash_wf_ops [simp]:
  "cash_wf cash_empty"
  "cash_wf c \<Longrightarrow> cash_wf (cash_plus_assign c y)"
  "cash_wf c \<Longrightarrow> cash_wf (cash_minus_assign c y)"
  "cash_wf (cash_plus c y)"
  "cash_wf (cash_minus c y)"
  "cash_wf c \<Longrightarrow> cash_wf (cash_neg c)"
  by (simp_all add: cash_wf_def cash_empty_def cash_plus_assign_def cash_minus_assign_def
        cash_plus_def cash_minus_def cash_neg_def Let_def)

lemma cash_eqI:
  fixes c y :: cash
  assumes "cash_wf c" and "cash_wf y" and "fixed c = fixed y"
    and "\<And>k. om_find (local_map c) k = om_find (local_map y) k"
  shows "c = y"
proof -
  have "local_map c = local_map y"
    by (rule om.ext) (use assms in \<open>auto simp: cash_wf_def\<close>)
  with assms(3) show ?thesis by simp
qed

text \<open>Every map operation is given by the fixed part and the entry at each circuit.\<close>

lemma plus_assign_simps:
  assumes "cash_wf c" and "cash_wf y"
  shows "fixed (cash_plus_assign c y) = fixed c + fixed y"
    and "om_find (local_map (cash_plus_assign c y)) k =
      (if held c k \<or> held y k then Some (amount c k + amount y k) else None)"
  using assms
  by (auto simp: cash_plus_assign_def cash_wf_def getLocal_def amount_def find_plus_loop Let_def)

lemma minus_assign_simps:
  assumes "cash_wf c" and "cash_wf y"
  shows "fixed (cash_minus_assign c y) = fixed c - fixed y"
    and "om_find (local_map (cash_minus_assign c y)) k =
      (if held c k \<or> held y k then Some (amount c k - amount y k) else None)"
  using assms
  by (auto simp: cash_minus_assign_def cash_wf_def getLocal_def amount_def find_minus_loop Let_def)

lemma empty_simps [simp]:
  "fixed cash_empty = 0" "local_map cash_empty = []" "amount cash_empty k = 0"
  by (simp_all add: cash_empty_def amount_def at_def)

lemma amount_not_held [simp]: "om_find (local_map c) k = None \<Longrightarrow> amount c k = 0"
  by (simp add: amount_def at_def)

lemma amount_held: "om_find (local_map c) k = Some v \<Longrightarrow> amount c k = v"
  by (simp add: amount_def at_def)

lemma cash_plus_simps:
  assumes "cash_wf c" and "cash_wf y"
  shows "fixed (cash_plus c y) = fixed c + fixed y"
    and "om_find (local_map (cash_plus c y)) k =
      (if held c k \<or> held y k then Some (amount c k + amount y k) else None)"
  using assms
  by (auto simp: cash_plus_def plus_assign_simps Let_def amount_def at_def)

lemma cash_minus_simps:
  assumes "cash_wf c" and "cash_wf y"
  shows "fixed (cash_minus c y) = fixed c - fixed y"
    and "om_find (local_map (cash_minus c y)) k =
      (if held c k \<or> held y k then Some (amount c k - amount y k) else None)"
  using assms
  by (auto simp: cash_minus_def plus_assign_simps minus_assign_simps Let_def amount_def at_def)

lemma amount_plus: "cash_wf c \<Longrightarrow> cash_wf y \<Longrightarrow> amount (cash_plus c y) k = amount c k + amount y k"
  using cash_plus_simps(2) [of c y k] by (auto simp: amount_def at_def split: if_splits)

lemma amount_minus: "cash_wf c \<Longrightarrow> cash_wf y \<Longrightarrow> amount (cash_minus c y) k = amount c k - amount y k"
  using cash_minus_simps(2) [of c y k] by (auto simp: amount_def at_def split: if_splits)

lemma held_plus: "cash_wf c \<Longrightarrow> cash_wf y \<Longrightarrow> held (cash_plus c y) k \<longleftrightarrow> held c k \<or> held y k"
  by (simp add: cash_plus_simps(2))

lemma held_minus: "cash_wf c \<Longrightarrow> cash_wf y \<Longrightarrow> held (cash_minus c y) k \<longleftrightarrow> held c k \<or> held y k"
  by (simp add: cash_minus_simps(2))

lemma find_amount: "om_find (local_map c) k = (if held c k then Some (amount c k) else None)"
  by (auto simp: amount_def at_def)

section \<open>Properties of sums\<close>

text \<open>Sums and differences of well-formed amounts are computed circuit by circuit modulo 2^64
  (an absent circuit counts 0), keep the circuits of both sides, and the sum is commutative
  and associative as a value of the class.\<close>

theorem cash_sum_algebra:
  assumes "cash_wf a" and "cash_wf b" and "cash_wf c"
  shows "cash_plus a b = cash_plus b a \<and>
    cash_plus (cash_plus a b) c = cash_plus a (cash_plus b c) \<and>
    amount (cash_plus a b) k = amount a k + amount b k \<and>
    amount (cash_minus a b) k = amount a k - amount b k \<and>
    (held (cash_plus a b) k \<longleftrightarrow> held a k \<or> held b k) \<and>
    (held (cash_minus a b) k \<longleftrightarrow> held a k \<or> held b k) \<and>
    fixed (cash_plus a b) = fixed a + fixed b \<and>
    fixed (cash_minus a b) = fixed a - fixed b"
proof (intro conjI)
  show "cash_plus a b = cash_plus b a"
    by (rule cash_eqI) (use assms in \<open>auto simp: cash_plus_simps ac_simps\<close>)
  show "cash_plus (cash_plus a b) c = cash_plus a (cash_plus b c)"
    by (rule cash_eqI) (use assms in \<open>auto simp: cash_plus_simps amount_plus held_plus ac_simps\<close>)
  show "held (cash_plus a b) k \<longleftrightarrow> held a k \<or> held b k"
    using assms(1,2) by (rule held_plus)
  show "held (cash_minus a b) k \<longleftrightarrow> held a k \<or> held b k"
    using assms(1,2) by (rule held_minus)
qed (use assms in \<open>simp_all add: amount_plus amount_minus cash_plus_simps cash_minus_simps\<close>)

theorem cash_sum_algebra_witness:
  "let a = \<lparr>local_map = [(''alpha'', 100), (''beta'', 7)], fixed = 1\<rparr>;
       b = \<lparr>local_map = [(''beta'', 5)], fixed = 2\<rparr>; c = cash_empty
   in cash_plus (cash_plus a b) c = cash_plus a (cash_plus b c) \<and>
      amount (cash_minus a b) ''beta'' = amount a ''beta'' - amount b ''beta''"
proof -
  have "cash_wf \<lparr>local_map = [(''alpha'', 100), (''beta'', 7)], fixed = 1\<rparr>"
    and "cash_wf \<lparr>local_map = [(''beta'', 5)], fixed = 2\<rparr>"
    by code_simp+
  from cash_sum_algebra [OF this cash_wf_ops(1), of "''beta''"] show ?thesis
    unfolding Let_def by blast
qed

section \<open>Properties of comparisons\<close>

lemma sint_max_loop: "sint (max_loop es m) = Max (insert (sint m) ((sint \<circ> snd) ` set es))"
proof (induction es m rule: max_loop.induct)
  case (1 m)
  then show ?case by simp
next
  case (2 k v it m)
  then show ?case
    by (simp add: i64_less_def insert_commute max_def)
       (cases "set it = {}"; auto simp: max_def)
qed


lemma lt_loop_iff: "lt_loop es x \<longleftrightarrow> (\<forall>(k, v)\<in>set es. sint v < sint (at x k))"
  by (induction es x rule: lt_loop.induct) (auto simp: at_def i64_le_def split: option.split)

lemma gt_loop_iff: "gt_loop es x \<longleftrightarrow> (\<forall>(k, v)\<in>set es. sint (at x k) < sint v)"
  by (induction es x rule: gt_loop.induct) (auto simp: at_def i64_le_def split: option.split)

text \<open>The comparisons of two amounts, exactly: \<open><\<close> and \<open>>\<close> hold when some circuit is
  held by either side and every circuit held by the left side compares strictly with the
  right side's amount (0 when absent); circuits held only by the right side are not looked at;
  and \<open>==\<close> is the absence of both together with equal fixed parts, which is reflexive
  but does not compare the amounts one by one.\<close>

theorem cash_order_exact:
  "(cash_lt a b \<longleftrightarrow> (local_map a \<noteq> [] \<or> local_map b \<noteq> []) \<and>
      list_all (\<lambda>(k, v). sint v < sint (amount b k)) (local_map a)) \<and>
   (cash_gt a b \<longleftrightarrow> (local_map a \<noteq> [] \<or> local_map b \<noteq> []) \<and>
      list_all (\<lambda>(k, v). sint (amount b k) < sint v) (local_map a)) \<and>
   (cash_eq a b \<longleftrightarrow> fixed a = fixed b \<and> \<not> cash_lt a b \<and> \<not> cash_gt a b) \<and>
   cash_eq a a"
proof (intro conjI)
  show lt: "cash_lt a b \<longleftrightarrow> (local_map a \<noteq> [] \<or> local_map b \<noteq> []) \<and>
      list_all (\<lambda>(k, v). sint v < sint (amount b k)) (local_map a)" for a b :: cash
    by (auto simp: list_all_iff cash_lt_def lt_loop_iff getLocal_def cash_size_def amount_def)
  show gt: "cash_gt a b \<longleftrightarrow> (local_map a \<noteq> [] \<or> local_map b \<noteq> []) \<and>
      list_all (\<lambda>(k, v). sint (amount b k) < sint v) (local_map a)" for a b :: cash
    by (auto simp: list_all_iff cash_gt_def gt_loop_iff getLocal_def cash_size_def amount_def)
  show "cash_eq a b \<longleftrightarrow> fixed a = fixed b \<and> \<not> cash_lt a b \<and> \<not> cash_gt a b"
    by (simp add: cash_eq_def)
  have "\<not> cash_lt a a" and "\<not> cash_gt a a"
    unfolding lt gt by (cases "local_map a"; force simp: amount_def list_all_iff at_def)+
  then show "cash_eq a a"
    by (simp add: cash_eq_def)
qed

text \<open>Two amounts that differ on every circuit compare equal.\<close>

theorem cash_order_exact_witness:
  "let a = \<lparr>local_map = [(''alpha'', 1), (''beta'', 5)], fixed = 0\<rparr>;
       b = \<lparr>local_map = [(''alpha'', 5), (''beta'', 1)], fixed = 0\<rparr>
   in cash_eq a b \<and> amount a ''alpha'' = 1 \<and> amount b ''alpha'' = 5"
  using cash_order_exact
    [of "\<lparr>local_map = [(''alpha'', 1), (''beta'', 5)], fixed = 0\<rparr>"
        "\<lparr>local_map = [(''alpha'', 5), (''beta'', 1)], fixed = 0\<rparr>"]
  by (simp add: Let_def amount_def at_def)

lemma sint_min_loop: "sint (min_loop es m) = Min (insert (sint m) ((sint \<circ> snd) ` set es))"
proof (induction es m rule: min_loop.induct)
  case (1 m)
  then show ?case by simp
next
  case (2 k v it m)
  then show ?case
    by (cases "set it = {}") (auto simp: i64_less_def min_def insert_commute)
qed

lemma sint_Cash_Max:
  "sint (Cash_Max c) = Max ({0, sint (fixed c)} \<union> (sint \<circ> snd) ` set (local_map c))"
proof -
  define S where "S = insert 0 ((sint \<circ> snd) ` set (local_map c))"
  have S: "finite S" "S \<noteq> {}" "0 \<in> S"
    by (auto simp: S_def)
  have m: "sint (max_loop (local_map c) 0) = Max S"
    by (simp add: sint_max_loop S_def)
  have "0 \<le> Max S"
    using S by simp
  then have "sint (Cash_Max c) = max (sint (fixed c)) (Max S)"
    using m by (auto simp: Cash_Max_def Let_def i64_less_def max_def)
  also have "\<dots> = Max (insert (sint (fixed c)) S)"
    using S by (simp add: Max_insert)
  finally show ?thesis
    by (simp add: S_def insert_commute)
qed

lemma MoneyRange_cases:
  "MoneyRange c \<longleftrightarrow>
     (case local_map c of
        [] \<Rightarrow> sint (fixed c) \<le> 1840000000000
      | [(k, v)] \<Rightarrow> sint v \<le> 1840000000000 \<or> (fixed c \<noteq> 0 \<and> sint (fixed c) \<le> 1840000000000)
      | es \<Rightarrow> list_ex (\<lambda>(k, v). sint v \<le> 1840000000000) es)"
proof -
  have "0 \<le> sint (Cash_Max c)"
    unfolding sint_Cash_Max by (rule Max_ge) auto
  then have ge: "cash_ge_int c 0"
    by (simp add: cash_ge_int_def i64_le_def)
  have mm: "sint MAX_MONEY = 1840000000000"
    by (simp add: MAX_MONEY_def COIN_def)
  show ?thesis
  proof (cases "local_map c")
    case Nil
    then show ?thesis
      using ge mm by (simp add: MoneyRange_def cash_le_int_def i64_le_def Cash_Min_def)
  next
    case (Cons e it)
    then obtain k v where e: "local_map c = (k, v) # it" by (cases e) auto
    show ?thesis
    proof (cases it)
      case Nil
      then show ?thesis
        using e ge mm by (auto simp: MoneyRange_def cash_le_int_def i64_le_def i64_less_def Cash_Min_def)
    next
      case (Cons e' it')
      have "sint (Cash_Min c) \<le> 1840000000000 \<longleftrightarrow>
        (\<exists>x\<in>insert (sint v) ((sint \<circ> snd) ` set it). x \<le> 1840000000000)"
        using e Cons by (subst Min_le_iff [symmetric]) (auto simp: Cash_Min_def sint_min_loop)
      then show ?thesis
        using e Cons ge mm by (simp add: MoneyRange_def cash_le_int_def i64_le_def split_beta list_ex_iff)
    qed
  qed
qed

text \<open>The money-range check accepts exactly the amounts whose least entry is at most
  \<open>MAX_MONEY\<close> (the fixed part counts only when there is at most one entry): the lower bound
  never rejects, since \<open>Max\<close> starts at 0, and one small entry admits any other.\<close>

theorem MoneyRange_exact:
  "MoneyRange c \<longleftrightarrow>
     (case local_map c of
        [] \<Rightarrow> sint (fixed c) \<le> 1840000000000
      | [(k, v)] \<Rightarrow> sint v \<le> 1840000000000 \<or> (fixed c \<noteq> 0 \<and> sint (fixed c) \<le> 1840000000000)
      | es \<Rightarrow> list_ex (\<lambda>(k, v). sint v \<le> 1840000000000) es)"
  by (rule MoneyRange_cases)

text \<open>A negative amount next to one beyond \<open>MAX_MONEY\<close> is in range.\<close>

lemma MoneyRange_negative:
  "MoneyRange \<lparr>local_map = [(''alpha'', -5), (''beta'', 9000000000000)], fixed = 0\<rparr>"
  by (simp add: MoneyRange_def cash_ge_int_def cash_le_int_def Cash_Max_def Cash_Min_def
      i64_le_def i64_less_def Let_def MAX_MONEY_def COIN_def)

section \<open>Properties of amount compression\<close>

lemma strip_zeros_spec:
  assumes "strip_zeros n e = (m, e')" and "e \<le> 9"
  shows "unat n = unat m * 10 ^ (e' - e) \<and> e \<le> e' \<and> e' \<le> 9 \<and> (e' < 9 \<longrightarrow> unat m mod 10 \<noteq> 0)"
  using assms
proof (induction n e rule: strip_zeros.induct)
  case (1 n e)
  show ?case
  proof (cases "n mod 10 = 0 \<and> e < 9")
    case True
    then have step: "strip_zeros (n div 10) (Suc e) = (m, e')"
      using "1.prems"(1) by (simp add: strip_zeros.simps [of n e])
    have "unat n mod 10 = 0"
      using True unat_mod_distrib [of n 10] by simp
    moreover have "unat (n div 10) = unat n div 10"
      by (simp add: unat_div_distrib)
    ultimately have "unat n = 10 * unat (n div 10)"
      by auto
    with "1.IH" [OF True step] True show ?thesis
      by (auto simp: Suc_diff_Suc simp flip: power_Suc)
  next
    case False
    then have "m = n" "e' = e"
      using "1.prems"(1) by (auto simp: strip_zeros.simps [of n e] split: if_splits)
    moreover have "e < 9 \<Longrightarrow> unat n mod 10 \<noteq> 0"
      using False unat_mod_distrib [of n 10] by (auto simp: unat_eq_0 [symmetric])
    ultimately show ?thesis using "1.prems"(2) by auto
  qed
qed

lemma scale10_power: "scale10 n e = n * 10 ^ e"
  by (induction n e rule: scale10.induct) (auto simp: ac_simps)

lemma unat_of_small: "n < 2 ^ 64 \<Longrightarrow> unat (word_of_nat n :: u64) = n"
  by (simp add: unat_of_nat)


lemma u64_of_unat: "(n :: u64) = word_of_nat (unat n)" by simp

lemma u64_div_nat: "(n :: u64) div 10 = word_of_nat (unat n div 10)"
  by (subst u64_of_unat [of "n div 10"]) (simp only: unat_div_distrib, simp)

lemma u64_mod_nat: "(n :: u64) mod 10 = word_of_nat (unat n mod 10)"
  by (subst u64_of_unat [of "n mod 10"]) (simp only: unat_mod_distrib, simp)

lemma compress_small:
  assumes m: "unat (m :: u64) mod 10 \<noteq> 0" 
  shows "1 + (m div 10 * 9 + m mod 10 - 1) * 10 + word_of_nat e
       = word_of_nat (1 + (unat m div 10 * 9 + (unat m mod 10 - 1)) * 10 + e)"
proof -
  obtain d where d: "unat m mod 10 = Suc d"
    using m not0_implies_Suc by blast
  show ?thesis
    unfolding u64_div_nat u64_mod_nat d by (simp add: algebra_simps)
qed

lemma decompress_nat:
  assumes "y + 1 < 2 ^ 64"
  shows "DecompressAmount (word_of_nat (y + 1)) =
    (let e = y mod 10; z = y div 10
     in if e < 9 then word_of_nat ((z div 9 * 10 + (z mod 9 + 1)) * 10 ^ e)
        else word_of_nat ((z + 1) * 10 ^ e))"
proof -
  let ?x = "word_of_nat (y + 1) :: u64"
  have nz: "?x \<noteq> 0"
    using assms by (metis unat_0 unat_of_small add_is_0 one_neq_zero)
  have u: "unat (?x - 1) = y" 
    using assms by (simp add: unat_of_small)
  have 1: "unat ((?x - 1) mod 10) = y mod 10"
    by (simp only: unat_mod_distrib u) simp
  have 2: "(?x - 1) div 10 = word_of_nat (y div 10)"
    by (simp only: u64_div_nat u)
  have s: "y div 10 < 2 ^ 64" using assms by simp
  have 3: "(word_of_nat (y div 10) :: u64) mod 9 + 1 = word_of_nat (y div 10 mod 9 + 1)"
    by (subst u64_of_unat [of "word_of_nat (y div 10) mod 9"])
       (simp only: unat_mod_distrib unat_of_small [OF s], simp)
  have 4: "(word_of_nat (y div 10) :: u64) div 9 = word_of_nat (y div 10 div 9)"
    by (subst u64_of_unat [of "word_of_nat (y div 10) div 9"])
       (simp only: unat_div_distrib unat_of_small [OF s], simp)
  show ?thesis
    unfolding DecompressAmount_def Let_def if_not_P [OF nz] 1 2 3 4 scale10_power
    by (simp add: algebra_simps)
qed

text \<open>For every amount whose compressed form fits 64 bits (9 n + 90 < 2^64, which covers every
  amount up to \<open>MAX_MONEY\<close> and far beyond), decompressing the compressed amount gives it
  back.\<close>

theorem compress_roundtrip:
  assumes "9 * unat n + 90 < 2 ^ 64"
  shows "DecompressAmount (CompressAmount n) = n"
proof (cases "n = 0")
  case True
  then show ?thesis by (simp add: CompressAmount_def DecompressAmount_def)
next
  case False
  obtain m e where me: "strip_zeros n 0 = (m, e)" by (cases "strip_zeros n 0")
  from strip_zeros_spec [OF me]
  have n: "unat n = unat m * 10 ^ e" and e: "e \<le> 9" "e < 9 \<Longrightarrow> unat m mod 10 \<noteq> 0"
    by auto
  have nz: "unat m \<noteq> 0" using n False by (auto simp: unat_eq_zero)
  have "unat m * 1 \<le> unat m * 10 ^ e" by (rule mult_le_mono2) simp
  then have mle: "unat m \<le> unat n" using n by simp
  have whole: "word_of_nat (unat m * 10 ^ e) = n"
    using n by (metis u64_of_unat)
  show ?thesis
  proof (cases "e < 9")
    case True
    define q d where "q = unat m div 10" and "d = unat m mod 10 - 1"
    have d: "d < 9" and qd: "q * 10 + (d + 1) = unat m"
      using e(2) [OF True] by (auto simp: q_def d_def)
    define y where "y = e + (q * 9 + d) * 10"
    have "CompressAmount n = word_of_nat (1 + (q * 9 + d) * 10 + e)"
      using False True me compress_small [OF e(2) [OF True], of e]
      by (simp add: CompressAmount_def q_def d_def Let_def)
    then have c: "CompressAmount n = word_of_nat (y + 1)"
      by (simp add: y_def algebra_simps)
    have yb: "y + 1 < 2 ^ 64"
      using qd d True mle assms unfolding y_def by simp
    moreover have "y mod 10 = e" "y div 10 = q * 9 + d"
      using div_mult_self1 [of 10 e "q * 9 + d"] mod_mult_self1 [of e "q * 9 + d" 10] True
      by (simp_all add: y_def add.commute)
    moreover have "(q * 9 + d) div 9 = q" "(q * 9 + d) mod 9 = d"
      using d by auto
    ultimately show ?thesis
      unfolding c decompress_nat [OF yb] Let_def using True qd whole by simp
  next
    case e9: False
    then have e9: "e = 9" using e by simp
    define y where "y = (unat m - 1) * 10 + 9"
    obtain k where k: "unat m = Suc k"
      using nz not0_implies_Suc by blast
    then have m: "m = word_of_nat (Suc k)"
      by (metis u64_of_unat)
    have "y + 1 = k * 10 + 10"
      using k by (simp add: y_def)
    moreover have "CompressAmount n = 1 + (m - 1) * 10 + 9"
      using False me e9 by (simp add: CompressAmount_def)
    ultimately have c: "CompressAmount n = word_of_nat (y + 1)"
      by (simp only: m) simp
    have yb: "y + 1 < 2 ^ 64"
      using n e9 assms unfolding y_def by simp
    moreover have "y mod 10 = 9" "y div 10 = unat m - 1"
      by (auto simp: y_def)
    ultimately show ?thesis
      unfolding c decompress_nat [OF yb] Let_def using nz whole e9 by simp
  qed
qed

theorem compress_roundtrip_witness:
  "DecompressAmount (CompressAmount 1230000) = 1230000"
  by (rule compress_roundtrip) simp

end
