(* ===== verification/Fees.thy ===== *)
theory Fees
  imports Cash
begin

text \<open>
  \<open>Fees\<close> (\<open>cash.h\<close>, \<open>fees.cpp\<close>): an amount read as a fee schedule, one fee per circuit with
  the fixed part as the fee of every other circuit; and the overloads of \<open>Cash\<close> that take a
  \<open>Fees\<close> argument (\<open>cash.cpp\<close>).  The class derives from \<open>Cash\<close> without adding data, so both
  are the record \<open>cash\<close>.
\<close>

type_synonym fees = cash

section \<open>Constructors and conversions\<close>

definition fees_of_amount :: "i64 \<Rightarrow> fees" where
  "fees_of_amount value = cash_of_amount value"

definition fees_of_struct :: "CashStruct \<Rightarrow> fees" where
  "fees_of_struct value = cash_of_struct value"

definition fees_of_cash :: "cash \<Rightarrow> fees" where
  "fees_of_cash value = cash_assign value value"

definition getFees :: "fees \<Rightarrow> CashName \<Rightarrow> i64" where
  "getFees f cname =
     (if cname = '''' then fixed f
      else case om_find (local_map f) cname of Some v \<Rightarrow> v | None \<Rightarrow> fixed f)"

definition fees_to_int :: "fees \<Rightarrow> i64" where
  "fees_to_int f = (if cash_size f = 0 then fixed f else getFees f '''')"

definition fees_to_cash :: "fees \<Rightarrow> cash" where
  "fees_to_cash f = cash_empty\<lparr>fixed := fixed f, local_map := local_map f\<rparr>"

definition fees_assign :: "fees \<Rightarrow> fees \<Rightarrow> fees" where
  "fees_assign this x = this\<lparr>fixed := fixed x, local_map := local_map x\<rparr>"

text \<open>The operators that return the value of an assignment return it as a \<open>bool\<close>.\<close>
definition fees_assign_int :: "fees \<Rightarrow> i64 \<Rightarrow> fees \<times> bool" where
  "fees_assign_int this x = (this\<lparr>fixed := x\<rparr>, x \<noteq> 0)"

section \<open>Arithmetic\<close>

definition fees_plus :: "fees \<Rightarrow> fees \<Rightarrow> fees" where
  "fees_plus this x = cash_empty\<lparr>fixed := fixed this + fixed x\<rparr>"

definition fees_plus_int :: "fees \<Rightarrow> i64 \<Rightarrow> fees" where
  "fees_plus_int this x = cash_empty\<lparr>fixed := fixed this + x\<rparr>"

text \<open>The fee charged on a circuit: \<open>local.find(k) == end ? fixed : local.find(k)->second\<close>.\<close>
definition fee_on :: "fees \<Rightarrow> CashName \<Rightarrow> i64" where
  "fee_on this k = (case om_find (local_map this) k of None \<Rightarrow> fixed this | Some v \<Rightarrow> v)"

fun charge_loop :: "fees \<Rightarrow> (CashName \<times> i64) list \<Rightarrow> CashStruct \<Rightarrow> CashStruct" where
  "charge_loop this [] tmp = tmp"
| "charge_loop this ((k, v) # it) tmp =
     (let tmp = om_put tmp k v; tmp = om_put tmp k (at tmp k + fee_on this k)
      in charge_loop this it tmp)"

definition fees_plus_cash :: "fees \<Rightarrow> cash \<Rightarrow> cash" where
  "fees_plus_cash this x = cash_of_struct (charge_loop this (local_map x) [])"

fun scale_loop :: "i64 \<Rightarrow> CashStruct \<Rightarrow> CashStruct" where
  "scale_loop x [] = []"
| "scale_loop x ((k, v) # it) = (k, v * x) # scale_loop x it"

definition fees_times :: "fees \<Rightarrow> i64 \<Rightarrow> fees" where
  "fees_times this x =
     (let tmp = cash_empty\<lparr>fixed := fixed this * x\<rparr>
      in if cash_size this \<noteq> 0 then tmp\<lparr>local_map := scale_loop x (local_map this)\<rparr> else tmp)"

text \<open>
  \<open>return (*this) = (*this) * x || true;\<close>: assignment binds weaker than \<open>||\<close>, so the value
  assigned is the boolean \<open>((*this) * x) || true\<close>, through \<open>operator=(int64)\<close>.
\<close>
definition fees_times_assign :: "fees \<Rightarrow> i64 \<Rightarrow> fees \<times> bool" where
  "fees_times_assign this x =
     (let prod = fees_times this x; b = (fees_to_int prod \<noteq> 0 \<or> True)
      in fees_assign_int this (if b then 1 else 0))"

text \<open>\<open>operator/=\<close> is written with \<open>*\<close>.\<close>
definition fees_div_assign :: "fees \<Rightarrow> i64 \<Rightarrow> fees \<times> bool" where
  "fees_div_assign this x = (fees_assign this (fees_times this x), True)"

fun unscale_loop :: "i64 \<Rightarrow> CashStruct \<Rightarrow> CashStruct option" where
  "unscale_loop x [] = Some []"
| "unscale_loop x ((k, v) # it) =
     (case i64_div v x of
        None \<Rightarrow> None
      | Some q \<Rightarrow> map_option (\<lambda>m. (k, q) # m) (unscale_loop x it))"

definition fees_div :: "fees \<Rightarrow> i64 \<Rightarrow> fees option" where
  "fees_div this x =
     (case i64_div (fixed this) x of
        None \<Rightarrow> None
      | Some q \<Rightarrow>
          (let tmp = cash_empty\<lparr>fixed := q\<rparr>
           in if cash_size this \<noteq> 0
              then map_option (\<lambda>l. tmp\<lparr>local_map := l\<rparr>) (unscale_loop x (local_map this))
              else Some tmp))"

definition fees_minus :: "fees \<Rightarrow> fees \<Rightarrow> fees" where
  "fees_minus this x = fees_of_cash (cash_minus this x)"

definition fees_minus_int :: "fees \<Rightarrow> i64 \<Rightarrow> fees" where
  "fees_minus_int this x = cash_empty\<lparr>fixed := fixed this - x\<rparr>"

definition fees_neg :: "fees \<Rightarrow> fees" where
  "fees_neg this =
     (let tmp = neg_loop (local_map this) (local_map this); tfees = fees_of_struct tmp
      in tfees\<lparr>fixed := - fixed this\<rparr>)"

fun discharge_loop :: "fees \<Rightarrow> (CashName \<times> i64) list \<Rightarrow> CashStruct \<Rightarrow> CashStruct" where
  "discharge_loop this [] tmp = tmp"
| "discharge_loop this ((k, v) # it) tmp =
     (let tmp = om_put tmp k v; tmp = om_put tmp k (at tmp k - fee_on this k)
      in discharge_loop this it tmp)"

definition fees_minus_cash :: "fees \<Rightarrow> cash \<Rightarrow> cash" where
  "fees_minus_cash this x = cash_of_struct (discharge_loop this (local_map x) [])"

definition fees_minus_assign :: "fees \<Rightarrow> fees \<Rightarrow> fees \<times> bool" where
  "fees_minus_assign this x =
     (let v = fixed this - fixed x in (this\<lparr>fixed := v\<rparr>, v \<noteq> 0))"

definition fees_minus_assign_int :: "fees \<Rightarrow> i64 \<Rightarrow> fees \<times> bool" where
  "fees_minus_assign_int this x = (let v = fixed this - x in (this\<lparr>fixed := v\<rparr>, v \<noteq> 0))"

definition fees_plus_assign :: "fees \<Rightarrow> fees \<Rightarrow> fees \<times> bool" where
  "fees_plus_assign this x =
     (let v = fixed this + fixed x in (this\<lparr>fixed := v\<rparr>, v \<noteq> 0))"

definition fees_plus_assign_int :: "fees \<Rightarrow> i64 \<Rightarrow> fees \<times> bool" where
  "fees_plus_assign_int this x = (let v = fixed this + x in (this\<lparr>fixed := v\<rparr>, v \<noteq> 0))"

section \<open>Comparisons\<close>

definition fees_lt :: "fees \<Rightarrow> fees \<Rightarrow> bool" where
  "fees_lt this x \<longleftrightarrow> i64_less (fixed this) (fixed x) \<or> cash_lt this x"

definition fees_lt_int :: "fees \<Rightarrow> i64 \<Rightarrow> bool" where
  "fees_lt_int this x \<longleftrightarrow> i64_less (fixed this) x"

definition fees_gt :: "fees \<Rightarrow> fees \<Rightarrow> bool" where
  "fees_gt this x \<longleftrightarrow> i64_less (fixed x) (fixed this) \<or> cash_gt this x"

definition fees_gt_int :: "fees \<Rightarrow> i64 \<Rightarrow> bool" where
  "fees_gt_int this x \<longleftrightarrow> i64_less x (fixed this)"

definition fees_eq :: "fees \<Rightarrow> fees \<Rightarrow> bool" where
  "fees_eq this x \<longleftrightarrow> cash_eq this x"

definition fees_eq_int :: "fees \<Rightarrow> i64 \<Rightarrow> bool" where
  "fees_eq_int this x \<longleftrightarrow> fixed this = x"

definition fees_neq :: "fees \<Rightarrow> fees \<Rightarrow> bool" where
  "fees_neq this x \<longleftrightarrow> \<not> fixed this = fixed x"

definition fees_neq_int :: "fees \<Rightarrow> i64 \<Rightarrow> bool" where
  "fees_neq_int this x \<longleftrightarrow> \<not> fixed this = x"

definition fees_ge :: "fees \<Rightarrow> fees \<Rightarrow> bool" where
  "fees_ge this x \<longleftrightarrow> fees_gt this x \<or> fees_eq this x"

definition fees_ge_int :: "fees \<Rightarrow> i64 \<Rightarrow> bool" where
  "fees_ge_int this x \<longleftrightarrow> i64_less x (fixed this) \<or> fixed this = x"

definition fees_le :: "fees \<Rightarrow> fees \<Rightarrow> bool" where
  "fees_le this x \<longleftrightarrow> fees_lt this x \<or> fees_eq this x"

definition fees_le_int :: "fees \<Rightarrow> i64 \<Rightarrow> bool" where
  "fees_le_int this x \<longleftrightarrow> i64_less (fixed this) x \<or> fixed this = x"

section \<open>Amounts with fees\<close>

definition cash_plus_fees :: "cash \<Rightarrow> fees \<Rightarrow> cash" where
  "cash_plus_fees this x = fees_plus_cash x this"

definition cash_minus_fees :: "cash \<Rightarrow> fees \<Rightarrow> cash" where
  "cash_minus_fees this x = fees_plus_cash (fees_neg x) this"

definition cash_minus_assign_fees :: "cash \<Rightarrow> fees \<Rightarrow> cash \<times> bool" where
  "cash_minus_assign_fees this x = (cash_assign this (cash_minus_fees this x), True)"

definition cash_plus_assign_fees :: "cash \<Rightarrow> fees \<Rightarrow> cash \<times> bool" where
  "cash_plus_assign_fees this x = (cash_assign this (cash_plus_fees this x), True)"

fun eq_fees_loop :: "CashStruct \<Rightarrow> (CashName \<times> i64) list \<Rightarrow> i64 \<Rightarrow> bool" where
  "eq_fees_loop l [] f = True"
| "eq_fees_loop l ((k, v) # it) f =
     (if om_find l k = None then False
      else if v \<noteq> f then False
      else eq_fees_loop l it f)"

definition cash_eq_fees :: "cash \<Rightarrow> fees \<Rightarrow> bool" where
  "cash_eq_fees this x =
     (if fixed this \<noteq> fixed x then False
      else eq_fees_loop (local_map this) (local_map this) (fixed x))"

definition cash_le_fees :: "cash \<Rightarrow> fees \<Rightarrow> bool" where
  "cash_le_fees this x = (\<not> cash_gt this x)"

definition cash_ge_fees :: "cash \<Rightarrow> fees \<Rightarrow> bool" where
  "cash_ge_fees this y = fees_ge (fees_of_cash this) y"

section \<open>Lemmas and properties\<close>

lemma charge_loop_update_all:
  "charge_loop f es tmp = foldl (\<lambda>m (k, v). om_put (om_put m k v) k (at (om_put m k v) k + fee_on f k)) tmp es"
  by (induction f es tmp rule: charge_loop.induct) (auto simp: Let_def)

lemma om_put_put: "om_put (om_put m k v) k w = om_put m k w"
  by (induction m k v rule: om_put.induct) auto

lemma at_put_same: "at (om_put m k v) k = v"
  unfolding at_def by (induction m k v rule: om_put.induct) auto

lemma find_charge_loop:
  assumes "om_wf tmp" and "distinct (map fst es)"
  shows "om_find (charge_loop f es tmp) k =
    (case map_of es k of None \<Rightarrow> om_find tmp k | Some v \<Rightarrow> Some (v + fee_on f k)) \<and>
    om_wf (charge_loop f es tmp)"
  using assms
proof (induction f es tmp rule: charge_loop.induct)
  case (1 f tmp)
  then show ?case by simp
next
  case (2 f a v es tmp)
  then have "map_of es a = None"
    by (auto simp: map_of_eq_None_iff)
  with 2 show ?case
    by (auto simp: Let_def om_put_put at_put_same om_find_put split: option.split)
qed

lemma fees_plus_cash_simps:
  assumes "cash_wf c"
  shows "om_find (local_map (fees_plus_cash f c)) k = map_option (\<lambda>v. v + fee_on f k) (om_find (local_map c) k)"
    and "fixed (fees_plus_cash f c) = 0"
    and "cash_wf (fees_plus_cash f c)"
  using find_charge_loop [of "[]" "local_map c" f k] assms
  by (auto simp: fees_plus_cash_def cash_of_struct_def cash_wf_def om_wf_distinct
      om_find_map_of [symmetric] split: option.splits)

lemma fee_on_neg: "cash_wf f \<Longrightarrow> fee_on (fees_neg f) k = - fee_on f k"
  by (simp add: fee_on_def fees_neg_def fees_of_struct_def cash_of_struct_def cash_wf_def
        find_neg_loop Let_def split: option.split)

text \<open>Charging fees touches only the circuits the amount holds, adds to each exactly its own
  fee (the fixed fee where the schedule names none), drops the fixed part, and subtracting the
  same fees afterwards restores every circuit.\<close>

theorem fees_charge_and_refund:
  assumes "cash_wf c" and "cash_wf f"
  shows "(held (cash_plus_fees c f) k \<longleftrightarrow> held c k) \<and>
    (held c k \<longrightarrow> amount (cash_plus_fees c f) k = amount c k + fee_on f k) \<and>
    cash_minus_fees (cash_plus_fees c f) f = c\<lparr>fixed := 0\<rparr>"
proof (intro conjI impI)
  have "cash_minus_fees (cash_plus_fees c f) f = c\<lparr>fixed := 0\<rparr>"
  proof (rule cash_eqI)
    fix k
    show "om_find (local_map (cash_minus_fees (cash_plus_fees c f) f)) k =
        om_find (local_map (c\<lparr>fixed := 0\<rparr>)) k"
      using assms
      by (cases "om_find (local_map c) k")
         (simp_all add: cash_minus_fees_def cash_plus_fees_def fees_plus_cash_simps fee_on_neg)
  qed (use assms in \<open>simp_all add: cash_minus_fees_def cash_plus_fees_def fees_plus_cash_simps\<close>,
       simp add: cash_wf_def)
  then show "cash_minus_fees (cash_plus_fees c f) f = c\<lparr>fixed := 0\<rparr>" .
  show "held (cash_plus_fees c f) k \<longleftrightarrow> held c k"
    using assms by (simp add: cash_plus_fees_def fees_plus_cash_simps)
  assume "held c k"
  then show "amount (cash_plus_fees c f) k = amount c k + fee_on f k"
    using assms by (auto simp: amount_def at_def cash_plus_fees_def fees_plus_cash_simps)
qed

theorem fees_charge_and_refund_witness:
  "let c = \<lparr>local_map = [(''alpha'', 100), (''beta'', 100)], fixed = 0\<rparr>;
       f = \<lparr>local_map = [(''alpha'', 5)], fixed = 1\<rparr>
   in amount (cash_plus_fees c f) ''beta'' = amount c ''beta'' + 1 \<and>
      cash_minus_fees (cash_plus_fees c f) f = c"
proof -
  have w: "cash_wf \<lparr>local_map = [(''alpha'', 100), (''beta'', 100)], fixed = 0\<rparr>"
    "cash_wf \<lparr>local_map = [(''alpha'', 5)], fixed = 1\<rparr>"
    by code_simp+
  show ?thesis
    using fees_charge_and_refund [OF w, of "''beta''"]
    by (simp add: Let_def fee_on_def)
qed

text \<open>What the compound assignments do: \<open>f *= x\<close> leaves the schedule alone and sets the
  fixed fee to 1 whatever \<open>f\<close> and \<open>x\<close> are, and \<open>f /= x\<close> multiplies by \<open>x\<close> (it never
  divides, so it also never traps on \<open>x = 0\<close>), while \<open>f / x\<close> by 0 has no result.\<close>

theorem fees_compound_assign_exact:
  "fees_times_assign f x = (f\<lparr>fixed := 1\<rparr>, True) \<and>
   fixed (fst (fees_div_assign f x)) = fixed f * x \<and>
   local_map (fst (fees_div_assign f x)) = map (\<lambda>(k, v). (k, v * x)) (local_map f) \<and>
   fees_div f 0 = None"
proof -
  have "scale_loop x l = map (\<lambda>(k, v). (k, v * x)) l" for l
    by (induction x l rule: scale_loop.induct) auto
  then show ?thesis
    by (auto simp: fees_times_assign_def fees_assign_int_def fees_div_assign_def fees_assign_def
        fees_times_def fees_div_def i64_div_def cash_size_def Let_def)
qed

end
