(* ===== verification/Serialize.thy ===== *)
theory Serialize
  imports Omap
begin

text \<open>
  The serialization templates of \<open>serialize.h\<close>.  Writing an object appends bytes to a stream, so a
  writer is a function to byte lists; reading consumes the front of the stream or throws
  \<open>std::ios_base::failure\<close>, so a reader is a function from the unread bytes to an error or to the
  object and the bytes left.  Templates over an element type take the element's writer and reader as
  arguments.  The locale \<open>codec\<close> is the contract between a writer and its reader; vectors, pairs,
  tuples and maps of codecs are proved to be codecs once, inside it, and the codecs of the message
  types are interpretations.
\<close>

section \<open>Streams\<close>

datatype stream_error = EndOfData | SizeTooLarge

type_synonym 'a reader = "byte list \<Rightarrow> stream_error + 'a \<times> byte list"

definition MAX_SIZE :: u64 where "MAX_SIZE = 0x02000000"

definition rbind :: "'a reader \<Rightarrow> ('a \<Rightarrow> 'b reader) \<Rightarrow> 'b reader" where
  "rbind m f bs = (case m bs of Inl e \<Rightarrow> Inl e | Inr (x, rest) \<Rightarrow> f x rest)"

definition rreturn :: "'a \<Rightarrow> 'a reader" where
  "rreturn x bs = Inr (x, bs)"

definition rthrow :: "stream_error \<Rightarrow> 'a reader" where
  "rthrow e bs = Inl e"

definition read_bytes :: "nat \<Rightarrow> byte list reader" where
  "read_bytes n bs = (if n \<le> length bs then Inr (take n bs, drop n bs) else Inl EndOfData)"

lemma rbind_cong [fundef_cong]:
  "m bs = m' bs' \<Longrightarrow> (\<And>x rest. m' bs' = Inr (x, rest) \<Longrightarrow> f x rest = g x rest) \<Longrightarrow>
   rbind m f bs = rbind m' g bs'"
  by (auto simp: rbind_def split: sum.splits)

section \<open>Fundamental types\<close>

text \<open>\<open>WRITEDATA\<close> and \<open>READDATA\<close> copy the object's memory.\<close>

definition ser_int :: "'a::len word \<Rightarrow> byte list" where
  "ser_int a = le_bytes (LENGTH('a) div 8) (unat a)"

definition unser_int :: "'a::len word reader" where
  "unser_int = rbind (read_bytes (LENGTH('a) div 8)) (\<lambda>b. rreturn (word_of_nat (le_val b)))"

definition size_int :: "'a::len word \<Rightarrow> u32" where
  "size_int a = word_of_nat (LENGTH('a) div 8)"

definition ser_bool :: "bool \<Rightarrow> byte list" where
  "ser_bool a = (let f = (if a then 1 else 0 :: byte) in ser_int f)"

definition unser_bool :: "bool reader" where
  "unser_bool = rbind unser_int (\<lambda>f :: byte. rreturn (f \<noteq> 0))"

text \<open>\<open>FLATDATA\<close>: the bytes of an array.\<close>

definition ser_flat :: "byte list \<Rightarrow> byte list" where
  "ser_flat b = b"

definition unser_flat :: "nat \<Rightarrow> byte list reader" where
  "unser_flat n = read_bytes n"

section \<open>Compact size\<close>

definition GetSizeOfCompactSize :: "u64 \<Rightarrow> u32" where
  "GetSizeOfCompactSize nSize =
     (if nSize < 253 then 1 else if nSize \<le> 0xffff then 1 + 2
      else if nSize \<le> 0xffffffff then 1 + 4 else 1 + 8)"

definition WriteCompactSize :: "u64 \<Rightarrow> byte list" where
  "WriteCompactSize nSize =
     (if nSize < 253 then (let chSize = ucast nSize :: byte in ser_int chSize)
      else if nSize \<le> 0xffff then
        (let chSize = 253 :: byte; xSize = ucast nSize :: u16 in ser_int chSize @ ser_int xSize)
      else if nSize \<le> 0xffffffff then
        (let chSize = 254 :: byte; xSize = ucast nSize :: u32 in ser_int chSize @ ser_int xSize)
      else (let chSize = 255 :: byte; xSize = nSize in ser_int chSize @ ser_int xSize))"

definition ReadCompactSize :: "u64 reader" where
  "ReadCompactSize =
     rbind unser_int (\<lambda>chSize :: byte.
     rbind (if chSize < 253 then rreturn (ucast chSize)
            else if chSize = 253 then rbind unser_int (\<lambda>xSize :: u16. rreturn (ucast xSize))
            else if chSize = 254 then rbind unser_int (\<lambda>xSize :: u32. rreturn (ucast xSize))
            else rbind unser_int (\<lambda>xSize :: u64. rreturn xSize)) (\<lambda>nSizeRet.
     if nSizeRet > MAX_SIZE then rthrow SizeTooLarge else rreturn nSizeRet))"

section \<open>Variable-length integers\<close>

lemma varint_big:
  assumes "\<not> n \<le> (0x7F :: 'a::len word)"
  shows "127 < unat n \<and> unat (drop_bit 7 n - 1) = unat n div 128 - 1"
proof -
  have l: "8 \<le> LENGTH('a)"
  proof (rule ccontr)
    assume "\<not> 8 \<le> LENGTH('a)"
    then have "LENGTH('a) \<le> 7" by simp
    then have "(2::nat) ^ LENGTH('a) dvd 2 ^ 7" by (rule le_imp_power_dvd)
    then have "(word_of_nat 128 :: 'a word) = 0"
      by (simp only: word_of_nat_eq_0_iff) simp
    then have "(0x7F :: 'a word) + 1 = 0"
      by simp
    then have "(0x7F :: 'a word) = - 1"
      by (simp only: eq_neg_iff_add_eq_0)
    then show False using assms by (metis word_order.extremum)
  qed
  have "unat (0x7F :: 'a word) = take_bit LENGTH('a) 127"
    by (simp add: unsigned_numeral)
  also have "\<dots> = 127"
  proof -
    have "(2::nat) ^ 8 \<le> 2 ^ LENGTH('a)" using l by (rule power_increasing) simp
    then show ?thesis by (simp add: take_bit_nat_eq_self_iff)
  qed
  finally have n: "127 < unat n"
    using assms by (simp add: word_le_nat_alt not_le)
  then have d: "unat (drop_bit 7 n) = unat n div 128" "1 \<le> unat n div 128"
    by (simp_all add: unat_drop_bit_eq drop_bit_eq_div [where ?'a = nat])
  then have "unat (drop_bit 7 n - 1) = unat n div 128 - 1"
    by (subst unat_sub) (simp_all add: word_le_nat_alt)
  with n show ?thesis by simp
qed

lemma varint_decreases: "\<not> n \<le> (0x7F :: 'a::len word) \<Longrightarrow> unat (drop_bit 7 n - 1) < unat n"
  using varint_big [of n] by auto

function size_varint_loop :: "'a::len word \<Rightarrow> nat \<Rightarrow> nat" where
  "size_varint_loop n nRet =
     (let nRet = nRet + 1
      in if n \<le> 0x7F then nRet else size_varint_loop (drop_bit 7 n - 1) nRet)"
  by auto
termination
  by (relation "measure (\<lambda>(n, nRet). unat n)") (simp_all add: varint_decreases)

definition GetSizeOfVarInt :: "'a::len word \<Rightarrow> nat" where
  "GetSizeOfVarInt n = size_varint_loop n 0"

text \<open>The digits in the order they enter the buffer \<open>tmp\<close>, least significant first.\<close>

function varint_tmp :: "'a::len word \<Rightarrow> nat \<Rightarrow> byte list" where
  "varint_tmp n len =
     (let d = ucast (n AND 0x7F) OR (if len \<noteq> 0 then 0x80 else 0x00) :: byte
      in if n \<le> 0x7F then [d] else d # varint_tmp (drop_bit 7 n - 1) (len + 1))"
  by auto
termination
  by (relation "measure (\<lambda>(n, len). unat n)") (simp_all add: varint_decreases)

declare size_varint_loop.simps [simp del] varint_tmp.simps [simp del]

definition WriteVarInt :: "'a::len word \<Rightarrow> byte list" where
  "WriteVarInt n = (let tmp = varint_tmp n 0 in rev tmp)"

fun read_varint_loop :: "'a::len word \<Rightarrow> 'a word reader" where
  "read_varint_loop n [] = Inl EndOfData"
| "read_varint_loop n (chData # rest) =
     (let n = push_bit 7 n OR ucast (chData AND 0x7F)
      in if chData AND 0x80 \<noteq> 0 then read_varint_loop (n + 1) rest else Inr (n, rest))"

definition ReadVarInt :: "'a::len word reader" where
  "ReadVarInt = read_varint_loop 0"

section \<open>Strings, vectors, pairs, tuples, maps and sets\<close>

definition size_list_as :: "('a \<Rightarrow> u32) \<Rightarrow> 'a list \<Rightarrow> u32" where
  "size_list_as size1 v = foldl (\<lambda>nSize x. nSize + size1 x) (GetSizeOfCompactSize (word_of_nat (length v))) v"

definition ser_string :: "byte list \<Rightarrow> byte list" where
  "ser_string str = WriteCompactSize (word_of_nat (length str)) @ (if str \<noteq> [] then str else [])"

definition unser_string :: "byte list reader" where
  "unser_string =
     rbind ReadCompactSize (\<lambda>nSize.
     if nSize \<noteq> 0 then read_bytes (unat nSize) else rreturn [])"

definition size_string :: "byte list \<Rightarrow> u32" where
  "size_string str = GetSizeOfCompactSize (word_of_nat (length str)) + word_of_nat (length str)"

text \<open>Vectors of bytes: one write, and reads of at most 5000000 bytes each.\<close>

definition ser_vch :: "byte list \<Rightarrow> byte list" where
  "ser_vch v = WriteCompactSize (word_of_nat (length v)) @ (if v \<noteq> [] then v else [])"

function vch_blocks :: "nat \<Rightarrow> byte list \<Rightarrow> byte list reader" where
  "vch_blocks nSize v bs =
     (if length v < nSize then
        (let blk = min (nSize - length v) (1 + 4999999)
         in rbind (read_bytes blk) (\<lambda>b. vch_blocks nSize (v @ b)) bs)
      else Inr (v, bs))"
  by auto
termination
  by (relation "measure (\<lambda>(nSize, v, bs). nSize - length v)")
    (auto simp: rbind_def read_bytes_def split: if_splits)

definition unser_vch :: "byte list reader" where
  "unser_vch = rbind ReadCompactSize (\<lambda>nSize. vch_blocks (unat nSize) [])"

definition size_vch :: "byte list \<Rightarrow> u32" where
  "size_vch v = GetSizeOfCompactSize (word_of_nat (length v)) + word_of_nat (length v)"

text \<open>Vectors of objects: element by element.\<close>

definition ser_vector :: "('a \<Rightarrow> byte list) \<Rightarrow> 'a list \<Rightarrow> byte list" where
  "ser_vector ser1 v = WriteCompactSize (word_of_nat (length v)) @ concat (map ser1 v)"

fun read_times :: "'a reader \<Rightarrow> nat \<Rightarrow> 'a list reader" where
  "read_times get 0 = rreturn []"
| "read_times get (Suc n) = rbind get (\<lambda>x. rbind (read_times get n) (\<lambda>xs. rreturn (x # xs)))"

text \<open>\<open>Unserialize_impl\<close> grows the vector by blocks of \<open>5000000 / sizeof(T)\<close> elements and reads each
  element of the block.  Every element type of the program is smaller than 5000000 bytes, so a block
  has at least one element; \<open>blk\<close> is the block length less one.\<close>

function vector_blocks :: "nat \<Rightarrow> 'a reader \<Rightarrow> nat \<Rightarrow> nat \<Rightarrow> 'a list reader" where
  "vector_blocks blk get nSize nMid bs =
     (if nMid < nSize then
        (let i = nMid; nMid = nMid + Suc blk; nMid = (if nMid > nSize then nSize else nMid)
         in rbind (read_times get (nMid - i)) (\<lambda>xs.
            rbind (vector_blocks blk get nSize nMid) (\<lambda>ys. rreturn (xs @ ys))) bs)
      else Inr ([], bs))"
  by auto
termination
  by (relation "measure (\<lambda>(blk, get, nSize, nMid, bs). nSize - nMid)") auto

declare vch_blocks.simps [simp del] vector_blocks.simps [simp del]

definition unser_vector :: "nat \<Rightarrow> 'a reader \<Rightarrow> 'a list reader" where
  "unser_vector sizeof_T get =
     rbind ReadCompactSize (\<lambda>nSize. vector_blocks (5000000 div sizeof_T - 1) get (unat nSize) 0)"

definition size_vector :: "('a \<Rightarrow> u32) \<Rightarrow> 'a list \<Rightarrow> u32" where
  "size_vector size1 v = size_list_as size1 v"

definition ser_pair :: "('a \<Rightarrow> byte list) \<Rightarrow> ('b \<Rightarrow> byte list) \<Rightarrow> 'a \<times> 'b \<Rightarrow> byte list" where
  "ser_pair sa sb item = sa (fst item) @ sb (snd item)"

definition unser_pair :: "'a reader \<Rightarrow> 'b reader \<Rightarrow> ('a \<times> 'b) reader" where
  "unser_pair ga gb = rbind ga (\<lambda>a. rbind gb (\<lambda>b. rreturn (a, b)))"

definition size_pair :: "('a \<Rightarrow> u32) \<Rightarrow> ('b \<Rightarrow> u32) \<Rightarrow> 'a \<times> 'b \<Rightarrow> u32" where
  "size_pair za zb item = za (fst item) + zb (snd item)"

definition ser_tuple3 ::
  "('a \<Rightarrow> byte list) \<Rightarrow> ('b \<Rightarrow> byte list) \<Rightarrow> ('c \<Rightarrow> byte list) \<Rightarrow> 'a \<times> 'b \<times> 'c \<Rightarrow> byte list" where
  "ser_tuple3 sa sb sc item = (case item of (a, b, c) \<Rightarrow> sa a @ sb b @ sc c)"

definition unser_tuple3 :: "'a reader \<Rightarrow> 'b reader \<Rightarrow> 'c reader \<Rightarrow> ('a \<times> 'b \<times> 'c) reader" where
  "unser_tuple3 ga gb gc =
     rbind ga (\<lambda>a. rbind gb (\<lambda>b. rbind gc (\<lambda>c. rreturn (a, b, c))))"

definition ser_tuple4 ::
  "('a \<Rightarrow> byte list) \<Rightarrow> ('b \<Rightarrow> byte list) \<Rightarrow> ('c \<Rightarrow> byte list) \<Rightarrow> ('d \<Rightarrow> byte list) \<Rightarrow>
   'a \<times> 'b \<times> 'c \<times> 'd \<Rightarrow> byte list" where
  "ser_tuple4 sa sb sc sd item = (case item of (a, b, c, d) \<Rightarrow> sa a @ sb b @ sc c @ sd d)"

definition unser_tuple4 ::
  "'a reader \<Rightarrow> 'b reader \<Rightarrow> 'c reader \<Rightarrow> 'd reader \<Rightarrow> ('a \<times> 'b \<times> 'c \<times> 'd) reader" where
  "unser_tuple4 ga gb gc gd =
     rbind ga (\<lambda>a. rbind gb (\<lambda>b. rbind gc (\<lambda>c. rbind gd (\<lambda>d. rreturn (a, b, c, d)))))"

text \<open>Maps and sets are written in key order; reading inserts the entries one by one into an
  initially empty container, and the first entry of a key stays.\<close>

definition ser_map :: "('k \<Rightarrow> byte list) \<Rightarrow> ('v \<Rightarrow> byte list) \<Rightarrow> ('k \<times> 'v) list \<Rightarrow> byte list" where
  "ser_map sk sv m = WriteCompactSize (word_of_nat (length m)) @ concat (map (ser_pair sk sv) m)"

fun read_map_entries ::
  "'k::linorder reader \<Rightarrow> 'v reader \<Rightarrow> nat \<Rightarrow> ('k \<times> 'v) list \<Rightarrow> ('k \<times> 'v) list reader" where
  "read_map_entries gk gv 0 m = rreturn m"
| "read_map_entries gk gv (Suc n) m =
     rbind (unser_pair gk gv) (\<lambda>item. read_map_entries gk gv n (om_insert m (fst item) (snd item)))"

definition unser_map :: "'k::linorder reader \<Rightarrow> 'v reader \<Rightarrow> ('k \<times> 'v) list reader" where
  "unser_map gk gv = rbind ReadCompactSize (\<lambda>nSize. read_map_entries gk gv (unat nSize) [])"

definition size_map :: "('k \<Rightarrow> u32) \<Rightarrow> ('v \<Rightarrow> u32) \<Rightarrow> ('k \<times> 'v) list \<Rightarrow> u32" where
  "size_map zk zv m = size_list_as (size_pair zk zv) m"

definition ser_set :: "('k \<Rightarrow> byte list) \<Rightarrow> 'k list \<Rightarrow> byte list" where
  "ser_set sk m = WriteCompactSize (word_of_nat (length m)) @ concat (map sk m)"

fun read_set_entries :: "'k::linorder reader \<Rightarrow> nat \<Rightarrow> 'k list \<Rightarrow> 'k list reader" where
  "read_set_entries gk 0 m = rreturn m"
| "read_set_entries gk (Suc n) m =
     rbind gk (\<lambda>key. read_set_entries gk n (if key \<in> set m then m else insort key m))"

definition unser_set :: "'k::linorder reader \<Rightarrow> 'k list reader" where
  "unser_set gk = rbind ReadCompactSize (\<lambda>nSize. read_set_entries gk (unat nSize) [])"

section \<open>Readers\<close>

text \<open>A reader decides on the bytes it has seen: more bytes at the end do not change a successful read.\<close>

locale stream_reader =
  fixes get :: "'a reader"
  assumes extend: "get bs = Inr (x, rest) \<Longrightarrow> get (bs @ more) = Inr (x, rest @ more)"

lemma reader_return [intro, simp]: "stream_reader (rreturn x)"
  by unfold_locales (simp add: rreturn_def)

lemma reader_throw [intro, simp]: "stream_reader (rthrow e)"
  by unfold_locales (simp add: rthrow_def)

lemma reader_bytes [intro, simp]: "stream_reader (read_bytes n)"
  by unfold_locales (auto simp: read_bytes_def split: if_splits)

lemma reader_bind [intro]:
  assumes "stream_reader m" and "\<And>x. stream_reader (f x)"
  shows "stream_reader (rbind m f)"
proof
  fix bs y rest more
  assume "rbind m f bs = Inr (y, rest)"
  then obtain x r where "m bs = Inr (x, r)" "f x r = Inr (y, rest)"
    by (auto simp: rbind_def split: sum.splits)
  then show "rbind m f (bs @ more) = Inr (y, rest @ more)"
    using stream_reader.extend [OF assms(1)] stream_reader.extend [OF assms(2)]
    by (simp add: rbind_def)
qed

lemma reader_if [intro]: "stream_reader a \<Longrightarrow> stream_reader b \<Longrightarrow> stream_reader (if c then a else b)"
  by simp

lemma reader_int [intro, simp]: "stream_reader unser_int"
  unfolding unser_int_def by (intro reader_bind) auto

lemma reader_bool [intro, simp]: "stream_reader unser_bool"
  unfolding unser_bool_def by (intro reader_bind) auto

lemma reader_compact [intro, simp]: "stream_reader ReadCompactSize"
  unfolding ReadCompactSize_def by (intro reader_bind reader_if) auto

lemma reader_varint [intro, simp]: "stream_reader ReadVarInt"
proof -
  have "read_varint_loop n bs = Inr (x, rest) \<Longrightarrow> read_varint_loop n (bs @ more) = Inr (x, rest @ more)"
    for n x :: "'a word" and bs rest more
    by (induction n bs rule: read_varint_loop.induct) (auto simp: Let_def split: if_splits)
  then show ?thesis by unfold_locales (simp add: ReadVarInt_def)
qed

lemma reader_times [intro]: "stream_reader get \<Longrightarrow> stream_reader (read_times get n)"
  by (induction n) (auto intro!: reader_bind)

lemma reader_pair [intro]: "stream_reader ga \<Longrightarrow> stream_reader gb \<Longrightarrow> stream_reader (unser_pair ga gb)"
  unfolding unser_pair_def by (intro reader_bind) auto

section \<open>Blocks do not matter\<close>

lemma rbind_return [simp]: "rbind (rreturn x) f = f x"
  by (simp add: rbind_def rreturn_def fun_eq_iff)

lemma rbind_assoc: "rbind (rbind m f) g = rbind m (\<lambda>x. rbind (f x) g)"
  by (auto simp: rbind_def fun_eq_iff split: sum.splits)

lemma rbind_rreturn [simp]: "rbind m rreturn = m"
  by (auto simp: rbind_def rreturn_def fun_eq_iff split: sum.splits)

lemma rbind_ext: "(\<And>x. f x = g x) \<Longrightarrow> rbind m f = rbind m g"
  by (auto simp: rbind_def fun_eq_iff split: sum.splits)

lemma vch_blocks_read:
  "vch_blocks n v bs = rbind (read_bytes (n - length v)) (\<lambda>b. rreturn (v @ b)) bs"
proof (induction n v bs rule: vch_blocks.induct)
  case (1 n v bs)
  show ?case
  proof (cases "length v < n")
    case False
    then show ?thesis
      by (subst vch_blocks.simps) (simp add: rbind_def read_bytes_def rreturn_def)
  next
    case True
    define blk where "blk = min (n - length v) (1 + 4999999)"
    have IH: "vch_blocks n (v @ b) r = rbind (read_bytes (n - length (v @ b))) (\<lambda>b'. rreturn ((v @ b) @ b')) r"
      if "read_bytes blk bs = Inr (b, r)" for b r
      using 1 [OF True blk_def] that by simp
    have blk: "blk \<le> n - length v" by (simp add: blk_def)
    then obtain k where k: "n - length v = blk + k" using le_Suc_ex by blast
    have step: "vch_blocks n v bs = rbind (read_bytes blk) (\<lambda>b. vch_blocks n (v @ b)) bs"
      using True by (subst vch_blocks.simps) (simp add: blk_def Let_def)
    show ?thesis
    proof (cases "blk \<le> length bs")
      case False
      then show ?thesis
        using blk by (simp add: step rbind_def read_bytes_def)
    next
      case le: True
      have r: "read_bytes blk bs = Inr (take blk bs, drop blk bs)"
        using le by (simp add: read_bytes_def)
      have "vch_blocks n v bs = vch_blocks n (v @ take blk bs) (drop blk bs)"
        by (simp add: step rbind_def r)
      also have "\<dots> = rbind (read_bytes k) (\<lambda>b'. rreturn (v @ take blk bs @ b')) (drop blk bs)"
        using IH [OF r] le k by (simp add: diff_diff_add [symmetric])
      also have "\<dots> = rbind (read_bytes (blk + k)) (\<lambda>b. rreturn (v @ b)) bs"
        using le by (auto simp: rbind_def read_bytes_def rreturn_def take_add add.commute)
      finally show ?thesis by (simp only: k)
    qed
  qed
qed

lemma read_times_add:
  "read_times get (m + n) = rbind (read_times get m) (\<lambda>xs. rbind (read_times get n) (\<lambda>ys. rreturn (xs @ ys)))"
  by (induction m) (simp_all add: rbind_assoc)

lemma vector_blocks_read: "vector_blocks blk get n mid = read_times get (n - mid)"
proof (induction "n - mid" arbitrary: mid rule: less_induct)
  case less
  show ?case
  proof (cases "mid < n")
    case False
    then show ?thesis
      by (subst vector_blocks.simps [abs_def]) (simp add: rreturn_def fun_eq_iff)
  next
    case True
    define mid' where "mid' = (if mid + Suc blk > n then n else mid + Suc blk)"
    have "vector_blocks blk get n mid =
        rbind (read_times get (mid' - mid)) (\<lambda>xs. rbind (vector_blocks blk get n mid') (\<lambda>ys. rreturn (xs @ ys)))"
      using True by (subst vector_blocks.simps [abs_def]) (simp add: mid'_def Let_def fun_eq_iff)
    also have "vector_blocks blk get n mid' = read_times get (n - mid')"
      using True by (intro less) (auto simp: mid'_def)
    also have "rbind (read_times get (mid' - mid)) (\<lambda>xs. rbind (read_times get (n - mid')) (\<lambda>ys. rreturn (xs @ ys))) =
        read_times get ((mid' - mid) + (n - mid'))"
      by (simp only: read_times_add)
    also have "(mid' - mid) + (n - mid') = n - mid"
      using True by (auto simp: mid'_def)
    finally show ?thesis .
  qed
qed

lemma reader_vch [intro, simp]: "stream_reader unser_vch"
proof -
  have "stream_reader (vch_blocks n [])" for n
  proof -
    have "vch_blocks n [] = rbind (read_bytes n) (\<lambda>b. rreturn ([] @ b))"
      by (rule ext) (simp only: vch_blocks_read, simp)
    then show ?thesis by auto
  qed
  then show ?thesis
    unfolding unser_vch_def by (intro reader_bind) auto
qed

lemma reader_string [intro, simp]: "stream_reader unser_string"
  unfolding unser_string_def by (intro reader_bind reader_if) auto

lemma reader_vector [intro]: "stream_reader get \<Longrightarrow> stream_reader (unser_vector sz get)"
  unfolding unser_vector_def vector_blocks_read by (intro reader_bind) auto

section \<open>Codecs\<close>

text \<open>
  The contract between a writer and its reader: whatever follows in the stream, the reader returns the
  object written and leaves what follows.
\<close>

locale codec = stream_reader get for get :: "'a reader" +
  fixes ser :: "'a \<Rightarrow> byte list" and ok :: "'a \<Rightarrow> bool"
  assumes get_ser: "ok x \<Longrightarrow> get (ser x @ rest) = Inr (x, rest)"
begin

lemma get_ser_all: "ok x \<Longrightarrow> get (ser x) = Inr (x, [])"
  using get_ser [of x "[]"] by simp

text \<open>Codes are prefix free.\<close>

lemma ser_prefix_free: "ok x \<Longrightarrow> ok y \<Longrightarrow> ser x @ r = ser y @ s \<Longrightarrow> x = y \<and> r = s"
  using get_ser by (metis Inr_inject prod.inject)

text \<open>A message cut short is an error, never another object.\<close>

lemma truncated:
  assumes "ok x" and "k < length (ser x)"
  shows "\<exists>e. get (take k (ser x)) = Inl e"
proof (cases "get (take k (ser x))")
  case (Inr a)
  then obtain y r where "get (take k (ser x)) = Inr (y, r)" by (cases a) auto
  then have "get (take k (ser x) @ drop k (ser x)) = Inr (y, r @ drop k (ser x))"
    by (rule extend)
  then have "r @ drop k (ser x) = []"
    using get_ser_all [OF assms(1)] by (metis Inr_inject append_take_drop_id prod.inject)
  then show ?thesis using assms(2) by (metis append_is_Nil_conv drop_eq_Nil not_less)
qed blast

lemma read_times_ser:
  "list_all ok xs \<Longrightarrow> read_times get (length xs) (concat (map ser xs) @ rest) = Inr (xs, rest)"
  by (induction xs) (simp_all add: rreturn_def rbind_def get_ser)

end

locale codec_pair = a: codec ga sa oka + b: codec gb sb okb
  for ga :: "'a reader" and sa oka and gb :: "'b reader" and sb okb
begin

lemma pair_codec: "codec (unser_pair ga gb) (ser_pair sa sb) (\<lambda>p. oka (fst p) \<and> okb (snd p))"
  by (intro codec.intro codec_axioms.intro reader_pair a.stream_reader_axioms b.stream_reader_axioms)
    (auto simp: unser_pair_def ser_pair_def rbind_def rreturn_def a.get_ser b.get_ser)

end

section \<open>The codecs of the program\<close>

lemma le_val_ser_int: "8 dvd LENGTH('a) \<Longrightarrow> le_val (ser_int (a :: 'a::len word)) = unat a"
proof -
  assume "8 dvd LENGTH('a)"
  then have "(256 :: nat) ^ (LENGTH('a) div 8) = 2 ^ LENGTH('a)"
    by (auto simp: dvd_def power_mult)
  then show ?thesis
    unfolding ser_int_def by (intro le_val_le_bytes) (simp add: unsigned_less)
qed

lemma length_ser_int [simp]: "length (ser_int (a :: 'a::len word)) = LENGTH('a) div 8"
  by (simp add: ser_int_def)

lemma unser_ser_int [codec_simps]:
  "8 dvd LENGTH('a) \<Longrightarrow> unser_int (ser_int (a :: 'a::len word) @ rest) = Inr (a, rest)"
  by (simp add: unser_int_def rbind_def rreturn_def read_bytes_def le_val_ser_int)

interpretation int_codec: codec unser_int ser_int "\<lambda>a :: 'a::len word. 8 dvd LENGTH('a)"
  by (intro codec.intro codec_axioms.intro reader_int unser_ser_int)

interpretation bool_codec: codec unser_bool ser_bool "\<lambda>a. True"
  by (intro codec.intro codec_axioms.intro reader_bool)
    (simp add: unser_bool_def ser_bool_def Let_def rbind_def rreturn_def unser_ser_int)

text \<open>Compact sizes.\<close>

lemma ReadWriteCompactSize [codec_simps]:
  assumes "n \<le> MAX_SIZE"
  shows "ReadCompactSize (WriteCompactSize n @ rest) = Inr (n, rest)"
proof -
  have n: "n \<le> 0x02000000" using assms by (simp add: MAX_SIZE_def)
  have u: "unat n \<le> 0x02000000" using n by (simp add: word_le_nat_alt)
  have m: "\<not> MAX_SIZE < n" using assms by simp
  consider "n < 253" | "253 \<le> n" "n \<le> 0xffff" | "0xffff < n" by fastforce
  then show ?thesis
  proof cases
    case 1
    then have "unat n < 253" by (simp add: word_less_nat_alt)
    then have "(ucast n :: byte) < 253" "ucast (ucast n :: byte) = n"
      by (simp_all add: word_less_nat_alt word_unat_eq_iff unat_ucast_small)
    with 1 m show ?thesis
      by (simp add: ReadCompactSize_def WriteCompactSize_def rbind_def unser_ser_int rreturn_def)
  next
    case 2
    then have "unat n < 65536" by (simp add: word_le_nat_alt)
    then have "ucast (ucast n :: u16) = n" by (simp add: word_unat_eq_iff unat_ucast_small)
    moreover have "\<not> n < 253" using 2 by simp
    ultimately show ?thesis using 2 m
      by (simp add: ReadCompactSize_def WriteCompactSize_def rbind_def unser_ser_int rreturn_def)
  next
    case 3
    have "ucast (ucast n :: u32) = n" using u by (simp add: word_unat_eq_iff unat_ucast_small)
    moreover have "n \<le> 0xffffffff" "\<not> n < 253" "\<not> n \<le> 0xffff" using 3 n by (auto simp: word_le_nat_alt word_less_nat_alt)
    ultimately show ?thesis using 3 m
      by (simp add: ReadCompactSize_def WriteCompactSize_def rbind_def unser_ser_int rreturn_def)
  qed
qed

interpretation compact: codec ReadCompactSize WriteCompactSize "\<lambda>n. n \<le> MAX_SIZE"
  by (intro codec.intro codec_axioms.intro reader_compact ReadWriteCompactSize)

text \<open>Variable-length integers.\<close>

lemma varint_digit_low: "ucast ((ucast (n AND 0x7F) OR (if c then 0x80 else 0x00) :: byte) AND 0x7F) = (n AND 0x7F :: 'a::len word)"
  unfolding and_7F b80
  by (rule bit_word_eqI)
    (auto simp: bit_take_bit_iff bit_or_iff bit_unsigned_iff bit_80 simp del: push_bit_of_1)

lemma varint_digit_high:
  "(ucast (n AND 0x7F :: 'a::len word) OR (if c then 0x80 else 0x00) :: byte) AND 0x80 \<noteq> 0 \<longleftrightarrow> c"
  unfolding and_80 and_7F unfolding b80
  by (simp add: bit_or_iff bit_unsigned_iff bit_take_bit_iff bit_80 del: push_bit_of_1)

lemma varint_join: "push_bit 7 (drop_bit 7 n) OR (n AND 0x7F) = (n :: 'a::len word)"
  unfolding and_7F using take_drop_bit_or [of 7 n] by (simp only: or.commute)

lemma small_and_7F: "n \<le> 0x7F \<Longrightarrow> n AND 0x7F = (n :: 'a::len word)"
proof -
  assume "n \<le> 0x7F"
  then have "unat n \<le> unat (0x7F :: 'a word)" by (simp only: word_le_nat_alt)
  also have "\<dots> \<le> 127" unfolding unsigned_numeral of_nat_id by (rule take_bit_nat_less_eq_self)
  finally have "unat n < 2 ^ 7" by simp
  then have "take_bit 7 (unat n) = unat n" by (simp add: take_bit_nat_eq_self)
  then show ?thesis
    by (simp only: and_7F word_unat_eq_iff unsigned_take_bit_eq)
qed

lemma read_varint_digits:
  "read_varint_loop 0 (rev (varint_tmp n len) @ rest) =
    (if len \<noteq> 0 then read_varint_loop (n + 1) rest else Inr (n, rest))"
proof (induction n len arbitrary: rest rule: varint_tmp.induct)
  case (1 n len)
  let ?d = "ucast (n AND 0x7F) OR (if len \<noteq> 0 then 0x80 else 0x00) :: byte"
  show ?case
  proof (cases "n \<le> 0x7F")
    case True
    then have "varint_tmp n len = [?d]" by (subst varint_tmp.simps) (simp add: Let_def)
    then show ?thesis
      using varint_digit_high [of n "len \<noteq> 0"] varint_digit_low [of n "len \<noteq> 0"]
        small_and_7F [OF True] by (simp add: Let_def)
  next
    case False
    then have t: "varint_tmp n len = ?d # varint_tmp (drop_bit 7 n - 1) (len + 1)"
      by (subst varint_tmp.simps) (simp add: Let_def)
    have "read_varint_loop 0 (rev (varint_tmp n len) @ rest) = read_varint_loop (drop_bit 7 n) (?d # rest)"
      using 1 [OF refl False, of "?d # rest"] by (simp add: t)
    also have "\<dots> = (if len \<noteq> 0 then read_varint_loop (n + 1) rest else Inr (n, rest))"
      unfolding read_varint_loop.simps(2) Let_def varint_digit_low varint_join varint_digit_high by simp
    finally show ?thesis .
  qed
qed

lemma ReadWriteVarInt [codec_simps]: "ReadVarInt (WriteVarInt n @ rest) = Inr (n, rest)"
  using read_varint_digits [of n 0 rest] by (simp add: ReadVarInt_def WriteVarInt_def)

interpretation varint: codec ReadVarInt WriteVarInt "\<lambda>n. True"
  by (intro codec.intro codec_axioms.intro reader_varint ReadWriteVarInt)

lemma size_varint_tmp: "size_varint_loop n k = k + length (varint_tmp n len)"
proof (induction n len arbitrary: k rule: varint_tmp.induct)
  case (1 n len)
  then show ?case
    by (subst size_varint_loop.simps, subst varint_tmp.simps) (simp add: Let_def)
qed

lemma varint_tmp_bound: "unat n < 2 ^ m \<Longrightarrow> 0 < m \<Longrightarrow> length (varint_tmp n len) \<le> (m + 6) div 7"
proof (induction n len arbitrary: m rule: varint_tmp.induct)
  case (1 n len)
  show ?case
  proof (cases "n \<le> 0x7F")
    case True
    then show ?thesis using 1 by (subst varint_tmp.simps) (simp add: Let_def)
  next
    case False
    have n: "127 < unat n" and u: "unat (drop_bit 7 n - 1) = unat n div 128 - 1"
      using varint_big [OF False] by auto
    have m: "8 \<le> m"
    proof (rule ccontr)
      assume "\<not> 8 \<le> m"
      then have "(2::nat) ^ m \<le> 2 ^ 7" by (intro power_increasing) auto
      then show False using "1.prems" n by simp
    qed
    then have "(2::nat) ^ m = 128 * 2 ^ (m - 7)"
      using power_add [of "2::nat" 7 "m - 7"] by simp
    then have "unat n div 128 < 2 ^ (m - 7)"
      using "1.prems" by (simp add: div_less_iff_less_mult ac_simps)
    then have "unat (drop_bit 7 n - 1) < 2 ^ (m - 7)"
      using u by simp
    then have "length (varint_tmp (drop_bit 7 n - 1) (len + 1)) \<le> (m - 7 + 6) div 7"
      using m by (intro "1.IH" [OF refl False]) auto
    moreover have "(m + 6) div 7 = Suc ((m - 7 + 6) div 7)"
      using m by simp
    ultimately show ?thesis
      using False by (subst varint_tmp.simps) (simp add: Let_def)
  qed
qed

text \<open>C37: Variable-length integers read back as written, take \<open>GetSizeOfVarInt\<close> bytes, never more
  than the \<open>(sizeof(n)*8+6)/7\<close> bytes of the buffer \<open>WriteVarInt\<close> fills, and every cut of the
  code is an error.\<close>

theorem varint_roundtrip:
  fixes n :: "'a::len word"
  shows "ReadVarInt (WriteVarInt n @ rest) = Inr (n, rest) \<and>
    length (WriteVarInt n) = GetSizeOfVarInt n \<and>
    GetSizeOfVarInt n \<le> (LENGTH('a) + 6) div 7 \<and>
    (length (WriteVarInt n) \<le> k \<or> (\<exists>e. ReadVarInt (take k (WriteVarInt n)) = (Inl e :: _ + 'a word \<times> _)))"
proof -
  have "length (WriteVarInt n) = GetSizeOfVarInt n"
    using size_varint_tmp [of n 0 0] by (simp add: GetSizeOfVarInt_def WriteVarInt_def)
  moreover have "length (WriteVarInt n) \<le> (LENGTH('a) + 6) div 7"
    using varint_tmp_bound [of n "LENGTH('a)" 0] unsigned_less [of n] by (simp add: WriteVarInt_def)
  ultimately show ?thesis
    using varint.truncated [of k n] by (cases "length (WriteVarInt n) \<le> k") (auto simp: ReadWriteVarInt)
qed

text \<open>The examples of the comment above the variable-length integers: 16511 and 65535 have other
  codes than the comment lists, and the byte sequences listed there are the codes of 32895 and 65407.\<close>

theorem varint_examples:
  "WriteVarInt (16511 :: u32) = [0xFF, 0x7F] \<and> WriteVarInt (65535 :: u32) = [0x82, 0xFE, 0x7F] \<and>
   ReadVarInt [0x80, 0xFF, 0x7F] = Inr (32895 :: u32, []) \<and>
   ReadVarInt [0x82, 0xFD, 0x7F] = Inr (65407 :: u32, [])"
  by code_simp

text \<open>Byte vectors and strings.\<close>

abbreviation fits_size :: "'a list \<Rightarrow> bool" where
  "fits_size v \<equiv> length v \<le> 0x02000000"

lemma size_word:
  "fits_size v \<Longrightarrow> unat (word_of_nat (length v) :: u64) = length v \<and> word_of_nat (length v) \<le> MAX_SIZE"
  by (simp add: unat_of_nat word_le_nat_alt MAX_SIZE_def)

lemma read_size [codec_simps]:
  "fits_size v \<Longrightarrow> ReadCompactSize (WriteCompactSize (word_of_nat (length v)) @ rest) = Inr (word_of_nat (length v), rest)"
  by (simp add: ReadWriteCompactSize size_word)

lemma read_bytes_append [simp]: "n = length b \<Longrightarrow> read_bytes n (b @ rest) = Inr (b, rest)"
  by (simp add: read_bytes_def)

lemma unser_ser_vch [codec_simps]: "fits_size v \<Longrightarrow> unser_vch (ser_vch v @ rest) = Inr (v, rest)"
  using size_word [of v]
  by (simp add: unser_vch_def ser_vch_def rbind_def read_size vch_blocks_read rreturn_def)

interpretation vch_codec: codec unser_vch ser_vch fits_size
  by (intro codec.intro codec_axioms.intro reader_vch unser_ser_vch)

lemma unser_ser_string [codec_simps]:
  "fits_size v \<Longrightarrow> unser_string (ser_string v @ rest) = Inr (v, rest)"
  using size_word [of v] unat_eq_zero [of "word_of_nat (length v) :: u64"]
    read_size [of v rest]
  by (cases "v = []") (auto simp: unser_string_def ser_string_def rbind_def read_size rreturn_def)

interpretation string_codec: codec unser_string ser_string fits_size
  by (intro codec.intro codec_axioms.intro reader_string unser_ser_string)

text \<open>Vectors of objects.\<close>

context codec begin

lemma vector_codec: "codec (unser_vector sz get) (ser_vector ser) (\<lambda>v. fits_size v \<and> list_all ok v)"
proof (intro codec.intro codec_axioms.intro reader_vector)
  show "stream_reader get" ..
  fix v rest
  assume "fits_size v \<and> list_all ok v"
  then show "unser_vector sz get (ser_vector ser v @ rest) = Inr (v, rest)"
    using size_word [of v]
    by (simp add: unser_vector_def ser_vector_def rbind_def read_size vector_blocks_read read_times_ser)
qed

end

section \<open>Sizes\<close>

text \<open>\<open>GetSerializeSize\<close> is the length of the code, modulo the width of \<open>unsigned int\<close>.\<close>

locale sized_writer =
  fixes ser :: "'a \<Rightarrow> byte list" and size1 :: "'a \<Rightarrow> u32"
  assumes size_ser: "size1 x = word_of_nat (length (ser x))"
begin

lemma size_foldl: "foldl (\<lambda>n x. n + size1 x) c v = c + word_of_nat (length (concat (map ser v)))"
  by (induction v arbitrary: c) (simp_all add: size_ser)

end

lemma size_compact: "GetSizeOfCompactSize n = word_of_nat (length (WriteCompactSize n))"
  by (simp add: GetSizeOfCompactSize_def WriteCompactSize_def Let_def)

context sized_writer begin

lemma vector_sized: "sized_writer (ser_vector ser) (size_vector size1)"
  by unfold_locales (simp add: size_vector_def size_list_as_def size_foldl ser_vector_def size_compact)

end

lemma pair_sized:
  "sized_writer sa za \<Longrightarrow> sized_writer sb zb \<Longrightarrow> sized_writer (ser_pair sa sb) (size_pair za zb)"
  by (simp add: sized_writer_def ser_pair_def size_pair_def)

lemma map_sized:
  "sized_writer sk zk \<Longrightarrow> sized_writer sv zv \<Longrightarrow> sized_writer (ser_map sk sv) (size_map zk zv)"
proof -
  assume "sized_writer sk zk" "sized_writer sv zv"
  note f = sized_writer.size_foldl [OF pair_sized, OF this]
  show ?thesis
    by unfold_locales (simp add: size_map_def size_list_as_def f ser_map_def size_compact)
qed

interpretation vch_sized: sized_writer ser_vch size_vch
  by unfold_locales (simp add: size_vch_def ser_vch_def size_compact)

interpretation string_sized: sized_writer ser_string size_string
  by unfold_locales (simp add: size_string_def ser_string_def size_compact)

interpretation int_sized: sized_writer ser_int size_int
  by unfold_locales (simp add: size_int_def)

section \<open>Maps\<close>

text \<open>Maps: the entries come back in key order, so each insertion appends.\<close>

lemma reader_map_entries:
  "stream_reader gk \<Longrightarrow> stream_reader gv \<Longrightarrow> stream_reader (read_map_entries gk gv n m)"
  by (induction n arbitrary: m) (auto intro!: reader_bind)

lemma read_map_entries_ser:
  assumes "codec gk sk okk" and "codec gv sv okv"
    and "om_wf (m @ es)" and "list_all (\<lambda>e. okk (fst e) \<and> okv (snd e)) es"
  shows "read_map_entries gk gv (length es) m (concat (map (ser_pair sk sv) es) @ rest) = Inr (m @ es, rest)"
  using assms(3,4)
proof (induction es arbitrary: m)
  case Nil
  then show ?case by (simp add: rreturn_def)
next
  case (Cons e es)
  have "sorted_wrt (<) (map fst (m @ e # es))"
    using Cons.prems(1) by (simp only: om_wf_sorted)
  then have "list_all (\<lambda>x. fst x < fst e) m"
    by (auto simp: sorted_wrt_append list_all_iff)
  then have "om_insert m (fst e) (snd e) = m @ [e]"
    by (simp add: om_insert_last)
  with Cons codec.get_ser [OF codec_pair.pair_codec, OF codec_pair.intro, OF assms(1,2)]
  show ?case by (simp add: rbind_def)
qed

lemma map_codec:
  assumes "codec gk sk okk" and "codec gv sv okv"
  shows "codec (unser_map gk gv) (ser_map sk sv)
    (\<lambda>m. fits_size m \<and> om_wf m \<and> list_all (\<lambda>e. okk (fst e) \<and> okv (snd e)) m)"
proof (intro codec.intro codec_axioms.intro)
  show "stream_reader (unser_map gk gv)"
    unfolding unser_map_def
    by (intro reader_bind reader_map_entries codec.axioms(1) [OF assms(1)] codec.axioms(1) [OF assms(2)]) auto
  fix m rest
  assume "fits_size m \<and> om_wf m \<and> list_all (\<lambda>e. okk (fst e) \<and> okv (snd e)) m"
  then show "unser_map gk gv (ser_map sk sv m @ rest) = Inr (m, rest)"
    using size_word [of m] read_map_entries_ser [OF assms, of "[]" m rest]
    by (simp add: unser_map_def ser_map_def rbind_def read_size)
qed

text \<open>A map of 64-bit amounts by 64-bit keys, the container of the messages that carry amounts per
  circuit, and a vector of such maps read back as written, a shortened message is an error, and
  \<open>GetSerializeSize\<close> is the length of the code modulo \<open>2^32\<close>.\<close>

theorem container_roundtrip:
  fixes v :: "(u64 \<times> u64) list list"
  assumes "fits_size v" and "list_all (\<lambda>m. fits_size m \<and> om_wf m) v"
  shows "unser_vector sz (unser_map unser_int unser_int) (ser_vector (ser_map ser_int ser_int) v @ rest) = Inr (v, rest) \<and>
    (k < length (ser_vector (ser_map ser_int ser_int) v) \<longrightarrow>
      (\<exists>e. unser_vector sz (unser_map unser_int unser_int)
        (take k (ser_vector (ser_map ser_int ser_int) v)) = (Inl e :: _ + (u64 \<times> u64) list list \<times> _))) \<and>
    size_vector (size_map size_int size_int) v =
      word_of_nat (length (ser_vector (ser_map (ser_int :: u64 \<Rightarrow> _) (ser_int :: u64 \<Rightarrow> _)) v))"
proof -
  have ic: "codec unser_int ser_int (\<lambda>_ :: u64. 8 dvd LENGTH(64))"
    by (rule int_codec.codec_axioms)
  have c: "codec (unser_vector sz (unser_map unser_int unser_int)) (ser_vector (ser_map ser_int ser_int))
      (\<lambda>v :: (u64 \<times> u64) list list. fits_size v \<and> list_all (\<lambda>m. fits_size m \<and> om_wf m \<and>
        list_all (\<lambda>e. 8 dvd LENGTH(64) \<and> 8 dvd LENGTH(64)) m) v)"
    by (rule codec.vector_codec [OF map_codec [OF ic ic]])
  have ok: "fits_size v \<and> list_all (\<lambda>m. fits_size m \<and> om_wf m \<and>
        list_all (\<lambda>e. 8 dvd LENGTH(64) \<and> 8 dvd LENGTH(64)) m) v"
    using assms by (auto simp: list_all_iff)
  have "sized_writer (ser_vector (ser_map (ser_int :: u64 \<Rightarrow> _) (ser_int :: u64 \<Rightarrow> _)))
      (size_vector (size_map size_int size_int))"
    by (intro sized_writer.vector_sized map_sized int_sized.sized_writer_axioms)
  then show ?thesis
    using codec.get_ser [OF c ok] codec.truncated [OF c ok] by (simp add: sized_writer.size_ser)
qed

theorem container_roundtrip_witness:
  "unser_vector 48 (unser_map unser_int unser_int)
     (ser_vector (ser_map ser_int ser_int) [[(1 :: u64, 5 :: u64), (2, 7)]]) = Inr ([[(1 :: u64, 5 :: u64), (2, 7)]], [])"
  using container_roundtrip [where v = "[[(1, 5), (2, 7)]]" and sz = 48 and rest = "[]" and k = 0] by auto

end
