(* ===== verification/DataStream.thy ===== *)
theory DataStream
  imports Serialize
begin

text \<open>
  \<open>CDataStream\<close> of \<open>serialize.h\<close>: a byte vector with a read position.  A member that throws
  \<open>std::ios_base::failure\<close> returns \<open>Inl\<close> of the stream as the exception leaves it.  The content of a
  stream is what follows the read position; the lemmas say that reading, ignoring, writing, erasing
  and inserting are those operations on the content, so that the readers and writers of theory
  \<open>Serialize\<close> are what the operators \<open>>>\<close> and \<open><<\<close> do.  Positions are numbers below \<open>2^32\<close>, the
  width of \<open>nReadPos\<close>; iterators are offsets into \<open>vch\<close>.
\<close>

section \<open>State\<close>

datatype ioflag = badbit | failbit | eofbit

record CDataStream =
  ds_vch :: "byte list"
  nReadPos :: nat
  ds_state :: "ioflag set"
  exceptmask :: "ioflag set"
  ds_nType :: int
  ds_nVersion :: int

definition ds_init :: "byte list \<Rightarrow> int \<Rightarrow> int \<Rightarrow> CDataStream" where
  "ds_init v nTypeIn nVersionIn =
     \<lparr>ds_vch = v, nReadPos = 0, ds_state = {}, exceptmask = {badbit, failbit},
      ds_nType = nTypeIn, ds_nVersion = nVersionIn\<rparr>"

definition ds_content :: "CDataStream \<Rightarrow> byte list" where
  "ds_content s = drop (nReadPos s) (ds_vch s)"

section \<open>Vector subset\<close>

definition ds_append :: "CDataStream \<Rightarrow> CDataStream \<Rightarrow> CDataStream" where
  "ds_append s b = s\<lparr>ds_vch := ds_vch s @ ds_content b\<rparr>"

definition ds_str :: "CDataStream \<Rightarrow> byte list" where
  "ds_str s = ds_content s"

definition ds_size :: "CDataStream \<Rightarrow> nat" where
  "ds_size s = length (ds_vch s) - nReadPos s"

definition ds_empty :: "CDataStream \<Rightarrow> bool" where
  "ds_empty s = (length (ds_vch s) = nReadPos s)"

definition vector_resize :: "nat \<Rightarrow> byte \<Rightarrow> byte list \<Rightarrow> byte list" where
  "vector_resize n c v = take n v @ replicate (n - length v) c"

definition ds_resize :: "CDataStream \<Rightarrow> nat \<Rightarrow> byte \<Rightarrow> CDataStream" where
  "ds_resize s n c = s\<lparr>ds_vch := vector_resize (n + nReadPos s) c (ds_vch s)\<rparr>"

definition ds_at :: "CDataStream \<Rightarrow> nat \<Rightarrow> byte" where
  "ds_at s pos = ds_vch s ! (pos + nReadPos s)"

definition ds_clear :: "CDataStream \<Rightarrow> CDataStream" where
  "ds_clear s = s\<lparr>ds_vch := [], nReadPos := 0\<rparr>"

definition ds_insert :: "CDataStream \<Rightarrow> nat \<Rightarrow> byte list \<Rightarrow> CDataStream" where
  "ds_insert s it xs =
     (if it = nReadPos s \<and> length xs \<le> nReadPos s
      then (let pos = nReadPos s - length xs
            in s\<lparr>nReadPos := pos, ds_vch := take pos (ds_vch s) @ xs @ drop (pos + length xs) (ds_vch s)\<rparr>)
      else s\<lparr>ds_vch := take it (ds_vch s) @ xs @ drop it (ds_vch s)\<rparr>)"

definition ds_erase1 :: "CDataStream \<Rightarrow> nat \<Rightarrow> CDataStream" where
  "ds_erase1 s it =
     (if it = nReadPos s
      then (let pos = nReadPos s + 1
            in if pos \<ge> length (ds_vch s) then s\<lparr>nReadPos := 0, ds_vch := []\<rparr>
               else s\<lparr>nReadPos := pos\<rparr>)
      else s\<lparr>ds_vch := take it (ds_vch s) @ drop (it + 1) (ds_vch s)\<rparr>)"

definition ds_erase :: "CDataStream \<Rightarrow> nat \<Rightarrow> nat \<Rightarrow> CDataStream" where
  "ds_erase s it1 it2 =
     (if it1 = nReadPos s
      then (if it2 = length (ds_vch s) then s\<lparr>nReadPos := 0, ds_vch := []\<rparr>
            else s\<lparr>nReadPos := it2\<rparr>)
      else s\<lparr>ds_vch := take it1 (ds_vch s) @ drop it2 (ds_vch s)\<rparr>)"

definition ds_Compact :: "CDataStream \<Rightarrow> CDataStream" where
  "ds_Compact s = s\<lparr>ds_vch := drop (nReadPos s) (ds_vch s), nReadPos := 0\<rparr>"

definition ds_Rewind :: "CDataStream \<Rightarrow> nat \<Rightarrow> bool \<times> CDataStream" where
  "ds_Rewind s n = (if n > nReadPos s then (False, s) else (True, s\<lparr>nReadPos := nReadPos s - n\<rparr>))"

section \<open>Stream subset\<close>

definition ds_setstate :: "CDataStream \<Rightarrow> ioflag set \<Rightarrow> CDataStream + CDataStream" where
  "ds_setstate s bits =
     (let s = s\<lparr>ds_state := ds_state s \<union> bits\<rparr>
      in if ds_state s \<inter> exceptmask s \<noteq> {} then Inl s else Inr s)"

definition ds_eof :: "CDataStream \<Rightarrow> bool" where
  "ds_eof s = (ds_size s = 0)"

definition ds_fail :: "CDataStream \<Rightarrow> bool" where
  "ds_fail s = (ds_state s \<inter> {badbit, failbit} \<noteq> {})"

definition ds_good :: "CDataStream \<Rightarrow> bool" where
  "ds_good s = (\<not> ds_eof s \<and> ds_state s = {})"

definition ds_clear_state :: "CDataStream \<Rightarrow> ioflag set \<Rightarrow> CDataStream" where
  "ds_clear_state s n = s\<lparr>ds_state := n\<rparr>"

definition ds_exceptions :: "CDataStream \<Rightarrow> ioflag set \<Rightarrow> CDataStream + CDataStream \<times> ioflag set" where
  "ds_exceptions s mask1 =
     (let prev = exceptmask s; s = s\<lparr>exceptmask := mask1\<rparr>
      in case ds_setstate s {} of Inl s \<Rightarrow> Inl s | Inr s \<Rightarrow> Inr (s, prev))"

text \<open>The bytes \<open>read\<close> stores at \<open>pch\<close> come back beside the stream; without an exception a short read
  fills the rest with zeros.\<close>

definition ds_read :: "CDataStream \<Rightarrow> nat \<Rightarrow> CDataStream + CDataStream \<times> byte list" where
  "ds_read s nSize =
     (let nReadPosNext = (nReadPos s + nSize) mod 2 ^ 32
      in if nReadPosNext \<ge> length (ds_vch s)
         then (if nReadPosNext > length (ds_vch s)
               then (case ds_setstate s {failbit} of
                       Inl s \<Rightarrow> Inl s
                     | Inr s \<Rightarrow>
                         (let n = length (ds_vch s) - nReadPos s
                          in Inr (s\<lparr>nReadPos := 0, ds_vch := []\<rparr>,
                                  take n (drop (nReadPos s) (ds_vch s)) @ replicate (nSize - n) 0)))
               else Inr (s\<lparr>nReadPos := 0, ds_vch := []\<rparr>, take nSize (drop (nReadPos s) (ds_vch s))))
         else Inr (s\<lparr>nReadPos := nReadPosNext\<rparr>, take nSize (drop (nReadPos s) (ds_vch s))))"

definition ds_ignore :: "CDataStream \<Rightarrow> nat \<Rightarrow> CDataStream + CDataStream" where
  "ds_ignore s nSize =
     (let nReadPosNext = (nReadPos s + nSize) mod 2 ^ 32
      in if nReadPosNext \<ge> length (ds_vch s)
         then (if nReadPosNext > length (ds_vch s)
               then (case ds_setstate s {failbit} of
                       Inl s \<Rightarrow> Inl s
                     | Inr s \<Rightarrow> Inr (s\<lparr>nReadPos := 0, ds_vch := []\<rparr>))
               else Inr (s\<lparr>nReadPos := 0, ds_vch := []\<rparr>))
         else Inr (s\<lparr>nReadPos := nReadPosNext\<rparr>))"

definition ds_write :: "CDataStream \<Rightarrow> byte list \<Rightarrow> CDataStream" where
  "ds_write s pch = s\<lparr>ds_vch := ds_vch s @ pch\<rparr>"

definition ds_GetAndClear :: "CDataStream \<Rightarrow> byte list \<Rightarrow> CDataStream \<times> byte list" where
  "ds_GetAndClear s data = (let data = data @ ds_content s in (ds_clear s, data))"

section \<open>Operations on the content\<close>

text \<open>The streams the program builds: a position inside the vector, below \<open>2^32\<close> bytes, and the default
  exception mask with no error so far.\<close>

definition ds_wf :: "CDataStream \<Rightarrow> bool" where
  "ds_wf s = (nReadPos s \<le> length (ds_vch s) \<and> length (ds_vch s) < 2 ^ 32 \<and>
     ds_state s = {} \<and> exceptmask s = {badbit, failbit})"

lemma ds_wf_init [simp]: "length v < 2 ^ 32 \<Longrightarrow> ds_wf (ds_init v t n)"
  by (simp add: ds_wf_def ds_init_def)

lemma ds_content_init [simp]: "ds_content (ds_init v t n) = v"
  by (simp add: ds_content_def ds_init_def)

lemma length_ds_content: "length (ds_content s) = ds_size s"
  by (simp add: ds_content_def ds_size_def)

text \<open>C38: Reading from a stream is \<open>read_bytes\<close> on its content: enough bytes are handed out and the
  stream keeps the rest and its well-formedness, too few raise the failure and leave the content
  as it was.\<close>

theorem ds_read_refines:
  assumes "ds_wf s" and "nReadPos s + n < 2 ^ 32"
  shows "case ds_read s n of
      Inl s' \<Rightarrow> read_bytes n (ds_content s) = Inl EndOfData \<and> ds_fail s' \<and> ds_content s' = ds_content s
    | Inr (s', b) \<Rightarrow> read_bytes n (ds_content s) = Inr (b, ds_content s') \<and> ds_wf s' \<and>
        length b = n \<and> ds_size s = n + ds_size s'"
  using assms
  by (auto simp: ds_read_def Let_def ds_wf_def read_bytes_def ds_content_def ds_setstate_def ds_fail_def
      ds_size_def ac_simps)

theorem ds_read_refines_witness:
  "case ds_read (ds_init [1, 2, 3] 0 0) 5 of Inl s' \<Rightarrow> ds_content s' = [1, 2, 3] | Inr _ \<Rightarrow> False"
proof -
  have "ds_wf (ds_init [1, 2, 3] 0 0)" by simp
  moreover have "nReadPos (ds_init [1, 2, 3] 0 0) + 5 < 2 ^ 32" by (simp add: ds_init_def)
  ultimately show ?thesis
    using ds_read_refines [of "ds_init [1, 2, 3] 0 0" 5]
    by (auto simp: read_bytes_def split: sum.splits)
qed

lemma ds_ignore_read:
  "ds_ignore s n = (case ds_read s n of Inl s \<Rightarrow> Inl s | Inr (s, _) \<Rightarrow> Inr s)"
  by (auto simp: ds_ignore_def ds_read_def Let_def split: sum.splits)

text \<open>The other operations on the content: writing and appending add at the end, \<open>GetAndClear\<close>
  hands out everything, compacting changes nothing, rewinding after reading gives the bytes back, and
  erasing or inserting at the front are dropping and prepending, on both paths of the code.\<close>

theorem ds_content_operations:
  assumes "ds_wf s"
  shows "ds_content (ds_write s b) = ds_content s @ b \<and>
    ds_content (ds_append s t) = ds_content s @ ds_content t \<and>
    snd (ds_GetAndClear s d) = d @ ds_content s \<and> ds_content (fst (ds_GetAndClear s d)) = [] \<and>
    ds_content (ds_Compact s) = ds_content s \<and>
    ds_content (ds_insert s (nReadPos s) b) = b @ ds_content s \<and>
    ds_content (ds_erase1 s (nReadPos s)) = drop 1 (ds_content s) \<and>
    (k \<le> ds_size s \<longrightarrow>
      ds_content (ds_erase s (nReadPos s) (nReadPos s + k)) = drop k (ds_content s) \<and>
      ds_content (snd (ds_Rewind (s\<lparr>nReadPos := nReadPos s + k\<rparr>) k)) = ds_content s)"
  using assms
  by (auto simp: ds_content_def ds_write_def ds_append_def ds_GetAndClear_def ds_clear_def ds_Compact_def
      ds_insert_def ds_erase1_def ds_erase_def ds_Rewind_def ds_wf_def ds_size_def Let_def ac_simps)

theorem ds_content_operations_witness:
  "ds_content (ds_insert (ds_init [7] 0 0) 0 [1, 2]) = [1, 2, 7]"
  using ds_content_operations [of "ds_init [7] 0 0" _ _ "[1, 2]"]
  by (simp add: ds_init_def ds_wf_def ds_content_def)

end
