(* ===== verification/Uint256.thy ===== *)
theory Uint256
  imports Tetra_Prelude
begin

text \<open>
  The fixed-width unsigned integers of \<open>uint256.h\<close>: \<open>base_uint<BITS>\<close> is an array \<open>pn\<close> of
  \<open>WIDTH = BITS/32\<close> 32-bit limbs, least significant first, here a list of 32-bit words whose
  length is \<open>WIDTH\<close> (8 for \<open>uint256\<close>, 5 for \<open>uint160\<close>).  Every operator is translated
  limb by limb; \<open>uval\<close> reads the array as a number, and the lemmas say that the operators are
  arithmetic modulo \<open>2^BITS\<close> and comparison of that number.
\<close>

section \<open>Representation\<close>

type_synonym base_uint = "u32 list"
type_synonym uint256 = base_uint
type_synonym uint160 = base_uint

abbreviation (input) WIDTH256 :: nat where "WIDTH256 \<equiv> 8"
abbreviation (input) WIDTH160 :: nat where "WIDTH160 \<equiv> 5"

fun uval :: "base_uint \<Rightarrow> nat" where
  "uval [] = 0"
| "uval (x # xs) = unat x + 2 ^ 32 * uval xs"

definition lo32 :: "u64 \<Rightarrow> u32" where "lo32 b = ucast b"
definition hi32 :: "u64 \<Rightarrow> u32" where "hi32 b = ucast (drop_bit 32 b)"

section \<open>Operators\<close>

fun bu_is_zero :: "base_uint \<Rightarrow> bool" where
  "bu_is_zero [] = True"
| "bu_is_zero (x # xs) = (if x \<noteq> 0 then False else bu_is_zero xs)"

definition bu_not :: "base_uint \<Rightarrow> base_uint" where
  "bu_not pn = map NOT pn"

text \<open>\<open>while (++pn[i] == 0 && i < WIDTH-1) i++;\<close>\<close>
fun bu_inc :: "base_uint \<Rightarrow> base_uint" where
  "bu_inc [] = []"
| "bu_inc [x] = [x + 1]"
| "bu_inc (x # y # xs) = (if x + 1 = 0 then (x + 1) # bu_inc (y # xs) else (x + 1) # y # xs)"

text \<open>\<open>while (--pn[i] == -1 && i < WIDTH-1) i++;\<close>\<close>
fun bu_dec :: "base_uint \<Rightarrow> base_uint" where
  "bu_dec [] = []"
| "bu_dec [x] = [x - 1]"
| "bu_dec (x # y # xs) = (if x - 1 = -1 then (x - 1) # bu_dec (y # xs) else (x - 1) # y # xs)"

definition bu_post_inc :: "base_uint \<Rightarrow> base_uint \<times> base_uint" where
  "bu_post_inc pn = (pn, bu_inc pn)"

definition bu_post_dec :: "base_uint \<Rightarrow> base_uint \<times> base_uint" where
  "bu_post_dec pn = (pn, bu_dec pn)"

definition bu_neg :: "base_uint \<Rightarrow> base_uint" where
  "bu_neg pn = (let ret = map NOT pn in bu_inc ret)"

definition bu_of64 :: "nat \<Rightarrow> u64 \<Rightarrow> base_uint" where
  "bu_of64 width b = [lo32 b, hi32 b] @ replicate (width - 2) 0"

definition bu_xor :: "base_uint \<Rightarrow> base_uint \<Rightarrow> base_uint" where
  "bu_xor pn b = map2 (XOR) pn b"

definition bu_and :: "base_uint \<Rightarrow> base_uint \<Rightarrow> base_uint" where
  "bu_and pn b = map2 (AND) pn b"

definition bu_or :: "base_uint \<Rightarrow> base_uint \<Rightarrow> base_uint" where
  "bu_or pn b = map2 (OR) pn b"

definition bu_xor64 :: "base_uint \<Rightarrow> u64 \<Rightarrow> base_uint" where
  "bu_xor64 pn b = (let pn = pn[0 := pn ! 0 XOR lo32 b] in pn[1 := pn ! 1 XOR hi32 b])"

definition bu_or64 :: "base_uint \<Rightarrow> u64 \<Rightarrow> base_uint" where
  "bu_or64 pn b = (let pn = pn[0 := pn ! 0 OR lo32 b] in pn[1 := pn ! 1 OR hi32 b])"

definition shl_step :: "nat \<Rightarrow> base_uint \<Rightarrow> nat \<Rightarrow> nat \<Rightarrow> base_uint \<Rightarrow> nat \<Rightarrow> base_uint" where
  "shl_step width a k shift pn i =
     (let pn = (if i + k + 1 < width \<and> shift \<noteq> 0
                then pn[i + k + 1 := pn ! (i + k + 1) OR drop_bit (32 - shift) (a ! i)] else pn)
      in if i + k < width then pn[i + k := pn ! (i + k) OR push_bit shift (a ! i)] else pn)"

definition bu_shl :: "base_uint \<Rightarrow> u32 \<Rightarrow> base_uint" where
  "bu_shl a shift =
     (let width = length a; k = unat shift div 32; s = unat shift mod 32
      in foldl (shl_step width a k s) (replicate width 0) [0..<width])"

definition shr_step :: "base_uint \<Rightarrow> nat \<Rightarrow> nat \<Rightarrow> base_uint \<Rightarrow> nat \<Rightarrow> base_uint" where
  "shr_step a k shift pn i =
     (let pn = (if k + 1 \<le> i \<and> shift \<noteq> 0
                then pn[i - k - 1 := pn ! (i - k - 1) OR push_bit (32 - shift) (a ! i)] else pn)
      in if k \<le> i then pn[i - k := pn ! (i - k) OR drop_bit shift (a ! i)] else pn)"

definition bu_shr :: "base_uint \<Rightarrow> u32 \<Rightarrow> base_uint" where
  "bu_shr a shift =
     (let width = length a; k = unat shift div 32; s = unat shift mod 32
      in foldl (shr_step a k s) (replicate width 0) [0..<width])"

fun add_loop :: "u64 \<Rightarrow> base_uint \<Rightarrow> base_uint \<Rightarrow> base_uint" where
  "add_loop carry (x # xs) (y # ys) =
     (let n = carry + ucast x + ucast y
      in ucast (n AND 0xffffffff) # add_loop (drop_bit 32 n) xs ys)"
| "add_loop carry _ _ = []"

definition bu_plus :: "base_uint \<Rightarrow> base_uint \<Rightarrow> base_uint" where
  "bu_plus pn b = add_loop 0 pn b"

definition bu_minus :: "base_uint \<Rightarrow> base_uint \<Rightarrow> base_uint" where
  "bu_minus pn b = bu_plus pn (bu_neg b)"

definition bu_plus64 :: "base_uint \<Rightarrow> u64 \<Rightarrow> base_uint" where
  "bu_plus64 pn b64 = bu_plus pn (bu_of64 (length pn) b64)"

definition bu_minus64 :: "base_uint \<Rightarrow> u64 \<Rightarrow> base_uint" where
  "bu_minus64 pn b64 = bu_plus pn (bu_neg (bu_of64 (length pn) b64))"

text \<open>The comparison loops run \<open>i\<close> from \<open>WIDTH-1\<close> down; the counter here is \<open>i + 1\<close>.\<close>
fun lt_from :: "base_uint \<Rightarrow> base_uint \<Rightarrow> nat \<Rightarrow> bool" where
  "lt_from a b 0 = False"
| "lt_from a b (Suc i) =
     (if a ! i < b ! i then True else if a ! i > b ! i then False else lt_from a b i)"

definition bu_lt :: "base_uint \<Rightarrow> base_uint \<Rightarrow> bool" where
  "bu_lt a b = lt_from a b (length a)"

fun le_from :: "base_uint \<Rightarrow> base_uint \<Rightarrow> nat \<Rightarrow> bool" where
  "le_from a b 0 = True"
| "le_from a b (Suc i) =
     (if a ! i < b ! i then True else if a ! i > b ! i then False else le_from a b i)"

definition bu_le :: "base_uint \<Rightarrow> base_uint \<Rightarrow> bool" where
  "bu_le a b = le_from a b (length a)"

fun gt_from :: "base_uint \<Rightarrow> base_uint \<Rightarrow> nat \<Rightarrow> bool" where
  "gt_from a b 0 = False"
| "gt_from a b (Suc i) =
     (if a ! i > b ! i then True else if a ! i < b ! i then False else gt_from a b i)"

definition bu_gt :: "base_uint \<Rightarrow> base_uint \<Rightarrow> bool" where
  "bu_gt a b = gt_from a b (length a)"

fun ge_from :: "base_uint \<Rightarrow> base_uint \<Rightarrow> nat \<Rightarrow> bool" where
  "ge_from a b 0 = True"
| "ge_from a b (Suc i) =
     (if a ! i > b ! i then True else if a ! i < b ! i then False else ge_from a b i)"

definition bu_ge :: "base_uint \<Rightarrow> base_uint \<Rightarrow> bool" where
  "bu_ge a b = ge_from a b (length a)"

fun bu_eq :: "base_uint \<Rightarrow> base_uint \<Rightarrow> bool" where
  "bu_eq (x # xs) (y # ys) = (if x \<noteq> y then False else bu_eq xs ys)"
| "bu_eq _ _ = True"

definition bu_eq64 :: "base_uint \<Rightarrow> u64 \<Rightarrow> bool" where
  "bu_eq64 a b =
     (if a ! 0 \<noteq> lo32 b then False
      else if a ! 1 \<noteq> hi32 b then False
      else list_all (\<lambda>x. x = 0) (drop 2 a))"

definition bu_neq :: "base_uint \<Rightarrow> base_uint \<Rightarrow> bool" where
  "bu_neq a b = (\<not> bu_eq a b)"

definition bu_neq64 :: "base_uint \<Rightarrow> u64 \<Rightarrow> bool" where
  "bu_neq64 a b = (\<not> bu_eq64 a b)"

section \<open>Bytes and hexadecimal strings\<close>

text \<open>The bytes of the array in memory, on the little-endian machines the program supports.\<close>
definition bu_bytes :: "base_uint \<Rightarrow> byte list" where
  "bu_bytes pn = concat (map (\<lambda>x. le_bytes 4 (unat x)) pn)"

fun bu_of_bytes :: "nat \<Rightarrow> byte list \<Rightarrow> base_uint" where
  "bu_of_bytes 0 bs = []"
| "bu_of_bytes (Suc w) bs = word_of_nat (le_val (take 4 bs)) # bu_of_bytes w (drop 4 bs)"

lemma length_bu_of_bytes [simp]: "length (bu_of_bytes n b) = n"
  by (induction n b rule: bu_of_bytes.induct) auto

definition bu_of_vector :: "nat \<Rightarrow> byte list \<Rightarrow> base_uint" where
  "bu_of_vector width vch =
     (if length vch = 4 * width then bu_of_bytes width vch else bu_of64 width 0)"

definition hex_char :: "nat \<Rightarrow> char" where
  "hex_char d = (if d < 10 then char_of (48 + d) else char_of (87 + d))"

text \<open>\<open>sprintf("%02x")\<close> of one byte.\<close>
definition hex2 :: "byte \<Rightarrow> string" where
  "hex2 b = [hex_char (unat b div 16), hex_char (unat b mod 16)]"

definition GetHex :: "base_uint \<Rightarrow> string" where
  "GetHex pn = concat (map hex2 (rev (bu_bytes pn)))"

definition phexdigit :: "char \<Rightarrow> byte" where
  "phexdigit c =
     (let n = of_char c :: nat
      in if 49 \<le> n \<and> n \<le> 57 then word_of_nat (n - 48)
         else if 65 \<le> n \<and> n \<le> 70 then word_of_nat (n - 55)
         else if 97 \<le> n \<and> n \<le> 102 then word_of_nat (n - 87)
         else 0)"

definition is_hexdigit :: "char \<Rightarrow> bool" where
  "is_hexdigit c = (phexdigit c \<noteq> 0 \<or> c = CHR ''0'')"

definition isspace :: "char \<Rightarrow> bool" where
  "isspace c = (let n = of_char c :: nat in n = 32 \<or> (9 \<le> n \<and> n \<le> 13))"

text \<open>Two digits a byte, from the last digit of the string towards the first, as long as the
  array has room; the rest of the array stays 0.\<close>
fun fill_nibbles :: "nat \<Rightarrow> byte list \<Rightarrow> byte list" where
  "fill_nibbles 0 ds = []"
| "fill_nibbles (Suc n) [] = 0 # fill_nibbles n []"
| "fill_nibbles (Suc n) [d] = d # fill_nibbles n []"
| "fill_nibbles (Suc n) (d # d' # ds) = (d OR push_bit 4 d') # fill_nibbles n ds"

definition skip_0x :: "string \<Rightarrow> string" where
  "skip_0x psz =
     (case psz of c # c' # r \<Rightarrow> if c = CHR ''0'' \<and> (c' = CHR ''x'' \<or> c' = CHR ''X'') then r else psz
      | _ \<Rightarrow> psz)"

definition SetHex :: "nat \<Rightarrow> string \<Rightarrow> base_uint" where
  "SetHex width psz =
     (let psz = dropWhile isspace psz;
          psz = skip_0x psz;
          ds = takeWhile is_hexdigit psz
      in bu_of_bytes width (fill_nibbles (4 * width) (rev (map phexdigit ds))))"

definition Get64 :: "base_uint \<Rightarrow> nat \<Rightarrow> u64" where
  "Get64 pn n = ucast (pn ! (2 * n)) OR push_bit 32 (ucast (pn ! (2 * n + 1)))"

section \<open>Lemmas: the number an array holds\<close>

lemma unat_u32_less: "unat (x :: u32) < 2 ^ 32"
  using unsigned_less [of x] by simp

lemma unat_u32_less' [simp]: "unat (x :: u32) < 4294967296"
  using unsigned_less [of x] by simp

lemma uval_bound: "uval xs < 2 ^ (32 * length xs)"
proof (induction xs)
  case Nil
  then show ?case by simp
next
  case (Cons x xs)
  have "unat x + 2 ^ 32 * uval xs < 2 ^ 32 + 2 ^ 32 * uval xs"
    using unat_u32_less by (rule add_strict_right_mono)
  also have "\<dots> = 2 ^ 32 * (uval xs + 1)"
    by simp
  also have "\<dots> \<le> 2 ^ 32 * 2 ^ (32 * length xs)"
    using Cons.IH by (intro mult_le_mono2) simp
  finally show ?case
    by (simp add: power_add)
qed

lemma uval_inject: "length xs = length ys \<Longrightarrow> uval xs = uval ys \<longleftrightarrow> xs = ys"
proof (induction xs ys rule: list_induct2)
  case Nil
  then show ?case by simp
next
  case (Cons x xs y ys)
  have "uval (x # xs) mod 2 ^ 32 = unat x" "uval (y # ys) mod 2 ^ 32 = unat y"
    and "uval (x # xs) div 2 ^ 32 = uval xs" "uval (y # ys) div 2 ^ 32 = uval ys"
    by simp_all
  then show ?case
    using Cons.IH by (metis list.inject unsigned_word_eqI)
qed

lemma limb_sum_mod:
  "n mod B + B * ((n div B + Z) mod P) = (n + B * Z) mod (B * P)" if "0 < B" for n B Z P :: nat
  using that by (simp add: mod_mult2_eq add.commute)

lemma length_add_loop [simp]: "length (add_loop c xs ys) = min (length xs) (length ys)"
  by (induction c xs ys rule: add_loop.induct) (auto simp: Let_def)

lemma carry_sum:
  fixes c :: u64 and x y :: u32
  assumes "unat c \<le> 1"
  shows "unat (c + ucast x + ucast y) = unat c + unat x + unat y"
proof -
  have x: "unat (ucast x :: u64) = unat x" "unat (ucast y :: u64) = unat y"
    by (simp_all add: unsigned_ucast_eq take_bit_nat_eq_self_iff less_trans [OF unat_u32_less])
  have "unat c + unat x + unat y < 18446744073709551616"
    using assms unat_u32_less' [of x] unat_u32_less' [of y] by linarith
  then show ?thesis
    using x by (simp add: unat_word_ariths)
qed

lemma unat_low_limb: "unat (ucast (n AND 0xffffffff :: u64) :: u32) = unat n mod 2 ^ 32"
proof -
  have m: "(0xffffffff :: u64) = mask 32"
    by (simp add: mask_eq_exp_minus_1)
  have u: "ucast (n AND mask 32) = (ucast n :: u32)"
    by (auto intro!: bit_word_eqI simp: bit_simps)
  show ?thesis
    unfolding m u by (simp add: unsigned_ucast_eq take_bit_eq_mod)
qed

lemma uval_add_loop:
  assumes "length xs = length ys" and "unat c \<le> 1"
  shows "uval (add_loop c xs ys) = (unat c + uval xs + uval ys) mod 2 ^ (32 * length xs)"
  using assms
proof (induction xs ys arbitrary: c rule: list_induct2)
  case Nil
  then show ?case by simp
next
  case (Cons x xs y ys)
  let ?n = "c + ucast x + ucast y :: u64"
  have n: "unat ?n = unat c + unat x + unat y"
    using Cons.prems by (rule carry_sum)
  have d: "unat (drop_bit 32 ?n) = unat ?n div 2 ^ 32"
    by (simp only: drop_bit_eq_div unat_div_distrib) simp
  have "unat ?n < 2 * 4294967296"
    using n Cons.prems unat_u32_less' [of x] unat_u32_less' [of y] by linarith
  then have "unat ?n div 2 ^ 32 < 2"
    by (simp add: div_less_iff_less_mult)
  then have "uval (add_loop (drop_bit 32 ?n) xs ys) =
      (unat ?n div 2 ^ 32 + (uval xs + uval ys)) mod 2 ^ (32 * length xs)"
    using Cons.IH [of "drop_bit 32 ?n"] d by (simp add: add.assoc)
  then have "uval (add_loop c (x # xs) (y # ys)) =
      (unat ?n + 2 ^ 32 * (uval xs + uval ys)) mod (2 ^ 32 * 2 ^ (32 * length xs))"
    unfolding add_loop.simps Let_def uval.simps unat_low_limb
    by (simp only: limb_sum_mod zero_less_numeral zero_less_power)
  then show ?case
    by (simp only: n) (simp add: power_add algebra_simps)
qed

lemma length_bu_inc [simp]: "length (bu_inc xs) = length xs"
  by (induction xs rule: bu_inc.induct) auto

lemma length_bu_dec [simp]: "length (bu_dec xs) = length xs"
  by (induction xs rule: bu_dec.induct) auto

lemma u32_succ: "unat (x + 1 :: u32) = (unat x + 1) mod 4294967296"
  by (simp add: unat_word_ariths)

lemma u32_succ_zero: "x + 1 = 0 \<longleftrightarrow> unat (x :: u32) = 4294967295"
proof -
  have "x + 1 = 0 \<longleftrightarrow> (unat x + 1) mod 4294967296 = 0"
    by (metis u32_succ unat_eq_zero)
  also have "\<dots> \<longleftrightarrow> unat x = 4294967295"
  proof -
    have "unat x + 1 < 4294967296 \<or> unat x = 4294967295"
      using unat_u32_less' [of x] by linarith
    then show ?thesis by (elim disjE) (simp_all only: mod_less, simp_all)
  qed
  finally show ?thesis .
qed

lemma uval_inc: "xs \<noteq> [] \<Longrightarrow> uval (bu_inc xs) = (uval xs + 1) mod 2 ^ (32 * length xs)"
proof (induction xs rule: bu_inc.induct)
  case 1
  then show ?case by simp
next
  case (2 x)
  then show ?case by (simp add: u32_succ)
next
  case (3 x y xs)
  show ?case
  proof (cases "x + 1 = 0")
    case True
    then have x: "unat x = 4294967295" by (simp add: u32_succ_zero)
    have "uval (bu_inc (x # y # xs)) = 2 ^ 32 * ((uval (y # xs) + 1) mod 2 ^ (32 * length (y # xs)))"
      using True "3.IH" by simp
    also have "\<dots> = (2 ^ 32 * (uval (y # xs) + 1)) mod (2 ^ 32 * 2 ^ (32 * length (y # xs)))"
      by (simp only: mult_mod_right)
    also have "2 ^ 32 * (uval (y # xs) + 1) = uval (x # y # xs) + 1"
      using x by simp
    finally show ?thesis
      by (simp only: power_add [symmetric]) (simp add: algebra_simps)
  next
    case False
    then have "unat x \<noteq> 4294967295"
      by (simp add: u32_succ_zero)
    then have "unat x + 1 < 4294967296"
      using unat_u32_less' [of x] by linarith
    then have "uval (bu_inc (x # y # xs)) = uval (x # y # xs) + 1"
      using False by (simp add: u32_succ)
    moreover have "uval (bu_inc (x # y # xs)) < 2 ^ (32 * length (x # y # xs))"
      using uval_bound [of "bu_inc (x # y # xs)"] by (simp only: length_bu_inc)
    ultimately show ?thesis by (metis mod_less)
  qed
qed

lemma u32_pred: "unat (x - 1 :: u32) = (if unat x = 0 then 4294967295 else unat x - 1)"
proof (cases "unat x = 0")
  case True
  then have "x = 0" by (simp add: unat_eq_zero)
  then show ?thesis by (simp add: unsigned_minus_1_eq_mask mask_eq_exp_minus_1)
next
  case False
  then have "1 \<le> x" by (simp add: word_le_nat_alt)
  then show ?thesis using False by (simp add: unat_sub)
qed

lemma u32_pred_max: "x - 1 = (-1 :: u32) \<longleftrightarrow> unat x = 0"
  by (simp add: unat_eq_zero)

lemma uval_dec:
  "xs \<noteq> [] \<Longrightarrow> uval (bu_dec xs) = (uval xs + (2 ^ (32 * length xs) - 1)) mod 2 ^ (32 * length xs)"
proof (induction xs rule: bu_dec.induct)
  case 1
  then show ?case by simp
next
  case (2 x)
  then show ?case
    using unat_u32_less [of "x - 1"] by (cases "unat x") (auto simp: u32_pred simp del: unat_u32_less')
next
  case (3 x y xs)
  let ?P = "2 ^ (32 * length (y # xs)) :: nat"
  have P: "2 ^ (32 * length (x # y # xs)) = 2 ^ 32 * ?P"
    by (simp add: power_add)
  show ?case
  proof (cases "unat x = 0")
    case True
    have "uval (bu_dec (x # y # xs)) = 2 ^ 32 - 1 + 2 ^ 32 * ((uval (y # xs) + (?P - 1)) mod ?P)"
      using True "3.IH" by (simp add: u32_pred u32_pred_max)
    also have "\<dots> = (2 ^ 32 - 1 + 2 ^ 32 * (uval (y # xs) + (?P - 1))) mod (2 ^ 32 * ?P)"
      using limb_sum_mod [of "2 ^ 32" "2 ^ 32 - 1" "uval (y # xs) + (?P - 1)" ?P] by simp
    also have "2 ^ 32 - 1 + 2 ^ 32 * (uval (y # xs) + (?P - 1)) =
        uval (x # y # xs) + (2 ^ 32 * ?P - 1)"
    proof -
      obtain p where "?P = Suc p" using not0_implies_Suc [of ?P] by auto
      then show ?thesis using True by simp
    qed
    finally show ?thesis by (simp only: P)
  next
    case False
    then obtain m where m: "unat x = Suc m"
      using not0_implies_Suc by blast
    then have "uval (bu_dec (x # y # xs)) + 1 = uval (x # y # xs)"
      using u32_pred_max [of x] by (simp add: u32_pred)
    moreover have "uval (bu_dec (x # y # xs)) < 2 ^ (32 * length (x # y # xs))"
      using uval_bound [of "bu_dec (x # y # xs)"] by (simp only: length_bu_dec)
    ultimately have "uval (x # y # xs) + (2 ^ (32 * length (x # y # xs)) - 1) =
        uval (bu_dec (x # y # xs)) + 2 ^ (32 * length (x # y # xs))"
      by simp
    then show ?thesis
      using \<open>uval (bu_dec _) < _\<close> by (simp only: mod_add_self2 mod_less)
  qed
qed

lemma unat_not32: "unat (NOT x :: u32) = 4294967295 - unat x"
proof -
  have "NOT x = -1 - x"
    by (simp add: not_eq_complement)
  moreover have "unat (-1 - x) = unat (-1 :: u32) - unat x"
    by (rule unat_sub) simp
  ultimately show ?thesis
    by (simp add: unsigned_minus_1_eq_mask mask_eq_exp_minus_1)
qed

lemma uval_not: "uval (bu_not xs) = 2 ^ (32 * length xs) - 1 - uval xs"
proof (induction xs)
  case Nil
  then show ?case by (simp add: bu_not_def)
next
  case (Cons x xs)
  let ?P = "2 ^ (32 * length xs) :: nat"
  have b: "uval xs < ?P" by (rule uval_bound)
  have "uval (bu_not (x # xs)) = 4294967295 - unat x + 2 ^ 32 * (?P - 1 - uval xs)"
    using Cons.IH by (simp add: bu_not_def unat_not32)
  also have "\<dots> = 2 ^ 32 * ?P - 1 - (unat x + 2 ^ 32 * uval xs)"
  proof -
    obtain q where q: "?P = uval xs + 1 + q"
      using b by (metis less_iff_Suc_add add_Suc_right Suc_eq_plus1 add.assoc add.commute)
    have "unat x \<le> 4294967295"
      using unat_u32_less' [of x] by linarith
    then obtain r where r: "4294967295 = unat x + r"
      using le_Suc_ex by blast
    have "2 ^ 32 * (uval xs + 1 + q) = unat x + r + 1 + (2 ^ 32 * uval xs + 2 ^ 32 * q)"
      using r by simp
    then show ?thesis unfolding q using r by simp
  qed
  finally show ?case
    by (simp add: power_add)
qed

lemma uval_neg:
  assumes "xs \<noteq> []"
  shows "uval (bu_neg xs) = (2 ^ (32 * length xs) - uval xs) mod 2 ^ (32 * length xs)"
proof -
  have "uval (bu_neg xs) = (uval (bu_not xs) + 1) mod 2 ^ (32 * length xs)"
    using assms uval_inc [of "map NOT xs"] by (simp add: bu_neg_def bu_not_def)
  then show ?thesis
    using uval_bound [of xs] by (simp add: uval_not Suc_diff_Suc)
qed

section \<open>Lemmas: comparison\<close>

lemma uval_append: "uval (xs @ ys) = uval xs + 2 ^ (32 * length xs) * uval ys"
  by (induction xs) (auto simp: power_add algebra_simps)

lemma uval_take_Suc:
  assumes "i < length xs"
  shows "uval (take (Suc i) xs) = uval (take i xs) + 2 ^ (32 * i) * unat (xs ! i)"
  using assms by (simp add: take_Suc_conv_app_nth uval_append)

text \<open>The limb at \<open>i\<close> decides; equal limbs leave it to the lower ones.\<close>

lemma uval_take_compare:
  assumes "i < length a" and "i < length b"
  shows "uval (take (Suc i) a) < uval (take (Suc i) b) \<longleftrightarrow>
    unat (a ! i) < unat (b ! i) \<or> (unat (a ! i) = unat (b ! i) \<and> uval (take i a) < uval (take i b))"
proof -
  define P A B where "P = (2::nat) ^ (32 * i)" and "A = uval (take i a)" and "B = uval (take i b)"
  have b: "A < P" "B < P"
    using uval_bound [of "take i a"] uval_bound [of "take i b"] assms by (simp_all add: A_def B_def P_def)
  have less: "A' + P * m < B' + P * n" if "m < n" "A' < P" for A' B' m n :: nat
  proof -
    have "P * Suc m \<le> P * n" using that by (intro mult_le_mono2) simp
    with that show ?thesis by simp
  qed
  have "A + P * unat (a ! i) < B + P * unat (b ! i) \<longleftrightarrow>
    unat (a ! i) < unat (b ! i) \<or> (unat (a ! i) = unat (b ! i) \<and> A < B)"
    using less [of "unat (a ! i)" "unat (b ! i)" A B] less [of "unat (b ! i)" "unat (a ! i)" B A] b
    by (cases "unat (a ! i)" "unat (b ! i)" rule: linorder_cases) auto
  then show ?thesis
    using assms by (simp only: uval_take_Suc P_def A_def B_def)
qed

lemma lt_from_iff:
  "n \<le> length a \<Longrightarrow> n \<le> length b \<Longrightarrow> lt_from a b n \<longleftrightarrow> uval (take n a) < uval (take n b)"
  by (induction a b n rule: lt_from.induct) (auto simp: uval_take_compare word_less_nat_alt)

lemma gt_from_iff: "gt_from a b n = lt_from b a n"
  by (induction a b n rule: gt_from.induct) auto

lemma le_from_iff: "le_from a b n \<longleftrightarrow> \<not> lt_from b a n"
  by (induction a b n rule: le_from.induct) auto

lemma ge_from_iff: "ge_from a b n \<longleftrightarrow> \<not> lt_from a b n"
  by (induction a b n rule: ge_from.induct) auto

lemma bu_eq_iff: "length a = length b \<Longrightarrow> bu_eq a b \<longleftrightarrow> a = b"
  by (induction a b rule: list_induct2) auto

lemma bu_eq_refl [simp]: "bu_eq a a"
  by (simp add: bu_eq_iff)

lemma bu_lt_iff: "length a = length b \<Longrightarrow> bu_lt a b \<longleftrightarrow> uval a < uval b"
  by (simp add: bu_lt_def lt_from_iff)

lemma bu_le_iff: "length a = length b \<Longrightarrow> bu_le a b \<longleftrightarrow> uval a \<le> uval b"
  by (auto simp: bu_le_def le_from_iff lt_from_iff)

lemma bu_gt_iff: "length a = length b \<Longrightarrow> bu_gt a b \<longleftrightarrow> uval b < uval a"
  by (simp add: bu_gt_def gt_from_iff lt_from_iff)

lemma bu_ge_iff: "length a = length b \<Longrightarrow> bu_ge a b \<longleftrightarrow> uval b \<le> uval a"
  by (auto simp: bu_ge_def ge_from_iff lt_from_iff)

text \<open>On arrays of one width the four order operators and the two equality operators decide the
  comparison of the numbers the arrays hold.\<close>

theorem bu_compare_correct:
  assumes "length a = length b"
  shows "(bu_lt a b \<longleftrightarrow> uval a < uval b) \<and> (bu_le a b \<longleftrightarrow> uval a \<le> uval b) \<and>
    (bu_gt a b \<longleftrightarrow> uval b < uval a) \<and> (bu_ge a b \<longleftrightarrow> uval b \<le> uval a) \<and>
    (bu_eq a b \<longleftrightarrow> uval a = uval b) \<and> (bu_neq a b \<longleftrightarrow> uval a \<noteq> uval b)"
  using assms
  by (simp add: bu_lt_iff bu_le_iff bu_gt_iff bu_ge_iff bu_eq_iff bu_neq_def uval_inject)

theorem bu_compare_correct_witness:
  "bu_lt [7, 1] [5, 2] \<and> uval [7, 1] = 4294967303 \<and> uval [5, 2] = 8589934597"
  using bu_compare_correct [of "[7, 1]" "[5, 2]"] by simp

section \<open>Lemmas: arithmetic\<close>

lemma length_bu_ops [simp]:
  "length (bu_not a) = length a" "length (bu_neg a) = length a"
  "length (bu_plus a b) = min (length a) (length b)"
  "length (bu_minus a b) = min (length a) (length b)"
  by (simp_all add: bu_not_def bu_neg_def bu_plus_def bu_minus_def Let_def)

lemma uval_plus: "length a = length b \<Longrightarrow> uval (bu_plus a b) = (uval a + uval b) mod 2 ^ (32 * length a)"
  by (simp add: bu_plus_def uval_add_loop)

lemma uval_minus:
  assumes "length a = length b" and "a \<noteq> []"
  shows "uval (bu_minus a b) = (uval a + (2 ^ (32 * length a) - uval b)) mod 2 ^ (32 * length a)"
proof -
  have "b \<noteq> []" using assms by auto
  then show ?thesis
    using assms by (simp add: bu_minus_def uval_plus uval_neg mod_add_right_eq)
qed

text \<open>C36: Addition, subtraction, negation, increment and decrement are the arithmetic of the integers
  modulo \<open>2^BITS\<close> on the numbers the arrays hold, and keep the width.\<close>

theorem bu_arith_correct:
  assumes "length a = length b" and "a \<noteq> []"
  shows "int (uval (bu_plus a b)) = (int (uval a) + int (uval b)) mod 2 ^ (32 * length a) \<and>
    int (uval (bu_minus a b)) = (int (uval a) - int (uval b)) mod 2 ^ (32 * length a) \<and>
    int (uval (bu_neg a)) = (- int (uval a)) mod 2 ^ (32 * length a) \<and>
    int (uval (bu_inc a)) = (int (uval a) + 1) mod 2 ^ (32 * length a) \<and>
    int (uval (bu_dec a)) = (int (uval a) - 1) mod 2 ^ (32 * length a) \<and>
    length (bu_plus a b) = length a \<and> length (bu_minus a b) = length a"
proof -
  let ?P = "2 ^ (32 * length a) :: nat"
  have diff: "int ((m + (?P - n)) mod ?P) = (int m - int n) mod 2 ^ (32 * length a)"
    if "n \<le> ?P" for m n
  proof -
    have "int ((m + (?P - n)) mod ?P) = (int m + (2 ^ (32 * length a) - int n)) mod 2 ^ (32 * length a)"
      using that by (simp add: zmod_int of_nat_diff algebra_simps)
    also have "\<dots> = (int m - int n + 2 ^ (32 * length a)) mod 2 ^ (32 * length a)"
      by (simp add: algebra_simps)
    finally show ?thesis by simp
  qed
  have lt: "uval a < ?P" "uval b < ?P"
    using uval_bound assms(1) by metis+
  show ?thesis
    using assms diff [of "uval b" "uval a"] diff [of "uval a" 0] diff [of 1 "uval a"] lt
    by (simp add: uval_plus uval_minus uval_neg uval_inc uval_dec zmod_int add.commute [of 1])
qed

theorem bu_arith_correct_witness:
  "uval (bu_minus [0, 0, 1] [1, 0, 0]) = 18446744073709551615 \<and> bu_inc [-1, -1] = [0, 0]"
proof -
  have "int (uval (bu_minus [0, 0, 1] [1, 0, 0])) = 18446744073709551615"
    using bu_arith_correct [of "[0, 0, 1]" "[1, 0, 0]"] by simp
  then show ?thesis by simp
qed

section \<open>Lemmas: shifts\<close>

lemma bit_uval: "bit (uval xs) n \<longleftrightarrow> n div 32 < length xs \<and> bit (xs ! (n div 32)) (n mod 32)"
proof (induction xs arbitrary: n)
  case Nil
  then show ?case by simp
next
  case (Cons x xs)
  have t: "take_bit 32 (uval (x # xs)) = unat x" and d: "drop_bit 32 (uval (x # xs)) = uval xs"
    by (simp_all add: take_bit_eq_mod drop_bit_eq_div)
  show ?case
  proof (cases "n < 32")
    case True
    then have "bit (uval (x # xs)) n \<longleftrightarrow> bit (take_bit 32 (uval (x # xs))) n"
      by (simp only: bit_take_bit_iff) simp
    then show ?thesis
      using True by (simp only: t) (simp add: bit_unsigned_iff)
  next
    case False
    then obtain m where m: "n = 32 + m"
      by (metis le_Suc_ex not_less)
    then have "bit (uval (x # xs)) n \<longleftrightarrow> bit (drop_bit 32 (uval (x # xs))) m"
      by (simp only: bit_drop_bit_eq) (simp add: ac_simps)
    then show ?thesis
      by (simp only: d) (simp add: Cons.IH m div_add_self1 mod_add_self1)
  qed
qed

lemma shl_loop_nth:
  assumes "m \<le> length a" and "s < 32"
  shows "length (foldl (shl_step (length a) a k s) (replicate (length a) 0) [0..<m]) = length a \<and>
    (\<forall>j<length a. foldl (shl_step (length a) a k s) (replicate (length a) 0) [0..<m] ! j =
      (if k \<le> j \<and> j - k < m then push_bit s (a ! (j - k)) else 0) OR
      (if s \<noteq> 0 \<and> k < j \<and> j - k - 1 < m then drop_bit (32 - s) (a ! (j - k - 1)) else 0))"
  using assms(1)
proof (induction m)
  case 0
  then show ?case by simp
next
  case (Suc m)
  let ?pn = "foldl (shl_step (length a) a k s) (replicate (length a) 0) [0..<m]"
  from Suc have len: "length ?pn = length a"
    and IH: "\<And>j. j < length a \<Longrightarrow> ?pn ! j =
      (if k \<le> j \<and> j - k < m then push_bit s (a ! (j - k)) else 0) OR
      (if s \<noteq> 0 \<and> k < j \<and> j - k - 1 < m then drop_bit (32 - s) (a ! (j - k - 1)) else 0)"
    by auto
  have step: "foldl (shl_step (length a) a k s) (replicate (length a) 0) [0..<Suc m] =
      shl_step (length a) a k s ?pn m"
    by simp
  show ?case
    unfolding step
  proof (intro conjI allI impI)
    show "length (shl_step (length a) a k s ?pn m) = length a"
      using len by (simp add: shl_step_def Let_def)
    fix j assume j: "j < length a"
    consider "j = m + k" | "j = m + k + 1" | "j \<noteq> m + k" "j \<noteq> m + k + 1"
      by blast
    then show "shl_step (length a) a k s ?pn m ! j =
      (if k \<le> j \<and> j - k < Suc m then push_bit s (a ! (j - k)) else 0) OR
      (if s \<noteq> 0 \<and> k < j \<and> j - k - 1 < Suc m then drop_bit (32 - s) (a ! (j - k - 1)) else 0)"
    proof cases
      case 1
      then show ?thesis
        using j IH [of j] len by (auto simp: shl_step_def Let_def or.commute)
    next
      case 2
      then show ?thesis
        using j IH [of j] len by (auto simp: shl_step_def Let_def or.commute)
    next
      case 3
      then have "shl_step (length a) a k s ?pn m ! j = ?pn ! j"
        using j len by (auto simp: shl_step_def Let_def)
      moreover have "k \<le> j \<and> j - k < Suc m \<longleftrightarrow> k \<le> j \<and> j - k < m"
        and "k < j \<and> j - k - 1 < Suc m \<longleftrightarrow> k < j \<and> j - k - 1 < m"
        using 3 by auto
      ultimately show ?thesis
        using IH [OF j] by simp
    qed
  qed
qed

lemma bit_uval_split: "r < 32 \<Longrightarrow> bit (uval xs) (32 * j + r) \<longleftrightarrow> j < length xs \<and> bit (xs ! j) r"
  by (simp add: bit_uval)

lemma bit_u32_bound: "32 \<le> n \<Longrightarrow> \<not> bit (x :: u32) n"
  using bit_imp_le_length [of x n] by auto

lemma bit_uval_sub:
  assumes "r < 32" and "s < 32"
  shows "32 * k + s \<le> 32 * j + r \<and> bit (uval a) (32 * j + r - (32 * k + s)) \<longleftrightarrow>
    (k \<le> j \<and> s \<le> r \<and> j - k < length a \<and> bit (a ! (j - k)) (r - s)) \<or>
    (k < j \<and> r < s \<and> j - k - 1 < length a \<and> bit (a ! (j - k - 1)) (r + (32 - s)))"
proof (cases "s \<le> r")
  case True
  show ?thesis
  proof (cases "k \<le> j")
    case kj: True
    then have "32 * j + r - (32 * k + s) = 32 * (j - k) + (r - s)" using True by simp
    then show ?thesis using assms True kj bit_uval_split [of "r - s" a "j - k"] by simp
  next
    case False
    then show ?thesis using True assms by auto
  qed
next
  case False
  show ?thesis
  proof (cases "k < j")
    case kj: True
    then have "32 * j + r - (32 * k + s) = 32 * (j - k - 1) + (r + (32 - s))"
      using False assms by (simp add: algebra_simps)
    moreover have "r + (32 - s) < 32" and "32 * k + s \<le> 32 * j + r" using False assms kj by auto
    ultimately show ?thesis
      using assms False kj bit_uval_split [of "r + (32 - s)" a "j - k - 1"] by simp
  next
    case nk: False
    then show ?thesis using False assms by auto
  qed
qed

lemma length_bu_shl [simp]: "length (bu_shl a s) = length a"
  using shl_loop_nth [of "length a" a "unat s mod 32" "unat s div 32"]
  by (simp add: bu_shl_def Let_def)

lemma bu_shl_nth:
  assumes "j < length a"
  shows "bu_shl a s ! j =
    (if unat s div 32 \<le> j then push_bit (unat s mod 32) (a ! (j - unat s div 32)) else 0) OR
    (if unat s mod 32 \<noteq> 0 \<and> unat s div 32 < j
     then drop_bit (32 - unat s mod 32) (a ! (j - unat s div 32 - 1)) else 0)"
proof -
  have "j - unat s div 32 < length a" and "j - unat s div 32 - 1 < length a"
    using assms by auto
  with shl_loop_nth [of "length a" a "unat s mod 32" "unat s div 32"] assms show ?thesis
    unfolding bu_shl_def Let_def by (simp del: upt_Suc)
qed

text \<open>Bit \<open>32 j + r\<close> of a limb assembled from two neighbours.\<close>

lemma bit_two_limbs:
  fixes x y :: u32
  assumes "r < 32" and "s < 32"
  shows "bit ((if P then push_bit s x else 0) OR (if s \<noteq> 0 \<and> Q then drop_bit (32 - s) y else 0)) r \<longleftrightarrow>
    (P \<and> s \<le> r \<and> bit x (r - s)) \<or> (Q \<and> r < s \<and> bit y (r + (32 - s)))"
proof (cases "r < s")
  case True
  then show ?thesis
    by (auto simp: bit_or_iff bit_push_bit_iff bit_drop_bit_eq ac_simps)
next
  case False
  then have "\<not> bit y (r + (32 - s))"
    using assms by (intro bit_u32_bound) simp
  with False assms show ?thesis
    by (auto simp: bit_or_iff bit_push_bit_iff bit_drop_bit_eq ac_simps)
qed

lemma bit_uval_shl:
  assumes "r < 32" and "j < length a" and "unat sh = 32 * k + s" and "s < 32"
  shows "bit (uval (bu_shl a sh)) (32 * j + r) \<longleftrightarrow>
    32 * k + s \<le> 32 * j + r \<and> bit (uval a) (32 * j + r - (32 * k + s))"
proof -
  have k: "unat sh div 32 = k" and s: "unat sh mod 32 = s"
    using assms by simp_all
  have l: "j - k < length a" "j - k - 1 < length a"
    using assms by simp_all
  have "bit (uval (bu_shl a sh)) (32 * j + r) \<longleftrightarrow> bit (bu_shl a sh ! j) r"
    using assms by (simp add: bit_uval_split)
  also have "\<dots> \<longleftrightarrow> (k \<le> j \<and> s \<le> r \<and> bit (a ! (j - k)) (r - s)) \<or>
      (k < j \<and> r < s \<and> bit (a ! (j - k - 1)) (r + (32 - s)))"
    by (simp only: bu_shl_nth [OF assms(2)] k s bit_two_limbs [OF assms(1) assms(4)])
  also have "\<dots> \<longleftrightarrow> 32 * k + s \<le> 32 * j + r \<and> bit (uval a) (32 * j + r - (32 * k + s))"
    using l assms by (simp only: bit_uval_sub) simp
  finally show ?thesis .
qed

lemma uval_shl: "uval (bu_shl a sh) = (uval a * 2 ^ unat sh) mod 2 ^ (32 * length a)"
proof -
  define k s where "k = unat sh div 32" and "s = unat sh mod 32"
  have sh: "unat sh = 32 * k + s" "s < 32"
    by (simp_all add: k_def s_def)
  have "bit (uval (bu_shl a sh)) n \<longleftrightarrow> bit (take_bit (32 * length a) (push_bit (unat sh) (uval a))) n" for n
  proof -
    define j r where "j = n div 32" and "r = n mod 32"
    have n: "n = 32 * j + r" "r < 32"
      by (simp_all add: j_def r_def)
    show ?thesis
    proof (cases "j < length a")
      case True
      then have "n < 32 * length a" using n by simp
      then show ?thesis
        using bit_uval_shl [OF n(2) True sh]
        by (simp add: bit_take_bit_iff bit_push_bit_iff n(1) sh(1))
    next
      case False
      then have "\<not> n < 32 * length a" using n by simp
      with False show ?thesis
        by (simp add: bit_take_bit_iff bit_uval j_def)
    qed
  qed
  then have "uval (bu_shl a sh) = take_bit (32 * length a) (push_bit (unat sh) (uval a))"
    by (simp add: bit_eq_iff)
  then show ?thesis
    by (simp add: take_bit_eq_mod push_bit_eq_mult)
qed

lemma shr_loop_nth:
  assumes "m \<le> length a" and "s < 32"
  shows "length (foldl (shr_step a k s) (replicate (length a) 0) [0..<m]) = length a \<and>
    (\<forall>j<length a. foldl (shr_step a k s) (replicate (length a) 0) [0..<m] ! j =
      (if s \<noteq> 0 \<and> j + k + 1 < m then push_bit (32 - s) (a ! (j + k + 1)) else 0) OR
      (if j + k < m then drop_bit s (a ! (j + k)) else 0))"
  using assms(1)
proof (induction m)
  case 0
  then show ?case by simp
next
  case (Suc m)
  let ?pn = "foldl (shr_step a k s) (replicate (length a) 0) [0..<m]"
  from Suc have len: "length ?pn = length a"
    and IH: "\<And>j. j < length a \<Longrightarrow> ?pn ! j =
      (if s \<noteq> 0 \<and> j + k + 1 < m then push_bit (32 - s) (a ! (j + k + 1)) else 0) OR
      (if j + k < m then drop_bit s (a ! (j + k)) else 0)"
    by auto
  have step: "foldl (shr_step a k s) (replicate (length a) 0) [0..<Suc m] = shr_step a k s ?pn m"
    by simp
  show ?case
    unfolding step
  proof (intro conjI allI impI)
    show "length (shr_step a k s ?pn m) = length a"
      using len by (simp add: shr_step_def Let_def)
    fix j assume j: "j < length a"
    consider "m = j + k" | "m = j + k + 1" | "m \<noteq> j + k" "m \<noteq> j + k + 1"
      by blast
    then show "shr_step a k s ?pn m ! j =
      (if s \<noteq> 0 \<and> j + k + 1 < Suc m then push_bit (32 - s) (a ! (j + k + 1)) else 0) OR
      (if j + k < Suc m then drop_bit s (a ! (j + k)) else 0)"
    proof cases
      case 1
      then show ?thesis
        using j IH [of j] len by (auto simp: shr_step_def Let_def or.commute)
    next
      case 2
      then show ?thesis
        using j IH [of j] len by (auto simp: shr_step_def Let_def or.commute)
    next
      case 3
      then have "shr_step a k s ?pn m ! j = ?pn ! j"
        using j len by (auto simp: shr_step_def Let_def)
      moreover have "j + k + 1 < Suc m \<longleftrightarrow> j + k + 1 < m" and "j + k < Suc m \<longleftrightarrow> j + k < m"
        using 3 by auto
      ultimately show ?thesis
        using IH [OF j] by simp
    qed
  qed
qed

lemma length_bu_shr [simp]: "length (bu_shr a s) = length a"
  using shr_loop_nth [of "length a" a "unat s mod 32" "unat s div 32"]
  by (simp add: bu_shr_def Let_def)

lemma bu_shr_nth:
  assumes "j < length a"
  shows "bu_shr a sh ! j =
    (if unat sh mod 32 \<noteq> 0 \<and> j + unat sh div 32 + 1 < length a
     then push_bit (32 - unat sh mod 32) (a ! (j + unat sh div 32 + 1)) else 0) OR
    (if j + unat sh div 32 < length a then drop_bit (unat sh mod 32) (a ! (j + unat sh div 32)) else 0)"
  using shr_loop_nth [of "length a" a "unat sh mod 32" "unat sh div 32"] assms
  unfolding bu_shr_def Let_def by (simp del: upt_Suc)

lemma bit_two_limbs':
  fixes x y :: u32
  assumes "r < 32" and "s < 32"
  shows "bit ((if s \<noteq> 0 \<and> Q then push_bit (32 - s) y else 0) OR (if P then drop_bit s x else 0)) r \<longleftrightarrow>
    (P \<and> r + s < 32 \<and> bit x (r + s)) \<or> (Q \<and> 32 \<le> r + s \<and> bit y (r + s - 32))"
proof (cases "r + s < 32")
  case True
  then show ?thesis
    by (auto simp: bit_or_iff bit_push_bit_iff bit_drop_bit_eq ac_simps)
next
  case False
  then have "\<not> bit x (r + s)"
    by (intro bit_u32_bound) simp
  with False assms show ?thesis
    by (auto simp: bit_or_iff bit_push_bit_iff bit_drop_bit_eq ac_simps)
qed

lemma bit_uval_shr:
  assumes "r < 32" and "j < length a" and "unat sh = 32 * k + s" and "s < 32"
  shows "bit (uval (bu_shr a sh)) (32 * j + r) \<longleftrightarrow> bit (uval a) (32 * k + s + (32 * j + r))"
proof -
  have k: "unat sh div 32 = k" and s: "unat sh mod 32 = s"
    using assms by simp_all
  have "bit (uval (bu_shr a sh)) (32 * j + r) \<longleftrightarrow> bit (bu_shr a sh ! j) r"
    using assms by (simp add: bit_uval_split)
  also have "\<dots> \<longleftrightarrow> (j + k < length a \<and> r + s < 32 \<and> bit (a ! (j + k)) (r + s)) \<or>
      (j + k + 1 < length a \<and> 32 \<le> r + s \<and> bit (a ! (j + k + 1)) (r + s - 32))"
    by (simp only: bu_shr_nth [OF assms(2)] k s bit_two_limbs' [OF assms(1) assms(4)])
  also have "\<dots> \<longleftrightarrow> bit (uval a) (32 * k + s + (32 * j + r))"
  proof (cases "r + s < 32")
    case True
    have "32 * k + s + (32 * j + r) = 32 * (j + k) + (r + s)" by simp
    with True show ?thesis by (simp only: bit_uval_split) simp
  next
    case False
    then have "32 * k + s + (32 * j + r) = 32 * (j + k + 1) + (r + s - 32)" and "r + s - 32 < 32"
      using assms by simp_all
    with False show ?thesis by (simp only: bit_uval_split) simp
  qed
  finally show ?thesis .
qed

lemma uval_shr: "uval (bu_shr a sh) = uval a div 2 ^ unat sh"
proof -
  define k s where "k = unat sh div 32" and "s = unat sh mod 32"
  have sh: "unat sh = 32 * k + s" "s < 32"
    by (simp_all add: k_def s_def)
  have "bit (uval (bu_shr a sh)) n \<longleftrightarrow> bit (drop_bit (unat sh) (uval a)) n" for n
  proof -
    define j r where "j = n div 32" and "r = n mod 32"
    have n: "n = 32 * j + r" "r < 32"
      by (simp_all add: j_def r_def)
    show ?thesis
    proof (cases "j < length a")
      case True
      then show ?thesis
        using bit_uval_shr [OF n(2) True sh] by (simp add: bit_drop_bit_eq n(1) sh(1) ac_simps)
    next
      case False
      have "j \<le> (unat sh + n) div 32"
        unfolding j_def by (intro div_le_mono) simp
      with False have "\<not> (unat sh + n) div 32 < length a" by simp
      with False show ?thesis
        by (simp add: bit_drop_bit_eq bit_uval j_def)
    qed
  qed
  then have "uval (bu_shr a sh) = drop_bit (unat sh) (uval a)"
    by (simp add: bit_eq_iff)
  then show ?thesis
    by (simp add: drop_bit_eq_div)
qed

text \<open>Shifting left multiplies by a power of two modulo \<open>2^BITS\<close>, shifting right divides by it,
  for every shift count, including counts that reach past the width.\<close>

theorem bu_shift_correct:
  "uval (bu_shl a sh) = (uval a * 2 ^ unat sh) mod 2 ^ (32 * length a) \<and>
   uval (bu_shr a sh) = uval a div 2 ^ unat sh \<and>
   length (bu_shl a sh) = length a \<and> length (bu_shr a sh) = length a"
  by (simp add: uval_shl uval_shr)

lemma le_val_append: "le_val (xs @ ys) = le_val xs + 256 ^ length xs * le_val ys"
  by (induction xs) (auto simp: algebra_simps)

lemma length_bu_bytes [simp]: "length (bu_bytes pn) = 4 * length pn"
  by (induction pn) (auto simp: bu_bytes_def)

lemma le_val_u32: "le_val (le_bytes 4 (unat (x :: u32))) = unat x"
  using unat_u32_less' [of x] by (intro le_val_le_bytes) simp

lemma bu_bytes_Cons: "bu_bytes (x # pn) = le_bytes 4 (unat x) @ bu_bytes pn"
  by (simp add: bu_bytes_def)

lemma le_val_bu_bytes [codec_simps]: "le_val (bu_bytes pn) = uval pn"
  by (induction pn) (simp_all add: bu_bytes_Cons le_val_append le_val_u32, simp add: bu_bytes_def)

lemma bu_of_bytes_bu_bytes [codec_simps]: "bu_of_bytes (length pn) (bu_bytes pn) = pn"
  by (induction pn) (simp_all add: bu_bytes_Cons le_val_u32)

lemma bu_of_vector_bu_bytes [codec_simps]: "length pn = w \<Longrightarrow> bu_of_vector w (bu_bytes pn) = pn"
  using bu_of_bytes_bu_bytes [of pn] by (simp add: bu_of_vector_def)

lemma hex_char_cases:
  assumes "d < 16"
  shows "phexdigit (hex_char d) = word_of_nat d" and "\<not> isspace (hex_char d)"
    and "is_hexdigit (hex_char d)"
    and "hex_char d \<noteq> CHR ''x''" and "hex_char d \<noteq> CHR ''X''"
proof -
  have n: "(of_char (hex_char d) :: nat) = (if d < 10 then 48 + d else 87 + d)"
    using assms by (simp add: hex_char_def)
  have ne: "hex_char d \<noteq> c" if "of_char c = m" "m \<noteq> (if d < 10 then 48 + d else 87 + d)" for c m
    using n that by auto
  show p: "phexdigit (hex_char d) = word_of_nat d"
    unfolding phexdigit_def Let_def n using assms by (cases "d = 0"; cases "d < 10") simp_all
  show "\<not> isspace (hex_char d)"
    unfolding isspace_def Let_def n by simp
  show "hex_char d \<noteq> CHR ''x''" "hex_char d \<noteq> CHR ''X''"
    using assms by (auto intro!: ne [OF refl] split: if_splits)
  show "is_hexdigit (hex_char d)"
  proof (cases "d = 0")
    case True
    then have "(of_char (hex_char d) :: nat) = of_char CHR ''0''" using n by simp
    then have "hex_char d = CHR ''0''" by (simp only: of_char_eq_iff)
    then show ?thesis by (simp add: is_hexdigit_def)
  next
    case False
    then show ?thesis using assms by (simp add: is_hexdigit_def p word_unat_eq_iff unat_of_nat)
  qed
qed

lemma hex2_nibbles: "unat (b :: byte) div 16 < 16" "unat b mod 16 < 16"
  using unat_byte_less [of b] by (simp_all add: div_less_iff_less_mult)

definition nibbles :: "byte \<Rightarrow> byte list" where
  "nibbles b = [word_of_nat (unat b mod 16), word_of_nat (unat b div 16)]"

lemma nibbles_join:
  "(word_of_nat (unat (b :: byte) mod 16) OR push_bit 4 (word_of_nat (unat b div 16)) :: byte) = b"
proof -
  have "word_of_nat (unat b mod 16) = take_bit 4 b"
    by (simp add: word_unat_eq_iff unat_of_nat take_bit_eq_mod unat_mod)
  moreover have "word_of_nat (unat b div 16) = drop_bit 4 b"
    using hex2_nibbles(1) [of b] by (simp add: word_unat_eq_iff unat_of_nat drop_bit_eq_div unat_div)
  moreover have "take_bit 4 b OR push_bit 4 (drop_bit 4 b) = b"
    by (rule take_drop_bit_or)
  ultimately show ?thesis by simp
qed

lemma fill_nibbles_bytes: "fill_nibbles (length bs) (concat (map nibbles bs)) = bs"
  by (induction bs) (simp_all add: nibbles_def nibbles_join)

lemma rev_hex_nibbles: "rev (map phexdigit (concat (map hex2 (rev bs)))) = concat (map nibbles bs)"
  by (induction bs) (simp_all add: hex2_def nibbles_def hex_char_cases hex2_nibbles)

lemma hex_digits_all:
  "list_all is_hexdigit (concat (map hex2 bs))"
  by (induction bs) (simp_all add: hex2_def hex_char_cases hex2_nibbles)

lemma takeWhile_all: "list_all P xs \<Longrightarrow> takeWhile P xs = xs"
  by (simp add: list_all_iff takeWhile_eq_all_conv)

lemma skip_space:
  "list_all isspace ws \<Longrightarrow> (\<And>c r. s = c # r \<Longrightarrow> \<not> isspace c) \<Longrightarrow> dropWhile isspace (ws @ s) = s"
  by (induction ws) (auto simp: neq_Nil_conv dropWhile_eq_self_iff)

lemma GetHex_head: "GetHex pn = c # r \<Longrightarrow> \<not> isspace c"
  by (cases "rev (bu_bytes pn)") (auto simp: GetHex_def hex2_def hex_char_cases hex2_nibbles)

lemma skip_0x_GetHex: "skip_0x (GetHex pn) = GetHex pn"
  by (cases "rev (bu_bytes pn)")
    (simp_all add: GetHex_def hex2_def skip_0x_def hex_char_cases hex2_nibbles)

lemma SetHex_digits:
  assumes "dropWhile isspace s = s'" and "skip_0x s' = GetHex a"
  shows "SetHex (length a) s = a"
  using fill_nibbles_bytes [of "bu_bytes a"] assms
  by (simp add: SetHex_def GetHex_def takeWhile_all hex_digits_all rev_hex_nibbles bu_of_bytes_bu_bytes)

text \<open>\<open>SetHex\<close> reads back what \<open>GetHex\<close> prints, after any white space and with or without
  the prefix \<open>0x\<close>; the vector constructor reads back the bytes of the array, and the bytes are the
  little-endian code of the number.\<close>

theorem hex_roundtrip:
  assumes "list_all isspace ws"
  shows "SetHex (length a) (ws @ GetHex a) = a \<and>
    SetHex (length a) (ws @ CHR ''0'' # CHR ''x'' # GetHex a) = a \<and>
    bu_of_vector (length a) (bu_bytes a) = a \<and> le_val (bu_bytes a) = uval a \<and>
    length (GetHex a) = 8 * length a"
proof (intro conjI)
  show "SetHex (length a) (ws @ GetHex a) = a"
    by (rule SetHex_digits [OF skip_space [OF assms] skip_0x_GetHex]) (rule GetHex_head)
  have "\<not> isspace CHR ''0''"
    by code_simp
  then have "dropWhile isspace (ws @ CHR ''0'' # CHR ''x'' # GetHex a) = CHR ''0'' # CHR ''x'' # GetHex a"
    by (intro skip_space [OF assms]) auto
  then show "SetHex (length a) (ws @ CHR ''0'' # CHR ''x'' # GetHex a) = a"
    by (rule SetHex_digits) (simp add: skip_0x_def)
  have "length (concat (map hex2 bs)) = 2 * length bs" for bs
    by (induction bs) (simp_all add: hex2_def)
  then show "length (GetHex a) = 8 * length a"
    by (simp add: GetHex_def)
qed (simp_all add: codec_simps)

theorem hex_roundtrip_witness:
  "SetHex 2 ('' '' @ GetHex [255, 16]) = [255, 16] \<and> GetHex [255, 16] = ''00000010000000ff''"
proof -
  have "list_all isspace '' ''" by code_simp
  then have "SetHex 2 ('' '' @ GetHex [255, 16]) = [255, 16]"
    using hex_roundtrip [of "'' ''" "[255, 16]"] by (simp add: numeral_2_eq_2)
  moreover have "GetHex [255, 16] = ''00000010000000ff''" by code_simp
  ultimately show ?thesis ..
qed

end
