(* ===== verification/Keys.thy ===== *)
theory Keys
  imports Serialize Uint256
begin

text \<open>
  Hashing (\<open>hash.h\<close>), public and private keys (\<open>key.h\<close>, \<open>key.cpp\<close>).  The digests and the elliptic
  curve operations of OpenSSL are parameters: \<open>crypto\<close> is the record of the functions the code calls,
  over any type of \<open>EC_KEY\<close>s.  A public key is the 65-byte array of the class, whose first byte
  decides how many of the bytes count.  The compact signatures, whose key recovery is written against
  the point arithmetic of OpenSSL, are not modelled.
\<close>

section \<open>The library\<close>

record 'k crypto =
  SHA256 :: "byte list \<Rightarrow> byte list"
  RIPEMD160 :: "byte list \<Rightarrow> byte list"
  SHA1 :: "byte list \<Rightarrow> byte list"
  o2i_ECPublicKey :: "byte list \<Rightarrow> 'k option"
  i2o_ECPublicKey :: "bool \<Rightarrow> 'k \<Rightarrow> byte list"
  EC_KEY_of_secret :: "byte list \<Rightarrow> 'k"
  ECDSA_sign :: "byte list \<Rightarrow> 'k \<Rightarrow> byte list"
  ECDSA_verify :: "byte list \<Rightarrow> byte list \<Rightarrow> 'k \<Rightarrow> int"

section \<open>Hashing\<close>

definition Hash :: "('k, 'x) crypto_scheme \<Rightarrow> byte list \<Rightarrow> uint256" where
  "Hash C b =
     (let hash1 = SHA256 C b; hash2 = SHA256 C hash1 in bu_of_bytes WIDTH256 hash2)"

definition Hash2 :: "('k, 'x) crypto_scheme \<Rightarrow> byte list \<Rightarrow> byte list \<Rightarrow> uint256" where
  "Hash2 C b1 b2 =
     (let hash1 = SHA256 C (b1 @ b2); hash2 = SHA256 C hash1 in bu_of_bytes WIDTH256 hash2)"

definition Hash3 :: "('k, 'x) crypto_scheme \<Rightarrow> byte list \<Rightarrow> byte list \<Rightarrow> byte list \<Rightarrow> uint256" where
  "Hash3 C b1 b2 b3 =
     (let hash1 = SHA256 C (b1 @ b2 @ b3); hash2 = SHA256 C hash1 in bu_of_bytes WIDTH256 hash2)"

text \<open>\<open>CHashWriter\<close>: the bytes written so far.\<close>

type_synonym hash_writer = "byte list"

definition hw_init :: hash_writer where "hw_init = []"

definition hw_write :: "hash_writer \<Rightarrow> byte list \<Rightarrow> hash_writer" where
  "hw_write ctx pch = ctx @ pch"

definition hw_GetHash :: "('k, 'x) crypto_scheme \<Rightarrow> hash_writer \<Rightarrow> uint256" where
  "hw_GetHash C ctx =
     (let hash1 = SHA256 C ctx; hash2 = SHA256 C hash1 in bu_of_bytes WIDTH256 hash2)"

definition SerializeHash :: "('k, 'x) crypto_scheme \<Rightarrow> ('a \<Rightarrow> byte list) \<Rightarrow> 'a \<Rightarrow> uint256" where
  "SerializeHash C ser obj = (let ss = hw_write hw_init (ser obj) in hw_GetHash C ss)"

definition Hash160 :: "('k, 'x) crypto_scheme \<Rightarrow> byte list \<Rightarrow> uint160" where
  "Hash160 C b =
     (let hash1 = SHA256 C b; hash2 = RIPEMD160 C hash1 in bu_of_bytes WIDTH160 hash2)"

section \<open>Public keys\<close>

type_synonym CKeyID = uint160
type_synonym CScriptID = uint160

record CPubKey =
  pk_vch :: "byte list"

definition pk_GetLen :: "byte \<Rightarrow> nat" where
  "pk_GetLen chHeader =
     (if chHeader = 2 \<or> chHeader = 3 then 33
      else if chHeader = 4 \<or> chHeader = 6 \<or> chHeader = 7 then 65 else 0)"

definition pk_Invalidate :: "CPubKey \<Rightarrow> CPubKey" where
  "pk_Invalidate k = k\<lparr>pk_vch := (pk_vch k)[0 := 0xFF]\<rparr>"

text \<open>The 65 bytes of a key under construction; the code leaves them as they are in memory.\<close>
definition pk_memory :: CPubKey where
  "pk_memory = \<lparr>pk_vch = replicate 65 0\<rparr>"

definition pk_invalid :: CPubKey where
  "pk_invalid = pk_Invalidate pk_memory"

definition pk_Set :: "CPubKey \<Rightarrow> byte list \<Rightarrow> CPubKey" where
  "pk_Set k bs =
     (let len = (if bs = [] then 0 else pk_GetLen (bs ! 0))
      in if len \<noteq> 0 \<and> len = length bs then k\<lparr>pk_vch := take len bs @ drop len (pk_vch k)\<rparr>
         else pk_Invalidate k)"

definition pk_of_vch :: "byte list \<Rightarrow> CPubKey" where
  "pk_of_vch bs = pk_Set pk_memory bs"

definition pk_size :: "CPubKey \<Rightarrow> nat" where
  "pk_size k = pk_GetLen (pk_vch k ! 0)"

definition pk_bytes :: "CPubKey \<Rightarrow> byte list" where
  "pk_bytes k = take (pk_size k) (pk_vch k)"

fun memcmp :: "byte list \<Rightarrow> byte list \<Rightarrow> nat \<Rightarrow> int" where
  "memcmp (x # xs) (y # ys) (Suc n) = (if x < y then -1 else if x > y then 1 else memcmp xs ys n)"
| "memcmp _ _ _ = 0"

definition pk_eq :: "CPubKey \<Rightarrow> CPubKey \<Rightarrow> bool" where
  "pk_eq a b = (pk_vch a ! 0 = pk_vch b ! 0 \<and> memcmp (pk_vch a) (pk_vch b) (pk_size a) = 0)"

definition pk_neq :: "CPubKey \<Rightarrow> CPubKey \<Rightarrow> bool" where
  "pk_neq a b = (\<not> pk_eq a b)"

definition pk_lt :: "CPubKey \<Rightarrow> CPubKey \<Rightarrow> bool" where
  "pk_lt a b =
     (pk_vch a ! 0 < pk_vch b ! 0 \<or>
      (pk_vch a ! 0 = pk_vch b ! 0 \<and> memcmp (pk_vch a) (pk_vch b) (pk_size a) < 0))"

definition pk_GetSerializeSize :: "CPubKey \<Rightarrow> u32" where
  "pk_GetSerializeSize k = word_of_nat (pk_size k) + 1"

definition ser_pubkey :: "CPubKey \<Rightarrow> byte list" where
  "ser_pubkey k =
     (let len = pk_size k in WriteCompactSize (word_of_nat len) @ take len (pk_vch k))"

text \<open>Reading into a key overwrites a prefix of its bytes; a longer code is skipped byte by byte.\<close>
definition unser_pubkey :: "CPubKey \<Rightarrow> CPubKey reader" where
  "unser_pubkey k =
     rbind ReadCompactSize (\<lambda>n.
     let len = unat n
     in if len \<le> 65
        then rbind (read_bytes len) (\<lambda>b. rreturn (k\<lparr>pk_vch := b @ drop len (pk_vch k)\<rparr>))
        else rbind (read_times (read_bytes 1) len) (\<lambda>_. rreturn (pk_Invalidate k)))"

definition pk_GetID :: "('k, 'x) crypto_scheme \<Rightarrow> CPubKey \<Rightarrow> CKeyID" where
  "pk_GetID C k = Hash160 C (pk_bytes k)"

definition pk_GetHash :: "('k, 'x) crypto_scheme \<Rightarrow> CPubKey \<Rightarrow> uint256" where
  "pk_GetHash C k = Hash C (pk_bytes k)"

definition pk_IsValid :: "CPubKey \<Rightarrow> bool" where
  "pk_IsValid k = (pk_size k > 0)"

definition pk_IsCompressed :: "CPubKey \<Rightarrow> bool" where
  "pk_IsCompressed k = (pk_size k = 33)"

definition pk_GetHex :: "CPubKey \<Rightarrow> string" where
  "pk_GetHex k = concat (map hex2 (take (pk_size k) (pk_vch k)))"

text \<open>The bytes two hexadecimal digits at a time, high digit first, until the digits or the \<open>WIDTH\<close>
  bytes run out.\<close>
fun hex_pairs :: "nat \<Rightarrow> byte list \<Rightarrow> byte list \<Rightarrow> byte list" where
  "hex_pairs 0 ds v = v"
| "hex_pairs (Suc n) [] v = v"
| "hex_pairs (Suc n) [d] v = push_bit 4 d # tl v"
| "hex_pairs (Suc n) (d # d' # ds) v = (push_bit 4 d OR d') # hex_pairs n ds (tl v)"

text \<open>\<open>None\<close> is the write past the array, when \<open>WIDTH\<close> is 65 or more.\<close>
definition pk_SetHex :: "CPubKey \<Rightarrow> string \<Rightarrow> nat \<Rightarrow> (bool \<times> CPubKey) option" where
  "pk_SetHex k hex width =
     (if width \<ge> length (pk_vch k) then None
      else (let vch = replicate (width + 1) 0xFF @ drop (width + 1) (pk_vch k);
                k = k\<lparr>pk_vch := vch\<rparr>;
                hex = dropWhile isspace hex
            in case hex of
                 c # c' # _ \<Rightarrow>
                   if c = CHR ''f'' \<and> (c' = CHR ''f'' \<or> c' = CHR ''F'') then Some (False, pk_Invalidate k)
                   else (let ds = map phexdigit (takeWhile is_hexdigit hex);
                             k = k\<lparr>pk_vch := hex_pairs width ds (pk_vch k)\<rparr>
                         in Some (pk_IsValid k, k))
               | _ \<Rightarrow> (let ds = map phexdigit (takeWhile is_hexdigit hex);
                         k = k\<lparr>pk_vch := hex_pairs width ds (pk_vch k)\<rparr>
                     in Some (pk_IsValid k, k))))"

section \<open>Elliptic curve operations\<close>

definition ec_SetPubKey :: "('k, 'x) crypto_scheme \<Rightarrow> CPubKey \<Rightarrow> 'k option" where
  "ec_SetPubKey C pubkey = o2i_ECPublicKey C (take (pk_size pubkey) (pk_vch pubkey))"

definition ec_GetPubKey :: "('k, 'x) crypto_scheme \<Rightarrow> 'k \<Rightarrow> CPubKey \<Rightarrow> bool \<Rightarrow> CPubKey" where
  "ec_GetPubKey C key pubkey fCompressed = pk_Set pubkey (i2o_ECPublicKey C fCompressed key)"

definition ec_Verify :: "('k, 'x) crypto_scheme \<Rightarrow> 'k \<Rightarrow> uint256 \<Rightarrow> byte list \<Rightarrow> bool" where
  "ec_Verify C key hash vchSig =
     (if ECDSA_verify C (bu_bytes hash) vchSig key \<noteq> 1 then False else True)"

definition pk_Verify :: "('k, 'x) crypto_scheme \<Rightarrow> CPubKey \<Rightarrow> uint256 \<Rightarrow> byte list \<Rightarrow> bool" where
  "pk_Verify C k hash vchSig =
     (if \<not> pk_IsValid k then False
      else case ec_SetPubKey C k of None \<Rightarrow> False
      | Some key \<Rightarrow> if \<not> ec_Verify C key hash vchSig then False else True)"

definition pk_IsFullyValid :: "('k, 'x) crypto_scheme \<Rightarrow> CPubKey \<Rightarrow> bool" where
  "pk_IsFullyValid C k =
     (if \<not> pk_IsValid k then False
      else case ec_SetPubKey C k of None \<Rightarrow> False | Some key \<Rightarrow> True)"

definition pk_Decompress :: "('k, 'x) crypto_scheme \<Rightarrow> CPubKey \<Rightarrow> bool \<times> CPubKey" where
  "pk_Decompress C k =
     (if \<not> pk_IsValid k then (False, k)
      else case ec_SetPubKey C k of None \<Rightarrow> (False, k)
      | Some key \<Rightarrow> (True, ec_GetPubKey C key k False))"

section \<open>Private keys\<close>

record CKey =
  fValid :: bool
  fCompressed :: bool
  ck_vch :: "byte list"

definition vchMax :: "byte list" where
  "vchMax =
     [0xFF,0xFF,0xFF,0xFF,0xFF,0xFF,0xFF,0xFF, 0xFF,0xFF,0xFF,0xFF,0xFF,0xFF,0xFF,0xFE,
      0xBA,0xAE,0xDC,0xE6,0xAF,0x48,0xA0,0x3B, 0xBF,0xD2,0x5E,0x8C,0xD0,0x36,0x41,0x40]"

fun all_zero :: "byte list \<Rightarrow> bool" where
  "all_zero [] = True"
| "all_zero (c # vch) = (if c \<noteq> 0 then False else all_zero vch)"

fun check_max :: "byte list \<Rightarrow> byte list \<Rightarrow> bool" where
  "check_max (c # vch) (m # ms) = (if c < m then True else if c > m then False else check_max vch ms)"
| "check_max _ _ = True"

definition CKey_Check :: "byte list \<Rightarrow> bool" where
  "CKey_Check vch =
     (let fIsZero = all_zero (take 32 vch) in if fIsZero then False else check_max (take 32 vch) vchMax)"

definition CKey_Set :: "CKey \<Rightarrow> byte list \<Rightarrow> bool \<Rightarrow> CKey" where
  "CKey_Set k bs fCompressedIn =
     (if length bs \<noteq> 32 then k\<lparr>fValid := False\<rparr>
      else if CKey_Check bs then k\<lparr>ck_vch := bs, fValid := True, fCompressed := fCompressedIn\<rparr>
      else k\<lparr>fValid := False\<rparr>)"

text \<open>A key is written as the memory of the object: the two flags and the 32 bytes.  Reading one back does
  not check it.\<close>
definition CKey_GetSerializeSize :: nat where "CKey_GetSerializeSize = 34"

definition CKey_memory :: "CKey \<Rightarrow> byte list" where
  "CKey_memory k = (if fValid k then 1 else 0) # (if fCompressed k then 1 else 0) # ck_vch k"

definition ser_ckey :: "CKey \<Rightarrow> byte list" where
  "ser_ckey k =
     (let len = CKey_GetSerializeSize; tmp = CKey_memory k in WriteCompactSize (word_of_nat len) @ tmp)"

definition unser_ckey :: "CKey \<Rightarrow> CKey reader" where
  "unser_ckey k =
     rbind ReadCompactSize (\<lambda>n.
     let len = unat n
     in if len = CKey_GetSerializeSize
        then rbind (read_bytes len) (\<lambda>tmp.
               rreturn \<lparr>fValid = (tmp ! 0 \<noteq> 0), fCompressed = (tmp ! 1 \<noteq> 0), ck_vch = drop 2 tmp\<rparr>)
        else rreturn (k\<lparr>fValid := False\<rparr>))"

definition CKey_size :: "CKey \<Rightarrow> nat" where
  "CKey_size k = (if fValid k then 32 else 0)"

text \<open>The loop of \<open>MakeNewKey\<close> on the draws of the random generator, the \<open>i\<close>-th one of the loop being
  \<open>draws i\<close>; \<open>None\<close> when it never ends.\<close>
partial_function (option) draw_key :: "(nat \<Rightarrow> byte list) \<Rightarrow> nat \<Rightarrow> byte list option" where
  "draw_key draws i = (let vch = draws i in if \<not> CKey_Check vch then draw_key draws (i + 1) else Some vch)"

definition CKey_MakeNewKey :: "(nat \<Rightarrow> byte list) \<Rightarrow> CKey \<Rightarrow> bool \<Rightarrow> CKey option" where
  "CKey_MakeNewKey draws k fCompressedIn =
     (case draw_key draws 0 of None \<Rightarrow> None
      | Some vch \<Rightarrow> Some (k\<lparr>ck_vch := vch, fValid := True, fCompressed := fCompressedIn\<rparr>))"

definition CKey_GetPubKey :: "('k, 'x) crypto_scheme \<Rightarrow> CKey \<Rightarrow> CPubKey" where
  "CKey_GetPubKey C k =
     (if \<not> fValid k then pk_invalid
      else let key = EC_KEY_of_secret C (ck_vch k) in ec_GetPubKey C key pk_invalid (fCompressed k))"

definition CKey_Sign :: "('k, 'x) crypto_scheme \<Rightarrow> CKey \<Rightarrow> uint256 \<Rightarrow> byte list option" where
  "CKey_Sign C k hash =
     (if \<not> fValid k then None
      else let key = EC_KEY_of_secret C (ck_vch k) in Some (ECDSA_sign C (bu_bytes hash) key))"

section \<open>An instance to evaluate\<close>

text \<open>Functions with the shapes of the library's, so that the operations can be evaluated on examples; no
  property rests on them.\<close>
definition example_crypto :: "byte list crypto" where
  "example_crypto =
     \<lparr>SHA256 = (\<lambda>b. take 32 (b @ replicate 32 (word_of_nat (length b)))),
      RIPEMD160 = (\<lambda>b. take 20 (b @ replicate 20 (word_of_nat (length b)))),
      SHA1 = (\<lambda>b. take 20 (b @ replicate 20 (word_of_nat (length b) + 1))),
      o2i_ECPublicKey = (\<lambda>b. if b = [] then None else Some (take 32 (tl b))),
      i2o_ECPublicKey = (\<lambda>c k. if c then 2 # k else 4 # k @ k),
      EC_KEY_of_secret = (\<lambda>k. k),
      ECDSA_sign = (\<lambda>h k. h @ k),
      ECDSA_verify = (\<lambda>h s k. if s = h @ k then 1 else 0)\<rparr>"

section \<open>Secret keys in range\<close>

text \<open>A byte string as the number it writes with its most significant byte first.\<close>
fun be_val :: "byte list \<Rightarrow> nat" where
  "be_val [] = 0"
| "be_val (b # bs) = unat b * 256 ^ length bs + be_val bs"

lemma be_val_bound: "be_val bs < 256 ^ length bs"
proof (induction bs)
  case (Cons b bs)
  have "Suc (unat b) * 256 ^ length bs \<le> 256 * 256 ^ length bs"
    using unat_byte_less [of b] by (intro mult_le_mono1) (simp only: Suc_le_eq)
  with Cons.IH show ?case
    unfolding be_val.simps list.size(4) add_Suc_right add_0_right power_Suc mult_Suc by linarith
qed simp

lemma all_zero_be_val: "all_zero bs \<longleftrightarrow> be_val bs = 0"
  by (induction bs) (auto simp: unat_eq_zero)

lemma be_val_less:
  assumes "unat b < unat m" and "length bs = length ms"
  shows "be_val (b # bs) < be_val (m # ms)"
proof -
  have "Suc (unat b) * 256 ^ length ms \<le> unat m * 256 ^ length ms"
    using assms(1) by (intro mult_le_mono1) simp
  then show ?thesis using be_val_bound [of bs] assms(2) by simp
qed

lemma check_max_be_val: "length bs = length ms \<Longrightarrow> check_max bs ms \<longleftrightarrow> be_val bs \<le> be_val ms"
proof (induction bs ms rule: list_induct2)
  case (Cons b bs m ms)
  consider "b < m" | "b > m" | "b = m" by fastforce
  then show ?case
  proof cases
    case 1
    then show ?thesis using be_val_less [of b m bs ms] Cons by (simp add: word_less_nat_alt)
  next
    case 2
    then show ?thesis using be_val_less [of m b ms bs] Cons by (simp add: word_less_nat_alt not_le)
  qed (use Cons in simp)
qed simp

lemma be_val_vchMax:
  "be_val vchMax = 0xFFFFFFFFFFFFFFFFFFFFFFFFFFFFFFFEBAAEDCE6AF48A03BBFD25E8CD0364141 - 1"
  by (simp add: vchMax_def)

lemma draw_key_first:
  assumes "CKey_Check (draws n)" and "\<And>j. j < n \<Longrightarrow> i \<le> j \<Longrightarrow> \<not> CKey_Check (draws j)" and "i \<le> n"
  shows "draw_key draws i = Some (draws n)"
  using assms(3,2)
proof (induction rule: inc_induct)
  case base
  then show ?case using assms(1) by (subst draw_key.simps) simp
next
  case (step j)
  then show ?case by (subst draw_key.simps) (simp add: Let_def)
qed

text \<open>C32: A secret is accepted exactly when its 32 bytes, most significant first, write a number between 1 and the order of the group minus one.
  Making a key takes the first acceptable draw of the generator, and the key made is the one that setting the draw makes.\<close>

theorem CKey_Check_exact:
  assumes "\<And>i. length (draws i) = 32"
    and "CKey_Check (draws n)" and "\<And>j. j < n \<Longrightarrow> \<not> CKey_Check (draws j)"
  shows "(CKey_Check (draws i) \<longleftrightarrow>
        0 < be_val (draws i) \<and>
        be_val (draws i) < 0xFFFFFFFFFFFFFFFFFFFFFFFFFFFFFFFEBAAEDCE6AF48A03BBFD25E8CD0364141)
    \<and> CKey_MakeNewKey draws k c = Some (CKey_Set k (draws n) c)
    \<and> fValid (CKey_Set k (draws n) c)
    \<and> fValid (CKey_Set k bs c) = (length bs = 32 \<and> CKey_Check bs)"
proof (intro conjI)
  show "CKey_Check (draws i) \<longleftrightarrow>
      0 < be_val (draws i) \<and>
      be_val (draws i) < 0xFFFFFFFFFFFFFFFFFFFFFFFFFFFFFFFEBAAEDCE6AF48A03BBFD25E8CD0364141"
  proof -
    have len: "length (draws i) = length vchMax" using assms(1) by (simp add: vchMax_def)
    show ?thesis
      using check_max_be_val [OF len] assms(1)
      by (auto simp: CKey_Check_def all_zero_be_val be_val_vchMax)
  qed
  show "CKey_MakeNewKey draws k c = Some (CKey_Set k (draws n) c)"
    using draw_key_first [of draws n 0] assms by (simp add: CKey_MakeNewKey_def CKey_Set_def)
qed (use assms in \<open>auto simp: CKey_Set_def\<close>)

theorem CKey_Check_exact_witness:
  "CKey_MakeNewKey (\<lambda>i. if i = 0 then vchMax[31 := 0x41] else vchMax) \<lparr>fValid = False, fCompressed = False, ck_vch = []\<rparr> True
     = Some \<lparr>fValid = True, fCompressed = True, ck_vch = vchMax\<rparr>"
proof -
  let ?d = "\<lambda>i::nat. if i = 0 then vchMax[31 := 0x41] else vchMax"
  have "CKey_Check (?d 1)" "\<not> CKey_Check (?d 0)" and len: "\<And>i::nat. length (?d i) = 32"
    by (simp_all add: CKey_Check_def vchMax_def)
  then have "CKey_MakeNewKey ?d \<lparr>fValid = False, fCompressed = False, ck_vch = []\<rparr> True =
      Some (CKey_Set \<lparr>fValid = False, fCompressed = False, ck_vch = []\<rparr> (?d 1) True)"
    by (intro CKey_Check_exact [THEN conjunct2, THEN conjunct1]) auto
  with \<open>CKey_Check (?d 1)\<close> len [of 1] show ?thesis
    by (simp add: CKey_Set_def)
qed

section \<open>Public keys\<close>

definition pk_ok :: "CPubKey \<Rightarrow> bool" where
  "pk_ok k = (length (pk_vch k) = 65)"

lemma pk_size_le [simp]: "pk_size k \<le> 65"
  by (simp add: pk_size_def pk_GetLen_def)

lemma memcmp_lex: "n \<le> length xs \<Longrightarrow> n \<le> length ys \<Longrightarrow>
    (memcmp xs ys n = 0 \<longleftrightarrow> take n xs = take n ys) \<and>
    (memcmp xs ys n < 0 \<longleftrightarrow> (take n xs, take n ys) \<in> lexord {(a, b). a < b})"
proof (induction xs ys n rule: memcmp.induct)
  case (1 x xs y ys n)
  then show ?case by (auto split: if_splits)
qed auto

lemma pk_lt_lexord:
  assumes "pk_ok a" and "pk_ok b"
  shows "pk_lt a b \<longleftrightarrow> (pk_vch a ! 0 # pk_bytes a, pk_vch b ! 0 # pk_bytes b) \<in> lexord {(a, b). a < b}"
proof -
  have "pk_vch a ! 0 = pk_vch b ! 0 \<Longrightarrow> pk_size a = pk_size b"
    by (simp add: pk_size_def)
  then show ?thesis
    using memcmp_lex [of "pk_size a" "pk_vch a" "pk_vch b"] assms
    by (auto simp: pk_lt_def pk_bytes_def pk_ok_def)
qed

lemma pk_eq_bytes:
  assumes "pk_ok a" and "pk_ok b"
  shows "pk_eq a b \<longleftrightarrow> pk_vch a ! 0 = pk_vch b ! 0 \<and> pk_bytes a = pk_bytes b"
proof -
  have "pk_vch a ! 0 = pk_vch b ! 0 \<Longrightarrow> pk_size a = pk_size b"
    by (simp add: pk_size_def)
  then show ?thesis
    using memcmp_lex [of "pk_size a" "pk_vch a" "pk_vch b"] assms
    by (auto simp: pk_eq_def pk_bytes_def pk_ok_def)
qed

lemma pk_eq_iff_not_lt:
  assumes "pk_ok a" and "pk_ok b"
  shows "pk_eq a b \<longleftrightarrow> \<not> pk_lt a b \<and> \<not> pk_lt b a"
proof -
  have tri: "(x, y) \<in> lexord {(x, y). x < (y :: byte)} \<or> x = y \<or> (y, x) \<in> lexord {(x, y). x < y}" for x y
    by (rule lexord_linear) auto
  have irr: "(x, y) \<in> lexord {(x, y). x < (y :: byte)} \<Longrightarrow> (y, x) \<notin> lexord {(x, y). x < y}" for x y
    by (rule lexord_asymmetric) (auto simp: asym_on_def)
  show ?thesis
    using tri irr pk_lt_lexord [OF assms] pk_lt_lexord [OF assms(2,1)] pk_eq_bytes [OF assms]
    by (metis list.inject)
qed

lemma ckey_roundtrip:
  "length (ck_vch k) = 32 \<Longrightarrow> unser_ckey k' (ser_ckey k @ rest) = Inr (k, rest)"
  using compact.get_ser [of 34 "CKey_memory k @ rest"]
  by (simp add: unser_ckey_def ser_ckey_def CKey_GetSerializeSize_def rbind_def rreturn_def
      read_bytes_def CKey_memory_def MAX_SIZE_def)

text \<open>A secret outside the range is read as a valid key.\<close>
lemma ckey_unchecked:
  "let k = \<lparr>fValid = True, fCompressed = True, ck_vch = replicate 32 0\<rparr> in
     unser_ckey k (ser_ckey k) = Inr (k, []) \<and> fValid k \<and> \<not> CKey_Check (ck_vch k)"
  by code_simp

lemma length_pk_bytes: "pk_ok k \<Longrightarrow> length (pk_bytes k) = pk_size k"
  by (simp add: pk_bytes_def pk_ok_def)

lemma ser_pubkey_vch: "pk_ok k \<Longrightarrow> ser_pubkey k = ser_vch (pk_bytes k)"
  by (simp add: ser_pubkey_def ser_vch_def length_pk_bytes Let_def) (simp add: pk_bytes_def)

lemma reader_pubkey: "stream_reader (unser_pubkey k)"
  unfolding unser_pubkey_def Let_def by (intro reader_bind reader_if reader_times) auto

lemma unser_ser_pubkey:
  assumes "pk_ok k"
  shows "unser_pubkey k' (ser_pubkey k @ rest) =
    Inr (k'\<lparr>pk_vch := pk_bytes k @ drop (pk_size k) (pk_vch k')\<rparr>, rest)"
  unfolding ser_pubkey_vch [OF assms] ser_vch_def unser_pubkey_def
  using size_word [of "pk_bytes k"] read_size [of "pk_bytes k" "pk_bytes k @ rest"] pk_size_le [of k]
    length_pk_bytes [OF assms]
  by (cases "pk_bytes k = []") (auto simp: rbind_def rreturn_def Let_def read_bytes_def)

lemma unser_ser_valid_pubkey:
  assumes "pk_ok k" and "pk_ok k'" and "pk_IsValid k"
  shows "\<exists>q. unser_pubkey k' (ser_pubkey k @ rest) = Inr (q, rest)
      \<and> pk_bytes q = pk_bytes k \<and> pk_eq q k \<and> pk_ok q"
proof -
  define q where "q = k'\<lparr>pk_vch := pk_bytes k @ drop (pk_size k) (pk_vch k')\<rparr>"
  note len = length_pk_bytes [OF assms(1)]
  have ne: "pk_bytes k \<noteq> []" and hd: "pk_bytes k ! 0 = pk_vch k ! 0"
    using assms(3) len by (auto simp: pk_IsValid_def pk_bytes_def)
  then have "pk_vch q ! 0 = pk_vch k ! 0" by (simp add: q_def nth_append)
  moreover from this have sz: "pk_size q = pk_size k" by (simp add: pk_size_def)
  moreover have "pk_ok q" using assms len pk_size_le [of k] by (simp add: pk_ok_def q_def)
  moreover have "pk_bytes q = pk_bytes k"
    unfolding pk_bytes_def [of q] sz using len by (simp add: q_def)
  ultimately show ?thesis
    using unser_ser_pubkey [OF assms(1), of k' rest] pk_eq_bytes [of q k] assms by (simp add: q_def)
qed

lemma pk_sized: "pk_ok k \<Longrightarrow> pk_GetSerializeSize k = word_of_nat (length (ser_pubkey k))"
  unfolding pk_GetSerializeSize_def
  using length_pk_bytes [of k] by (auto simp: ser_pubkey_vch ser_vch_def pk_size_def pk_GetLen_def WriteCompactSize_def)

text \<open>C40: A valid public key reads back as an equal key, whatever the object read into and whatever follows; one cut short is an error; the announced size is the length of the code. An invalid key is written as an empty
  vector, and reading that leaves the object it is read into as it was.  A code longer than any key invalidates the object.
  Equality and order compare the bytes up to the length that the first byte announces.\<close>

theorem pubkey_roundtrip:
  assumes "pk_ok k" and "pk_ok k'"
  shows "(pk_IsValid k \<longrightarrow> (\<exists>q. unser_pubkey k' (ser_pubkey k @ rest) = Inr (q, rest)
           \<and> pk_bytes q = pk_bytes k \<and> pk_eq q k \<and> pk_ok q))
    \<and> (\<not> pk_IsValid k \<longrightarrow> unser_pubkey k' (ser_pubkey k @ rest) = Inr (k', rest))
    \<and> (n < length (ser_pubkey k) \<longrightarrow> (\<exists>e. unser_pubkey k' (take n (ser_pubkey k)) = Inl e))
    \<and> pk_GetSerializeSize k = word_of_nat (length (ser_pubkey k))
    \<and> (65 < length b \<and> length b < unat MAX_SIZE \<longrightarrow>
         unser_pubkey k' (ser_vch b @ rest) = Inr (pk_Invalidate k', rest))
    \<and> (pk_eq k k' \<longleftrightarrow> \<not> pk_lt k k' \<and> \<not> pk_lt k' k)
    \<and> (pk_lt k k' \<longleftrightarrow>
         (pk_vch k ! 0 # pk_bytes k, pk_vch k' ! 0 # pk_bytes k') \<in> lexord {(x, y). x < y})"
proof (intro conjI impI)
  note ser = ser_pubkey_vch [OF assms(1)] and len = length_pk_bytes [OF assms(1)]
  note read = unser_ser_pubkey [OF assms(1), of k']
  show "\<exists>q. unser_pubkey k' (ser_pubkey k @ rest) = Inr (q, rest)
      \<and> pk_bytes q = pk_bytes k \<and> pk_eq q k \<and> pk_ok q" if "pk_IsValid k"
    by (rule unser_ser_valid_pubkey [OF assms that])
  show "unser_pubkey k' (ser_pubkey k @ rest) = Inr (k', rest)" if "\<not> pk_IsValid k"
    using that read len by (simp add: pk_IsValid_def)
  show "\<exists>e. unser_pubkey k' (take n (ser_pubkey k)) = Inl e" if n: "n < length (ser_pubkey k)"
  proof (cases "unser_pubkey k' (take n (ser_pubkey k))")
    case (Inr a)
    then obtain y r where "unser_pubkey k' (take n (ser_pubkey k)) = Inr (y, r)" by (cases a) auto
    from stream_reader.extend [OF reader_pubkey this, of "drop n (ser_pubkey k)"] read [of "[]"] n
    show ?thesis by simp
  qed blast
  show "pk_GetSerializeSize k = word_of_nat (length (ser_pubkey k))" by (rule pk_sized [OF assms(1)])
  show "unser_pubkey k' (ser_vch b @ rest) = Inr (pk_Invalidate k', rest)"
    if b: "65 < length b \<and> length b < unat MAX_SIZE"
  proof -
    have fits: "fits_size b" using b by (simp add: MAX_SIZE_def)
    have skip: "read_times (read_bytes 1) (length b) (b @ rest) = Inr (map (\<lambda>x. [x]) b, rest)" for b :: "byte list"
      by (induction b) (simp_all add: rbind_def rreturn_def read_bytes_def)
    show ?thesis
      using size_word [of b] read_size [of b "b @ rest"] b fits
      by (cases "b = []") (simp_all add: unser_pubkey_def ser_vch_def rbind_def rreturn_def skip [simplified] Let_def)
  qed
  show "pk_lt k k' \<longleftrightarrow>
      (pk_vch k ! 0 # pk_bytes k, pk_vch k' ! 0 # pk_bytes k') \<in> lexord {(x, y). x < y}"
    using assms by (rule pk_lt_lexord)
  show "pk_eq k k' \<longleftrightarrow> \<not> pk_lt k k' \<and> \<not> pk_lt k' k"
    using assms by (rule pk_eq_iff_not_lt)
qed

theorem pubkey_roundtrip_witness:
  "let k = pk_of_vch (2 # replicate 32 7) in
     pk_eq k k \<and> ser_pubkey k = 33 # 2 # replicate 32 7 \<and>
     (\<exists>q. unser_pubkey pk_invalid (ser_pubkey k @ [1]) = Inr (q, [1]) \<and> pk_eq q k)"
proof -
  have "pk_ok (pk_of_vch (2 # replicate 32 7))" "pk_ok pk_invalid" "pk_IsValid (pk_of_vch (2 # replicate 32 7))"
    "ser_pubkey (pk_of_vch (2 # replicate 32 7)) = 33 # 2 # replicate 32 7"
    "pk_eq (pk_of_vch (2 # replicate 32 7)) (pk_of_vch (2 # replicate 32 7))"
    by code_simp+
  then show ?thesis
    unfolding Let_def
    using pubkey_roundtrip [THEN conjunct1, of "pk_of_vch (2 # replicate 32 7)" pk_invalid "[1]"] by blast
qed

end
