(* ===== verification/HashKey.thy ===== *)
theory HashKey
  imports Uint256 Omap
begin

text \<open>
  Hashes as keys of \<open>std::map\<close> and \<open>std::set\<close>: a \<open>uint256\<close> or \<open>uint160\<close> under the order of its
  \<open>operator<\<close>.  Numbers of different widths, which no map of the program mixes, are ordered by width.
\<close>

datatype hash_key = HK (hk_limbs: base_uint)

instantiation hash_key :: linorder
begin

definition less_hash_key :: "hash_key \<Rightarrow> hash_key \<Rightarrow> bool" where
  "less_hash_key a b =
     (length (hk_limbs a) < length (hk_limbs b) \<or>
      length (hk_limbs a) = length (hk_limbs b) \<and> bu_lt (hk_limbs a) (hk_limbs b))"

definition less_eq_hash_key :: "hash_key \<Rightarrow> hash_key \<Rightarrow> bool" where
  "less_eq_hash_key a b = (a = b \<or> a < b)"

instance
proof
  fix x y z :: hash_key
  have lt: "x < y \<longleftrightarrow> length (hk_limbs x) < length (hk_limbs y) \<or>
      length (hk_limbs x) = length (hk_limbs y) \<and> uval (hk_limbs x) < uval (hk_limbs y)" for x y
    by (auto simp: less_hash_key_def bu_lt_iff)
  have eq: "x = y \<longleftrightarrow> length (hk_limbs x) = length (hk_limbs y) \<and> uval (hk_limbs x) = uval (hk_limbs y)" for x y
    by (metis hash_key.collapse uval_inject)
  show "(x < y) = (x \<le> y \<and> \<not> y \<le> x)" "x \<le> x" "x \<le> y \<or> y \<le> x"
    by (auto simp: less_eq_hash_key_def lt eq)
  show "x \<le> y \<Longrightarrow> y \<le> z \<Longrightarrow> x \<le> z"
    by (auto simp: less_eq_hash_key_def lt)
  show "x \<le> y \<Longrightarrow> y \<le> x \<Longrightarrow> x = y"
    by (auto simp: less_eq_hash_key_def lt)
qed

end

lemma hash_key_less:
  "length a = length b \<Longrightarrow> HK a < HK b \<longleftrightarrow> bu_lt a b"
  by (simp add: less_hash_key_def)

end
