(* ===== verification/KeyStore.thy ===== *)
theory KeyStore
  imports Keys HashKey
begin

text \<open>
  The encryption of secrets (\<open>crypter.cpp\<close>) and the key stores (\<open>keystore.h\<close>, \<open>keystore.cpp\<close>): the
  plain store, and the one that holds its keys encrypted under a master key and can be locked and
  unlocked.  The cipher and the key derivation of OpenSSL are the parameters of \<open>evp\<close>.
\<close>

section \<open>The cipher\<close>

record evp =
  evp_encrypt :: "byte list \<Rightarrow> byte list \<Rightarrow> byte list \<Rightarrow> byte list option"
  evp_decrypt :: "byte list \<Rightarrow> byte list \<Rightarrow> byte list \<Rightarrow> byte list option"
  EVP_BytesToKey :: "byte list \<Rightarrow> string \<Rightarrow> u32 \<Rightarrow> int \<times> byte list \<times> byte list"

abbreviation (input) WALLET_CRYPTO_KEY_SIZE :: nat where "WALLET_CRYPTO_KEY_SIZE \<equiv> 32"
abbreviation (input) WALLET_CRYPTO_SALT_SIZE :: nat where "WALLET_CRYPTO_SALT_SIZE \<equiv> 8"

type_synonym CKeyingMaterial = "byte list"

record CCrypter =
  chKey :: "byte list"
  chIV :: "byte list"
  fKeySet :: bool

definition crypter_init :: CCrypter where
  "crypter_init = \<lparr>chKey = replicate 32 0, chIV = replicate 32 0, fKeySet = False\<rparr>"

definition cr_CleanKey :: "CCrypter \<Rightarrow> CCrypter" where
  "cr_CleanKey cr = cr\<lparr>chKey := replicate 32 0, chIV := replicate 32 0, fKeySet := False\<rparr>"

definition cr_SetKeyFromPassphrase ::
  "evp \<Rightarrow> CCrypter \<Rightarrow> string \<Rightarrow> byte list \<Rightarrow> u32 \<Rightarrow> u32 \<Rightarrow> bool \<times> CCrypter" where
  "cr_SetKeyFromPassphrase E cr strKeyData chSalt nRounds nDerivationMethod =
     (if nRounds < 1 \<or> length chSalt \<noteq> WALLET_CRYPTO_SALT_SIZE then (False, cr)
      else
        let (i, cr) =
          (if nDerivationMethod = 0
           then (let (i, key, iv) = EVP_BytesToKey E chSalt strKeyData nRounds in (i, cr\<lparr>chKey := key, chIV := iv\<rparr>))
           else (0, cr))
        in if i \<noteq> int WALLET_CRYPTO_KEY_SIZE
           then (False, cr\<lparr>chKey := replicate 32 0, chIV := replicate 32 0\<rparr>)
           else (True, cr\<lparr>fKeySet := True\<rparr>))"

definition cr_SetKey :: "CCrypter \<Rightarrow> CKeyingMaterial \<Rightarrow> byte list \<Rightarrow> bool \<times> CCrypter" where
  "cr_SetKey cr chNewKey chNewIV =
     (if length chNewKey \<noteq> WALLET_CRYPTO_KEY_SIZE \<or> length chNewIV \<noteq> WALLET_CRYPTO_KEY_SIZE then (False, cr)
      else (True, cr\<lparr>chKey := chNewKey, chIV := chNewIV, fKeySet := True\<rparr>))"

text \<open>\<open>None\<close>: the call returns \<open>false\<close> (no caller reads the buffer then).\<close>
definition cr_Encrypt :: "evp \<Rightarrow> CCrypter \<Rightarrow> CKeyingMaterial \<Rightarrow> byte list option" where
  "cr_Encrypt E cr vchPlaintext =
     (if \<not> fKeySet cr then None else evp_encrypt E (chKey cr) (chIV cr) vchPlaintext)"

definition cr_Decrypt :: "evp \<Rightarrow> CCrypter \<Rightarrow> byte list \<Rightarrow> CKeyingMaterial option" where
  "cr_Decrypt E cr vchCiphertext =
     (if \<not> fKeySet cr then None else evp_decrypt E (chKey cr) (chIV cr) vchCiphertext)"

definition EncryptSecret :: "evp \<Rightarrow> CKeyingMaterial \<Rightarrow> CKeyingMaterial \<Rightarrow> uint256 \<Rightarrow> byte list option" where
  "EncryptSecret E vMasterKey vchPlaintext nIV =
     (let cKeyCrypter = crypter_init;
          iv = take WALLET_CRYPTO_KEY_SIZE (bu_bytes nIV);
          (ok, cKeyCrypter) = cr_SetKey cKeyCrypter vMasterKey iv
      in if \<not> ok then None else cr_Encrypt E cKeyCrypter vchPlaintext)"

definition DecryptSecret :: "evp \<Rightarrow> CKeyingMaterial \<Rightarrow> byte list \<Rightarrow> uint256 \<Rightarrow> CKeyingMaterial option" where
  "DecryptSecret E vMasterKey vchCiphertext nIV =
     (let cKeyCrypter = crypter_init;
          iv = take WALLET_CRYPTO_KEY_SIZE (bu_bytes nIV);
          (ok, cKeyCrypter) = cr_SetKey cKeyCrypter vMasterKey iv
      in if \<not> ok then None else cr_Decrypt E cKeyCrypter vchCiphertext)"

text \<open>The master key record of the wallet.\<close>

record CMasterKey =
  vchCryptedKey :: "byte list"
  vchSalt :: "byte list"
  nDerivationMethod :: u32
  nDeriveIterations :: u32
  vchOtherDerivationParameters :: "byte list"

definition master_key_init :: CMasterKey where
  "master_key_init = \<lparr>vchCryptedKey = [], vchSalt = [], nDerivationMethod = 0, nDeriveIterations = 25000,
                      vchOtherDerivationParameters = []\<rparr>"

definition ser_master_key :: "CMasterKey \<Rightarrow> byte list" where
  "ser_master_key k =
     ser_vch (vchCryptedKey k) @ ser_vch (vchSalt k) @ ser_int (nDerivationMethod k) @
     ser_int (nDeriveIterations k) @ ser_vch (vchOtherDerivationParameters k)"

definition unser_master_key :: "CMasterKey reader" where
  "unser_master_key =
     rbind unser_vch (\<lambda>a. rbind unser_vch (\<lambda>b. rbind unser_int (\<lambda>c. rbind unser_int (\<lambda>d.
     rbind unser_vch (\<lambda>e.
       rreturn \<lparr>vchCryptedKey = a, vchSalt = b, nDerivationMethod = c, nDeriveIterations = d,
                vchOtherDerivationParameters = e\<rparr>)))))"

section \<open>The plain store\<close>

type_synonym KeyMap = "(hash_key, CKey) omap"
type_synonym ScriptMap = "(hash_key, byte list) omap"

record CBasicKeyStore =
  mapKeys :: KeyMap
  mapScripts :: ScriptMap

definition script_GetID :: "('k, 'x) crypto_scheme \<Rightarrow> byte list \<Rightarrow> CScriptID" where
  "script_GetID C s = Hash160 C s"

definition bks_AddKeyPubKey ::
  "('k, 'x) crypto_scheme \<Rightarrow> 's CBasicKeyStore_scheme \<Rightarrow> CKey \<Rightarrow> CPubKey \<Rightarrow> bool \<times> 's CBasicKeyStore_scheme" where
  "bks_AddKeyPubKey C ks key pubkey =
     (True, ks\<lparr>mapKeys := om_put (mapKeys ks) (HK (pk_GetID C pubkey)) key\<rparr>)"

definition bks_AddKey ::
  "('k, 'x) crypto_scheme \<Rightarrow> 's CBasicKeyStore_scheme \<Rightarrow> CKey \<Rightarrow> bool \<times> 's CBasicKeyStore_scheme" where
  "bks_AddKey C ks key = bks_AddKeyPubKey C ks key (CKey_GetPubKey C key)"

definition bks_HaveKey :: "'s CBasicKeyStore_scheme \<Rightarrow> CKeyID \<Rightarrow> bool" where
  "bks_HaveKey ks address = (om_find (mapKeys ks) (HK address) \<noteq> None)"

definition bks_GetKeys :: "'s CBasicKeyStore_scheme \<Rightarrow> hash_key list" where
  "bks_GetKeys ks = map fst (mapKeys ks)"

definition bks_GetKey :: "'s CBasicKeyStore_scheme \<Rightarrow> CKeyID \<Rightarrow> CKey option" where
  "bks_GetKey ks address = om_find (mapKeys ks) (HK address)"

definition bks_GetPubKey :: "('k, 'x) crypto_scheme \<Rightarrow> 's CBasicKeyStore_scheme \<Rightarrow> CKeyID \<Rightarrow> CPubKey option" where
  "bks_GetPubKey C ks address =
     (case bks_GetKey ks address of None \<Rightarrow> None | Some key \<Rightarrow> Some (CKey_GetPubKey C key))"

definition AddCScript ::
  "('k, 'x) crypto_scheme \<Rightarrow> 's CBasicKeyStore_scheme \<Rightarrow> byte list \<Rightarrow> bool \<times> 's CBasicKeyStore_scheme" where
  "AddCScript C ks redeemScript =
     (True, ks\<lparr>mapScripts := om_put (mapScripts ks) (HK (script_GetID C redeemScript)) redeemScript\<rparr>)"

definition HaveCScript :: "'s CBasicKeyStore_scheme \<Rightarrow> CScriptID \<Rightarrow> bool" where
  "HaveCScript ks hash = (om_find (mapScripts ks) (HK hash) \<noteq> None)"

definition GetCScript :: "'s CBasicKeyStore_scheme \<Rightarrow> CScriptID \<Rightarrow> byte list option" where
  "GetCScript ks hash = om_find (mapScripts ks) (HK hash)"

section \<open>The encrypted store\<close>

type_synonym CryptedKeyMap = "(hash_key, CPubKey \<times> byte list) omap"

record CCryptoKeyStore = CBasicKeyStore +
  mapCryptedKeys :: CryptedKeyMap
  vMasterKey :: CKeyingMaterial
  fUseCrypto :: bool
  notified :: nat  \<comment> \<open>the signals \<open>NotifyStatusChanged\<close> sent\<close>

definition cks_init :: CCryptoKeyStore where
  "cks_init = \<lparr>mapKeys = [], mapScripts = [], mapCryptedKeys = [], vMasterKey = [], fUseCrypto = False,
               notified = 0\<rparr>"

definition IsCrypted :: "CCryptoKeyStore \<Rightarrow> bool" where "IsCrypted ks = fUseCrypto ks"

definition IsLocked :: "CCryptoKeyStore \<Rightarrow> bool" where
  "IsLocked ks = (if \<not> IsCrypted ks then False else vMasterKey ks = [])"

definition SetCrypted :: "CCryptoKeyStore \<Rightarrow> bool \<times> CCryptoKeyStore" where
  "SetCrypted ks =
     (if fUseCrypto ks then (True, ks)
      else if mapKeys ks \<noteq> [] then (False, ks)
      else (True, ks\<lparr>fUseCrypto := True\<rparr>))"

definition Lock :: "CCryptoKeyStore \<Rightarrow> bool \<times> CCryptoKeyStore" where
  "Lock ks =
     (let (ok, ks) = SetCrypted ks
      in if \<not> ok then (False, ks)
         else (True, ks\<lparr>vMasterKey := [], notified := notified ks + 1\<rparr>))"

text \<open>The loop of \<open>Unlock\<close> leaves at the first entry: whether that one decrypts to its key.\<close>
definition unlock_check :: "('k, 'x) crypto_scheme \<Rightarrow> evp \<Rightarrow> CKeyingMaterial \<Rightarrow> CryptedKeyMap \<Rightarrow> bool" where
  "unlock_check C E vMasterKeyIn m =
     (case m of [] \<Rightarrow> True
      | (_, vchPubKey, vchCryptedSecret) # _ \<Rightarrow>
          (case DecryptSecret E vMasterKeyIn vchCryptedSecret (pk_GetHash C vchPubKey) of
             None \<Rightarrow> False
           | Some vchSecret \<Rightarrow>
               if length vchSecret \<noteq> 32 then False
               else (let key = CKey_Set \<lparr>fValid = False, fCompressed = False, ck_vch = replicate 32 0\<rparr>
                                 vchSecret (pk_IsCompressed vchPubKey)
                     in if pk_eq (CKey_GetPubKey C key) vchPubKey then True else False)))"

definition Unlock ::
  "('k, 'x) crypto_scheme \<Rightarrow> evp \<Rightarrow> CCryptoKeyStore \<Rightarrow> CKeyingMaterial \<Rightarrow> bool \<times> CCryptoKeyStore" where
  "Unlock C E ks vMasterKeyIn =
     (let (ok, ks) = SetCrypted ks
      in if \<not> ok then (False, ks)
         else if \<not> unlock_check C E vMasterKeyIn (mapCryptedKeys ks) then (False, ks)
         else (True, ks\<lparr>vMasterKey := vMasterKeyIn, notified := notified ks + 1\<rparr>))"

definition AddCryptedKey ::
  "('k, 'x) crypto_scheme \<Rightarrow> CCryptoKeyStore \<Rightarrow> CPubKey \<Rightarrow> byte list \<Rightarrow> bool \<times> CCryptoKeyStore" where
  "AddCryptedKey C ks vchPubKey vchCryptedSecret =
     (let (ok, ks) = SetCrypted ks
      in if \<not> ok then (False, ks)
         else (True, ks\<lparr>mapCryptedKeys :=
                  om_put (mapCryptedKeys ks) (HK (pk_GetID C vchPubKey)) (vchPubKey, vchCryptedSecret)\<rparr>))"

text \<open>The bytes between \<open>begin\<close> and \<open>end\<close> of a key.\<close>
definition CKey_bytes :: "CKey \<Rightarrow> byte list" where
  "CKey_bytes k = take (CKey_size k) (ck_vch k)"

definition cks_AddKeyPubKey ::
  "('k, 'x) crypto_scheme \<Rightarrow> evp \<Rightarrow> CCryptoKeyStore \<Rightarrow> CKey \<Rightarrow> CPubKey \<Rightarrow> bool \<times> CCryptoKeyStore" where
  "cks_AddKeyPubKey C E ks key pubkey =
     (if \<not> IsCrypted ks then bks_AddKeyPubKey C ks key pubkey
      else if IsLocked ks then (False, ks)
      else (let vchSecret = CKey_bytes key
            in case EncryptSecret E (vMasterKey ks) vchSecret (pk_GetHash C pubkey) of
                 None \<Rightarrow> (False, ks)
               | Some vchCryptedSecret \<Rightarrow>
                   (let (ok, ks) = AddCryptedKey C ks pubkey vchCryptedSecret
                    in if \<not> ok then (False, ks) else (True, ks))))"

definition cks_AddKey ::
  "('k, 'x) crypto_scheme \<Rightarrow> evp \<Rightarrow> CCryptoKeyStore \<Rightarrow> CKey \<Rightarrow> bool \<times> CCryptoKeyStore" where
  "cks_AddKey C E ks key = cks_AddKeyPubKey C E ks key (CKey_GetPubKey C key)"

definition cks_HaveKey :: "CCryptoKeyStore \<Rightarrow> CKeyID \<Rightarrow> bool" where
  "cks_HaveKey ks address =
     (if \<not> IsCrypted ks then bks_HaveKey ks address
      else om_find (mapCryptedKeys ks) (HK address) \<noteq> None)"

text \<open>The result and the object \<open>keyOut\<close> after the call.\<close>
definition cks_GetKey ::
  "('k, 'x) crypto_scheme \<Rightarrow> evp \<Rightarrow> CCryptoKeyStore \<Rightarrow> CKeyID \<Rightarrow> CKey \<Rightarrow> bool \<times> CKey" where
  "cks_GetKey C E ks address keyOut =
     (if \<not> IsCrypted ks
      then (case bks_GetKey ks address of None \<Rightarrow> (False, keyOut) | Some key \<Rightarrow> (True, key))
      else case om_find (mapCryptedKeys ks) (HK address) of
        None \<Rightarrow> (False, keyOut)
      | Some (vchPubKey, vchCryptedSecret) \<Rightarrow>
          (case DecryptSecret E (vMasterKey ks) vchCryptedSecret (pk_GetHash C vchPubKey) of
             None \<Rightarrow> (False, keyOut)
           | Some vchSecret \<Rightarrow>
               if length vchSecret \<noteq> 32 then (False, keyOut)
               else (True, CKey_Set keyOut vchSecret (pk_IsCompressed vchPubKey))))"

definition cks_GetPubKey :: "('k, 'x) crypto_scheme \<Rightarrow> CCryptoKeyStore \<Rightarrow> CKeyID \<Rightarrow> CPubKey option" where
  "cks_GetPubKey C ks address =
     (if \<not> IsCrypted ks then bks_GetPubKey C ks address
      else case om_find (mapCryptedKeys ks) (HK address) of
        None \<Rightarrow> None | Some (vchPubKey, _) \<Rightarrow> Some vchPubKey)"

definition cks_GetKeys :: "CCryptoKeyStore \<Rightarrow> hash_key list" where
  "cks_GetKeys ks = (if \<not> IsCrypted ks then bks_GetKeys ks else map fst (mapCryptedKeys ks))"

fun encrypt_loop ::
  "('k, 'x) crypto_scheme \<Rightarrow> evp \<Rightarrow> CKeyingMaterial \<Rightarrow> KeyMap \<Rightarrow> CCryptoKeyStore \<Rightarrow> bool \<times> CCryptoKeyStore" where
  "encrypt_loop C E vMasterKeyIn [] ks = (True, ks)"
| "encrypt_loop C E vMasterKeyIn ((_, key) # m) ks =
     (let vchPubKey = CKey_GetPubKey C key; vchSecret = CKey_bytes key
      in case EncryptSecret E vMasterKeyIn vchSecret (pk_GetHash C vchPubKey) of
           None \<Rightarrow> (False, ks)
         | Some vchCryptedSecret \<Rightarrow>
             (let (ok, ks) = AddCryptedKey C ks vchPubKey vchCryptedSecret
              in if \<not> ok then (False, ks) else encrypt_loop C E vMasterKeyIn m ks))"

definition EncryptKeys ::
  "('k, 'x) crypto_scheme \<Rightarrow> evp \<Rightarrow> CCryptoKeyStore \<Rightarrow> CKeyingMaterial \<Rightarrow> bool \<times> CCryptoKeyStore" where
  "EncryptKeys C E ks vMasterKeyIn =
     (if mapCryptedKeys ks \<noteq> [] \<or> IsCrypted ks then (False, ks)
      else (let (ok, ks) = encrypt_loop C E vMasterKeyIn (mapKeys ks) (ks\<lparr>fUseCrypto := True\<rparr>)
            in if \<not> ok then (False, ks) else (True, ks\<lparr>mapKeys := []\<rparr>)))"

section \<open>Lemmas\<close>

interpretation master_key: codec unser_master_key ser_master_key
  "\<lambda>k :: CMasterKey. fits_size (vchCryptedKey k) \<and> fits_size (vchSalt k) \<and> fits_size (vchOtherDerivationParameters k)"
proof (intro codec.intro codec_axioms.intro)
  show "stream_reader unser_master_key"
    unfolding unser_master_key_def by (intro reader_bind) auto
  fix k :: CMasterKey and rest
  assume "fits_size (vchCryptedKey k) \<and> fits_size (vchSalt k) \<and> fits_size (vchOtherDerivationParameters k)"
  then show "unser_master_key (ser_master_key k @ rest) = Inr (k, rest)"
    by (simp add: unser_master_key_def ser_master_key_def rbind_def rreturn_def unser_ser_vch unser_ser_int)
qed

lemma om_put_last: "list_all (\<lambda>e. fst e < k) m \<Longrightarrow> om_put m k v = m @ [(k, v)]"
  by (induction m k v rule: om_put.induct) auto

lemma om_find_map: "om_find (map (\<lambda>(k, v). (k, f v)) m) k = map_option f (om_find m k)"
  by (induction m) auto

text \<open>
  What the store keeps of the comments of the class: with encryption on no key is in clear, with
  encryption off there is neither a master key nor an encrypted key; an encrypted key is filed under
  the identifier of its public key.
\<close>

definition ks_inv :: "('k, 'x) crypto_scheme \<Rightarrow> CCryptoKeyStore \<Rightarrow> bool" where
  "ks_inv C ks \<longleftrightarrow>
     om_wf (mapKeys ks) \<and> om_wf (mapScripts ks) \<and> om_wf (mapCryptedKeys ks) \<and>
     (if fUseCrypto ks then mapKeys ks = [] else vMasterKey ks = [] \<and> mapCryptedKeys ks = []) \<and>
     (\<forall>a p c. om_find (mapCryptedKeys ks) a = Some (p, c) \<longrightarrow> a = HK (pk_GetID C p))"

text \<open>
  The operations of the store, each with whether it was a call of \<open>EncryptKeys\<close> that failed after it had switched
  encryption on.  The wallet exits the process then; the store alone does not, so the sequences below go on.
\<close>

inductive ks_step :: "('k, 'x) crypto_scheme \<Rightarrow> evp \<Rightarrow> CCryptoKeyStore \<Rightarrow> bool \<Rightarrow> CCryptoKeyStore \<Rightarrow> bool"
  for C E where
  st_lock: "Lock ks = (r, ks') \<Longrightarrow> ks_step C E ks False ks'"
| st_unlock: "Unlock C E ks m = (r, ks') \<Longrightarrow> ks_step C E ks False ks'"
| st_crypted: "AddCryptedKey C ks p c = (r, ks') \<Longrightarrow> ks_step C E ks False ks'"
| st_key: "cks_AddKeyPubKey C E ks k p = (r, ks') \<Longrightarrow> ks_step C E ks False ks'"
| st_script: "AddCScript C ks s = (r, ks') \<Longrightarrow> ks_step C E ks False ks'"
| st_encrypt: "EncryptKeys C E ks m = (r, ks') \<Longrightarrow> ks_step C E ks (\<not> r \<and> \<not> IsCrypted ks) ks'"

text \<open>A sequence of operations, and whether a call of \<open>EncryptKeys\<close> failed in it.\<close>

inductive ks_reach :: "('k, 'x) crypto_scheme \<Rightarrow> evp \<Rightarrow> CCryptoKeyStore \<Rightarrow> bool \<Rightarrow> CCryptoKeyStore \<Rightarrow> bool"
  for C E ks where
  ks_refl: "ks_reach C E ks False ks"
| ks_trans: "ks_reach C E ks failed ks' \<Longrightarrow> ks_step C E ks' failed' ks'' \<Longrightarrow> ks_reach C E ks (failed \<or> failed') ks''"

text \<open>The invariant with what a failed call leaves: encryption on and keys in clear.\<close>

definition ks_ok :: "('k, 'x) crypto_scheme \<Rightarrow> bool \<Rightarrow> CCryptoKeyStore \<Rightarrow> bool" where
  "ks_ok C failed ks \<longleftrightarrow>
     om_wf (mapKeys ks) \<and> om_wf (mapScripts ks) \<and> om_wf (mapCryptedKeys ks) \<and>
     (if fUseCrypto ks then (mapKeys ks \<noteq> []) = failed else vMasterKey ks = [] \<and> mapCryptedKeys ks = [] \<and> \<not> failed) \<and>
     (\<forall>a p c. om_find (mapCryptedKeys ks) a = Some (p, c) \<longrightarrow> a = HK (pk_GetID C p))"

lemma ks_ok_inv: "ks_ok C False ks = ks_inv C ks"
  by (auto simp: ks_ok_def ks_inv_def)

lemma ks_inv_init [simp]: "ks_inv C cks_init"
  by (simp add: ks_inv_def cks_init_def)

lemma SetCrypted_cases:
  "SetCrypted ks = (r, ks') \<Longrightarrow>
     (r = (fUseCrypto ks \<or> mapKeys ks = [])) \<and> ks' = (if r then ks\<lparr>fUseCrypto := True\<rparr> else ks)"
  by (auto simp: SetCrypted_def split: if_splits)

lemma AddCryptedKey_ok:
  "ks_ok C f ks \<Longrightarrow> AddCryptedKey C ks p c = (r, ks') \<Longrightarrow> ks_ok C f ks' \<and>
     (fUseCrypto ks \<longrightarrow> fUseCrypto ks' \<and> mapKeys ks' = mapKeys ks) \<and> mapScripts ks' = mapScripts ks"
  unfolding AddCryptedKey_def
  by (cases "SetCrypted ks") (auto dest!: SetCrypted_cases simp: ks_ok_def om_find_put split: if_splits)

lemma AddKeyPubKey_ok:
  assumes "ks_ok C f ks" and "cks_AddKeyPubKey C E ks k p = (r, ks')"
  shows "ks_ok C f ks' \<and> (fUseCrypto ks \<longrightarrow> fUseCrypto ks' \<and> mapKeys ks' = mapKeys ks) \<and> mapScripts ks' = mapScripts ks"
proof (cases "fUseCrypto ks")
  case False
  with assms show ?thesis
    by (auto simp: cks_AddKeyPubKey_def IsCrypted_def bks_AddKeyPubKey_def ks_ok_def)
next
  case True
  show ?thesis
  proof (cases "ks' = ks")
    case False
    with True assms(2) obtain c r' where "AddCryptedKey C ks p c = (r', ks')"
      by (auto simp: cks_AddKeyPubKey_def IsCrypted_def Let_def split: if_splits option.splits prod.splits)
    with assms(1) show ?thesis by (rule AddCryptedKey_ok)
  qed (use assms in simp)
qed

lemma encrypt_loop_inv:
  "encrypt_loop C E m xs ks = (r, ks') \<Longrightarrow> fUseCrypto ks \<Longrightarrow> om_wf (mapCryptedKeys ks) \<Longrightarrow>
   (\<forall>a p c. om_find (mapCryptedKeys ks) a = Some (p, c) \<longrightarrow> a = HK (pk_GetID C p)) \<Longrightarrow>
   fUseCrypto ks' \<and> om_wf (mapCryptedKeys ks') \<and>
   (\<forall>a p c. om_find (mapCryptedKeys ks') a = Some (p, c) \<longrightarrow> a = HK (pk_GetID C p)) \<and>
   mapScripts ks' = mapScripts ks \<and> mapKeys ks' = mapKeys ks \<and> (\<not> r \<longrightarrow> xs \<noteq> [])"
proof (induction xs arbitrary: ks)
  case (Cons x xs)
  obtain a key where x: "x = (a, key)" by (cases x)
  show ?case
  proof (cases "EncryptSecret E m (CKey_bytes key) (pk_GetHash C (CKey_GetPubKey C key))")
    case (Some c)
    let ?ks = "ks\<lparr>mapCryptedKeys :=
      om_put (mapCryptedKeys ks) (HK (pk_GetID C (CKey_GetPubKey C key))) (CKey_GetPubKey C key, c)\<rparr>"
    have loop: "encrypt_loop C E m xs ?ks = (r, ks')"
      using Cons.prems(1,2) Some by (simp add: x AddCryptedKey_def SetCrypted_def Let_def)
    have inv: "om_wf (mapCryptedKeys ?ks)"
      "\<forall>a p c. om_find (mapCryptedKeys ?ks) a = Some (p, c) \<longrightarrow> a = HK (pk_GetID C p)"
      using Cons.prems(3,4) by (simp_all add: om_find_put)
    show ?thesis
      using Cons.IH [OF loop _ inv] Cons.prems(2) by simp
  qed (use Cons.prems x in \<open>simp add: Let_def\<close>)
qed simp

lemma ks_step_ok:
  assumes "ks_step C E ks f' ks'" and "ks_ok C f ks"
  shows "ks_ok C (f \<or> f') ks' \<and> (fUseCrypto ks \<longrightarrow> fUseCrypto ks' \<and> mapKeys ks' = mapKeys ks) \<and>
    (\<forall>h. HaveCScript ks h \<longrightarrow> HaveCScript ks' h)"
  using assms
proof (cases rule: ks_step.cases)
  case (st_lock r)
  then show ?thesis using assms(2)
    by (cases "SetCrypted ks")
      (auto dest!: SetCrypted_cases simp: Lock_def ks_ok_def HaveCScript_def split: if_splits)
next
  case (st_unlock m r)
  then show ?thesis using assms(2)
    by (cases "SetCrypted ks")
      (auto dest!: SetCrypted_cases simp: Unlock_def ks_ok_def HaveCScript_def split: if_splits)
next
  case (st_crypted p c r)
  then show ?thesis using AddCryptedKey_ok [OF assms(2)] by (simp add: HaveCScript_def)
next
  case (st_key k p r)
  then show ?thesis using AddKeyPubKey_ok [OF assms(2)] by (simp add: HaveCScript_def)
next
  case (st_script s r)
  then show ?thesis using assms(2)
    by (auto simp: AddCScript_def ks_ok_def HaveCScript_def om_find_put)
next
  case (st_encrypt m r)
  show ?thesis
  proof (cases "fUseCrypto ks")
    case True
    then show ?thesis using st_encrypt assms(2) by (simp add: EncryptKeys_def IsCrypted_def)
  next
    case False
    then have ks: "mapCryptedKeys ks = []" "\<not> f" using assms(2) by (simp_all add: ks_ok_def)
    obtain ok k1 where loop: "encrypt_loop C E m (mapKeys ks) (ks\<lparr>fUseCrypto := True\<rparr>) = (ok, k1)"
      by (cases "encrypt_loop C E m (mapKeys ks) (ks\<lparr>fUseCrypto := True\<rparr>)")
    then have "(r, ks') = (ok, if ok then k1\<lparr>mapKeys := []\<rparr> else k1)"
      using st_encrypt(2) False ks(1) by (simp add: EncryptKeys_def IsCrypted_def split: if_splits)
    moreover have "f' = (\<not> r)" using st_encrypt(1) False by (simp add: IsCrypted_def)
    moreover have "fUseCrypto k1 \<and> om_wf (mapCryptedKeys k1) \<and>
        (\<forall>a p c. om_find (mapCryptedKeys k1) a = Some (p, c) \<longrightarrow> a = HK (pk_GetID C p)) \<and>
        mapScripts k1 = mapScripts ks \<and> mapKeys k1 = mapKeys ks \<and> (\<not> ok \<longrightarrow> mapKeys ks \<noteq> [])"
      using encrypt_loop_inv [OF loop] ks(1) by simp
    moreover have "om_wf (mapKeys ks)" "om_wf (mapScripts ks)" using assms(2) by (simp_all add: ks_ok_def)
    ultimately show ?thesis using False ks(2) by (cases ok) (simp_all add: ks_ok_def HaveCScript_def)
  qed
qed

lemma ks_reach_ok:
  assumes "ks_reach C E ks f' ks'" and "ks_ok C f ks"
  shows "ks_ok C (f \<or> f') ks' \<and> (fUseCrypto ks \<longrightarrow> fUseCrypto ks' \<and> mapKeys ks' = mapKeys ks) \<and>
    (\<forall>h. HaveCScript ks h \<longrightarrow> HaveCScript ks' h)"
  using assms(1)
proof induction
  case (ks_trans failed ks' failed' ks'')
  then show ?case using ks_step_ok [OF ks_trans(2), of "f \<or> failed"] by (auto simp: disj_assoc)
qed (use assms(2) in simp)

definition example_evp :: evp where
  "example_evp =
     \<lparr>evp_encrypt = (\<lambda>k iv p. Some (k @ p)),
      evp_decrypt = (\<lambda>k iv c. if take 32 c = k then Some (drop 32 c) else None),
      EVP_BytesToKey = (\<lambda>s p n. (32, replicate 32 (word_of_nat (length p)), replicate 32 0))\<rparr>"

abbreviation (input) example_key :: CKey where
  "example_key \<equiv> \<lparr>fValid = True, fCompressed = True, ck_vch = replicate 32 7\<rparr>"

text \<open>C14: Whatever the sequence of operations, and whatever they return: the invariant of the store (with encryption on
  no key is held in clear, with encryption off there is no master key and no encrypted key) holds exactly as long as no
  call of \<open>EncryptKeys\<close> has failed half way, which the wallet answers by ending the process; a failed call leaves
  encryption on beside keys in clear.  Even then encryption stays on once on, and the keys in clear stay as they are: none is
  added and none is lost; scripts are never lost; a locked store refuses every new key and hands out none.\<close>

theorem keystore_invariant:
  assumes "ks_reach C E cks_init f ks" and "ks_reach C E ks f' ks'"
  shows "(\<not> f \<and> \<not> f') = ks_inv C ks'
    \<and> (f \<or> f' \<longrightarrow> IsCrypted ks' \<and> mapKeys ks' \<noteq> [])
    \<and> (IsCrypted ks \<longrightarrow> IsCrypted ks' \<and> mapKeys ks' = mapKeys ks)
    \<and> (\<forall>h. HaveCScript ks h \<longrightarrow> HaveCScript ks' h)
    \<and> (IsLocked ks' \<longrightarrow> cks_AddKeyPubKey C E ks' k p = (False, ks') \<and> fst (cks_GetKey C E ks' a k) = False)"
proof -
  have "ks_ok C f ks" using ks_reach_ok [OF assms(1), of False] by (simp add: ks_ok_inv)
  note all = ks_reach_ok [OF assms(2) this]
  have "(\<not> f \<and> \<not> f') = ks_inv C ks'" using all by (auto simp: ks_ok_def ks_inv_def)
  moreover have "f \<or> f' \<longrightarrow> IsCrypted ks' \<and> mapKeys ks' \<noteq> []"
    using all by (auto simp: ks_ok_def IsCrypted_def split: if_splits)
  moreover have "cks_AddKeyPubKey C E ks' k p = (False, ks') \<and> fst (cks_GetKey C E ks' a k) = False"
    if "IsLocked ks'"
    using that
    by (auto simp: IsLocked_def cks_AddKeyPubKey_def cks_GetKey_def DecryptSecret_def cr_SetKey_def
        split: if_splits option.splits)
  ultimately show ?thesis using all by (auto simp: IsCrypted_def)
qed


text \<open>A script and a lock; and a key that cannot be encrypted, as the master key has not 32 bytes.\<close>

theorem keystore_invariant_witness:
  "let ks = snd (AddCScript example_crypto cks_init [0x51]);
       ks' = snd (Lock ks);
       ks1 = snd (cks_AddKeyPubKey example_crypto example_evp cks_init example_key pk_invalid);
       ks2 = snd (EncryptKeys example_crypto example_evp ks1 [])
   in IsLocked ks' \<and> HaveCScript ks' (script_GetID example_crypto [0x51]) \<and> mapKeys ks' = [] \<and>
      cks_AddKeyPubKey example_crypto example_evp ks' example_key pk_invalid = (False, ks') \<and>
      IsCrypted ks2 \<and> mapKeys ks2 \<noteq> [] \<and> \<not> ks_inv example_crypto ks2"
proof -
  define ks where "ks = snd (AddCScript example_crypto cks_init [0x51])"
  define ks' where "ks' = snd (Lock ks)"
  define ks1 where "ks1 = snd (cks_AddKeyPubKey example_crypto example_evp cks_init example_key pk_invalid)"
  define ks2 where "ks2 = snd (EncryptKeys example_crypto example_evp ks1 [])"
  have "ks_step example_crypto example_evp cks_init False ks" "ks_step example_crypto example_evp ks False ks'"
    "ks_step example_crypto example_evp cks_init False ks1"
    by (rule st_script, simp add: ks_def prod_eq_iff) (rule st_lock, simp add: ks'_def prod_eq_iff,
      rule st_key, simp add: ks1_def prod_eq_iff)
  then have r: "ks_reach example_crypto example_evp cks_init False ks" "ks_reach example_crypto example_evp ks False ks'"
    "ks_reach example_crypto example_evp cks_init False ks1"
    using ks_trans [OF ks_refl] by fastforce+
  have "fst (EncryptKeys example_crypto example_evp ks1 []) = False \<and> \<not> IsCrypted ks1"
    by (simp add: ks1_def cks_AddKeyPubKey_def bks_AddKeyPubKey_def cks_init_def IsCrypted_def EncryptKeys_def
        EncryptSecret_def cr_SetKey_def Let_def)
  then have "ks_step example_crypto example_evp ks1 True ks2"
    using st_encrypt [of example_crypto example_evp ks1 "[]" False ks2] by (simp add: ks2_def prod_eq_iff)
  from ks_trans [OF ks_refl this] have r2: "ks_reach example_crypto example_evp ks1 True ks2" by simp
  have l: "IsLocked ks'" "HaveCScript ks (script_GetID example_crypto [0x51])"
    by (simp_all add: ks'_def ks_def AddCScript_def cks_init_def Lock_def SetCrypted_def IsLocked_def
        IsCrypted_def HaveCScript_def)
  then show ?thesis
    using keystore_invariant [OF r(1,2), of example_key pk_invalid] keystore_invariant [OF r(3) r2]
    by (auto simp: ks_def ks'_def ks1_def ks2_def Let_def ks_inv_def IsLocked_def IsCrypted_def split: if_splits)
qed

section \<open>Encrypting, locking and unlocking\<close>

text \<open>What the code relies on: the cipher decrypts what it encrypted under the same key and
  initialisation vector, and the library writes a compressed point as 33 bytes and the other as 65.\<close>

definition evp_inverts :: "evp \<Rightarrow> CKeyingMaterial \<Rightarrow> bool" where
  "evp_inverts E m \<longleftrightarrow>
     (\<forall>iv p. \<exists>c. evp_encrypt E m iv p = Some c \<and> evp_decrypt E m iv c = Some p)"

definition points_coded :: "('k, 'x) crypto_scheme \<Rightarrow> bool" where
  "points_coded C \<longleftrightarrow>
     (\<forall>secret b. length secret = 32 \<longrightarrow>
        (let p = i2o_ECPublicKey C b (EC_KEY_of_secret C secret)
         in if b then length p = 33 \<and> (hd p = 2 \<or> hd p = 3) else length p = 65 \<and> hd p = 4))"

text \<open>The keys of the store are valid and filed under their own identifier.\<close>
definition keys_filed :: "('k, 'x) crypto_scheme \<Rightarrow> CCryptoKeyStore \<Rightarrow> bool" where
  "keys_filed C ks \<longleftrightarrow>
     (\<forall>(a, key)\<in>set (mapKeys ks). a = HK (pk_GetID C (CKey_GetPubKey C key)) \<and>
        fValid key \<and> length (ck_vch key) = 32 \<and> CKey_Check (ck_vch key))"

lemma memcmp_refl [simp]: "memcmp xs xs n = 0"
proof (induction n arbitrary: xs)
  case (Suc n)
  then show ?case by (cases xs) auto
qed simp

lemma pk_eq_refl [simp]: "pk_eq k k"
  by (simp add: pk_eq_def)

lemma IsCompressed_GetPubKey:
  assumes "points_coded C" and "fValid key" and "length (ck_vch key) = 32"
  shows "pk_IsCompressed (CKey_GetPubKey C key) = fCompressed key"
proof -
  define p where "p = i2o_ECPublicKey C (fCompressed key) (EC_KEY_of_secret C (ck_vch key))"
  have p: "if fCompressed key then length p = 33 \<and> (hd p = 2 \<or> hd p = 3) else length p = 65 \<and> hd p = 4"
    using assms(1,3) by (simp add: points_coded_def p_def Let_def)
  moreover from p have "p \<noteq> []" by (auto split: if_splits)
  ultimately show ?thesis
    using assms(2) by (auto simp: CKey_GetPubKey_def ec_GetPubKey_def p_def [symmetric] pk_IsCompressed_def
        pk_Set_def pk_size_def pk_GetLen_def hd_conv_nth nth_append Let_def split: if_splits)
qed

lemma CKey_Set_same:
  assumes "fValid key" and "length (ck_vch key) = 32" and "CKey_Check (ck_vch key)"
  shows "CKey_Set k0 (CKey_bytes key) (fCompressed key) = key"
  using assms by (simp add: CKey_Set_def CKey_bytes_def CKey_size_def)

lemma Encrypt_Decrypt:
  assumes "evp_inverts E m" and "length m = 32" and "32 \<le> length (bu_bytes iv)"
  shows "\<exists>c. EncryptSecret E m p iv = Some c \<and> DecryptSecret E m c iv = Some p"
  using assms by (auto simp: EncryptSecret_def DecryptSecret_def cr_SetKey_def cr_Encrypt_def
      cr_Decrypt_def evp_inverts_def Let_def)


lemma length_GetHash [simp]: "length (pk_GetHash C p) = 8"
  by (simp add: pk_GetHash_def Hash_def Let_def)

text \<open>The encrypted form of one entry.\<close>
definition crypted_entry :: "('k, 'x) crypto_scheme \<Rightarrow> evp \<Rightarrow> CKeyingMaterial \<Rightarrow> CKey \<Rightarrow> CPubKey \<times> byte list" where
  "crypted_entry C E m key =
     (let p = CKey_GetPubKey C key in (p, the (EncryptSecret E m (CKey_bytes key) (pk_GetHash C p))))"

lemma encrypt_loop_entries:
  assumes "evp_inverts E m" and "length m = 32"
  shows "\<forall>(a, key)\<in>set xs. a = HK (pk_GetID C (CKey_GetPubKey C key)) \<Longrightarrow>
    sorted_wrt (<) (map fst (mapCryptedKeys ks) @ map fst xs) \<Longrightarrow> fUseCrypto ks \<Longrightarrow>
    encrypt_loop C E m xs ks =
      (True, ks\<lparr>mapCryptedKeys := mapCryptedKeys ks @ map (\<lambda>(a, key). (a, crypted_entry C E m key)) xs\<rparr>)"
proof (induction xs arbitrary: ks)
  case (Cons x xs)
  obtain a key where x: "x = (a, key)" by (cases x)
  define p where "p = CKey_GetPubKey C key"
  obtain c where c: "EncryptSecret E m (CKey_bytes key) (pk_GetHash C p) = Some c"
    using Encrypt_Decrypt [OF assms, of "pk_GetHash C p" "CKey_bytes key"] by auto
  have a: "a = HK (pk_GetID C p)" using Cons.prems(1) by (simp add: x p_def)
  have entry: "crypted_entry C E m key = (p, c)"
    using c by (simp add: crypted_entry_def p_def Let_def)
  let ?ks = "ks\<lparr>mapCryptedKeys := mapCryptedKeys ks @ [(a, p, c)]\<rparr>"
  have put: "om_put (mapCryptedKeys ks) a (p, c) = mapCryptedKeys ks @ [(a, p, c)]"
    using Cons.prems(2) by (intro om_put_last) (auto simp: x sorted_wrt_append list_all_iff)
  have "encrypt_loop C E m (x # xs) ks = encrypt_loop C E m xs ?ks"
    using c put Cons.prems(3)
    by (simp add: x Let_def p_def [symmetric] AddCryptedKey_def SetCrypted_def a [symmetric])
  also have "\<dots> = (True, ?ks\<lparr>mapCryptedKeys := mapCryptedKeys ?ks @ map (\<lambda>(a, key). (a, crypted_entry C E m key)) xs\<rparr>)"
    using Cons.prems by (intro Cons.IH) (auto simp: x sorted_wrt_append)
  finally show ?case by (simp add: x entry)
qed simp

lemma decrypt_entry:
  assumes "evp_inverts E m" and "length m = 32" and "points_coded C"
    and "fValid key" "length (ck_vch key) = 32" "CKey_Check (ck_vch key)"
  shows "case crypted_entry C E m key of (p, c) \<Rightarrow>
    p = CKey_GetPubKey C key \<and> DecryptSecret E m c (pk_GetHash C p) = Some (CKey_bytes key) \<and>
    length (CKey_bytes key) = 32 \<and> CKey_Set k0 (CKey_bytes key) (pk_IsCompressed p) = key"
  using Encrypt_Decrypt [OF assms(1,2), of "pk_GetHash C (CKey_GetPubKey C key)" "CKey_bytes key"]
    IsCompressed_GetPubKey [OF assms(3,4,5)] CKey_Set_same [OF assms(4,5,6)] assms(4,5)
  by (auto simp: crypted_entry_def Let_def CKey_bytes_def CKey_size_def)

text \<open>C21: Encrypting a store of valid keys filed under their identifiers succeeds, clears the plain keys and keeps the list of identifiers;
  locking it, then unlocking it with the same master key, succeeds and hands out every key exactly as before the encryption,
  and no key that was not there.\<close>

theorem keystore_roundtrip:
  assumes "ks_inv C ks" and "\<not> IsCrypted ks" and "keys_filed C ks"
    and "evp_inverts E m" and "length m = 32" and "points_coded C"
  shows "\<exists>ks1 ks2 ks3. EncryptKeys C E ks m = (True, ks1) \<and> Lock ks1 = (True, ks2) \<and>
      Unlock C E ks2 m = (True, ks3) \<and>
      mapKeys ks1 = [] \<and> IsLocked ks2 \<and> \<not> IsLocked ks3 \<and>
      cks_GetKeys ks1 = cks_GetKeys ks \<and> cks_GetKeys ks3 = cks_GetKeys ks \<and>
      cks_GetKey C E ks3 a k0 = cks_GetKey C E ks a k0 \<and>
      cks_GetPubKey C ks3 a = cks_GetPubKey C ks a"
proof -
  have off: "\<not> fUseCrypto ks" "mapCryptedKeys ks = []" and wf: "om_wf (mapKeys ks)"
    using assms(1,2) by (auto simp: ks_inv_def IsCrypted_def)
  define es where "es = map (\<lambda>(a, key). (a, crypted_entry C E m key)) (mapKeys ks)"
  define ks1 where "ks1 = ks\<lparr>fUseCrypto := True, mapCryptedKeys := es, mapKeys := []\<rparr>"
  define ks2 where "ks2 = ks1\<lparr>vMasterKey := [], notified := notified ks1 + 1\<rparr>"
  define ks3 where "ks3 = ks2\<lparr>vMasterKey := m, notified := notified ks2 + 1\<rparr>"
  have loop: "encrypt_loop C E m (mapKeys ks) (ks\<lparr>fUseCrypto := True\<rparr>) =
      (True, ks\<lparr>fUseCrypto := True, mapCryptedKeys := es\<rparr>)"
    using encrypt_loop_entries [OF assms(4,5), of "mapKeys ks" C "ks\<lparr>fUseCrypto := True\<rparr>"]
      assms(3) wf off by (fastforce simp: keys_filed_def om_wf_sorted es_def)
  have 1: "EncryptKeys C E ks m = (True, ks1)"
    using off loop by (simp add: EncryptKeys_def IsCrypted_def ks1_def)
  have 2: "Lock ks1 = (True, ks2)"
    by (simp add: Lock_def SetCrypted_def ks1_def ks2_def)
  have entry: "case crypted_entry C E m key of (p, c) \<Rightarrow>
      p = CKey_GetPubKey C key \<and> DecryptSecret E m c (pk_GetHash C p) = Some (CKey_bytes key) \<and>
      length (CKey_bytes key) = 32 \<and> CKey_Set k0 (CKey_bytes key) (pk_IsCompressed p) = key"
    if "(a, key) \<in> set (mapKeys ks)" for a key k0
    using that assms(3) by (intro decrypt_entry assms) (auto simp: keys_filed_def)
  have "unlock_check C E m es"
  proof (cases "mapKeys ks")
    case (Cons x xs)
    then show ?thesis
      using entry [of "fst x" "snd x" "\<lparr>fValid = False, fCompressed = False, ck_vch = replicate 32 0\<rparr>"]
      by (cases x) (auto simp: es_def unlock_check_def split: prod.splits)
  qed (simp add: es_def unlock_check_def)
  then have 3: "Unlock C E ks2 m = (True, ks3)"
    by (simp add: Unlock_def SetCrypted_def ks1_def ks2_def ks3_def)
  have find: "om_find es (HK a) = map_option (crypted_entry C E m) (om_find (mapKeys ks) (HK a))"
    by (simp add: es_def om_find_map)
  have get: "cks_GetKey C E ks3 a k0 = cks_GetKey C E ks a k0 \<and> cks_GetPubKey C ks3 a = cks_GetPubKey C ks a"
  proof (cases "om_find (mapKeys ks) (HK a)")
    case (Some key)
    then have "(HK a, key) \<in> set (mapKeys ks)" by (simp add: om_find_map_of map_of_SomeD)
    from entry [OF this, of k0] Some find off show ?thesis
      by (auto simp: cks_GetKey_def cks_GetPubKey_def bks_GetPubKey_def bks_GetKey_def IsCrypted_def
          ks1_def ks2_def ks3_def)
  qed (use find off in \<open>simp add: cks_GetKey_def cks_GetPubKey_def bks_GetPubKey_def bks_GetKey_def
      IsCrypted_def ks1_def ks2_def ks3_def\<close>)
  have "map fst es = map fst (mapKeys ks)" by (auto simp: es_def)
  then show ?thesis
    using 1 2 3 get off assms(5)
    by (intro exI [of _ ks1] exI [of _ ks2] exI [of _ ks3])
      (auto simp: cks_GetKeys_def bks_GetKeys_def IsCrypted_def IsLocked_def ks1_def ks2_def ks3_def)
qed


theorem keystore_roundtrip_witness:
  "let p = CKey_GetPubKey example_crypto example_key;
       ks = snd (bks_AddKeyPubKey example_crypto cks_init example_key p);
       m = replicate 32 9
   in \<exists>ks1 ks2 ks3. EncryptKeys example_crypto example_evp ks m = (True, ks1) \<and> Lock ks1 = (True, ks2) \<and>
        Unlock example_crypto example_evp ks2 m = (True, ks3) \<and>
        cks_GetKey example_crypto example_evp ks3 (pk_GetID example_crypto p) example_key = (True, example_key)"
proof -
  define p where "p = CKey_GetPubKey example_crypto example_key"
  define ks where "ks = snd (bks_AddKeyPubKey example_crypto cks_init example_key p)"
  have ks: "ks = cks_init\<lparr>mapKeys := [(HK (pk_GetID example_crypto p), example_key)]\<rparr>"
    by (simp add: ks_def bks_AddKeyPubKey_def cks_init_def)
  have "CKey_Check (replicate 32 7)" by code_simp
  then have h: "ks_inv example_crypto ks" "\<not> IsCrypted ks" "keys_filed example_crypto ks"
    by (simp_all add: ks ks_inv_def IsCrypted_def keys_filed_def cks_init_def p_def)
  have e: "evp_inverts example_evp (replicate 32 9)" "points_coded example_crypto"
    by (auto simp: evp_inverts_def example_evp_def points_coded_def example_crypto_def Let_def)
  have "cks_GetKey example_crypto example_evp ks (pk_GetID example_crypto p) example_key = (True, example_key)"
    by (simp add: cks_GetKey_def bks_GetKey_def IsCrypted_def ks cks_init_def)
  then show ?thesis
    using keystore_roundtrip [OF h e(1) _ e(2), of "pk_GetID example_crypto p" example_key]
    by (auto simp: ks_def p_def Let_def)
qed

text \<open>When the cipher refuses a key half way, the store is left with encryption on and keys in clear.\<close>
lemma EncryptKeys_failure:
  assumes "mapKeys ks = (a, key) # xs" and "mapCryptedKeys ks = []" and "\<not> IsCrypted ks"
    and "EncryptSecret E m (CKey_bytes key) (pk_GetHash C (CKey_GetPubKey C key)) = None"
  shows "EncryptKeys C E ks m = (False, ks\<lparr>fUseCrypto := True\<rparr>) \<and> \<not> ks_inv C (ks\<lparr>fUseCrypto := True\<rparr>)"
  using assms by (simp add: EncryptKeys_def ks_inv_def Let_def)

end
