(* ===== verification/BigNum.thy ===== *)
theory BigNum
  imports Uint256
begin

text \<open>
  \<open>CBigNum\<close> of \<open>bignum.h\<close>, the wrapper of OpenSSL's \<open>BIGNUM\<close>.  The library is a parameter: \<open>bn_lib\<close>
  is the record of the library functions the code calls, over any type of \<open>BIGNUM\<close>s, and every member
  takes it as an argument.  Failures of the library to allocate memory are not modelled; a division
  fails when the divisor is zero.  The locale \<open>bignum\<close> states the documented behaviour of those
  functions over the number \<open>val b\<close> of a \<open>BIGNUM\<close> \<open>b\<close>; its interpretation \<open>ref_bn\<close> builds the library
  on \<open>int\<close> with the documented MPI format.
\<close>

section \<open>The library\<close>

record 'b bn_lib =
  BN_set_word :: "u64 \<Rightarrow> 'b"
  BN_get_word :: "'b \<Rightarrow> u64"
  BN_is_negative :: "'b \<Rightarrow> bool"
  BN_set_negative :: "'b \<Rightarrow> bool \<Rightarrow> 'b"
  BN_is_zero :: "'b \<Rightarrow> bool"
  BN_num_bytes :: "'b \<Rightarrow> nat"
  BN_mpi2bn :: "byte list \<Rightarrow> 'b"
  BN_bn2mpi :: "'b \<Rightarrow> byte list"
  BN_add :: "'b \<Rightarrow> 'b \<Rightarrow> 'b"
  BN_sub :: "'b \<Rightarrow> 'b \<Rightarrow> 'b"
  BN_mul :: "'b \<Rightarrow> 'b \<Rightarrow> 'b"
  BN_div :: "'b \<Rightarrow> 'b \<Rightarrow> 'b option"
  BN_mod :: "'b \<Rightarrow> 'b \<Rightarrow> 'b option"
  BN_lshift :: "'b \<Rightarrow> nat \<Rightarrow> 'b"
  BN_rshift :: "'b \<Rightarrow> nat \<Rightarrow> 'b"
  BN_cmp :: "'b \<Rightarrow> 'b \<Rightarrow> int"
  BN_value_one :: "'b"

section \<open>Conversions\<close>

definition bn_setulong :: "'b bn_lib \<Rightarrow> u64 \<Rightarrow> 'b" where
  "bn_setulong L n = BN_set_word L n"

definition bn_getulong :: "'b bn_lib \<Rightarrow> 'b \<Rightarrow> u64" where
  "bn_getulong L b = BN_get_word L b"

definition bn_getuint :: "'b bn_lib \<Rightarrow> 'b \<Rightarrow> u32" where
  "bn_getuint L b = ucast (BN_get_word L b)"

text \<open>An \<open>int\<close> as a number; \<open>INT_MAX\<close> and \<open>INT_MIN\<close> bound it.\<close>
definition bn_getint :: "'b bn_lib \<Rightarrow> 'b \<Rightarrow> int" where
  "bn_getint L b =
     (let n = BN_get_word L b
      in if \<not> BN_is_negative L b
         then (if n > 0x7fffffff then 0x7fffffff else uint n)
         else (if n > 0x7fffffff then - 0x80000000 else - uint n))"

text \<open>The loops that write a number's bytes, most significant first, without leading zeros: a sign
  byte when the first byte has its top bit set, the sign in that bit otherwise.\<close>

fun mpi_digits :: "bool \<Rightarrow> bool \<Rightarrow> byte list \<Rightarrow> byte list" where
  "mpi_digits fNegative fLeadingZeroes [] = []"
| "mpi_digits fNegative fLeadingZeroes (c # cs) =
     (if fLeadingZeroes
      then (if c = 0 then mpi_digits fNegative True cs
            else if c AND 0x80 \<noteq> 0
            then (if fNegative then 0x80 else 0) # c # mpi_digits fNegative False cs
            else (if fNegative then c OR 0x80 else c) # mpi_digits fNegative False cs)
      else c # mpi_digits fNegative False cs)"

text \<open>The byte \<open>(n >> 56) & 0xff\<close> of each round, with \<open>n <<= 8\<close> between rounds.\<close>
fun top_bytes :: "nat \<Rightarrow> u64 \<Rightarrow> byte list" where
  "top_bytes 0 n = []"
| "top_bytes (Suc k) n = ucast (drop_bit 56 n AND 0xff) # top_bytes k (push_bit 8 n)"

definition mpi_header :: "nat \<Rightarrow> byte list" where
  "mpi_header n =
     (let nSize = word_of_nat n :: u32
      in [ucast (drop_bit 24 nSize AND 0xff), ucast (drop_bit 16 nSize AND 0xff),
          ucast (drop_bit 8 nSize AND 0xff), ucast (nSize AND 0xff)])"

definition bn_setint64 :: "'b bn_lib \<Rightarrow> i64 \<Rightarrow> 'b" where
  "bn_setint64 L sn =
     (let (n, fNegative) = (if sn <s 0 then (- (sn + 1) + 1, True) else (sn, False));
          p = mpi_digits fNegative True (top_bytes 8 n)
      in BN_mpi2bn L (mpi_header (length p) @ p))"

definition bn_setuint64 :: "'b bn_lib \<Rightarrow> u64 \<Rightarrow> 'b" where
  "bn_setuint64 L n =
     (let p = mpi_digits False True (top_bytes 8 n) in BN_mpi2bn L (mpi_header (length p) @ p))"

definition bn_setuint256 :: "'b bn_lib \<Rightarrow> uint256 \<Rightarrow> 'b" where
  "bn_setuint256 L n =
     (let p = mpi_digits False True (rev (bu_bytes n)) in BN_mpi2bn L (mpi_header (length p) @ p))"

text \<open>The constructor from \<open>int\<close>.\<close>
definition bn_of_int :: "'b bn_lib \<Rightarrow> i64 \<Rightarrow> 'b" where
  "bn_of_int L n = (if 0 \<le>s n then bn_setulong L n else bn_setint64 L n)"

definition bn_getuint256 :: "'b bn_lib \<Rightarrow> 'b \<Rightarrow> uint256" where
  "bn_getuint256 L b =
     (let vch = BN_bn2mpi L b; nSize = length vch
      in if nSize < 4 then bu_of64 8 0
         else let vch = (if nSize > 4 then vch[4 := vch ! 4 AND 0x7f] else vch);
                  bytes = take 32 (rev (drop 4 vch))
              in bu_of_bytes 8 (bytes @ replicate (32 - length bytes) 0))"

definition bn_setvch :: "'b bn_lib \<Rightarrow> byte list \<Rightarrow> 'b" where
  "bn_setvch L vch = BN_mpi2bn L (mpi_header (length vch) @ rev vch)"

definition bn_getvch :: "'b bn_lib \<Rightarrow> 'b \<Rightarrow> byte list" where
  "bn_getvch L b =
     (let vch = BN_bn2mpi L b; nSize = length vch
      in if nSize \<le> 4 then [] else rev (drop 4 vch))"

section \<open>Compact format\<close>

definition bn_SetCompact :: "'b bn_lib \<Rightarrow> u32 \<Rightarrow> 'b" where
  "bn_SetCompact L nCompact =
     (let nSize = unat (drop_bit 24 nCompact);
          fNegative = nCompact AND 0x00800000 \<noteq> 0;
          nWord = nCompact AND 0x007fffff;
          b = (if nSize \<le> 3 then BN_set_word L (ucast (drop_bit (8 * (3 - nSize)) nWord))
               else BN_lshift L (BN_set_word L (ucast nWord)) (8 * (nSize - 3)))
      in BN_set_negative L b fNegative)"

definition bn_GetCompact :: "'b bn_lib \<Rightarrow> 'b \<Rightarrow> u32" where
  "bn_GetCompact L b =
     (let nSize = BN_num_bytes L b;
          nCompact = (if nSize \<le> 3 then ucast (push_bit (8 * (3 - nSize)) (BN_get_word L b))
                      else ucast (BN_get_word L (BN_rshift L b (8 * (nSize - 3))))) :: u32;
          (nCompact, nSize) = (if nCompact AND 0x00800000 \<noteq> 0 then (drop_bit 8 nCompact, nSize + 1)
                               else (nCompact, nSize));
          nCompact = nCompact OR push_bit 24 (word_of_nat nSize)
      in nCompact OR (if BN_is_negative L b then 0x00800000 else 0))"

section \<open>Operators\<close>

definition bn_plus :: "'b bn_lib \<Rightarrow> 'b \<Rightarrow> 'b \<Rightarrow> 'b" where "bn_plus L a b = BN_add L a b"
definition bn_minus :: "'b bn_lib \<Rightarrow> 'b \<Rightarrow> 'b \<Rightarrow> 'b" where "bn_minus L a b = BN_sub L a b"
definition bn_times :: "'b bn_lib \<Rightarrow> 'b \<Rightarrow> 'b \<Rightarrow> 'b" where "bn_times L a b = BN_mul L a b"
definition bn_divide :: "'b bn_lib \<Rightarrow> 'b \<Rightarrow> 'b \<Rightarrow> 'b option" where "bn_divide L a b = BN_div L a b"
definition bn_modulo :: "'b bn_lib \<Rightarrow> 'b \<Rightarrow> 'b \<Rightarrow> 'b option" where "bn_modulo L a b = BN_mod L a b"

definition bn_uminus :: "'b bn_lib \<Rightarrow> 'b \<Rightarrow> 'b" where
  "bn_uminus L a = BN_set_negative L a (\<not> BN_is_negative L a)"

definition bn_shl :: "'b bn_lib \<Rightarrow> 'b \<Rightarrow> u32 \<Rightarrow> 'b" where
  "bn_shl L a shift = BN_lshift L a (unat shift)"

definition bn_shr :: "'b bn_lib \<Rightarrow> 'b \<Rightarrow> u32 \<Rightarrow> 'b" where
  "bn_shr L b shift =
     (let a = bn_of_int L 1; a = bn_shl L a shift
      in if BN_cmp L a b > 0 then bn_of_int L 0 else BN_rshift L b (unat shift))"

definition bn_pred :: "'b bn_lib \<Rightarrow> 'b \<Rightarrow> 'b" where "bn_pred L a = BN_sub L a (BN_value_one L)"
definition bn_succ :: "'b bn_lib \<Rightarrow> 'b \<Rightarrow> 'b" where "bn_succ L a = BN_add L a (BN_value_one L)"
definition bn_is_zero :: "'b bn_lib \<Rightarrow> 'b \<Rightarrow> bool" where "bn_is_zero L a = BN_is_zero L a"
definition bn_eq :: "'b bn_lib \<Rightarrow> 'b \<Rightarrow> 'b \<Rightarrow> bool" where "bn_eq L a b = (BN_cmp L a b = 0)"
definition bn_neq :: "'b bn_lib \<Rightarrow> 'b \<Rightarrow> 'b \<Rightarrow> bool" where "bn_neq L a b = (BN_cmp L a b \<noteq> 0)"
definition bn_le :: "'b bn_lib \<Rightarrow> 'b \<Rightarrow> 'b \<Rightarrow> bool" where "bn_le L a b = (BN_cmp L a b \<le> 0)"
definition bn_ge :: "'b bn_lib \<Rightarrow> 'b \<Rightarrow> 'b \<Rightarrow> bool" where "bn_ge L a b = (BN_cmp L a b \<ge> 0)"
definition bn_lt :: "'b bn_lib \<Rightarrow> 'b \<Rightarrow> 'b \<Rightarrow> bool" where "bn_lt L a b = (BN_cmp L a b < 0)"
definition bn_gt :: "'b bn_lib \<Rightarrow> 'b \<Rightarrow> 'b \<Rightarrow> bool" where "bn_gt L a b = (BN_cmp L a b > 0)"

text \<open>\<open>isxdigit\<close> of the C library, and the member \<open>SetHex\<close>.\<close>

definition isxdigit :: "char \<Rightarrow> bool" where
  "isxdigit c = (let n = of_char c :: nat
                 in (48 \<le> n \<and> n \<le> 57) \<or> (65 \<le> n \<and> n \<le> 70) \<or> (97 \<le> n \<and> n \<le> 102))"

fun bn_hex_loop :: "'b bn_lib \<Rightarrow> 'b \<Rightarrow> string \<Rightarrow> 'b" where
  "bn_hex_loop L b [] = b"
| "bn_hex_loop L b (c # psz) =
     (if isxdigit c
      then bn_hex_loop L (bn_plus L (bn_shl L b 4) (bn_of_int L (ucast (phexdigit c)))) psz
      else b)"

definition bn_SetHex :: "'b bn_lib \<Rightarrow> string \<Rightarrow> 'b" where
  "bn_SetHex L str =
     (let psz = dropWhile isspace str;
          fNegative = (case psz of c # _ \<Rightarrow> c = CHR ''-'' | [] \<Rightarrow> False);
          psz = (if fNegative then tl psz else psz);
          psz = dropWhile isspace (skip_0x psz);
          b = bn_hex_loop L (bn_of_int L 0) psz
      in if fNegative then bn_minus L (bn_of_int L 0) b else b)"

section \<open>Sign and magnitude byte codes\<close>

text \<open>The minimal little-endian digits of a number, and the little-endian sign-and-magnitude code of
  an integer: the top bit of the last byte is the sign.\<close>

fun le_digits :: "nat \<Rightarrow> byte list" where
  "le_digits n = (if n = 0 then [] else word_of_nat (n mod 256) # le_digits (n div 256))"

declare le_digits.simps [simp del]

definition sn_bytes :: "int \<Rightarrow> byte list" where
  "sn_bytes v =
     (let d = le_digits (nat \<bar>v\<bar>)
      in if d = [] then []
         else if bit (last d) 7 then d @ [if v < 0 then 0x80 else 0]
         else if v < 0 then butlast d @ [last d OR 0x80] else d)"

definition sn_val :: "byte list \<Rightarrow> int" where
  "sn_val bs =
     (if bs = [] then 0
      else (let m = int (le_val (butlast bs @ [last bs AND 0x7f]))
            in if bit (last bs) 7 then - m else m))"

lemma le_digits_0 [simp]: "le_digits 0 = []"
  by (simp add: le_digits.simps)

lemma le_digits_pos: "0 < n \<Longrightarrow> le_digits n = word_of_nat (n mod 256) # le_digits (n div 256)"
  by (simp add: le_digits.simps)

lemma le_digits_Nil [simp]: "le_digits n = [] \<longleftrightarrow> n = 0"
  by (subst le_digits.simps) simp

lemma le_val_le_digits [simp]: "le_val (le_digits n) = n"
proof (induction n rule: le_digits.induct)
  case (1 n)
  then show ?case by (cases "n = 0") (simp_all add: le_digits_pos)
qed

lemma le_val_0 [simp]: "le_val bs = 0 \<longleftrightarrow> (\<forall>b\<in>set bs. b = 0)"
  by (induction bs) (auto simp: unat_eq_zero)

lemma last_le_digits: "0 < n \<Longrightarrow> last (le_digits n) \<noteq> 0"
proof (induction n rule: le_digits.induct)
  case (1 n)
  show ?case
  proof (cases "n div 256 = 0")
    case True
    then have "n < 256" by (simp add: div_eq_0_iff)
    with 1 have "unat (word_of_nat (n mod 256) :: byte) \<noteq> 0" by (simp only: unat_byte_of_mod) simp
    then show ?thesis using 1 True by (simp add: le_digits_pos unat_eq_zero)
  next
    case False
    then show ?thesis using 1 by (simp add: le_digits_pos)
  qed
qed

lemma le_digits_le_val: "bs = [] \<or> last bs \<noteq> 0 \<Longrightarrow> le_digits (le_val bs) = bs"
proof (induction bs)
  case Nil
  then show ?case by simp
next
  case (Cons b bs)
  have "bs = [] \<or> last bs \<noteq> 0" using Cons.prems by auto
  with Cons.IH have IH: "le_digits (le_val bs) = bs" .
  have pos: "0 < le_val (b # bs)"
    unfolding neq0_conv [symmetric]
    using Cons.prems last_in_set [of "b # bs"] by (auto simp only: le_val_0)
  have "(unat b + 256 * le_val bs) mod 256 = unat b" "(unat b + 256 * le_val bs) div 256 = le_val bs"
    by simp_all
  then show ?case
    by (subst le_digits_pos [OF pos]) (simp add: IH)
qed

lemma length_le_digits: "length (le_digits n) \<le> k \<longleftrightarrow> n < 256 ^ k"
proof (induction n arbitrary: k rule: le_digits.induct)
  case (1 n)
  show ?case
  proof (cases "n = 0")
    case False
    show ?thesis
    proof (cases k)
      case 0
      then show ?thesis using False by simp
    next
      case (Suc j)
      then have "n < 256 ^ k \<longleftrightarrow> n div 256 < 256 ^ j"
        by (simp add: div_less_iff_less_mult ac_simps)
      then show ?thesis using False 1 Suc by (simp add: le_digits_pos)
    qed
  qed simp
qed

lemma le_val_snoc: "le_val (bs @ [b]) = le_val bs + 256 ^ length bs * unat b"
  by (induction bs) (auto simp: algebra_simps)

lemma sn_val_snoc: "sn_val (bs @ [b]) = (let m = int (le_val bs + 256 ^ length bs * unat (b AND 0x7f)) in if bit b 7 then - m else m)"
  by (simp add: sn_val_def le_val_snoc)

lemma sn_val_sn_bytes [simp]: "sn_val (sn_bytes v) = v"
proof (cases "v = 0")
  case True
  then show ?thesis by (simp add: sn_bytes_def sn_val_def)
next
  case False
  define d where "d = le_digits (nat \<bar>v\<bar>)"
  then have d: "d \<noteq> []" "int (le_val d) = \<bar>v\<bar>" using False by auto
  then obtain e x where e: "d = e @ [x]" by (metis append_butlast_last_id)
  have m: "int (le_val e + 256 ^ length e * unat x) = \<bar>v\<bar>" using d(2) by (simp only: e le_val_snoc)
  have z: "unat (0x80 AND 0x7f :: byte) = 0" "unat (0 AND 0x7f :: byte) = 0" "bit (0x80 :: byte) 7" "\<not> bit (0 :: byte) 7"
    by simp_all
  have s: "sn_bytes v = (if bit x 7 then d @ [if v < 0 then 0x80 else 0]
      else if v < 0 then e @ [x OR 0x80] else e @ [x])"
    using d(1) by (simp add: sn_bytes_def Let_def d_def [symmetric] e)
  show ?thesis
  proof (cases "bit x 7")
    case True
    then show ?thesis
      using d(2) False z by (simp only: s sn_val_snoc Let_def split: if_split) simp
  next
    case False
    then show ?thesis
      using m by (simp only: s sn_val_snoc Let_def and_7f_self [OF False] or_80_and_7f bit_or_80 split: if_split) simp
  qed
qed

text \<open>A code is minimal when its last byte carries more than the sign, or is needed for it.\<close>

definition sn_minimal :: "byte list \<Rightarrow> bool" where
  "sn_minimal bs =
     (bs = [] \<or> last bs AND 0x7f \<noteq> 0 \<or> (1 < length bs \<and> bit (last (butlast bs)) 7))"

lemma sn_minimal_sn_bytes: "sn_minimal (sn_bytes v)"
proof (cases "v = 0")
  case True
  then show ?thesis by (simp add: sn_bytes_def sn_minimal_def)
next
  case False
  define d where "d = le_digits (nat \<bar>v\<bar>)"
  then have d: "d \<noteq> []" "last d \<noteq> 0" using False last_le_digits [of "nat \<bar>v\<bar>"] by auto
  then obtain e x where e: "d = e @ [x]" by (metis append_butlast_last_id)
  have x: "x \<noteq> 0" using d e by simp
  have s: "sn_bytes v = (if bit x 7 then d @ [if v < 0 then 0x80 else 0]
      else if v < 0 then e @ [x OR 0x80] else e @ [x])"
    using d(1) by (simp add: sn_bytes_def Let_def d_def [symmetric] e)
  show ?thesis
    using x and_7f_self [of x] by (auto simp: s sn_minimal_def e butlast_append)
qed

lemma sn_bytes_sn_val:
  assumes "sn_minimal bs"
  shows "sn_bytes (sn_val bs) = bs"
proof (cases "bs = []")
  case True
  then show ?thesis by (simp add: sn_val_def sn_bytes_def)
next
  case False
  then obtain e x where bs: "bs = e @ [x]" by (metis append_butlast_last_id)
  define m where "m = le_val (e @ [x AND 0x7f])"
  have v: "sn_val bs = (if bit x 7 then - int m else int m)"
    by (simp add: bs sn_val_def m_def)
  have a: "nat \<bar>sn_val bs\<bar> = m"
    by (simp add: v)
  show ?thesis
  proof (cases "x AND 0x7f = 0")
    case True
    with assms bs obtain e' y where e: "e = e' @ [y]" and y: "bit y 7"
      by (auto simp: sn_minimal_def) (metis append_butlast_last_id length_greater_0_conv)
    have m: "m = le_val e" by (simp add: m_def le_val_snoc True)
    have y0: "y \<noteq> 0" using y by auto
    have d: "le_digits m = e" unfolding m by (rule le_digits_le_val) (simp add: e y0)
    have "0 < m" unfolding m using y0 by (simp add: e zero_less_iff_neq_zero del: neq0_conv)
    then have sgn: "sn_val bs < 0 \<longleftrightarrow> bit x 7" by (simp add: v)
    moreover have "x = (if bit x 7 then 0x80 else 0)"
      using True and_7f_self [of x] or_80_and_7f_self [of x] by auto
    ultimately show ?thesis
      using y by (simp add: sn_bytes_def a d sgn Let_def) (simp add: bs e)
  next
    case False
    have d: "le_digits m = e @ [x AND 0x7f]"
      unfolding m_def by (rule le_digits_le_val) (simp add: False)
    have "0 < m" unfolding m_def using False by (auto simp: zero_less_iff_neq_zero simp del: neq0_conv)
    then have sgn: "sn_val bs < 0 \<longleftrightarrow> bit x 7" by (simp add: v)
    have "sn_bytes (sn_val bs) = e @ [x]"
      unfolding sn_bytes_def a d Let_def sgn
      using and_7f_self [of x] or_80_and_7f_self [of x] by simp
    then show ?thesis by (simp only: bs)
  qed
qed

lemma abs_sn_val_less: "\<bar>sn_val bs\<bar> < 2 ^ (8 * length bs - 1)"
proof (cases "bs = []")
  case True
  then show ?thesis by (simp add: sn_val_def)
next
  case False
  then obtain e x where bs: "bs = e @ [x]" by (metis append_butlast_last_id)
  have x: "unat (x AND 0x7f) < 128"
    unfolding and_7F using take_bit_nat_less_exp [of 7 "unat x"] by (simp add: unsigned_take_bit_eq)
  have "le_val e + 256 ^ length e * unat (x AND 0x7f) < 256 ^ length e * Suc (unat (x AND 0x7f))"
    using le_val_bound [of e] by simp
  also have "\<dots> \<le> 256 ^ length e * 128" using x by (intro mult_le_mono2) simp
  also have "\<dots> = 2 ^ (8 * length bs - 1)" by (simp add: bs power_mult power_add)
  finally have "int (le_val e + 256 ^ length e * unat (x AND 0x7f)) < 2 ^ (8 * length bs - 1)"
    by (metis of_nat_less_iff of_nat_numeral of_nat_power)
  moreover have "\<bar>sn_val bs\<bar> = int (le_val e + 256 ^ length e * unat (x AND 0x7f))"
    by (simp only: bs sn_val_snoc Let_def abs_minus_cancel abs_of_nat split: if_split) simp
  ultimately show ?thesis by (simp only:)
qed

lemma byte_msb_iff: "bit (x :: byte) 7 \<longleftrightarrow> 128 \<le> unat x"
proof -
  have "bit x 7 \<longleftrightarrow> bit (unat x) 7" by (simp add: bit_unsigned_iff)
  also have "\<dots> \<longleftrightarrow> odd (unat x div 128)" by (simp add: bit_iff_odd)
  also have "\<dots> \<longleftrightarrow> 128 \<le> unat x"
  proof -
    have "unat x div 128 < 2" using unat_byte_less [of x] by (simp add: div_less_iff_less_mult)
    then have "unat x div 128 = 0 \<or> unat x div 128 = 1" by linarith
    then show ?thesis by (auto simp: div_eq_0_iff)
  qed
  finally show ?thesis .
qed

lemma top_digit:
  assumes "0 < n"
  shows "bit (last (le_digits n)) 7 \<longleftrightarrow> 128 * 256 ^ (length (le_digits n) - 1) \<le> n"
proof -
  obtain e x where d: "le_digits n = e @ [x]"
    using assms by (metis append_butlast_last_id le_digits_Nil less_numeral_extra(3))
  have n: "n = le_val e + 256 ^ length e * unat x"
    using le_val_le_digits [of n] by (simp only: d le_val_snoc)
  have b: "le_val e < 256 ^ length e" by (rule le_val_bound)
  have "128 \<le> unat x \<longleftrightarrow> 256 ^ length e * 128 \<le> n"
  proof
    assume "128 \<le> unat x"
    then have "256 ^ length e * 128 \<le> 256 ^ length e * unat x" by (rule mult_le_mono2)
    then show "256 ^ length e * 128 \<le> n" using n by linarith
  next
    assume "256 ^ length e * 128 \<le> n"
    then have "256 ^ length e * 128 < 256 ^ length e * Suc (unat x)"
      using n b unfolding mult_Suc_right by linarith
    then show "128 \<le> unat x" by simp
  qed
  then show ?thesis by (simp add: d byte_msb_iff mult.commute)
qed

lemma length_sn_bytes:
  "length (sn_bytes v) = length (le_digits (nat \<bar>v\<bar>)) +
    (if v \<noteq> 0 \<and> 128 * 256 ^ (length (le_digits (nat \<bar>v\<bar>)) - 1) \<le> nat \<bar>v\<bar> then 1 else 0)"
proof (cases "v = 0")
  case False
  then have "0 < nat \<bar>v\<bar>" by simp
  from top_digit [OF this] False show ?thesis
    by (simp add: sn_bytes_def Let_def)
qed (simp add: sn_bytes_def)

lemma length_sn_bytes_le: "length (sn_bytes (sn_val bs)) \<le> length bs"
proof (cases "bs = []")
  case True
  then show ?thesis by (simp add: sn_val_def sn_bytes_def)
next
  case False
  then obtain k where k: "length bs = Suc k" by (cases bs) auto
  let ?n = "nat \<bar>sn_val bs\<bar>"
  have "\<bar>sn_val bs\<bar> < 2 ^ (7 + 8 * k)" using abs_sn_val_less [of bs] by (simp add: k)
  then have n: "?n < 128 * 256 ^ k" by (simp add: power_add power_mult nat_less_iff)
  then have "length (le_digits ?n) \<le> Suc k" by (simp add: length_le_digits)
  then consider "length (le_digits ?n) \<le> k" | "length (le_digits ?n) = Suc k" by linarith
  then show ?thesis
    using n by cases (simp_all add: length_sn_bytes k)
qed

section \<open>The contract of the library\<close>

definition mpi_format :: "int \<Rightarrow> byte list" where
  "mpi_format v = rev (le_bytes 4 (length (sn_bytes v))) @ rev (sn_bytes v)"

locale bignum =
  fixes L :: "'b bn_lib" and val :: "'b \<Rightarrow> int"
  assumes val_set_word: "val (BN_set_word L n) = uint n"
    and get_word: "BN_get_word L b = (if \<bar>val b\<bar> < 2 ^ 64 then word_of_int \<bar>val b\<bar> else -1)"
    and is_negative: "BN_is_negative L b \<longleftrightarrow> val b < 0"
    and val_set_negative: "val (BN_set_negative L b f) = (if f then - \<bar>val b\<bar> else \<bar>val b\<bar>)"
    and is_zero: "BN_is_zero L b \<longleftrightarrow> val b = 0"
    and num_bytes: "BN_num_bytes L b = length (le_digits (nat \<bar>val b\<bar>))"
    and val_mpi2bn: "length d < 2 ^ 32 \<Longrightarrow> val (BN_mpi2bn L (rev (le_bytes 4 (length d)) @ rev d)) = sn_val d"
    and bn2mpi: "BN_bn2mpi L b = mpi_format (val b)"
    and val_add: "val (BN_add L a b) = val a + val b"
    and val_sub: "val (BN_sub L a b) = val a - val b"
    and val_mul: "val (BN_mul L a b) = val a * val b"
    and val_div: "val b \<noteq> 0 \<Longrightarrow>
      \<exists>q. BN_div L a b = Some q \<and> val q = sgn (val a) * sgn (val b) * (\<bar>val a\<bar> div \<bar>val b\<bar>)"
    and val_mod: "val b \<noteq> 0 \<Longrightarrow> \<exists>r. BN_mod L a b = Some r \<and> val r = sgn (val a) * (\<bar>val a\<bar> mod \<bar>val b\<bar>)"
    and div_zero: "val b = 0 \<Longrightarrow> BN_div L a b = None \<and> BN_mod L a b = None"
    and val_lshift: "val (BN_lshift L b k) = val b * 2 ^ k"
    and val_rshift: "val (BN_rshift L b k) = sgn (val b) * (\<bar>val b\<bar> div 2 ^ k)"
    and cmp: "BN_cmp L a b = sgn (val a - val b)"
    and val_one: "val (BN_value_one L) = 1"

text \<open>A library built from the documented formats, over the integers themselves.\<close>

definition ref_bn :: "int bn_lib" where
  "ref_bn =
     \<lparr>BN_set_word = uint,
      BN_get_word = (\<lambda>b. if \<bar>b\<bar> < 2 ^ 64 then word_of_int \<bar>b\<bar> else -1),
      BN_is_negative = (\<lambda>b. b < 0),
      BN_set_negative = (\<lambda>b f. if f then - \<bar>b\<bar> else \<bar>b\<bar>),
      BN_is_zero = (\<lambda>b. b = 0),
      BN_num_bytes = (\<lambda>b. length (le_digits (nat \<bar>b\<bar>))),
      BN_mpi2bn = (\<lambda>d. sn_val (rev (drop 4 d))),
      BN_bn2mpi = mpi_format,
      BN_add = (+), BN_sub = (-), BN_mul = (*),
      BN_div = (\<lambda>a b. if b = 0 then None else Some (sgn a * sgn b * (\<bar>a\<bar> div \<bar>b\<bar>))),
      BN_mod = (\<lambda>a b. if b = 0 then None else Some (sgn a * (\<bar>a\<bar> mod \<bar>b\<bar>))),
      BN_lshift = (\<lambda>b n. b * 2 ^ n),
      BN_rshift = (\<lambda>b n. sgn b * (\<bar>b\<bar> div 2 ^ n)),
      BN_cmp = (\<lambda>a b. sgn (a - b)),
      BN_value_one = 1\<rparr>"

interpretation ref_bn: bignum ref_bn "\<lambda>b. b"
  by unfold_locales (simp_all add: ref_bn_def)

section \<open>Conversions\<close>

lemma le_digits_dropWhile: "le_digits (le_val ls) = rev (dropWhile (\<lambda>c. c = 0) (rev ls))"
proof -
  define e where "e = rev (dropWhile (\<lambda>c. c = 0) (rev ls))"
  have "rev ls = takeWhile (\<lambda>c. c = 0) (rev ls) @ rev e"
    by (simp add: e_def)
  then have ls: "ls = e @ rev (takeWhile (\<lambda>c. c = 0) (rev ls))"
    by (metis rev_append rev_rev_ident)
  have "le_val (rev (takeWhile (\<lambda>c. c = 0) (rev ls))) = 0"
    by (auto dest: set_takeWhileD)
  then have "le_val ls = le_val e"
    by (subst ls) (simp add: le_val_append del: le_val_0)
  moreover have "e = [] \<or> last e \<noteq> 0"
    using hd_dropWhile [of "\<lambda>c. c = 0" "rev ls"] by (auto simp: e_def last_rev)
  ultimately show ?thesis
    using le_digits_le_val [of e] by (simp add: e_def)
qed

lemma mpi_digits_tail [simp]: "mpi_digits f False cs = cs"
  by (induction cs) auto

lemma mpi_digits_dropWhile:
  "mpi_digits f True bs = (case dropWhile (\<lambda>c. c = 0) bs of [] \<Rightarrow> []
     | c # cs \<Rightarrow> if bit c 7 then (if f then 0x80 else 0) # c # cs else (if f then c OR 0x80 else c) # cs)"
  by (induction bs) (auto simp: and_80)

lemma mpi_digits_sn_bytes:
  assumes "bs = rev ls" and "f \<longrightarrow> 0 < le_val ls"
  shows "mpi_digits f True bs = rev (sn_bytes (if f then - int (le_val ls) else int (le_val ls)))"
proof -
  have d: "dropWhile (\<lambda>c. c = 0) bs = rev (le_digits (le_val ls))"
    by (simp add: le_digits_dropWhile assms(1))
  have n: "nat \<bar>if f then - int (le_val ls) else int (le_val ls)\<bar> = le_val ls"
    by simp
  show ?thesis
  proof (cases "le_digits (le_val ls)" rule: rev_cases)
    case Nil
    then show ?thesis
      unfolding mpi_digits_dropWhile d sn_bytes_def n Nil by simp
  next
    case (snoc e x)
    then show ?thesis
      using assms(2) unfolding mpi_digits_dropWhile d sn_bytes_def n by (auto simp: Let_def)
  qed
qed

lemma le_bytes_word:
  "le_bytes (Suc k) (unat (n :: 'a::len word)) = ucast n # le_bytes k (unat (drop_bit 8 n))"
proof -
  have "unat n mod 256 = take_bit 8 (unat n)" by (simp add: take_bit_eq_mod)
  then have "word_of_nat (unat n mod 256) = (ucast n :: byte)"
    by (simp add: word_unat_eq_iff unsigned_of_nat unsigned_ucast_eq unsigned_take_bit_eq)
  moreover have "unat n div 256 = unat (drop_bit 8 n)"
    by (simp only: unat_drop_bit_eq) (simp add: drop_bit_eq_div)
  ultimately show ?thesis by simp
qed

lemma le_bytes_mod: "le_bytes k (n mod 256 ^ k) = le_bytes k n"
proof (induction k arbitrary: n)
  case (Suc k)
  have "n mod 256 ^ Suc k mod 256 = n mod 256"
    by (simp add: mod_mod_cancel)
  moreover have "n mod 256 ^ Suc k div 256 = n div 256 mod 256 ^ k"
    by (simp add: mod_mult2_eq)
  ultimately show ?case using Suc.IH [of "n div 256"] by simp
qed simp

lemma ucast_and_ff: "ucast (w AND 0xff) = (ucast (w :: 'a::len word) :: byte)"
proof -
  have "(0xff :: 'a word) = mask 8" by (simp add: mask_eq_exp_minus_1)
  then have "w AND 0xff = take_bit 8 w" by (simp only: take_bit_eq_mask)
  then show ?thesis
    by (auto intro!: bit_word_eqI simp: bit_unsigned_iff bit_take_bit_iff)
qed

lemma top_bytes_eq: "top_bytes 8 n = rev (le_bytes 8 (unat n))"
proof -
  have b: "ucast (drop_bit 56 (push_bit k n)) = (ucast (drop_bit (56 - k) n) :: byte)" if "k \<le> 56" for k
    using that
    by (intro bit_word_eqI) (simp add: bit_unsigned_iff bit_drop_bit_eq bit_push_bit_iff ac_simps)
  have 8: "(8 :: nat) = Suc (Suc (Suc (Suc (Suc (Suc (Suc (Suc 0)))))))" by simp
  have "top_bytes 8 n = map (\<lambda>k. ucast (drop_bit 56 (push_bit k n) AND 0xff)) [0, 8, 16, 24, 32, 40, 48, 56]"
    by (subst 8) (simp only: top_bytes.simps push_bit_push_bit list.map push_bit_0_id id_apply, simp)
  also have "\<dots> = map (\<lambda>k. ucast (drop_bit (56 - k) n)) [0, 8, 16, 24, 32, 40, 48, 56]"
    by (simp add: b ucast_and_ff)
  also have "\<dots> = rev (le_bytes (Suc (Suc (Suc (Suc (Suc (Suc (Suc (Suc 0)))))))) (unat n))"
    by (simp only: le_bytes_word) (simp add: drop_bit_drop_bit)
  finally show ?thesis by (simp only: 8 [symmetric])
qed

lemma mpi_header_eq: "mpi_header n = rev (le_bytes 4 n)"
proof -
  let ?w = "word_of_nat n :: u32"
  have 4: "(4 :: nat) = Suc (Suc (Suc (Suc 0)))" by simp
  have "le_bytes 4 n = le_bytes 4 (unat ?w)"
    using le_bytes_mod [of 4 n] by (simp add: unat_of_nat)
  also have "\<dots> = le_bytes (Suc (Suc (Suc (Suc 0)))) (unat ?w)"
    by (simp only: 4)
  also have "\<dots> = [ucast ?w, ucast (drop_bit 8 ?w), ucast (drop_bit 16 ?w), ucast (drop_bit 24 ?w)]"
    by (simp only: le_bytes_word) (simp add: drop_bit_drop_bit)
  finally show ?thesis
    by (simp only: mpi_header_def Let_def ucast_and_ff) simp
qed

lemma top_bit_u64: "sn <s 0 \<Longrightarrow> uint (- (sn + 1) + 1) = - sint (sn :: u64)"
proof -
  assume "sn <s 0"
  then have n: "sint sn < 0" by (simp add: word_sless_alt)
  have b: "- (2 ^ 63) \<le> sint sn" using sint_greater_eq [of sn] by simp
  have e: "- (sn + 1) + 1 = - sn" by simp
  have "uint (- sn) = (- uint sn) mod 2 ^ 64"
    by (simp add: uint_word_ariths)
  also have "\<dots> = (- sint sn) mod 2 ^ 64"
    by (simp add: uint_sint take_bit_eq_mod mod_minus_eq)
  also have "\<dots> = - sint sn"
    using n b by (intro mod_pos_pos_trivial) auto
  finally show ?thesis by (simp only: e)
qed

context bignum begin

lemma val_mpi: "length d < 2 ^ 32 \<Longrightarrow> val (BN_mpi2bn L (mpi_header (length d) @ rev d)) = sn_val d"
  by (simp only: mpi_header_eq val_mpi2bn)

lemma val_setvch: "length vch < 2 ^ 32 \<Longrightarrow> val (bn_setvch L vch) = sn_val vch"
  by (simp only: bn_setvch_def val_mpi)

lemma getvch: "bn_getvch L b = sn_bytes (val b)"
  by (simp add: bn_getvch_def bn2mpi mpi_format_def Let_def)

lemma val_digits:
  assumes "bs = rev ls" and "f \<longrightarrow> 0 < le_val ls" and "length ls < 100"
  shows "val (BN_mpi2bn L (mpi_header (length (mpi_digits f True bs)) @ mpi_digits f True bs)) =
    (if f then - int (le_val ls) else int (le_val ls))"
proof -
  let ?d = "sn_bytes (if f then - int (le_val ls) else int (le_val ls))"
  have "length (mpi_digits f g cs) \<le> length cs + 1" for g cs
    by (induction f g cs rule: mpi_digits.induct) auto
  from this [of True bs] have "length ?d < 2 ^ 32"
    unfolding mpi_digits_sn_bytes [OF assms(1,2)] using assms by simp
  from val_mpi [OF this] show ?thesis
    unfolding mpi_digits_sn_bytes [OF assms(1,2)] by simp
qed

lemma le_val_u64: "le_val (le_bytes 8 (unat (n :: u64))) = unat n"
  by (rule le_val_le_bytes) (use unsigned_less [of n] in simp)

lemma val_setuint64: "val (bn_setuint64 L n) = uint n"
  unfolding bn_setuint64_def Let_def
  by (subst val_digits [OF top_bytes_eq]) (simp_all add: le_val_u64)

lemma val_setuint256: "length n = 8 \<Longrightarrow> val (bn_setuint256 L n) = int (uval n)"
  unfolding bn_setuint256_def Let_def
  by (subst val_digits [OF refl]) (simp_all add: le_val_bu_bytes)

lemma val_setint64: "val (bn_setint64 L sn) = sint sn"
proof (cases "sn <s 0")
  case True
  have "uint (- (sn + 1) + 1) = - sint sn" by (rule top_bit_u64 [OF True])
  moreover have "sint sn < 0" using True by (simp add: word_sless_alt)
  ultimately show ?thesis
    using True unfolding bn_setint64_def Let_def
    by (simp only: if_True split_conv, subst val_digits [OF top_bytes_eq]) 
      (simp_all add: le_val_u64 uint_nat del: of_nat_unat)
next
  case False
  then have "0 \<le> sint sn" by (simp add: word_sless_alt)
  moreover have "sint sn < 2 ^ 63" using sint_less [of sn] by simp
  ultimately have "sint sn = uint sn"
    by (simp add: uint_sint take_bit_int_eq_self)
  then show ?thesis
    using False unfolding bn_setint64_def Let_def
    by (simp only: if_False split_conv, subst val_digits [OF top_bytes_eq]) (simp_all add: le_val_u64)
qed

lemma val_of_int: "val (bn_of_int L n) = sint n"
proof (cases "0 \<le>s n")
  case True
  then have "0 \<le> sint n" by (simp add: word_sle_eq)
  moreover have "sint n < 2 ^ 63" using sint_less [of n] by simp
  ultimately have "sint n = uint n" by (simp add: uint_sint take_bit_int_eq_self)
  then show ?thesis using True by (simp add: bn_of_int_def bn_setulong_def val_set_word)
next
  case False
  then show ?thesis by (simp add: bn_of_int_def val_setint64)
qed

lemma getint: "bn_getint L b = max (- (2 ^ 31)) (min (2 ^ 31 - 1) (val b))"
proof (cases "\<bar>val b\<bar> < 2 ^ 64")
  case True
  then have u: "uint (BN_get_word L b) = \<bar>val b\<bar>"
    by (simp add: get_word uint_word_of_int)
  then show ?thesis
    by (auto simp: bn_getint_def Let_def is_negative word_less_def)
next
  case False
  then have "BN_get_word L b = -1" by (simp add: get_word)
  moreover have "(0x7fffffff :: u64) < -1" by (simp flip: word_order.not_eq_extremum)
  ultimately show ?thesis
    using False by (auto simp: bn_getint_def Let_def is_negative)
qed

lemma val_uminus: "val (bn_uminus L a) = - val a"
  by (simp add: bn_uminus_def val_set_negative is_negative)

lemmas val_ops = val_add val_sub val_mul val_lshift val_one val_of_int val_uminus

lemmas cmp_ops = bn_eq_def bn_neq_def bn_le_def bn_ge_def bn_lt_def bn_gt_def bn_is_zero_def

lemma cmp_iff:
  "bn_eq L a b \<longleftrightarrow> val a = val b" "bn_neq L a b \<longleftrightarrow> val a \<noteq> val b"
  "bn_le L a b \<longleftrightarrow> val a \<le> val b" "bn_ge L a b \<longleftrightarrow> val a \<ge> val b"
  "bn_lt L a b \<longleftrightarrow> val a < val b" "bn_gt L a b \<longleftrightarrow> val a > val b" "bn_is_zero L a \<longleftrightarrow> val a = 0"
  by (auto simp: cmp_ops cmp is_zero sgn_if)

text \<open>\<open>>>=\<close> is the quotient by a power of two, except that every negative number becomes 0.\<close>

lemma val_shr: "val (bn_shr L b k) = (if val b < 0 then 0 else val b div 2 ^ unat k)"
proof -
  have "BN_cmp L (bn_shl L (bn_of_int L 1) k) b > 0 \<longleftrightarrow> val b < 2 ^ unat k"
    by (simp add: cmp bn_shl_def val_ops sgn_if)
  moreover have "val b < 2 ^ unat k" if "val b < 0"
    using that zero_less_power [of "2::int" "unat k"] by linarith
  ultimately show ?thesis
    by (auto simp: bn_shr_def Let_def val_of_int val_rshift sgn_if)
qed

end

text \<open>C39: Script numbers: \<open>setvch\<close> reads the little-endian sign-and-magnitude code, \<open>getvch\<close> writes the
  minimal one, minimal codes and only they read back as themselves, and a code of at most four
  bytes stays below \<open>2^31\<close>.\<close>

theorem bn_vch_codec:
  assumes "bignum L val" and "length vch < 2 ^ 32"
  shows "val (bn_setvch L vch) = sn_val vch \<and> bn_getvch L b = sn_bytes (val b) \<and>
    (bn_getvch L (bn_setvch L vch) = vch \<longleftrightarrow> sn_minimal vch) \<and>
    val (bn_setvch L (bn_getvch L (bn_setvch L vch))) = sn_val vch \<and>
    (4 < length vch \<or> \<bar>val (bn_setvch L vch)\<bar> < 2 ^ 31)"
proof -
  have v: "val (bn_setvch L vch) = sn_val vch" and g: "\<And>b. bn_getvch L b = sn_bytes (val b)"
    using bignum.val_setvch [OF assms] bignum.getvch [OF assms(1)] by simp_all
  have l: "length (sn_bytes (sn_val vch)) < 2 ^ 32"
    using length_sn_bytes_le [of vch] assms(2) by simp
  have "4 < length vch \<or> \<bar>sn_val vch\<bar> < 2 ^ 31"
  proof (cases "4 < length vch")
    case False
    then have "(2 :: int) ^ (8 * length vch - 1) \<le> 2 ^ 31" by (intro power_increasing) auto
    then show ?thesis using abs_sn_val_less [of vch] by linarith
  qed simp
  moreover have "sn_bytes (sn_val vch) = vch \<longleftrightarrow> sn_minimal vch"
    using sn_minimal_sn_bytes [of "sn_val vch"] sn_bytes_sn_val [of vch] by auto
  ultimately show ?thesis
    using bignum.val_setvch [OF assms(1) l] by (simp add: v g)
qed

theorem bn_vch_codec_witness:
  "bn_getvch ref_bn (bn_setvch ref_bn [5, 0x81]) = [5, 0x81] \<and> sn_val [5, 0x81] = -261"
proof -
  have "length [5, 0x81 :: byte] < 2 ^ 32" by simp
  from bn_vch_codec [OF ref_bn.bignum_axioms this]
  have "bn_getvch ref_bn (bn_setvch ref_bn [5, 0x81]) = [5, 0x81] \<longleftrightarrow> sn_minimal [5, 0x81]"
    by blast
  moreover have "sn_minimal [5, 0x81]" "sn_val [5, 0x81] = -261" by code_simp+
  ultimately show ?thesis by simp
qed

text \<open>The constructors from machine integers and \<open>uint256\<close> keep the number, \<open>getint\<close> saturates
  at the bounds of \<open>int\<close>, the operators are the arithmetic and comparison of integers, and \<open>>>=\<close>
  takes a negative number to 0.\<close>

theorem bn_conversions:
  assumes "bignum L val" and "length w = 8"
  shows "val (bn_setint64 L n) = sint n \<and> val (bn_setuint64 L n) = uint n \<and> val (bn_of_int L n) = sint n \<and>
    val (bn_setuint256 L w) = int (uval w) \<and>
    bn_getint L b = max (- (2 ^ 31)) (min (2 ^ 31 - 1) (val b)) \<and>
    val (bn_plus L a b) = val a + val b \<and> val (bn_minus L a b) = val a - val b \<and>
    val (bn_uminus L a) = - val a \<and> (bn_lt L a b \<longleftrightarrow> val a < val b) \<and> (bn_eq L a b \<longleftrightarrow> val a = val b) \<and>
    val (bn_shl L a k) = val a * 2 ^ unat k \<and>
    val (bn_shr L a k) = (if val a < 0 then 0 else val a div 2 ^ unat k)"
  using assms
  by (simp add: bignum.val_setint64 bignum.val_setuint64 bignum.val_of_int bignum.val_setuint256
      bignum.getint bignum.val_uminus bignum.cmp_iff bignum.val_shr bn_plus_def bn_minus_def bn_shl_def
      bignum.val_add bignum.val_sub bignum.val_lshift)

theorem bn_conversions_witness:
  "bn_setint64 ref_bn (-9223372036854775808) = -9223372036854775808 \<and> bn_shr ref_bn (-1000) 3 = 0"
proof -
  have w: "length (replicate 8 0 :: uint256) = 8" by simp
  note c = bn_conversions [OF ref_bn.bignum_axioms w]
  have "bn_setint64 ref_bn (-9223372036854775808) = sint (-9223372036854775808 :: i64)"
    using c by blast
  moreover have "sint (-9223372036854775808 :: i64) = -9223372036854775808" by code_simp
  moreover have "bn_shr ref_bn (-1000) 3 = (if -1000 < (0 :: int) then 0 else -1000 div 2 ^ unat (3 :: u32))"
    using c by blast
  ultimately show ?thesis by simp
qed

section \<open>Compact format\<close>

text \<open>The mantissa \<open>GetCompact\<close> computes before it makes room for the sign.\<close>

definition compact_mant :: "nat \<Rightarrow> nat" where
  "compact_mant n =
     (let s = length (le_digits n) in if s \<le> 3 then n * 256 ^ (3 - s) else n div 256 ^ (s - 3))"

lemma compact_mant_bound: "compact_mant n < 2 ^ 24"
proof -
  let ?s = "length (le_digits n)"
  have n: "n < 256 ^ ?s" using length_le_digits [of n ?s] by simp
  show ?thesis
  proof (cases "?s \<le> 3")
    case True
    then have "n * 256 ^ (3 - ?s) < 256 ^ ?s * 256 ^ (3 - ?s)" using n by simp
    also have "\<dots> = 256 ^ 3" using True by (simp flip: power_add)
    finally show ?thesis using True by (simp add: compact_mant_def)
  next
    case False
    then have "(256 :: nat) ^ ?s = 256 ^ 3 * 256 ^ (?s - 3)"
      using power_add [of "256 :: nat" 3 "?s - 3"] by simp
    then have "n div 256 ^ (?s - 3) < 256 ^ 3" using n by (simp add: div_less_iff_less_mult)
    then show ?thesis using False by (simp add: compact_mant_def Let_def)
  qed
qed

lemma compact_mant_top:
  assumes "0 < n"
  shows "2 ^ 23 \<le> compact_mant n \<longleftrightarrow> 128 * 256 ^ (length (le_digits n) - 1) \<le> n"
proof -
  let ?s = "length (le_digits n)"
  have s: "0 < ?s" using assms by simp
  show ?thesis
  proof (cases "?s \<le> 3")
    case True
    then have "?s = 1 \<or> ?s = 2 \<or> ?s = 3" using s by linarith
    then have "(2 :: nat) ^ 23 = (128 * 256 ^ (?s - 1)) * 256 ^ (3 - ?s)" by auto
    then have "2 ^ 23 \<le> n * 256 ^ (3 - ?s) \<longleftrightarrow> 128 * 256 ^ (?s - 1) \<le> n"
      by (simp only: mult_le_cancel2) simp
    then show ?thesis using True by (simp add: compact_mant_def)
  next
    case False
    then obtain j where j: "?s = 3 + j" using le_Suc_ex [of 3 ?s] by auto
    then have "128 * 256 ^ (?s - 1) = 2 ^ 23 * (256 :: nat) ^ (?s - 3)"
      by (simp add: power_add)
    then have "128 * 256 ^ (?s - 1) \<le> n \<longleftrightarrow> 2 ^ 23 \<le> n div 256 ^ (?s - 3)"
      by (simp add: less_eq_div_iff_mult_less_eq)
    then show ?thesis using False by (simp add: compact_mant_def Let_def)
  qed
qed

definition compact_word :: "u32 \<Rightarrow> nat \<Rightarrow> bool \<Rightarrow> u32" where
  "compact_word m s f = m OR push_bit 24 (word_of_nat s) OR (if f then push_bit 23 1 else 0)"

lemma bit_small_word: "unat (m :: 'a::len word) < 2 ^ k \<Longrightarrow> bit m i \<Longrightarrow> i < k"
proof -
  assume m: "unat m < 2 ^ k" and "bit m i"
  then have "bit (unat m) i" by (simp add: bit_unsigned_iff)
  moreover have "take_bit k (unat m) = unat m" using m by (simp add: take_bit_nat_eq_self)
  ultimately show "i < k" by (metis bit_take_bit_iff)
qed

lemma bit_push23: "bit (push_bit 23 1 :: u32) i \<longleftrightarrow> i = 23"
  by (auto simp: bit_push_bit_iff bit_1_iff possible_bit_def simp del: push_bit_of_1)

lemma compact_fields:
  assumes m: "unat m < 2 ^ 23" and s: "s < 256"
  shows "unat (drop_bit 24 (compact_word m s f)) = s"
    and "compact_word m s f AND 0x007fffff = m"
    and "compact_word m s f AND 0x00800000 \<noteq> 0 \<longleftrightarrow> f"
proof -
  let ?s = "word_of_nat s :: u32"
  have us: "unat ?s = s" using s by (simp add: unat_of_nat)
  have bm: "bit m i \<Longrightarrow> i < 23" for i using bit_small_word [OF m] .
  have bs: "bit ?s i \<Longrightarrow> i < 8" for i using bit_small_word [of ?s 8] us s by simp
  have b: "bit (compact_word m s f) i \<longleftrightarrow> bit m i \<or> (24 \<le> i \<and> i < 32 \<and> bit ?s (i - 24)) \<or> (f \<and> i = 23)" for i
    by (auto simp: compact_word_def bit_or_iff bit_push_bit_iff bit_1_iff possible_bit_def simp del: push_bit_of_1)
  have "drop_bit 24 (compact_word m s f) = ?s"
    by (intro bit_word_eqI) (auto simp: bit_drop_bit_eq b dest: bm bs)
  then show "unat (drop_bit 24 (compact_word m s f)) = s" by (simp only: us)
  have "(0x007fffff :: u32) = mask 23" by (simp add: mask_eq_exp_minus_1)
  then have "compact_word m s f AND 0x007fffff = take_bit 23 (compact_word m s f)"
    by (simp only: take_bit_eq_mask)
  also have "\<dots> = m"
    by (intro bit_word_eqI) (auto simp: bit_take_bit_iff b dest: bm)
  finally show "compact_word m s f AND 0x007fffff = m" .
  have "(0x00800000 :: u32) = push_bit 23 1" by simp
  then have "compact_word m s f AND 0x00800000 \<noteq> 0 \<longleftrightarrow> bit (compact_word m s f) 23"
    by (simp only: bit_iff_and_push_bit_not_eq_0)
  also have "\<dots> \<longleftrightarrow> f"
    using bm [of 23] by (auto simp: b)
  finally show "compact_word m s f AND 0x00800000 \<noteq> 0 \<longleftrightarrow> f" .
qed

context bignum begin

lemma val_SetCompact:
  "val (bn_SetCompact L c) =
    (let s = unat (drop_bit 24 c); m = int (unat (c AND 0x007fffff));
         a = (if s \<le> 3 then m div 256 ^ (3 - s) else m * 256 ^ (s - 3))
     in if c AND 0x00800000 \<noteq> 0 then - a else a)"
proof -
  have 256: "(2 :: int) ^ (8 * k) = 256 ^ k" for k by (simp add: power_mult)
  have u: "uint (drop_bit k w) = uint w div 2 ^ k" for w :: u32 and k
    by (simp only: uint_nat unat_drop_bit_eq) (simp add: drop_bit_eq_div zdiv_int)
  have x: "uint (ucast w :: u64) = uint w" for w :: u32
    by (rule uint_up_ucast) (simp add: is_up)
  define w where "w = c AND 0x007fffff"
  have "0 \<le> uint w div 256 ^ k" for k
    by (simp add: pos_imp_zdiv_nonneg_iff)
  note a = abs_of_nonneg [OF this]
  show ?thesis
    by (simp add: bn_SetCompact_def w_def [symmetric] Let_def val_set_negative val_set_word val_lshift x u 256 a)
qed

lemma GetCompact_mantissa:
  fixes b
  defines "n \<equiv> nat \<bar>val b\<bar>"
  defines "s \<equiv> length (le_digits n)"
  shows "(if s \<le> 3 then ucast (push_bit (8 * (3 - s)) (BN_get_word L b))
     else ucast (BN_get_word L (BN_rshift L b (8 * (s - 3))))) = (word_of_nat (compact_mant n) :: u32)"
proof -
  have 256: "(2 :: nat) ^ (8 * k) = 256 ^ k" for k by (simp add: power_mult)
  have w: "unat (word_of_nat k :: u64) = k" if "k < 2 ^ 24" for k
    using that by (simp add: unat_of_nat)
  have u: "ucast x = (word_of_nat (unat x) :: u32)" for x :: u64
    by simp
  have v: "\<bar>val b\<bar> = int n" by (simp add: n_def)
  show ?thesis
  proof (cases "s \<le> 3")
    case True
    have "n < 256 ^ s" using length_le_digits [of n s] by (simp add: s_def)
    also have "\<dots> \<le> 256 ^ 3" using True by (intro power_increasing) auto
    finally have n: "n < 2 ^ 24" by simp
    then have "unat (BN_get_word L b) = n"
      by (simp only: get_word v) (simp add: w)
    then have "unat (push_bit (8 * (3 - s)) (BN_get_word L b)) = take_bit LENGTH(64) (compact_mant n)"
      unfolding unsigned_push_bit_eq using True
      by (simp add: push_bit_eq_mult 256 compact_mant_def s_def [symmetric])
    then have "unat (push_bit (8 * (3 - s)) (BN_get_word L b)) = compact_mant n"
      using compact_mant_bound [of n] by (simp add: take_bit_nat_eq_self)
    then show ?thesis using True by (simp only: if_True u)
  next
    case False
    have "\<bar>val (BN_rshift L b (8 * (s - 3)))\<bar> = int (compact_mant n)"
      using False
      by (simp add: val_rshift abs_mult v 256 [symmetric] compact_mant_def s_def [symmetric] zdiv_int)
        (auto simp: n_def sgn_if pos_imp_zdiv_nonneg_iff)
    then have "unat (BN_get_word L (BN_rshift L b (8 * (s - 3)))) = compact_mant n"
      using compact_mant_bound [of n] by (simp only: get_word) (simp add: w)
    then show ?thesis using False by (simp only: if_False u)
  qed
qed

lemma GetCompact_word:
  fixes b
  defines "n \<equiv> nat \<bar>val b\<bar>"
  defines "s \<equiv> length (le_digits n)"
  shows "bn_GetCompact L b =
    (if 2 ^ 23 \<le> compact_mant n then compact_word (word_of_nat (compact_mant n div 256)) (s + 1) (val b < 0)
     else compact_word (word_of_nat (compact_mant n)) s (val b < 0))"
proof -
  let ?M = "word_of_nat (compact_mant n) :: u32"
  have M: "unat ?M = compact_mant n"
    using compact_mant_bound [of n] by (simp add: unat_of_nat)
  have "(0x00800000 :: u32) = push_bit 23 1" by simp
  then have "?M AND 0x00800000 \<noteq> 0 \<longleftrightarrow> bit ?M 23"
    by (simp only: bit_iff_and_push_bit_not_eq_0)
  also have "\<dots> \<longleftrightarrow> bit (unat ?M) 23" by (simp add: bit_unsigned_iff)
  also have "\<dots> \<longleftrightarrow> odd (compact_mant n div 2 ^ 23)" by (simp only: M bit_iff_odd)
  also have "\<dots> \<longleftrightarrow> 2 ^ 23 \<le> compact_mant n"
  proof -
    have "compact_mant n div 2 ^ 23 < 2"
      using compact_mant_bound [of n] by (simp add: div_less_iff_less_mult)
    then have "compact_mant n div 2 ^ 23 = 0 \<or> compact_mant n div 2 ^ 23 = 1" by linarith
    then show ?thesis by (auto simp: div_eq_0_iff)
  qed
  finally have t: "?M AND 0x00800000 \<noteq> 0 \<longleftrightarrow> 2 ^ 23 \<le> compact_mant n" .
  have d: "drop_bit 8 ?M = word_of_nat (compact_mant n div 256)"
    using compact_mant_bound [of n]
    by (simp only: word_unat_eq_iff unat_drop_bit_eq M) (simp add: drop_bit_eq_div unat_of_nat)
  have p: "(0x00800000 :: u32) = push_bit 23 1" by simp
  show ?thesis
    unfolding bn_GetCompact_def Let_def num_bytes n_def [symmetric] s_def [symmetric]
      GetCompact_mantissa [of b, folded n_def, folded s_def] t is_negative
    by (cases "2 ^ 23 \<le> compact_mant n"; cases "val b < 0")
      (simp_all add: d compact_word_def p or.assoc del: push_bit_of_1)
qed

lemma val_SetCompact_word:
  assumes "m < 2 ^ 23" and "s < 256"
  shows "val (bn_SetCompact L (compact_word (word_of_nat m) s f)) =
    (let a = int (if s \<le> 3 then m div 256 ^ (3 - s) else m * 256 ^ (s - 3)) in if f then - a else a)"
proof -
  have m: "unat (word_of_nat m :: u32) = m" using assms by (simp add: unat_of_nat)
  note f = compact_fields [of "word_of_nat m" s f, unfolded m, OF assms]
  show ?thesis
    by (simp only: val_SetCompact f Let_def m) (simp add: zdiv_int)
qed

end

lemma compact_value:
  fixes n :: nat
  defines "s \<equiv> length (le_digits n)"
  defines "M \<equiv> compact_mant n"
  defines "m \<equiv> (if 2 ^ 23 \<le> M then M div 256 else M)"
  defines "s' \<equiv> (if 2 ^ 23 \<le> M then s + 1 else s)"
  shows "(if s' \<le> 3 then m div 256 ^ (3 - s') else m * 256 ^ (s' - 3)) = n div 256 ^ (s' - 3) * 256 ^ (s' - 3)"
proof (cases "n = 0")
  case True
  then show ?thesis by (simp add: m_def M_def compact_mant_def s_def)
next
  case False
  then have s: "1 \<le> s" by (simp add: s_def Suc_le_eq)
  show ?thesis
  proof (cases "s \<le> 3")
    case True
    then have "s = 1 \<or> s = 2 \<or> s = 3" using s by linarith
    moreover have "M = n * 256 ^ (3 - s)" using True by (simp add: M_def compact_mant_def s_def)
    ultimately show ?thesis
      by (auto simp: m_def s'_def div_mult2_eq [symmetric])
  next
    case False
    then obtain j where j: "s = 4 + j" using le_Suc_ex [of 4 s] by auto
    have "M = n div 256 ^ (s - 3)" using False by (simp add: M_def compact_mant_def s_def Let_def)
    then show ?thesis
      using False by (auto simp: m_def s'_def j div_mult2_eq [symmetric] ac_simps)
  qed
qed

text \<open>The compact format: for numbers of at most 254 bytes, writing and reading back keeps the sign
  and clears the low bytes that do not fit the 23-bit mantissa, so the result is the number itself
  up to the bytes below the three leading ones of its signed code.\<close>

theorem compact_roundtrip:
  assumes "bignum L val" and "\<bar>val b\<bar> < 256 ^ 254"
  shows "val (bn_SetCompact L (bn_GetCompact L b)) =
    (let t = length (sn_bytes (val b)) - 3 in sgn (val b) * (\<bar>val b\<bar> div 256 ^ t * 256 ^ t))"
proof -
  let ?n = "nat \<bar>val b\<bar>"
  let ?s = "length (le_digits ?n)"
  let ?M = "compact_mant ?n"
  let ?m = "if 2 ^ 23 \<le> ?M then ?M div 256 else ?M" and ?s' = "if 2 ^ 23 \<le> ?M then ?s + 1 else ?s"
  have "?n < 256 ^ 254" using assms(2) by (simp add: nat_less_iff)
  then have s: "?s' < 256" using length_le_digits [of ?n 254] by simp
  have m: "?m < 2 ^ 23" using compact_mant_bound [of ?n] by (simp add: div_less_iff_less_mult)
  have l: "length (sn_bytes (val b)) = ?s'"
    using compact_mant_top [of ?n] by (cases "val b = 0") (auto simp: length_sn_bytes compact_mant_def)
  have g: "bn_GetCompact L b = compact_word (word_of_nat ?m) ?s' (val b < 0)"
    by (simp add: bignum.GetCompact_word [OF assms(1)])
  have "val (bn_SetCompact L (bn_GetCompact L b)) =
      (let a = int (?n div 256 ^ (?s' - 3) * 256 ^ (?s' - 3)) in if val b < 0 then - a else a)"
    by (simp only: g bignum.val_SetCompact_word [OF assms(1) m s] compact_value)
  also have "\<dots> = (let t = ?s' - 3 in sgn (val b) * (\<bar>val b\<bar> div 256 ^ t * 256 ^ t))"
    by (auto simp: Let_def sgn_if zdiv_int)
  finally show ?thesis by (simp only: l)
qed

theorem compact_roundtrip_witness:
  "bn_SetCompact ref_bn (bn_GetCompact ref_bn 0x1234567890) = 0x1234560000 \<and>
   bn_SetCompact ref_bn (bn_GetCompact ref_bn 0x80ffff) = 0x80ff00"
proof -
  have n: "\<bar>0x1234567890 :: int\<bar> < 256 ^ 254" "\<bar>0x80ffff :: int\<bar> < 256 ^ 254" by simp_all
  have l: "length (sn_bytes 0x1234567890) = 5" "length (sn_bytes 0x80ffff) = 4"
    by (simp_all add: length_sn_bytes le_digits_pos)
  show ?thesis
    using compact_roundtrip [OF ref_bn.bignum_axioms n(1)] compact_roundtrip [OF ref_bn.bignum_axioms n(2)]
    by (simp add: l)
qed

end
