(* ===== verification/Script.thy ===== *)
theory Script
  imports Serialize BigNum
begin

text \<open>
  Scripts: the instruction set and the byte-level members of \<open>CScript\<close> (\<open>script.h\<close>, \<open>script.cpp\<close>).  A
  script is its byte vector; an iterator into it is the list of bytes from the iterator to the end.
  The loops over \<open>GetOp\<close> are recursive functions on that list.  \<open>parse\<close> is the reference reading of a
  script as a list of instructions and an unreadable tail; the lemmas say what the builders,
  \<open>FindAndDelete\<close>, \<open>IsPushOnly\<close> and \<open>HasCanonicalPushes\<close> mean for that list, and that
  \<open>IsCanonicalSignature\<close> accepts exactly the strict encodings.
\<close>

section \<open>Opcodes and flags\<close>

type_synonym script = "byte list"
type_synonym valtype = "byte list"

definition MAX_SCRIPT_ELEMENT_SIZE :: nat where "MAX_SCRIPT_ELEMENT_SIZE = 520"

abbreviation (input) SIGHASH_ALL :: nat where "SIGHASH_ALL \<equiv> 1"
abbreviation (input) SIGHASH_NONE :: nat where "SIGHASH_NONE \<equiv> 2"
abbreviation (input) SIGHASH_SINGLE :: nat where "SIGHASH_SINGLE \<equiv> 3"
abbreviation (input) SIGHASH_ANYONECANPAY :: nat where "SIGHASH_ANYONECANPAY \<equiv> 0x80"

abbreviation (input) SCRIPT_VERIFY_NONE :: u32 where "SCRIPT_VERIFY_NONE \<equiv> 0"
abbreviation (input) SCRIPT_VERIFY_P2SH :: u32 where "SCRIPT_VERIFY_P2SH \<equiv> 1"
abbreviation (input) SCRIPT_VERIFY_STRICTENC :: u32 where "SCRIPT_VERIFY_STRICTENC \<equiv> 2"
abbreviation (input) SCRIPT_VERIFY_NOCACHE :: u32 where "SCRIPT_VERIFY_NOCACHE \<equiv> 4"

datatype txnouttype = TX_NONSTANDARD | TX_PUBKEY | TX_PUBKEYHASH | TX_SCRIPTHASH | TX_MULTISIG

abbreviation (input) OP_0 :: byte where "OP_0 \<equiv> 0"
abbreviation (input) OP_FALSE :: byte where "OP_FALSE \<equiv> OP_0"
abbreviation (input) OP_PUSHDATA1 :: byte where "OP_PUSHDATA1 \<equiv> 0x4c"
abbreviation (input) OP_PUSHDATA2 :: byte where "OP_PUSHDATA2 \<equiv> 0x4d"
abbreviation (input) OP_PUSHDATA4 :: byte where "OP_PUSHDATA4 \<equiv> 0x4e"
abbreviation (input) OP_1NEGATE :: byte where "OP_1NEGATE \<equiv> 0x4f"
abbreviation (input) OP_RESERVED :: byte where "OP_RESERVED \<equiv> 0x50"
abbreviation (input) OP_1 :: byte where "OP_1 \<equiv> 0x51"
abbreviation (input) OP_TRUE :: byte where "OP_TRUE \<equiv> OP_1"
abbreviation (input) OP_2 :: byte where "OP_2 \<equiv> 0x52"
abbreviation (input) OP_3 :: byte where "OP_3 \<equiv> 0x53"
abbreviation (input) OP_4 :: byte where "OP_4 \<equiv> 0x54"
abbreviation (input) OP_5 :: byte where "OP_5 \<equiv> 0x55"
abbreviation (input) OP_6 :: byte where "OP_6 \<equiv> 0x56"
abbreviation (input) OP_7 :: byte where "OP_7 \<equiv> 0x57"
abbreviation (input) OP_8 :: byte where "OP_8 \<equiv> 0x58"
abbreviation (input) OP_9 :: byte where "OP_9 \<equiv> 0x59"
abbreviation (input) OP_10 :: byte where "OP_10 \<equiv> 0x5a"
abbreviation (input) OP_11 :: byte where "OP_11 \<equiv> 0x5b"
abbreviation (input) OP_12 :: byte where "OP_12 \<equiv> 0x5c"
abbreviation (input) OP_13 :: byte where "OP_13 \<equiv> 0x5d"
abbreviation (input) OP_14 :: byte where "OP_14 \<equiv> 0x5e"
abbreviation (input) OP_15 :: byte where "OP_15 \<equiv> 0x5f"
abbreviation (input) OP_16 :: byte where "OP_16 \<equiv> 0x60"
abbreviation (input) OP_NOP :: byte where "OP_NOP \<equiv> 0x61"
abbreviation (input) OP_VER :: byte where "OP_VER \<equiv> 0x62"
abbreviation (input) OP_IF :: byte where "OP_IF \<equiv> 0x63"
abbreviation (input) OP_NOTIF :: byte where "OP_NOTIF \<equiv> 0x64"
abbreviation (input) OP_VERIF :: byte where "OP_VERIF \<equiv> 0x65"
abbreviation (input) OP_VERNOTIF :: byte where "OP_VERNOTIF \<equiv> 0x66"
abbreviation (input) OP_ELSE :: byte where "OP_ELSE \<equiv> 0x67"
abbreviation (input) OP_ENDIF :: byte where "OP_ENDIF \<equiv> 0x68"
abbreviation (input) OP_VERIFY :: byte where "OP_VERIFY \<equiv> 0x69"
abbreviation (input) OP_RETURN :: byte where "OP_RETURN \<equiv> 0x6a"
abbreviation (input) OP_TOALTSTACK :: byte where "OP_TOALTSTACK \<equiv> 0x6b"
abbreviation (input) OP_FROMALTSTACK :: byte where "OP_FROMALTSTACK \<equiv> 0x6c"
abbreviation (input) OP_2DROP :: byte where "OP_2DROP \<equiv> 0x6d"
abbreviation (input) OP_2DUP :: byte where "OP_2DUP \<equiv> 0x6e"
abbreviation (input) OP_3DUP :: byte where "OP_3DUP \<equiv> 0x6f"
abbreviation (input) OP_2OVER :: byte where "OP_2OVER \<equiv> 0x70"
abbreviation (input) OP_2ROT :: byte where "OP_2ROT \<equiv> 0x71"
abbreviation (input) OP_2SWAP :: byte where "OP_2SWAP \<equiv> 0x72"
abbreviation (input) OP_IFDUP :: byte where "OP_IFDUP \<equiv> 0x73"
abbreviation (input) OP_DEPTH :: byte where "OP_DEPTH \<equiv> 0x74"
abbreviation (input) OP_DROP :: byte where "OP_DROP \<equiv> 0x75"
abbreviation (input) OP_DUP :: byte where "OP_DUP \<equiv> 0x76"
abbreviation (input) OP_NIP :: byte where "OP_NIP \<equiv> 0x77"
abbreviation (input) OP_OVER :: byte where "OP_OVER \<equiv> 0x78"
abbreviation (input) OP_PICK :: byte where "OP_PICK \<equiv> 0x79"
abbreviation (input) OP_ROLL :: byte where "OP_ROLL \<equiv> 0x7a"
abbreviation (input) OP_ROT :: byte where "OP_ROT \<equiv> 0x7b"
abbreviation (input) OP_SWAP :: byte where "OP_SWAP \<equiv> 0x7c"
abbreviation (input) OP_TUCK :: byte where "OP_TUCK \<equiv> 0x7d"
abbreviation (input) OP_CAT :: byte where "OP_CAT \<equiv> 0x7e"
abbreviation (input) OP_SUBSTR :: byte where "OP_SUBSTR \<equiv> 0x7f"
abbreviation (input) OP_LEFT :: byte where "OP_LEFT \<equiv> 0x80"
abbreviation (input) OP_RIGHT :: byte where "OP_RIGHT \<equiv> 0x81"
abbreviation (input) OP_SIZE :: byte where "OP_SIZE \<equiv> 0x82"
abbreviation (input) OP_INVERT :: byte where "OP_INVERT \<equiv> 0x83"
abbreviation (input) OP_AND :: byte where "OP_AND \<equiv> 0x84"
abbreviation (input) OP_OR :: byte where "OP_OR \<equiv> 0x85"
abbreviation (input) OP_XOR :: byte where "OP_XOR \<equiv> 0x86"
abbreviation (input) OP_EQUAL :: byte where "OP_EQUAL \<equiv> 0x87"
abbreviation (input) OP_EQUALVERIFY :: byte where "OP_EQUALVERIFY \<equiv> 0x88"
abbreviation (input) OP_RESERVED1 :: byte where "OP_RESERVED1 \<equiv> 0x89"
abbreviation (input) OP_RESERVED2 :: byte where "OP_RESERVED2 \<equiv> 0x8a"
abbreviation (input) OP_1ADD :: byte where "OP_1ADD \<equiv> 0x8b"
abbreviation (input) OP_1SUB :: byte where "OP_1SUB \<equiv> 0x8c"
abbreviation (input) OP_2MUL :: byte where "OP_2MUL \<equiv> 0x8d"
abbreviation (input) OP_2DIV :: byte where "OP_2DIV \<equiv> 0x8e"
abbreviation (input) OP_NEGATE :: byte where "OP_NEGATE \<equiv> 0x8f"
abbreviation (input) OP_ABS :: byte where "OP_ABS \<equiv> 0x90"
abbreviation (input) OP_NOT :: byte where "OP_NOT \<equiv> 0x91"
abbreviation (input) OP_0NOTEQUAL :: byte where "OP_0NOTEQUAL \<equiv> 0x92"
abbreviation (input) OP_ADD :: byte where "OP_ADD \<equiv> 0x93"
abbreviation (input) OP_SUB :: byte where "OP_SUB \<equiv> 0x94"
abbreviation (input) OP_MUL :: byte where "OP_MUL \<equiv> 0x95"
abbreviation (input) OP_DIV :: byte where "OP_DIV \<equiv> 0x96"
abbreviation (input) OP_MOD :: byte where "OP_MOD \<equiv> 0x97"
abbreviation (input) OP_LSHIFT :: byte where "OP_LSHIFT \<equiv> 0x98"
abbreviation (input) OP_RSHIFT :: byte where "OP_RSHIFT \<equiv> 0x99"
abbreviation (input) OP_BOOLAND :: byte where "OP_BOOLAND \<equiv> 0x9a"
abbreviation (input) OP_BOOLOR :: byte where "OP_BOOLOR \<equiv> 0x9b"
abbreviation (input) OP_NUMEQUAL :: byte where "OP_NUMEQUAL \<equiv> 0x9c"
abbreviation (input) OP_NUMEQUALVERIFY :: byte where "OP_NUMEQUALVERIFY \<equiv> 0x9d"
abbreviation (input) OP_NUMNOTEQUAL :: byte where "OP_NUMNOTEQUAL \<equiv> 0x9e"
abbreviation (input) OP_LESSTHAN :: byte where "OP_LESSTHAN \<equiv> 0x9f"
abbreviation (input) OP_GREATERTHAN :: byte where "OP_GREATERTHAN \<equiv> 0xa0"
abbreviation (input) OP_LESSTHANOREQUAL :: byte where "OP_LESSTHANOREQUAL \<equiv> 0xa1"
abbreviation (input) OP_GREATERTHANOREQUAL :: byte where "OP_GREATERTHANOREQUAL \<equiv> 0xa2"
abbreviation (input) OP_MIN :: byte where "OP_MIN \<equiv> 0xa3"
abbreviation (input) OP_MAX :: byte where "OP_MAX \<equiv> 0xa4"
abbreviation (input) OP_WITHIN :: byte where "OP_WITHIN \<equiv> 0xa5"
abbreviation (input) OP_RIPEMD160 :: byte where "OP_RIPEMD160 \<equiv> 0xa6"
abbreviation (input) OP_SHA1 :: byte where "OP_SHA1 \<equiv> 0xa7"
abbreviation (input) OP_SHA256 :: byte where "OP_SHA256 \<equiv> 0xa8"
abbreviation (input) OP_HASH160 :: byte where "OP_HASH160 \<equiv> 0xa9"
abbreviation (input) OP_HASH256 :: byte where "OP_HASH256 \<equiv> 0xaa"
abbreviation (input) OP_CODESEPARATOR :: byte where "OP_CODESEPARATOR \<equiv> 0xab"
abbreviation (input) OP_CHECKSIG :: byte where "OP_CHECKSIG \<equiv> 0xac"
abbreviation (input) OP_CHECKSIGVERIFY :: byte where "OP_CHECKSIGVERIFY \<equiv> 0xad"
abbreviation (input) OP_CHECKMULTISIG :: byte where "OP_CHECKMULTISIG \<equiv> 0xae"
abbreviation (input) OP_CHECKMULTISIGVERIFY :: byte where "OP_CHECKMULTISIGVERIFY \<equiv> 0xaf"
abbreviation (input) OP_NOP1 :: byte where "OP_NOP1 \<equiv> 0xb0"
abbreviation (input) OP_NOP2 :: byte where "OP_NOP2 \<equiv> 0xb1"
abbreviation (input) OP_NOP3 :: byte where "OP_NOP3 \<equiv> 0xb2"
abbreviation (input) OP_NOP4 :: byte where "OP_NOP4 \<equiv> 0xb3"
abbreviation (input) OP_NOP5 :: byte where "OP_NOP5 \<equiv> 0xb4"
abbreviation (input) OP_NOP6 :: byte where "OP_NOP6 \<equiv> 0xb5"
abbreviation (input) OP_NOP7 :: byte where "OP_NOP7 \<equiv> 0xb6"
abbreviation (input) OP_NOP8 :: byte where "OP_NOP8 \<equiv> 0xb7"
abbreviation (input) OP_NOP9 :: byte where "OP_NOP9 \<equiv> 0xb8"
abbreviation (input) OP_NOP10 :: byte where "OP_NOP10 \<equiv> 0xb9"
abbreviation (input) OP_SMALLINTEGER :: byte where "OP_SMALLINTEGER \<equiv> 0xfa"
abbreviation (input) OP_PUBKEYS :: byte where "OP_PUBKEYS \<equiv> 0xfb"
abbreviation (input) OP_PUBKEYHASH :: byte where "OP_PUBKEYHASH \<equiv> 0xfd"
abbreviation (input) OP_PUBKEY :: byte where "OP_PUBKEY \<equiv> 0xfe"
abbreviation (input) OP_INVALIDOPCODE :: byte where "OP_INVALIDOPCODE \<equiv> 0xff"

definition opcodetype_enum :: "(byte \<times> string) list" where
  "opcodetype_enum =
    [(OP_0, ''OP_0''), (OP_FALSE, ''OP_FALSE''), (OP_PUSHDATA1, ''OP_PUSHDATA1''),
     (OP_PUSHDATA2, ''OP_PUSHDATA2''), (OP_PUSHDATA4, ''OP_PUSHDATA4''),
     (OP_1NEGATE, ''OP_1NEGATE''), (OP_RESERVED, ''OP_RESERVED''), (OP_1, ''OP_1''),
     (OP_TRUE, ''OP_TRUE''), (OP_2, ''OP_2''), (OP_3, ''OP_3''), (OP_4, ''OP_4''),
     (OP_5, ''OP_5''), (OP_6, ''OP_6''), (OP_7, ''OP_7''), (OP_8, ''OP_8''), (OP_9, ''OP_9''),
     (OP_10, ''OP_10''), (OP_11, ''OP_11''), (OP_12, ''OP_12''), (OP_13, ''OP_13''),
     (OP_14, ''OP_14''), (OP_15, ''OP_15''), (OP_16, ''OP_16''), (OP_NOP, ''OP_NOP''),
     (OP_VER, ''OP_VER''), (OP_IF, ''OP_IF''), (OP_NOTIF, ''OP_NOTIF''),
     (OP_VERIF, ''OP_VERIF''), (OP_VERNOTIF, ''OP_VERNOTIF''), (OP_ELSE, ''OP_ELSE''),
     (OP_ENDIF, ''OP_ENDIF''), (OP_VERIFY, ''OP_VERIFY''), (OP_RETURN, ''OP_RETURN''),
     (OP_TOALTSTACK, ''OP_TOALTSTACK''), (OP_FROMALTSTACK, ''OP_FROMALTSTACK''),
     (OP_2DROP, ''OP_2DROP''), (OP_2DUP, ''OP_2DUP''), (OP_3DUP, ''OP_3DUP''),
     (OP_2OVER, ''OP_2OVER''), (OP_2ROT, ''OP_2ROT''), (OP_2SWAP, ''OP_2SWAP''),
     (OP_IFDUP, ''OP_IFDUP''), (OP_DEPTH, ''OP_DEPTH''), (OP_DROP, ''OP_DROP''),
     (OP_DUP, ''OP_DUP''), (OP_NIP, ''OP_NIP''), (OP_OVER, ''OP_OVER''),
     (OP_PICK, ''OP_PICK''), (OP_ROLL, ''OP_ROLL''), (OP_ROT, ''OP_ROT''),
     (OP_SWAP, ''OP_SWAP''), (OP_TUCK, ''OP_TUCK''), (OP_CAT, ''OP_CAT''),
     (OP_SUBSTR, ''OP_SUBSTR''), (OP_LEFT, ''OP_LEFT''), (OP_RIGHT, ''OP_RIGHT''),
     (OP_SIZE, ''OP_SIZE''), (OP_INVERT, ''OP_INVERT''), (OP_AND, ''OP_AND''),
     (OP_OR, ''OP_OR''), (OP_XOR, ''OP_XOR''), (OP_EQUAL, ''OP_EQUAL''),
     (OP_EQUALVERIFY, ''OP_EQUALVERIFY''), (OP_RESERVED1, ''OP_RESERVED1''),
     (OP_RESERVED2, ''OP_RESERVED2''), (OP_1ADD, ''OP_1ADD''), (OP_1SUB, ''OP_1SUB''),
     (OP_2MUL, ''OP_2MUL''), (OP_2DIV, ''OP_2DIV''), (OP_NEGATE, ''OP_NEGATE''),
     (OP_ABS, ''OP_ABS''), (OP_NOT, ''OP_NOT''), (OP_0NOTEQUAL, ''OP_0NOTEQUAL''),
     (OP_ADD, ''OP_ADD''), (OP_SUB, ''OP_SUB''), (OP_MUL, ''OP_MUL''), (OP_DIV, ''OP_DIV''),
     (OP_MOD, ''OP_MOD''), (OP_LSHIFT, ''OP_LSHIFT''), (OP_RSHIFT, ''OP_RSHIFT''),
     (OP_BOOLAND, ''OP_BOOLAND''), (OP_BOOLOR, ''OP_BOOLOR''), (OP_NUMEQUAL, ''OP_NUMEQUAL''),
     (OP_NUMEQUALVERIFY, ''OP_NUMEQUALVERIFY''), (OP_NUMNOTEQUAL, ''OP_NUMNOTEQUAL''),
     (OP_LESSTHAN, ''OP_LESSTHAN''), (OP_GREATERTHAN, ''OP_GREATERTHAN''),
     (OP_LESSTHANOREQUAL, ''OP_LESSTHANOREQUAL''),
     (OP_GREATERTHANOREQUAL, ''OP_GREATERTHANOREQUAL''), (OP_MIN, ''OP_MIN''),
     (OP_MAX, ''OP_MAX''), (OP_WITHIN, ''OP_WITHIN''), (OP_RIPEMD160, ''OP_RIPEMD160''),
     (OP_SHA1, ''OP_SHA1''), (OP_SHA256, ''OP_SHA256''), (OP_HASH160, ''OP_HASH160''),
     (OP_HASH256, ''OP_HASH256''), (OP_CODESEPARATOR, ''OP_CODESEPARATOR''),
     (OP_CHECKSIG, ''OP_CHECKSIG''), (OP_CHECKSIGVERIFY, ''OP_CHECKSIGVERIFY''),
     (OP_CHECKMULTISIG, ''OP_CHECKMULTISIG''),
     (OP_CHECKMULTISIGVERIFY, ''OP_CHECKMULTISIGVERIFY''), (OP_NOP1, ''OP_NOP1''),
     (OP_NOP2, ''OP_NOP2''), (OP_NOP3, ''OP_NOP3''), (OP_NOP4, ''OP_NOP4''),
     (OP_NOP5, ''OP_NOP5''), (OP_NOP6, ''OP_NOP6''), (OP_NOP7, ''OP_NOP7''),
     (OP_NOP8, ''OP_NOP8''), (OP_NOP9, ''OP_NOP9''), (OP_NOP10, ''OP_NOP10''),
     (OP_SMALLINTEGER, ''OP_SMALLINTEGER''), (OP_PUBKEYS, ''OP_PUBKEYS''),
     (OP_PUBKEYHASH, ''OP_PUBKEYHASH''), (OP_PUBKEY, ''OP_PUBKEY''),
     (OP_INVALIDOPCODE, ''OP_INVALIDOPCODE'')]"

definition opcode_names :: "(byte \<times> string) list" where
  "opcode_names =
    [(OP_0, ''0''), (OP_PUSHDATA1, ''OP_PUSHDATA1''), (OP_PUSHDATA2, ''OP_PUSHDATA2''),
     (OP_PUSHDATA4, ''OP_PUSHDATA4''), (OP_1NEGATE, ''-1''), (OP_RESERVED, ''OP_RESERVED''),
     (OP_1, ''1''), (OP_2, ''2''), (OP_3, ''3''), (OP_4, ''4''), (OP_5, ''5''), (OP_6, ''6''),
     (OP_7, ''7''), (OP_8, ''8''), (OP_9, ''9''), (OP_10, ''10''), (OP_11, ''11''),
     (OP_12, ''12''), (OP_13, ''13''), (OP_14, ''14''), (OP_15, ''15''), (OP_16, ''16''),
     (OP_NOP, ''OP_NOP''), (OP_VER, ''OP_VER''), (OP_IF, ''OP_IF''), (OP_NOTIF, ''OP_NOTIF''),
     (OP_VERIF, ''OP_VERIF''), (OP_VERNOTIF, ''OP_VERNOTIF''), (OP_ELSE, ''OP_ELSE''),
     (OP_ENDIF, ''OP_ENDIF''), (OP_VERIFY, ''OP_VERIFY''), (OP_RETURN, ''OP_RETURN''),
     (OP_TOALTSTACK, ''OP_TOALTSTACK''), (OP_FROMALTSTACK, ''OP_FROMALTSTACK''),
     (OP_2DROP, ''OP_2DROP''), (OP_2DUP, ''OP_2DUP''), (OP_3DUP, ''OP_3DUP''),
     (OP_2OVER, ''OP_2OVER''), (OP_2ROT, ''OP_2ROT''), (OP_2SWAP, ''OP_2SWAP''),
     (OP_IFDUP, ''OP_IFDUP''), (OP_DEPTH, ''OP_DEPTH''), (OP_DROP, ''OP_DROP''),
     (OP_DUP, ''OP_DUP''), (OP_NIP, ''OP_NIP''), (OP_OVER, ''OP_OVER''),
     (OP_PICK, ''OP_PICK''), (OP_ROLL, ''OP_ROLL''), (OP_ROT, ''OP_ROT''),
     (OP_SWAP, ''OP_SWAP''), (OP_TUCK, ''OP_TUCK''), (OP_CAT, ''OP_CAT''),
     (OP_SUBSTR, ''OP_SUBSTR''), (OP_LEFT, ''OP_LEFT''), (OP_RIGHT, ''OP_RIGHT''),
     (OP_SIZE, ''OP_SIZE''), (OP_INVERT, ''OP_INVERT''), (OP_AND, ''OP_AND''),
     (OP_OR, ''OP_OR''), (OP_XOR, ''OP_XOR''), (OP_EQUAL, ''OP_EQUAL''),
     (OP_EQUALVERIFY, ''OP_EQUALVERIFY''), (OP_RESERVED1, ''OP_RESERVED1''),
     (OP_RESERVED2, ''OP_RESERVED2''), (OP_1ADD, ''OP_1ADD''), (OP_1SUB, ''OP_1SUB''),
     (OP_2MUL, ''OP_2MUL''), (OP_2DIV, ''OP_2DIV''), (OP_NEGATE, ''OP_NEGATE''),
     (OP_ABS, ''OP_ABS''), (OP_NOT, ''OP_NOT''), (OP_0NOTEQUAL, ''OP_0NOTEQUAL''),
     (OP_ADD, ''OP_ADD''), (OP_SUB, ''OP_SUB''), (OP_MUL, ''OP_MUL''), (OP_DIV, ''OP_DIV''),
     (OP_MOD, ''OP_MOD''), (OP_LSHIFT, ''OP_LSHIFT''), (OP_RSHIFT, ''OP_RSHIFT''),
     (OP_BOOLAND, ''OP_BOOLAND''), (OP_BOOLOR, ''OP_BOOLOR''), (OP_NUMEQUAL, ''OP_NUMEQUAL''),
     (OP_NUMEQUALVERIFY, ''OP_NUMEQUALVERIFY''), (OP_NUMNOTEQUAL, ''OP_NUMNOTEQUAL''),
     (OP_LESSTHAN, ''OP_LESSTHAN''), (OP_GREATERTHAN, ''OP_GREATERTHAN''),
     (OP_LESSTHANOREQUAL, ''OP_LESSTHANOREQUAL''),
     (OP_GREATERTHANOREQUAL, ''OP_GREATERTHANOREQUAL''), (OP_MIN, ''OP_MIN''),
     (OP_MAX, ''OP_MAX''), (OP_WITHIN, ''OP_WITHIN''), (OP_RIPEMD160, ''OP_RIPEMD160''),
     (OP_SHA1, ''OP_SHA1''), (OP_SHA256, ''OP_SHA256''), (OP_HASH160, ''OP_HASH160''),
     (OP_HASH256, ''OP_HASH256''), (OP_CODESEPARATOR, ''OP_CODESEPARATOR''),
     (OP_CHECKSIG, ''OP_CHECKSIG''), (OP_CHECKSIGVERIFY, ''OP_CHECKSIGVERIFY''),
     (OP_CHECKMULTISIG, ''OP_CHECKMULTISIG''),
     (OP_CHECKMULTISIGVERIFY, ''OP_CHECKMULTISIGVERIFY''), (OP_NOP1, ''OP_NOP1''),
     (OP_NOP2, ''OP_NOP2''), (OP_NOP3, ''OP_NOP3''), (OP_NOP4, ''OP_NOP4''),
     (OP_NOP5, ''OP_NOP5''), (OP_NOP6, ''OP_NOP6''), (OP_NOP7, ''OP_NOP7''),
     (OP_NOP8, ''OP_NOP8''), (OP_NOP9, ''OP_NOP9''), (OP_NOP10, ''OP_NOP10''),
     (OP_PUBKEYHASH, ''OP_PUBKEYHASH''), (OP_PUBKEY, ''OP_PUBKEY''),
     (OP_INVALIDOPCODE, ''OP_INVALIDOPCODE'')]"

definition GetOpName :: "byte \<Rightarrow> string" where
  "GetOpName opcode =
     (case map_of opcode_names opcode of Some name \<Rightarrow> name | None \<Rightarrow> ''OP_UNKNOWN'')"

fun GetTxnOutputType :: "txnouttype \<Rightarrow> string" where
  "GetTxnOutputType TX_NONSTANDARD = ''nonstandard''"
| "GetTxnOutputType TX_PUBKEY = ''pubkey''"
| "GetTxnOutputType TX_PUBKEYHASH = ''pubkeyhash''"
| "GetTxnOutputType TX_SCRIPTHASH = ''scripthash''"
| "GetTxnOutputType TX_MULTISIG = ''multisig''"

section \<open>Building scripts\<close>

definition script_append :: "script \<Rightarrow> script \<Rightarrow> script" where
  "script_append a b = a @ b"

definition push_opcode :: "script \<Rightarrow> byte \<Rightarrow> script" where
  "push_opcode s opcode = s @ [opcode]"

text \<open>The bytes \<open>operator<<\<close> appends for a byte vector.\<close>
definition push_data :: "byte list \<Rightarrow> byte list" where
  "push_data b =
     (if length b < unat OP_PUSHDATA1 then [word_of_nat (length b)]
      else if length b \<le> 0xff then [OP_PUSHDATA1, word_of_nat (length b)]
      else if length b \<le> 0xffff then OP_PUSHDATA2 # ser_int (word_of_nat (length b) :: u16)
      else OP_PUSHDATA4 # ser_int (word_of_nat (length b) :: u32)) @ b"

definition push_vch :: "script \<Rightarrow> byte list \<Rightarrow> script" where
  "push_vch s b = s @ push_data b"

definition push_uint :: "script \<Rightarrow> base_uint \<Rightarrow> script" where
  "push_uint s b = s @ [word_of_nat (length (bu_bytes b))] @ bu_bytes b"

definition push_key :: "script \<Rightarrow> byte list \<Rightarrow> script" where
  "push_key s key = s @ [word_of_nat (length key)] @ key"

definition push_bignum :: "'b bn_lib \<Rightarrow> script \<Rightarrow> 'b \<Rightarrow> script" where
  "push_bignum L s b = push_vch s (bn_getvch L b)"

definition push_int64 :: "'b bn_lib \<Rightarrow> script \<Rightarrow> i64 \<Rightarrow> script" where
  "push_int64 L s n =
     (if n = -1 \<or> (1 \<le>s n \<and> n \<le>s 16) then s @ [ucast (n + ucast (OP_1 - 1))]
      else push_vch s (bn_getvch L (bn_setint64 L n)))"

definition push_uint64 :: "'b bn_lib \<Rightarrow> script \<Rightarrow> u64 \<Rightarrow> script" where
  "push_uint64 L s n =
     (if 1 \<le> n \<and> n \<le> 16 then s @ [ucast (n + ucast (OP_1 - 1))]
      else push_vch s (bn_getvch L (bn_setuint64 L n)))"

definition DecodeOP_N :: "byte \<Rightarrow> int" where
  "DecodeOP_N opcode = (if opcode = OP_0 then 0 else uint opcode - uint (OP_1 - 1 :: byte))"

definition EncodeOP_N :: "int \<Rightarrow> byte" where
  "EncodeOP_N n = (if n = 0 then OP_0 else OP_1 + word_of_int n - 1)"

section \<open>Reading instructions\<close>

text \<open>The length of the immediate operand, and the iterator after the length bytes; \<open>None\<close> when they
  are cut off.\<close>
definition push_length :: "byte \<Rightarrow> script \<Rightarrow> (nat \<times> script) option" where
  "push_length opcode pc =
     (if opcode < OP_PUSHDATA1 then Some (unat opcode, pc)
      else if opcode = OP_PUSHDATA1
      then (if length pc < 1 then None else Some (unat (hd pc), tl pc))
      else if opcode = OP_PUSHDATA2
      then (if length pc < 2 then None else Some (le_val (take 2 pc), drop 2 pc))
      else (if length pc < 4 then None else Some (le_val (take 4 pc), drop 4 pc)))"

text \<open>The result, the opcode, the operand and the iterator \<open>GetOp2\<close> leaves.\<close>
definition GetOp2 :: "script \<Rightarrow> bool \<times> byte \<times> byte list \<times> script" where
  "GetOp2 pc =
     (case pc of
        [] \<Rightarrow> (False, OP_INVALIDOPCODE, [], pc)
      | opcode # pc \<Rightarrow>
          if opcode \<le> OP_PUSHDATA4
          then (case push_length opcode pc of
                  None \<Rightarrow> (False, OP_INVALIDOPCODE, [], pc)
                | Some (nSize, pc) \<Rightarrow>
                    if length pc < nSize then (False, OP_INVALIDOPCODE, [], pc)
                    else (True, opcode, take nSize pc, drop nSize pc))
          else (True, opcode, [], pc))"

lemma push_length_shorter: "push_length opcode pc = Some (n, pc') \<Longrightarrow> length pc' \<le> length pc"
  by (auto simp: push_length_def split: if_splits)

lemma GetOp2_shorter: "GetOp2 pc = (True, opcode, v, pc') \<Longrightarrow> length pc' < length pc"
  by (auto simp: GetOp2_def dest!: push_length_shorter split: list.splits option.splits if_splits)

function IsPushOnly :: "script \<Rightarrow> bool" where
  "IsPushOnly pc =
     (if pc = [] then True
      else case GetOp2 pc of (fRet, opcode, _, pc') \<Rightarrow>
        if \<not> fRet then False else if opcode > OP_16 then False else IsPushOnly pc')"
  by auto
termination by (relation "measure length") (auto dest!: GetOp2_shorter [OF sym])

function Find_loop :: "byte \<Rightarrow> script \<Rightarrow> nat \<Rightarrow> nat" where
  "Find_loop x pc nFound =
     (if pc = [] then nFound
      else case GetOp2 pc of (fRet, opcode, _, pc') \<Rightarrow>
        if \<not> fRet then nFound else Find_loop x pc' (if opcode = x then nFound + 1 else nFound))"
  by auto
termination by (relation "measure (\<lambda>(x, pc, n). length pc)") (auto dest!: GetOp2_shorter [OF sym])

definition script_Find :: "script \<Rightarrow> byte \<Rightarrow> nat" where
  "script_Find s x = Find_loop x s 0"

text \<open>\<open>FindAndDelete\<close>: the inner loop deletes copies of \<open>b\<close> at the iterator, the outer one steps over
  an instruction; \<open>before\<close> is the part of the script in front of the iterator.\<close>

function delete_here :: "script \<Rightarrow> script \<Rightarrow> nat \<Rightarrow> script \<times> nat" where
  "delete_here b pc nFound =
     (if b \<noteq> [] \<and> length b \<le> length pc \<and> take (length b) pc = b
      then delete_here b (drop (length b) pc) (nFound + 1) else (pc, nFound))"
  by auto
termination by (relation "measure (\<lambda>(b, pc, n). length pc)") (auto simp: neq_Nil_conv)

declare delete_here.simps [simp del]

lemma delete_here_shorter: "delete_here b pc n = (pc', n') \<Longrightarrow> length pc' \<le> length pc"
proof (induction b pc n rule: delete_here.induct)
  case (1 b pc n)
  then show ?case
    by (subst (asm) delete_here.simps) (fastforce split: if_splits)
qed

function find_delete_loop :: "script \<Rightarrow> script \<Rightarrow> script \<Rightarrow> nat \<Rightarrow> script \<times> nat" where
  "find_delete_loop b before pc nFound =
     (case delete_here b pc nFound of (pc, nFound) \<Rightarrow>
      case GetOp2 pc of (fRet, opcode, _, pc') \<Rightarrow>
        if fRet then find_delete_loop b (before @ take (length pc - length pc') pc) pc' nFound
        else (before @ pc, nFound))"
  by auto
termination
  by (relation "measure (\<lambda>(b, before, pc, n). length pc)")
    (auto dest!: GetOp2_shorter [OF sym] delete_here_shorter [OF sym])

definition FindAndDelete :: "script \<Rightarrow> script \<Rightarrow> script \<times> nat" where
  "FindAndDelete s b = (if b = [] then (s, 0) else find_delete_loop b [] s 0)"

function sigop_loop :: "bool \<Rightarrow> u32 \<Rightarrow> byte \<Rightarrow> script \<Rightarrow> u32" where
  "sigop_loop fAccurate n lastOpcode pc =
     (if pc = [] then n
      else case GetOp2 pc of (fRet, opcode, _, pc') \<Rightarrow>
        if \<not> fRet then n
        else sigop_loop fAccurate
          (if opcode = OP_CHECKSIG \<or> opcode = OP_CHECKSIGVERIFY then n + 1
           else if opcode = OP_CHECKMULTISIG \<or> opcode = OP_CHECKMULTISIGVERIFY
           then (if fAccurate \<and> lastOpcode \<ge> OP_1 \<and> lastOpcode \<le> OP_16
                 then n + word_of_int (DecodeOP_N lastOpcode) else n + 20)
           else n) opcode pc')"
  by auto
termination by (relation "measure (\<lambda>(f, n, l, pc). length pc)") (auto dest!: GetOp2_shorter [OF sym])

definition GetSigOpCount :: "script \<Rightarrow> bool \<Rightarrow> u32" where
  "GetSigOpCount s fAccurate = sigop_loop fAccurate 0 OP_INVALIDOPCODE s"

definition IsPayToScriptHash :: "script \<Rightarrow> bool" where
  "IsPayToScriptHash s =
     (length s = 23 \<and> s ! 0 = OP_HASH160 \<and> s ! 1 = 0x14 \<and> s ! 22 = OP_EQUAL)"

text \<open>The operand of the last instruction; \<open>None\<close> for the two early returns.\<close>
function last_push :: "byte list \<Rightarrow> script \<Rightarrow> byte list option" where
  "last_push data pc =
     (if pc = [] then Some data
      else case GetOp2 pc of (fRet, opcode, data', pc') \<Rightarrow>
        if \<not> fRet then None else if opcode > OP_16 then None else last_push data' pc')"
  by auto
termination by (relation "measure (\<lambda>(d, pc). length pc)") (auto dest!: GetOp2_shorter [OF sym])

definition GetSigOpCount_p2sh :: "script \<Rightarrow> script \<Rightarrow> u32" where
  "GetSigOpCount_p2sh s scriptSig =
     (if \<not> IsPayToScriptHash s then GetSigOpCount s True
      else case last_push [] scriptSig of
        None \<Rightarrow> 0
      | Some data \<Rightarrow> (let subscript = data in GetSigOpCount subscript True))"

function HasCanonicalPushes :: "script \<Rightarrow> bool" where
  "HasCanonicalPushes pc =
     (if pc = [] then True
      else case GetOp2 pc of (fRet, opcode, data, pc') \<Rightarrow>
        if \<not> fRet then False
        else if opcode > OP_16 then HasCanonicalPushes pc'
        else if opcode < OP_PUSHDATA1 \<and> opcode > OP_0 \<and> length data = 1 \<and> data ! 0 \<le> 16 then False
        else if opcode = OP_PUSHDATA1 \<and> length data < unat OP_PUSHDATA1 then False
        else if opcode = OP_PUSHDATA2 \<and> length data \<le> 0xff then False
        else if opcode = OP_PUSHDATA4 \<and> length data \<le> 0xffff then False
        else HasCanonicalPushes pc')"
  by auto
termination by (relation "measure length") (auto dest!: GetOp2_shorter [OF sym])

declare IsPushOnly.simps [simp del] Find_loop.simps [simp del] find_delete_loop.simps [simp del]
  sigop_loop.simps [simp del] last_push.simps [simp del] HasCanonicalPushes.simps [simp del]

section \<open>Printing\<close>

fun digits10 :: "nat \<Rightarrow> string \<Rightarrow> string" where
  "digits10 n s =
     (let s = char_of (48 + n mod 10) # s in if n < 10 then s else digits10 (n div 10) s)"

declare digits10.simps [simp del]

text \<open>\<open>strprintf("%d", n)\<close>.\<close>
definition show_int :: "int \<Rightarrow> string" where
  "show_int n = (if n < 0 then ''-'' @ digits10 (nat (- n)) [] else digits10 (nat n) [])"

definition HexStr :: "byte list \<Rightarrow> string" where
  "HexStr vch = concat (map hex2 vch)"

definition ValueString :: "'b bn_lib \<Rightarrow> byte list \<Rightarrow> string" where
  "ValueString L vch =
     (if length vch \<le> 4 then show_int (bn_getint L (bn_setvch L vch)) else HexStr vch)"

definition StackString :: "'b bn_lib \<Rightarrow> byte list list \<Rightarrow> string" where
  "StackString L vStack =
     foldl (\<lambda>str vch. (if str \<noteq> [] then str @ '' '' else str) @ ValueString L vch) [] vStack"

function script_print :: "'b bn_lib \<Rightarrow> string \<Rightarrow> script \<Rightarrow> string" where
  "script_print L str pc =
     (if pc = [] then str
      else (let str = (if str \<noteq> [] then str @ '' '' else str) in
        case GetOp2 pc of (fRet, opcode, vch, pc') \<Rightarrow>
          if \<not> fRet then str @ ''[error]''
          else script_print L (str @ (if opcode \<le> OP_PUSHDATA4 then ValueString L vch else GetOpName opcode)) pc'))"
  by auto
termination by (relation "measure (\<lambda>(L, str, pc). length pc)") (auto dest!: GetOp2_shorter [OF sym])

definition script_ToString :: "'b bn_lib \<Rightarrow> script \<Rightarrow> string" where
  "script_ToString L s = script_print L [] s"

declare script_print.simps [simp del]

section \<open>Canonical keys and signatures\<close>

definition IsCanonicalPubKey :: "valtype \<Rightarrow> bool" where
  "IsCanonicalPubKey vchPubKey =
     (if length vchPubKey < 33 then False
      else if vchPubKey ! 0 = 0x04 then (if length vchPubKey \<noteq> 65 then False else True)
      else if vchPubKey ! 0 = 0x02 \<or> vchPubKey ! 0 = 0x03
      then (if length vchPubKey \<noteq> 33 then False else True)
      else False)"

definition IsCanonicalSignature :: "valtype \<Rightarrow> bool" where
  "IsCanonicalSignature vchSig =
     (let size = length vchSig in
      if size < 9 then False else if size > 73 then False else
      let nHashType = unat (vchSig ! (size - 1) AND NOT 0x80) in
      if nHashType < SIGHASH_ALL \<or> nHashType > SIGHASH_SINGLE then False
      else if vchSig ! 0 \<noteq> 0x30 then False
      else if unat (vchSig ! 1) \<noteq> size - 3 then False else
      let nLenR = unat (vchSig ! 3) in
      if 5 + nLenR \<ge> size then False else
      let nLenS = unat (vchSig ! (5 + nLenR)) in
      if nLenR + nLenS + 7 \<noteq> size then False
      else if vchSig ! 2 \<noteq> 0x02 then False
      else if nLenR = 0 then False
      else if vchSig ! 4 AND 0x80 \<noteq> 0 then False
      else if nLenR > 1 \<and> vchSig ! 4 = 0x00 \<and> vchSig ! 5 AND 0x80 = 0 then False
      else if vchSig ! (4 + nLenR) \<noteq> 0x02 then False
      else if nLenS = 0 then False
      else if vchSig ! (6 + nLenR) AND 0x80 \<noteq> 0 then False
      else if nLenS > 1 \<and> vchSig ! (6 + nLenR) = 0x00 \<and> vchSig ! (7 + nLenR) AND 0x80 = 0 then False
      else True)"

section \<open>The instructions of a script\<close>

lemma push_length_extend: "push_length opcode pc = Some (n, pc') \<Longrightarrow> push_length opcode (pc @ zs) = Some (n, pc' @ zs)"
  by (auto simp: push_length_def split: if_splits)

lemma push_length_suffix: "push_length opcode pc = Some (n, pc') \<Longrightarrow> \<exists>k. pc' = drop k pc"
  unfolding push_length_def
  by (auto split: if_splits intro: exI [of _ 0] exI [of _ "Suc 0"] simp: drop_Suc)

lemma GetOp2_cases:
  assumes "GetOp2 pc = (True, opcode, v, pc')"
  obtains (push) p n q where "pc = opcode # p" "opcode \<le> OP_PUSHDATA4" "push_length opcode p = Some (n, q)"
      "n \<le> length q" "v = take n q" "pc' = drop n q"
  | (op) "pc = opcode # pc'" "\<not> opcode \<le> OP_PUSHDATA4" "v = []"
  using assms by (cases pc) (auto simp: GetOp2_def not_less split: option.splits if_splits)

lemma GetOp2_extend:
  assumes "GetOp2 pc = (True, opcode, v, pc')"
  shows "GetOp2 (pc @ zs) = (True, opcode, v, pc' @ zs)"
  using assms
proof (cases rule: GetOp2_cases)
  case (push p n q)
  from push_length_extend [OF push(3), of zs] push show ?thesis
    by (simp add: GetOp2_def)
next
  case op
  then show ?thesis by (simp add: GetOp2_def)
qed

lemma GetOp2_suffix:
  assumes "GetOp2 pc = (True, opcode, v, pc')"
  shows "pc = take (length pc - length pc') pc @ pc'"
proof -
  have "\<exists>k. pc' = drop k pc"
    using assms
  proof (cases rule: GetOp2_cases)
    case (push p n q)
    then obtain k where "q = drop k p" using push_length_suffix by blast
    then have "pc' = drop (Suc (n + k)) pc" using push by simp
    then show ?thesis ..
  next
    case op
    then have "pc' = drop 1 pc" by simp
    then show ?thesis ..
  qed
  then obtain k where k: "pc' = drop k pc" ..
  then show ?thesis
    by (cases "k \<le> length pc") auto
qed

text \<open>An instruction: its opcode, its operand and its bytes.\<close>

type_synonym instr = "byte \<times> byte list \<times> byte list"

abbreviation ins_op :: "instr \<Rightarrow> byte" where "ins_op i \<equiv> fst i"
abbreviation ins_arg :: "instr \<Rightarrow> byte list" where "ins_arg i \<equiv> fst (snd i)"
abbreviation ins_raw :: "instr \<Rightarrow> byte list" where "ins_raw i \<equiv> snd (snd i)"

function parse :: "script \<Rightarrow> instr list \<times> script" where
  "parse pc =
     (case GetOp2 pc of (fRet, opcode, v, pc') \<Rightarrow>
        if fRet then (case parse pc' of (is, t) \<Rightarrow> ((opcode, v, take (length pc - length pc') pc) # is, t))
        else ([], pc))"
  by auto
termination by (relation "measure length") (auto dest!: GetOp2_shorter [OF sym])

declare parse.simps [simp del]

lemma parse_step:
  "GetOp2 pc = (True, opcode, v, pc') \<Longrightarrow>
   parse pc = ((opcode, v, take (length pc - length pc') pc) # fst (parse pc'), snd (parse pc'))"
  by (subst parse.simps) (simp split: prod.split)

lemma parse_stop: "GetOp2 pc = (False, opcode, v, pc') \<Longrightarrow> parse pc = ([], pc)"
  by (subst parse.simps) simp

lemma GetOp2_Nil [simp]: "GetOp2 [] = (False, OP_INVALIDOPCODE, [], [])"
  by (simp add: GetOp2_def)

lemma parse_Nil [simp]: "parse [] = ([], [])"
  by (subst parse.simps) simp

lemma parse_concat: "concat (map ins_raw (fst (parse s))) @ snd (parse s) = s"
proof (induction s rule: parse.induct)
  case (1 pc)
  obtain f opcode v pc' where g: "GetOp2 pc = (f, opcode, v, pc')" by (cases "GetOp2 pc") auto
  show ?case
  proof (cases f)
    case True
    then show ?thesis
      using g 1 [OF g [symmetric] refl refl] GetOp2_suffix [of pc opcode v pc'] by (simp add: parse_step)
  next
    case False
    then show ?thesis using g by (simp add: parse_stop)
  qed
qed

text \<open>The whole script is readable when no tail is left.\<close>

lemma parse_prefix:
  "GetOp2 p = (True, opcode, v, []) \<Longrightarrow> parse (p @ s) = ((opcode, v, p) # fst (parse s), snd (parse s))"
  using parse_step [OF GetOp2_extend [of p opcode v "[]" s]] by simp

lemma IsPushOnly_parse: "IsPushOnly s \<longleftrightarrow> snd (parse s) = [] \<and> list_all (\<lambda>i. ins_op i \<le> OP_16) (fst (parse s))"
proof (induction s rule: IsPushOnly.induct)
  case (1 pc)
  obtain f opcode v pc' where g: "GetOp2 pc = (f, opcode, v, pc')" by (cases "GetOp2 pc") auto
  show ?case
  proof (cases "pc = []")
    case True
    then show ?thesis by (subst IsPushOnly.simps) simp
  next
    case nonempty: False
    show ?thesis
    proof (cases f)
      case True
      then show ?thesis
        using nonempty g 1 [OF nonempty g [symmetric] refl refl]
        by (subst IsPushOnly.simps) (auto simp: parse_step not_le)
    next
      case False
      then show ?thesis
        using nonempty g by (subst IsPushOnly.simps) (simp add: parse_stop)
    qed
  qed
qed

section \<open>FindAndDelete\<close>

lemma delete_here_hit: "b \<noteq> [] \<Longrightarrow> delete_here b (b @ r) n = delete_here b r (n + 1)"
  by (subst delete_here.simps) simp

lemma delete_here_miss: "\<not> (\<exists>r. pc = b @ r) \<Longrightarrow> delete_here b pc n = (pc, n)"
  by (subst delete_here.simps) (metis append_take_drop_id)

lemma find_delete_hit: "b \<noteq> [] \<Longrightarrow> find_delete_loop b before (b @ r) n = find_delete_loop b before r (n + 1)"
  by (subst (1 2) find_delete_loop.simps) (simp add: delete_here_hit)

lemma find_delete_instr:
  assumes b: "GetOp2 b = (True, opb, vb, [])"
  shows "find_delete_loop b before s n =
    (before @ concat (map ins_raw (filter (\<lambda>i. ins_raw i \<noteq> b) (fst (parse s)))) @ snd (parse s),
     n + length (filter (\<lambda>i. ins_raw i = b) (fst (parse s))))"
proof (induction s arbitrary: before n rule: measure_induct_rule [of length])
  case (less s)
  have bn: "b \<noteq> []" using b by auto
  show ?case
  proof (cases "\<exists>r. s = b @ r")
    case True
    then obtain r where s: "s = b @ r" ..
    then have "length r < length s" using bn by simp
    from less [OF this] show ?thesis
      by (simp add: s find_delete_hit [OF bn] parse_prefix [OF b])
  next
    case False
    then have d: "delete_here b s n = (s, n)" by (rule delete_here_miss)
    obtain f opcode v s' where g: "GetOp2 s = (f, opcode, v, s')" by (cases "GetOp2 s") auto
    show ?thesis
    proof (cases f)
      case True
      with g have g: "GetOp2 s = (True, opcode, v, s')" by simp
      have ne: "take (length s - length s') s \<noteq> b"
        using False GetOp2_suffix [OF g] by metis
      show ?thesis
        using ne by (subst find_delete_loop.simps) (simp add: d g less [OF GetOp2_shorter [OF g]] parse_step [OF g])
    next
      case stop: False
      then show ?thesis
        using g by (subst find_delete_loop.simps) (simp add: d parse_stop)
    qed
  qed
qed

text \<open>C33: Deleting an instruction, such as the push of a signature, removes exactly the instructions
  with those bytes and counts them; everything else, an unreadable tail included, stays.\<close>

theorem FindAndDelete_instruction:
  assumes "GetOp2 b = (True, opb, vb, [])"
  shows "FindAndDelete s b =
    (concat (map ins_raw (filter (\<lambda>i. ins_raw i \<noteq> b) (fst (parse s)))) @ snd (parse s),
     length (filter (\<lambda>i. ins_raw i = b) (fst (parse s))))"
  using find_delete_instr [OF assms, of "[]" s 0] assms by (cases "b = []") (simp_all add: FindAndDelete_def)

theorem FindAndDelete_instruction_witness:
  "FindAndDelete [2, 7, 7, 1, 7, 0x76, 1, 7, 1, 7] [1, 7] = ([2, 7, 7, 0x76], 3)"
proof -
  have g: "GetOp2 [1, 7] = (True, 1, [7], [])" by code_simp
  have "parse [2, 7, 7, 1, 7, 0x76, 1, 7, 1, 7] =
    ([(2, [7, 7], [2, 7, 7]), (1, [7], [1, 7]), (0x76, [], [0x76]), (1, [7], [1, 7]), (1, [7], [1, 7])], [])"
    by code_simp
  then show ?thesis
    using FindAndDelete_instruction [OF g, of "[2, 7, 7, 1, 7, 0x76, 1, 7, 1, 7]"] by simp
qed

text \<open>In general only the length is accounted for: after a deletion the bytes in front of it and behind
  it can form another copy.\<close>

lemma delete_here_length: "delete_here b pc n = (pc', n') \<Longrightarrow> length pc' + n' * length b = length pc + n * length b"
proof (induction b pc n rule: delete_here.induct)
  case (1 b pc n)
  show ?case
  proof (cases "b \<noteq> [] \<and> length b \<le> length pc \<and> take (length b) pc = b")
    case True
    with "1.prems" have "delete_here b (drop (length b) pc) (n + 1) = (pc', n')"
      by (subst (asm) delete_here.simps) simp
    from "1.IH" [OF True this] True show ?thesis by simp
  next
    case False
    with "1.prems" show ?thesis by (subst (asm) delete_here.simps) (auto split: if_splits)
  qed
qed

section \<open>Pushes\<close>

definition push_op :: "byte list \<Rightarrow> byte" where
  "push_op b =
     (if length b < 0x4c then word_of_nat (length b) else if length b \<le> 0xff then OP_PUSHDATA1
      else if length b \<le> 0xffff then OP_PUSHDATA2 else OP_PUSHDATA4)"

lemma le_val_len:
  "n < 65536 \<Longrightarrow> le_val (ser_int (word_of_nat n :: u16)) = n"
  "n < 4294967296 \<Longrightarrow> le_val (ser_int (word_of_nat n :: u32)) = n"
  by (simp_all add: le_val_ser_int unat_of_nat)

lemma GetOp2_push_data:
  assumes "length b < 2 ^ 32"
  shows "GetOp2 (push_data b @ rest) = (True, push_op b, b, rest)"
proof -
  consider "length b < 0x4c" | "0x4c \<le> length b" "length b \<le> 0xff"
    | "0xff < length b" "length b \<le> 0xffff" | "0xffff < length b" by linarith
  then show ?thesis
  proof cases
    case 1
    then have u: "unat (word_of_nat (length b) :: byte) = length b" by (simp add: unat_of_nat)
    then have "(word_of_nat (length b) :: byte) < 0x4c" "(word_of_nat (length b) :: byte) \<le> 0x4e"
      using 1 by (simp_all only: word_less_nat_alt word_le_nat_alt) simp_all
    with u 1 show ?thesis
      by (simp add: push_data_def push_op_def GetOp2_def push_length_def)
  next
    case 2
    then have "unat (word_of_nat (length b) :: byte) = length b" by (simp add: unat_of_nat)
    with 2 show ?thesis
      by (simp add: push_data_def push_op_def GetOp2_def push_length_def)
  next
    case 3
    then have "le_val (ser_int (word_of_nat (length b) :: u16)) = length b" by (simp add: le_val_len)
    with 3 show ?thesis
      by (simp add: push_data_def push_op_def GetOp2_def push_length_def)
  next
    case 4
    then have "le_val (ser_int (word_of_nat (length b) :: u32)) = length b" using assms by (simp add: le_val_len)
    with 4 show ?thesis
      by (simp add: push_data_def push_op_def GetOp2_def push_length_def)
  qed
qed

lemma push_op_le: "push_op b \<le> 0x4e"
proof (cases "length b < 0x4c")
  case True
  then have "unat (word_of_nat (length b) :: byte) = length b" by (simp add: unat_of_nat)
  with True show ?thesis by (simp only: push_op_def word_le_nat_alt if_True) simp
qed (simp add: push_op_def)

lemma push_data_not_Nil [simp]: "push_data b \<noteq> []"
  by (simp add: push_data_def)

lemma parse_push_data:
  assumes "length b < 2 ^ 32"
  shows "parse (push_data b @ s) = ((push_op b, b, push_data b) # fst (parse s), snd (parse s))"
  using parse_prefix [of "push_data b" "push_op b" b s] GetOp2_push_data [OF assms, of "[]"] by simp

lemma parse_pushes:
  "list_all (\<lambda>b. length b < 2 ^ 32) vs \<Longrightarrow>
   parse (concat (map push_data vs)) = (map (\<lambda>b. (push_op b, b, push_data b)) vs, [])"
  by (induction vs) (simp_all add: parse_push_data)

text \<open>C35: A script built by pushing byte vectors reads back as those operands, and is push-only.\<close>

theorem pushes_roundtrip:
  assumes "list_all (\<lambda>b. length b < 2 ^ 32) vs"
  shows "map ins_arg (fst (parse (foldl push_vch [] vs))) = vs \<and> snd (parse (foldl push_vch [] vs)) = [] \<and>
    IsPushOnly (foldl push_vch [] vs)"
proof -
  have "foldl push_vch s vs = s @ concat (map push_data vs)" for s
    by (induction vs arbitrary: s) (simp_all add: push_vch_def)
  then have f: "foldl push_vch [] vs = concat (map push_data vs)" by simp
  have "push_op b \<le> 0x60" for b
    using push_op_le [of b] by (rule order_trans) simp
  then have "IsPushOnly (foldl push_vch [] vs)"
    by (simp add: IsPushOnly_parse f parse_pushes [OF assms] list_all_iff)
  then show ?thesis
    by (simp add: f parse_pushes [OF assms] comp_def)
qed

theorem pushes_roundtrip_witness:
  "map ins_arg (fst (parse (foldl push_vch [] [[1, 2], [], [3]]))) = [[1, 2], [], [3]]"
  using pushes_roundtrip [of "[[1, 2], [], [3]]"] by simp

section \<open>Canonical pushes\<close>

definition small_number :: "byte list \<Rightarrow> bool" where
  "small_number v = (length v = 1 \<and> v ! 0 \<le> 16)"

text \<open>The pushes the checks want: the bytes \<open>operator<<\<close> builds, and not for a single byte up to 16.\<close>
definition canonical_instr :: "instr \<Rightarrow> bool" where
  "canonical_instr i =
     (OP_PUSHDATA4 < ins_op i \<or> (ins_raw i = push_data (ins_arg i) \<and> \<not> small_number (ins_arg i)))"

lemma HasCanonicalPushes_step:
  assumes g: "GetOp2 s = (True, opcode, v, s')"
  defines "raw \<equiv> take (length s - length s') s"
  shows "HasCanonicalPushes s \<longleftrightarrow> canonical_instr (opcode, v, raw) \<and> HasCanonicalPushes s'"
proof -
  have ne: "s \<noteq> []" using g by auto
  have s: "s = raw @ s'" unfolding raw_def by (rule GetOp2_suffix [OF g])
  show ?thesis
    using g
  proof (cases rule: GetOp2_cases)
    case op
    have "HasCanonicalPushes s \<longleftrightarrow> HasCanonicalPushes s'"
      using ne g op by (subst HasCanonicalPushes.simps) auto
    then show ?thesis using op by (simp add: canonical_instr_def not_le)
  next
    case (push p n q)
    have n: "length v = n" using push by simp
    have q: "q = v @ s'" using push by simp
    have raw: "raw = x" if "s = x @ s'" for x using s that by simp
    have le: "\<not> 0x60 < opcode" "\<not> 0x4e < opcode"
      using push(2) by (auto simp: word_le_nat_alt word_less_nat_alt)
    have step: "HasCanonicalPushes s \<longleftrightarrow>
        \<not> (opcode < 0x4c \<and> 0 < opcode \<and> small_number v) \<and> \<not> (opcode = 0x4c \<and> n < 0x4c) \<and>
        \<not> (opcode = 0x4d \<and> n \<le> 0xff) \<and> \<not> (opcode = 0x4e \<and> n \<le> 0xffff) \<and> HasCanonicalPushes s'"
      using ne g n le by (subst HasCanonicalPushes.simps) (auto simp: small_number_def)
    have can: "canonical_instr (opcode, v, raw) \<longleftrightarrow> raw = push_data v \<and> \<not> small_number v"
      using le by (simp add: canonical_instr_def)
    have small: "small_number v \<Longrightarrow> n = 1" using n by (simp add: small_number_def)
    consider "opcode < 0x4c" | "opcode = 0x4c" | "opcode = 0x4d" | "opcode = 0x4e"
    proof -
      have "unat opcode \<le> 0x4e" using push(2) by (simp add: word_le_nat_alt)
      then have "unat opcode < 0x4c \<or> unat opcode = 0x4c \<or> unat opcode = 0x4d \<or> unat opcode = 0x4e"
        by linarith
      then show thesis
        using that by (auto simp: word_less_nat_alt word_unat_eq_iff)
    qed
    then show ?thesis
    proof cases
      case 1
      then have pl: "n = unat opcode" "q = p" using push(3) by (auto simp: push_length_def)
      then have "raw = opcode # v" using push(1) q by (intro raw) (simp only: append_Cons)
      moreover have "unat opcode < 0x4c" using 1 by (simp add: word_less_nat_alt)
      ultimately have "raw = push_data v" using n pl by (simp add: push_data_def)
      moreover have "0 < opcode \<or> n = 0" using pl by (auto simp: word_neq_0_conv [symmetric])
      ultimately show ?thesis
        using 1 small unfolding step can by auto
    next
      case 2
      then obtain c where pl: "p = c # q" "n = unat c"
        using push(3) by (cases p) (auto simp: push_length_def split: if_splits)
      then have r: "raw = [0x4c, c] @ v" using push(1) q 2 by (intro raw) (simp only: append_Cons append_Nil)
      have "raw = push_data v \<longleftrightarrow> 0x4c \<le> n"
      proof (cases "0x4c \<le> n")
        case True
        moreover have "unat c \<le> 255" using unat_byte_less [of c] by linarith
        ultimately show ?thesis
          using n pl by (simp add: r push_data_def)
      next
        case False
        then show ?thesis using n by (simp add: r push_data_def)
      qed
      then show ?thesis using 2 small unfolding step can by auto
    next
      case 3
      then have pl: "p = take 2 p @ q" "n = le_val (take 2 p)" "length (take 2 p) = 2"
        using push(3) by (auto simp: push_length_def split: if_splits)
      then have r: "raw = 0x4d # take 2 p @ v" using push(1) q 3 by (intro raw) (metis append.assoc append_Cons)
      have b: "n < 65536" using le_val_bound [of "take 2 p"] pl by simp
      have "raw = push_data v \<longleftrightarrow> 0xff < n"
      proof (cases "0xff < n")
        case True
        moreover have "ser_int (word_of_nat n :: u16) = take 2 p"
          using pl b le_bytes_le_val [OF pl(3)] by (simp add: ser_int_def unat_of_nat)
        ultimately show ?thesis
          using n b by (simp add: r push_data_def)
      next
        case False
        then have "length (push_data v) < 3 + n" using n by (auto simp: push_data_def)
        then have "push_data v \<noteq> raw" using pl(3) n by (auto simp: r)
        with False show ?thesis by auto
      qed
      then show ?thesis using 3 small unfolding step can by auto
    next
      case 4
      then have pl: "p = take 4 p @ q" "n = le_val (take 4 p)" "length (take 4 p) = 4"
        using push(3) by (auto simp: push_length_def split: if_splits)
      then have r: "raw = 0x4e # take 4 p @ v" using push(1) q 4 by (intro raw) (metis append.assoc append_Cons)
      have b: "n < 4294967296" using le_val_bound [of "take 4 p"] pl by simp
      have "raw = push_data v \<longleftrightarrow> 0xffff < n"
      proof (cases "0xffff < n")
        case True
        moreover have "ser_int (word_of_nat n :: u32) = take 4 p"
          using pl b le_bytes_le_val [OF pl(3)] by (simp add: ser_int_def unat_of_nat)
        ultimately show ?thesis
          using n b by (simp add: r push_data_def)
      next
        case False
        then have "length (push_data v) < 5 + n" using n by (auto simp: push_data_def)
        then have "push_data v \<noteq> raw" using pl(3) n by (auto simp: r)
        with False show ?thesis by auto
      qed
      then show ?thesis using 4 small unfolding step can by auto
    qed
  qed
qed

lemma HasCanonicalPushes_parse:
  "HasCanonicalPushes s \<longleftrightarrow> snd (parse s) = [] \<and> list_all canonical_instr (fst (parse s))"
proof (induction s rule: measure_induct_rule [of length])
  case (less s)
  obtain f opcode v s' where g: "GetOp2 s = (f, opcode, v, s')" by (cases "GetOp2 s") auto
  show ?case
  proof (cases "s = []")
    case True
    then show ?thesis by (subst HasCanonicalPushes.simps) simp
  next
    case ne: False
    show ?thesis
    proof (cases f)
      case True
      then have g: "GetOp2 s = (True, opcode, v, s')" using g by simp
      show ?thesis
        using HasCanonicalPushes_step [OF g] less [OF GetOp2_shorter [OF g]] by (auto simp: parse_step [OF g])
    next
      case False
      then show ?thesis using ne g by (subst HasCanonicalPushes.simps) (simp add: parse_stop)
    qed
  qed
qed

text \<open>\<open>HasCanonicalPushes\<close> accepts exactly the readable scripts whose pushes are the bytes that
  \<open>operator<<\<close> builds for the operand, none of them a single byte up to 16; \<open>IsPushOnly\<close> exactly
  the readable scripts with no opcode above \<open>OP_16\<close>.\<close>

theorem push_checks_exact:
  "(HasCanonicalPushes s \<longleftrightarrow> snd (parse s) = [] \<and> list_all canonical_instr (fst (parse s))) \<and>
   (IsPushOnly s \<longleftrightarrow> snd (parse s) = [] \<and> list_all (\<lambda>i. ins_op i \<le> OP_16) (fst (parse s)))"
  by (rule conjI [OF HasCanonicalPushes_parse IsPushOnly_parse])

section \<open>Canonical signatures\<close>

text \<open>The content of a DER integer that is not negative and not padded.\<close>
definition der_integer :: "byte list \<Rightarrow> bool" where
  "der_integer R =
     (R \<noteq> [] \<and> \<not> bit (R ! 0) 7 \<and> (1 < length R \<and> R ! 0 = 0 \<longrightarrow> bit (R ! 1) 7))"

definition known_hashtype :: "byte \<Rightarrow> bool" where
  "known_hashtype t = (let n = unat (t AND NOT 0x80) in SIGHASH_ALL \<le> n \<and> n \<le> SIGHASH_SINGLE)"

definition der_signature :: "byte list \<Rightarrow> byte list \<Rightarrow> byte \<Rightarrow> valtype" where
  "der_signature R S t =
     [0x30, word_of_nat (length R + length S + 4), 0x02, word_of_nat (length R)] @ R @
     [0x02, word_of_nat (length S)] @ S @ [t]"

lemma IsCanonicalSignature_conj:
  "IsCanonicalSignature s \<longleftrightarrow>
    9 \<le> length s \<and> length s \<le> 73 \<and> known_hashtype (s ! (length s - 1)) \<and> s ! 0 = 0x30 \<and>
    unat (s ! 1) = length s - 3 \<and> 5 + unat (s ! 3) < length s \<and>
    unat (s ! 3) + unat (s ! (5 + unat (s ! 3))) + 7 = length s \<and> s ! 2 = 0x02 \<and>
    unat (s ! 3) \<noteq> 0 \<and> \<not> bit (s ! 4) 7 \<and> \<not> (1 < unat (s ! 3) \<and> s ! 4 = 0 \<and> \<not> bit (s ! 5) 7) \<and>
    s ! (4 + unat (s ! 3)) = 0x02 \<and> unat (s ! (5 + unat (s ! 3))) \<noteq> 0 \<and> \<not> bit (s ! (6 + unat (s ! 3))) 7 \<and>
    \<not> (1 < unat (s ! (5 + unat (s ! 3))) \<and> s ! (6 + unat (s ! 3)) = 0 \<and> \<not> bit (s ! (7 + unat (s ! 3))) 7)"
proof -
  have b: "x AND 0x80 = 0 \<longleftrightarrow> \<not> bit (x :: byte) 7" for x using and_80 [of x] by blast
  show ?thesis
    unfolding IsCanonicalSignature_def Let_def known_hashtype_def b not_less not_le if_False if_True
    by (simp only: if_bool_eq_conj simp_thms not_less not_le de_Morgan_disj de_Morgan_conj not_not) blast
qed

lemma canonical_parts:
  assumes "length R = unat a3"
  shows "IsCanonicalSignature ([a0, a1, a2, a3] @ R @ [b0, b1] @ S @ [t]) \<longleftrightarrow>
    length R + length S \<le> 66 \<and> known_hashtype t \<and> a0 = 0x30 \<and> unat a1 = length R + length S + 4 \<and>
    a2 = 0x02 \<and> unat b1 = length S \<and> b0 = 0x02 \<and> der_integer R \<and> der_integer S"
proof -
  define s where "s = [a0, a1, a2, a3] @ R @ [b0, b1] @ S @ [t]"
  have z: "length s = length R + length S + 7" by (simp add: s_def)
  have nth: "s ! 0 = a0" "s ! 1 = a1" "s ! 2 = a2" "s ! 3 = a3"
    "s ! (4 + length R) = b0" "s ! (5 + length R) = b1"
    by (simp_all add: s_def nth_append)
  have last: "s ! (length R + length S + 7 - 1) = t"
    by (simp add: s_def nth_append)
  have R: "R \<noteq> [] \<Longrightarrow> s ! 4 = R ! 0" "1 < length R \<Longrightarrow> s ! 5 = R ! 1"
    by (simp_all add: s_def nth_append)
  have S: "S \<noteq> [] \<Longrightarrow> s ! (6 + length R) = S ! 0" "1 < length S \<Longrightarrow> s ! (7 + length R) = S ! 1"
    by (simp_all add: s_def nth_append)
  have c: "IsCanonicalSignature s \<longleftrightarrow>
      length R + length S \<le> 66 \<and> 2 \<le> length R + length S \<and> known_hashtype t \<and> a0 = 0x30 \<and>
      unat a1 = length R + length S + 4 \<and> a2 = 0x02 \<and> unat b1 = length S \<and> b0 = 0x02 \<and>
      R \<noteq> [] \<and> \<not> bit (s ! 4) 7 \<and> \<not> (1 < length R \<and> s ! 4 = 0 \<and> \<not> bit (s ! 5) 7) \<and>
      S \<noteq> [] \<and> \<not> bit (s ! (6 + length R)) 7 \<and>
      \<not> (1 < length S \<and> s ! (6 + length R) = 0 \<and> \<not> bit (s ! (7 + length R)) 7)"
    unfolding IsCanonicalSignature_conj last nth assms [symmetric] z
    by (simp, safe, simp_all)
  show ?thesis
  proof (cases "R \<noteq> [] \<and> S \<noteq> []")
    case True
    then have "2 \<le> length R + length S" by (cases R; cases S) auto
    then show ?thesis
      using True R S unfolding s_def [symmetric] c der_integer_def by auto
  next
    case False
    then show ?thesis unfolding s_def [symmetric] c der_integer_def by blast
  qed
qed

lemma canonical_der:
  assumes "length R + length S \<le> 66"
  shows "IsCanonicalSignature (der_signature R S t) \<longleftrightarrow> known_hashtype t \<and> der_integer R \<and> der_integer S"
proof -
  have u: "unat (word_of_nat (length R) :: byte) = length R" "unat (word_of_nat (length S) :: byte) = length S"
    "unat (word_of_nat (length R + length S + 4) :: byte) = length R + length S + 4"
    using assms by (simp_all only: unat_of_nat) simp_all
  have "IsCanonicalSignature (der_signature R S t) \<longleftrightarrow>
    length R + length S \<le> 66 \<and> known_hashtype t \<and> (0x30 :: byte) = 0x30 \<and>
    unat (word_of_nat (length R + length S + 4) :: byte) = length R + length S + 4 \<and> (0x02 :: byte) = 0x02 \<and>
    unat (word_of_nat (length S) :: byte) = length S \<and> (0x02 :: byte) = 0x02 \<and> der_integer R \<and> der_integer S"
    unfolding der_signature_def by (rule canonical_parts) (simp only: u)
  then show ?thesis using assms by (simp only: u) blast
qed

lemma canonical_decompose:
  assumes "IsCanonicalSignature s"
  shows "\<exists>R S t. s = der_signature R S t \<and> length R + length S \<le> 66"
proof -
  let ?r = "unat (s ! 3)" and ?l = "unat (s ! (5 + unat (s ! 3)))"
  have c: "9 \<le> length s" "length s \<le> 73" "?r + ?l + 7 = length s"
    using assms unfolding IsCanonicalSignature_conj by blast+
  have "Suc (Suc (Suc (Suc 0))) \<le> length s" using c(1) by simp
  then obtain a0 a1 a2 a3 r where s1: "s = a0 # a1 # a2 # a3 # r"
    by (auto simp: Suc_le_length_iff)
  have a3: "unat a3 = ?r" by (simp add: s1)
  have lr: "length r = ?r + ?l + 3" using c(3) by (simp add: s1)
  then obtain R r2 where R: "r = R @ r2" "length R = ?r" using list_split_at [of ?r r] by auto
  have "length r2 = ?l + 3" using lr unfolding R(1) length_append R(2) by linarith
  then have "Suc (Suc 0) \<le> length r2" by linarith
  then obtain b0 b1 r3 where r2: "r2 = b0 # b1 # r3" by (auto simp: Suc_le_length_iff)
  have "length r3 = ?l + 1" using \<open>length r2 = ?l + 3\<close> unfolding r2 list.size by linarith
  then have "r3 = butlast r3 @ [last r3]" "length (butlast r3) = ?l"
    by (cases r3 rule: rev_cases; simp)+
  then obtain S t where S: "r3 = S @ [t]" "length S = ?l" by blast
  have s: "s = [a0, a1, a2, a3] @ R @ [b0, b1] @ S @ [t]"
    by (simp add: s1 R(1) r2 S(1))
  have p: "length R + length S \<le> 66" "a0 = 0x30" "unat a1 = length R + length S + 4" "a2 = 0x02"
      "unat b1 = length S" "b0 = 0x02"
  proof -
    have "length R = unat a3" using R(2) a3 by simp
    from canonical_parts [OF this, of a0 a1 a2 b0 b1 S t]
    have "length R + length S \<le> 66 \<and> a0 = 0x30 \<and> unat a1 = length R + length S + 4 \<and> a2 = 0x02 \<and>
        unat b1 = length S \<and> b0 = 0x02"
      using assms unfolding s by blast
    then show "length R + length S \<le> 66" "a0 = 0x30" "unat a1 = length R + length S + 4" "a2 = 0x02"
      "unat b1 = length S" "b0 = 0x02" by blast+
  qed
  have w: "x = word_of_nat n" if "unat x = n" for x :: byte and n using that by auto
  have "a1 = word_of_nat (length R + length S + 4)" "a3 = word_of_nat (length R)" "b1 = word_of_nat (length S)"
    by (rule w, use p R(2) a3 in simp)+
  then show ?thesis
    using p s unfolding der_signature_def by blast
qed

text \<open>C34: \<open>IsCanonicalSignature\<close> accepts exactly the strict encodings
  \<open>30 len 02 |R| R 02 |S| S hashtype\<close> of at most 73 bytes, with both integers neither negative nor
  padded and a hash type among the three known ones, with or without \<open>SIGHASH_ANYONECANPAY\<close>.\<close>

theorem IsCanonicalSignature_exact:
  "IsCanonicalSignature s \<longleftrightarrow>
    (\<exists>R S t. s = der_signature R S t \<and> length s \<le> 73 \<and> known_hashtype t \<and> der_integer R \<and> der_integer S)"
proof
  assume c: "IsCanonicalSignature s"
  from canonical_decompose [OF this] obtain R S t where
    s: "s = der_signature R S t" "length R + length S \<le> 66" by blast
  then show "\<exists>R S t. s = der_signature R S t \<and> length s \<le> 73 \<and> known_hashtype t \<and> der_integer R \<and> der_integer S"
    using c canonical_der [of R S t] by (intro exI [of _ R] exI [of _ S] exI [of _ t]) (simp add: der_signature_def)
next
  assume "\<exists>R S t. s = der_signature R S t \<and> length s \<le> 73 \<and> known_hashtype t \<and> der_integer R \<and> der_integer S"
  then obtain R S t where s: "s = der_signature R S t" "length s \<le> 73" "known_hashtype t" "der_integer R" "der_integer S"
    by blast
  then have "length R + length S \<le> 66" by (simp add: der_signature_def)
  from canonical_der [OF this] s show "IsCanonicalSignature s" by simp
qed

section \<open>Counting signature operations\<close>

lemma DecodeOP_N_bounds: "0x51 \<le> l \<Longrightarrow> l \<le> 0x60 \<Longrightarrow> 1 \<le> DecodeOP_N l \<and> DecodeOP_N l \<le> 16"
proof -
  assume "0x51 \<le> l" "l \<le> 0x60"
  then have "81 \<le> uint l" "uint l \<le> 96" by (simp_all add: word_le_def)
  moreover from this have "l \<noteq> 0" by auto
  ultimately show ?thesis by (simp add: DecodeOP_N_def)
qed

definition sigops_of :: "bool \<Rightarrow> byte \<Rightarrow> byte \<Rightarrow> nat" where
  "sigops_of acc l opcode =
     (if opcode = OP_CHECKSIG \<or> opcode = OP_CHECKSIGVERIFY then 1
      else if opcode = OP_CHECKMULTISIG \<or> opcode = OP_CHECKMULTISIGVERIFY
      then (if acc \<and> OP_1 \<le> l \<and> l \<le> OP_16 then nat (DecodeOP_N l) else 20) else 0)"

fun sigops_sum :: "bool \<Rightarrow> byte \<Rightarrow> instr list \<Rightarrow> nat" where
  "sigops_sum acc l [] = 0"
| "sigops_sum acc l (i # is) = sigops_of acc l (ins_op i) + sigops_sum acc (ins_op i) is"

lemma sigop_loop_sum:
  "sigop_loop acc n l s = n + word_of_nat (sigops_sum acc l (fst (parse s)))"
proof (induction s arbitrary: n l rule: measure_induct_rule [of length])
  case (less s)
  obtain f opcode v s' where g: "GetOp2 s = (f, opcode, v, s')" by (cases "GetOp2 s") auto
  show ?case
  proof (cases "s = []")
    case True
    then show ?thesis by (subst sigop_loop.simps) simp
  next
    case ne: False
    show ?thesis
    proof (cases f)
      case True
      then have g: "GetOp2 s = (True, opcode, v, s')" using g by simp
      have "(word_of_nat (nat (DecodeOP_N l)) :: u32) = word_of_int (DecodeOP_N l)"
        if "0x51 \<le> l" "l \<le> 0x60"
        using DecodeOP_N_bounds [OF that] by simp
      then have "sigop_loop acc n l s = sigop_loop acc (n + word_of_nat (sigops_of acc l opcode)) opcode s'"
        using ne g by (subst sigop_loop.simps) (auto simp: sigops_of_def)
      then show ?thesis
        using less [OF GetOp2_shorter [OF g]] by (simp add: parse_step [OF g] ac_simps)
    next
      case False
      then show ?thesis using ne g by (subst sigop_loop.simps) (simp add: parse_stop)
    qed
  qed
qed

lemma sigops_sum_le:
  "sigops_sum True l is \<le> sigops_sum False l is \<and> sigops_sum False l is \<le> 20 * length is"
proof (induction "is" arbitrary: l)
  case (Cons i "is")
  have "sigops_of True l (ins_op i) \<le> sigops_of False l (ins_op i)" "sigops_of False l (ins_op i) \<le> 20"
    using DecodeOP_N_bounds [of l] by (auto simp: sigops_of_def)
  with Cons [of "ins_op i"] show ?case by simp
qed simp

lemma length_parse: "length (fst (parse s)) \<le> length s"
proof (induction s rule: measure_induct_rule [of length])
  case (less s)
  obtain f opcode v s' where g: "GetOp2 s = (f, opcode, v, s')" by (cases "GetOp2 s") auto
  show ?case
  proof (cases f)
    case True
    then have g: "GetOp2 s = (True, opcode, v, s')" using g by simp
    show ?thesis
      using less [OF GetOp2_shorter [OF g]] GetOp2_shorter [OF g] by (simp add: parse_step [OF g])
  next
    case False
    then show ?thesis using g by (simp add: parse_stop)
  qed
qed

lemma GetSigOpCount_value:
  assumes "length s < 2 ^ 27"
  shows "unat (GetSigOpCount s acc) = sigops_sum acc OP_INVALIDOPCODE (fst (parse s)) \<and>
    GetSigOpCount s True \<le> GetSigOpCount s False \<and> unat (GetSigOpCount s False) \<le> 20 * length s"
proof -
  let ?n = "\<lambda>acc. sigops_sum acc OP_INVALIDOPCODE (fst (parse s))"
  have b: "?n True \<le> ?n False" "?n False \<le> 20 * length s"
    using sigops_sum_le [of OP_INVALIDOPCODE "fst (parse s)"] length_parse [of s] by auto
  have "?n a < 2 ^ 32" for a
    using b assms by (cases a) auto
  then have "unat (GetSigOpCount s a) = ?n a" for a
    by (simp add: GetSigOpCount_def sigop_loop_sum unat_of_nat)
  with b show ?thesis by (simp add: word_le_nat_alt)
qed

text \<open>The number of signature operations is the sum over the instructions read before the first
  unreadable one; for scripts below \<open>2^27\<close> bytes the accurate count is at most the coarse one, which
  is at most 20 for each byte of the script, so the 32-bit counter cannot wrap.\<close>

theorem GetSigOpCount_sum:
  assumes "length s < 2 ^ 27"
  shows "unat (GetSigOpCount s acc) = sigops_sum acc OP_INVALIDOPCODE (fst (parse s)) \<and>
    GetSigOpCount s True \<le> GetSigOpCount s False \<and> unat (GetSigOpCount s False) \<le> 20 * length s"
  using assms by (rule GetSigOpCount_value)

theorem GetSigOpCount_sum_witness:
  "unat (GetSigOpCount [0x52, 0xae, 0xae, 0xac] True) = 23"
proof -
  have "parse [0x52, 0xae, 0xae, 0xac] =
      ([(0x52, [], [0x52]), (0xae, [], [0xae]), (0xae, [], [0xae]), (0xac, [], [0xac])], [])"
    by code_simp
  then show ?thesis
    using GetSigOpCount_sum [of "[0x52, 0xae, 0xae, 0xac]" True]
    by (simp add: sigops_of_def DecodeOP_N_def word_le_def)
qed

end
