(* ===== verification/Transaction.thy ===== *)
theory Transaction
  imports Fees Script KeyStore
begin

text \<open>
  Transactions (\<open>main.h\<close>, \<open>main.cpp\<close>): outpoints, inputs, outputs, their serialization and hash, equality,
  finality and replacement order, the context-free validity check with the misbehaviour score it
  charges, and the minimum fee.  Scripts are byte strings (\<open>Script\<close>), amounts are \<open>cash\<close> (\<open>Cash\<close>).
\<close>

section \<open>Constants\<close>

abbreviation (input) UINT_MAX :: u32 where "UINT_MAX \<equiv> 0xFFFFFFFF"
definition MAX_BLOCK_SIZE :: u32 where "MAX_BLOCK_SIZE = 1000000"
definition MAX_BLOCK_SIZE_GEN :: u32 where "MAX_BLOCK_SIZE_GEN = MAX_BLOCK_SIZE div 4"
definition DEFAULT_BLOCK_PRIORITY_SIZE :: u32 where "DEFAULT_BLOCK_PRIORITY_SIZE = 17000"
definition DUST_SOFT_LIMIT :: i64 where "DUST_SOFT_LIMIT = 0"
definition LOCKTIME_THRESHOLD :: int where "LOCKTIME_THRESHOLD = 500000000"

section \<open>Outpoints\<close>

record COutPoint =
  op_hash :: uint256
  op_n :: u32

definition op_SetNull :: COutPoint where
  "op_SetNull = \<lparr>op_hash = bu_of64 WIDTH256 0, op_n = UINT_MAX\<rparr>"

definition op_IsNull :: "COutPoint \<Rightarrow> bool" where
  "op_IsNull p = (bu_eq64 (op_hash p) 0 \<and> op_n p = UINT_MAX)"

definition op_lt :: "COutPoint \<Rightarrow> COutPoint \<Rightarrow> bool" where
  "op_lt a b =
     (bu_lt (op_hash a) (op_hash b) \<or> (bu_eq (op_hash a) (op_hash b) \<and> op_n a < op_n b))"

definition op_eq :: "COutPoint \<Rightarrow> COutPoint \<Rightarrow> bool" where
  "op_eq a b = (bu_eq (op_hash a) (op_hash b) \<and> op_n a = op_n b)"

definition op_neq :: "COutPoint \<Rightarrow> COutPoint \<Rightarrow> bool" where
  "op_neq a b = (\<not> op_eq a b)"

text \<open>\<open>FLATDATA\<close>: the memory of the object, the hash and then the index.\<close>
definition ser_outpoint :: "COutPoint \<Rightarrow> byte list" where
  "ser_outpoint p = ser_flat (bu_bytes (op_hash p) @ ser_int (op_n p))"

definition unser_outpoint :: "COutPoint reader" where
  "unser_outpoint =
     rbind (unser_flat 36) (\<lambda>b. rreturn \<lparr>op_hash = bu_of_bytes WIDTH256 (take 32 b),
                                        op_n = word_of_nat (le_val (drop 32 b))\<rparr>)"

definition size_outpoint :: "COutPoint \<Rightarrow> u32" where "size_outpoint p = 36"

section \<open>Inputs and outputs\<close>

record CTxIn =
  prevout :: COutPoint
  scriptSig :: "byte list"
  nSequence :: u32

definition txin_init :: CTxIn where
  "txin_init = \<lparr>prevout = op_SetNull, scriptSig = [], nSequence = UINT_MAX\<rparr>"

definition ser_txin :: "CTxIn \<Rightarrow> byte list" where
  "ser_txin i = ser_outpoint (prevout i) @ ser_vch (scriptSig i) @ ser_int (nSequence i)"

definition unser_txin :: "CTxIn reader" where
  "unser_txin =
     rbind unser_outpoint (\<lambda>p. rbind unser_vch (\<lambda>s. rbind unser_int (\<lambda>n.
       rreturn \<lparr>prevout = p, scriptSig = s, nSequence = n\<rparr>)))"

definition size_txin :: "CTxIn \<Rightarrow> u32" where
  "size_txin i = size_outpoint (prevout i) + size_vch (scriptSig i) + size_int (nSequence i)"

definition txin_IsFinal :: "CTxIn \<Rightarrow> bool" where
  "txin_IsFinal i = (nSequence i = UINT_MAX)"

definition txin_eq :: "CTxIn \<Rightarrow> CTxIn \<Rightarrow> bool" where
  "txin_eq a b =
     (op_eq (prevout a) (prevout b) \<and> scriptSig a = scriptSig b \<and> nSequence a = nSequence b)"

definition txin_neq :: "CTxIn \<Rightarrow> CTxIn \<Rightarrow> bool" where
  "txin_neq a b = (\<not> txin_eq a b)"

text \<open>A circuit name is written as the bytes of its characters; an amount is its map of circuits, and the
  fixed part of the object is not written.\<close>

definition bytes_of_string :: "string \<Rightarrow> byte list" where
  "bytes_of_string s = map (\<lambda>c. word_of_nat (of_char c)) s"

definition string_of_bytes :: "byte list \<Rightarrow> string" where
  "string_of_bytes b = map (\<lambda>x. char_of (unat x)) b"

definition ser_CashName :: "CashName \<Rightarrow> byte list" where
  "ser_CashName s = ser_string (bytes_of_string s)"

definition unser_CashName :: "CashName reader" where
  "unser_CashName = rbind unser_string (\<lambda>b. rreturn (string_of_bytes b))"

definition size_CashName :: "CashName \<Rightarrow> u32" where
  "size_CashName s = size_string (bytes_of_string s)"

definition ser_cash :: "cash \<Rightarrow> byte list" where
  "ser_cash c = ser_map ser_CashName ser_int (local_map c)"

definition unser_cash :: "cash \<Rightarrow> cash reader" where
  "unser_cash this =
     rbind (unser_map unser_CashName unser_int) (\<lambda>m. rreturn (this\<lparr>local_map := m\<rparr>))"

definition size_cash :: "cash \<Rightarrow> u32" where
  "size_cash c = size_map size_CashName size_int (local_map c)"

record CTxOut =
  nValue :: cash
  scriptPubKey :: "byte list"

definition txout_SetNull :: "CTxOut \<Rightarrow> CTxOut" where
  "txout_SetNull out = out\<lparr>nValue := cash_assign_int (nValue out) 0, scriptPubKey := []\<rparr>"

definition txout_init :: CTxOut where
  "txout_init = txout_SetNull \<lparr>nValue = cash_empty, scriptPubKey = []\<rparr>"

definition txout_IsNull :: "CTxOut \<Rightarrow> bool" where
  "txout_IsNull out = (cash_size (nValue out) = 0)"

definition ser_txout :: "CTxOut \<Rightarrow> byte list" where
  "ser_txout out = ser_cash (nValue out) @ ser_vch (scriptPubKey out)"

text \<open>Reading fills an object just constructed.\<close>
definition unser_txout :: "CTxOut reader" where
  "unser_txout =
     rbind (unser_cash (nValue txout_init)) (\<lambda>v. rbind unser_vch (\<lambda>s.
       rreturn \<lparr>nValue = v, scriptPubKey = s\<rparr>))"

definition size_txout :: "CTxOut \<Rightarrow> u32" where
  "size_txout out = size_cash (nValue out) + size_vch (scriptPubKey out)"

definition txout_GetHash :: "('k, 'x) crypto_scheme \<Rightarrow> CTxOut \<Rightarrow> uint256" where
  "txout_GetHash C out = SerializeHash C ser_txout out"

definition txout_eq :: "CTxOut \<Rightarrow> CTxOut \<Rightarrow> bool" where
  "txout_eq a b = (cash_eq (nValue a) (nValue b) \<and> scriptPubKey a = scriptPubKey b)"

definition txout_neq :: "CTxOut \<Rightarrow> CTxOut \<Rightarrow> bool" where
  "txout_neq a b = (\<not> txout_eq a b)"

definition txout_IsDust :: "CTxOut \<Rightarrow> bool" where "txout_IsDust out = False"

section \<open>Transactions\<close>

record CTransaction =
  nVersion :: u32
  vin :: "CTxIn list"
  vout :: "CTxOut list"
  nLockTime :: u32
  Attachments :: "byte list"

abbreviation (input) CURRENT_VERSION :: u32 where "CURRENT_VERSION \<equiv> 2"

definition tx_SetNull :: CTransaction where
  "tx_SetNull = \<lparr>nVersion = CURRENT_VERSION, vin = [], vout = [], nLockTime = 0, Attachments = []\<rparr>"

definition tx_IsNull :: "CTransaction \<Rightarrow> bool" where
  "tx_IsNull tx = (vin tx = [] \<and> vout tx = [])"

definition ser_tx :: "CTransaction \<Rightarrow> byte list" where
  "ser_tx tx =
     ser_int (nVersion tx) @ ser_vector ser_txin (vin tx) @ ser_vector ser_txout (vout tx) @
     ser_int (nLockTime tx) @ ser_vch (Attachments tx)"

text \<open>The sizes of the objects, 64 and 80 bytes, bound how many are allocated at a time.\<close>
definition unser_tx :: "CTransaction reader" where
  "unser_tx =
     rbind unser_int (\<lambda>v. rbind (unser_vector 64 unser_txin) (\<lambda>i. rbind (unser_vector 80 unser_txout) (\<lambda>out.
     rbind unser_int (\<lambda>l. rbind unser_vch (\<lambda>a.
       rreturn \<lparr>nVersion = v, vin = i, vout = out, nLockTime = l, Attachments = a\<rparr>)))))"

definition size_tx :: "CTransaction \<Rightarrow> u32" where
  "size_tx tx =
     size_int (nVersion tx) + size_vector size_txin (vin tx) + size_vector size_txout (vout tx) +
     size_int (nLockTime tx) + size_vch (Attachments tx)"

definition tx_GetHash :: "('k, 'x) crypto_scheme \<Rightarrow> CTransaction \<Rightarrow> uint256" where
  "tx_GetHash C tx = SerializeHash C ser_tx tx"

definition tx_eq :: "CTransaction \<Rightarrow> CTransaction \<Rightarrow> bool" where
  "tx_eq a b =
     (nVersion a = nVersion b \<and> list_all2 txin_eq (vin a) (vin b) \<and>
      list_all2 txout_eq (vout a) (vout b) \<and> nLockTime a = nLockTime b)"

definition tx_neq :: "CTransaction \<Rightarrow> CTransaction \<Rightarrow> bool" where
  "tx_neq a b = (\<not> tx_eq a b)"

text \<open>\<open>nBestHeight\<close> and \<open>GetAdjustedTime()\<close> are arguments.\<close>
definition tx_IsFinal :: "int \<Rightarrow> int \<Rightarrow> CTransaction \<Rightarrow> int \<Rightarrow> int \<Rightarrow> bool" where
  "tx_IsFinal nBestHeight adjustedTime tx nBlockHeight nBlockTime =
     (if nLockTime tx = 0 then True
      else let nBlockHeight = (if nBlockHeight = 0 then nBestHeight else nBlockHeight);
               nBlockTime = (if nBlockTime = 0 then adjustedTime else nBlockTime)
           in if uint (nLockTime tx) <
                   (if uint (nLockTime tx) < LOCKTIME_THRESHOLD then nBlockHeight else nBlockTime)
              then True
              else list_all txin_IsFinal (vin tx))"

fun newer_loop :: "(CTxIn \<times> CTxIn) list \<Rightarrow> u32 \<Rightarrow> bool \<Rightarrow> bool" where
  "newer_loop [] nLowest fNewer = fNewer"
| "newer_loop ((i, oldi) # r) nLowest fNewer =
     (if nSequence i \<noteq> nSequence oldi
      then let (fNewer, nLowest) =
                 (if nSequence i \<le> nLowest then (False, nSequence i) else (fNewer, nLowest));
               (fNewer, nLowest) =
                 (if nSequence oldi < nLowest then (True, nSequence oldi) else (fNewer, nLowest))
           in newer_loop r nLowest fNewer
      else newer_loop r nLowest fNewer)"

definition tx_IsNewerThan :: "CTransaction \<Rightarrow> CTransaction \<Rightarrow> bool" where
  "tx_IsNewerThan tx old =
     (if length (vin tx) \<noteq> length (vin old) then False
      else if list_ex (\<lambda>(i, oldi). op_neq (prevout i) (prevout oldi)) (zip (vin tx) (vin old)) then False
      else newer_loop (zip (vin tx) (vin old)) UINT_MAX False)"

definition tx_IsCoinBase :: "CTransaction \<Rightarrow> bool" where
  "tx_IsCoinBase tx = (length (vin tx) = 1 \<and> op_IsNull (prevout (vin tx ! 0)))"

fun value_out_loop :: "CTxOut list \<Rightarrow> cash \<Rightarrow> string + cash" where
  "value_out_loop [] nValueOut = Inr nValueOut"
| "value_out_loop (txout # r) nValueOut =
     (let nValueOut = cash_plus_assign nValueOut (nValue txout)
      in if \<not> MoneyRange nValueOut then Inl ''CTransaction::GetValueOut() : value out of range''
         else value_out_loop r nValueOut)"

definition tx_GetValueOut :: "CTransaction \<Rightarrow> string + cash" where
  "tx_GetValueOut tx = value_out_loop (vout tx) cash_empty"

definition tx_GetLegacySigOpCount :: "CTransaction \<Rightarrow> u32" where
  "tx_GetLegacySigOpCount tx =
     (let nSigOps = fold (\<lambda>txin n. n + GetSigOpCount (scriptSig txin) False) (vin tx) 0
      in fold (\<lambda>txout n. n + GetSigOpCount (scriptPubKey txout) False) (vout tx) nSigOps)"

section \<open>Validation states\<close>

datatype mode_state = MODE_VALID | MODE_INVALID | MODE_ERROR

record CValidationState =
  vs_mode :: mode_state
  nDoS :: int
  corruptionPossible :: bool

definition vs_init :: CValidationState where
  "vs_init = \<lparr>vs_mode = MODE_VALID, nDoS = 0, corruptionPossible = False\<rparr>"

definition vs_DoS :: "CValidationState \<Rightarrow> int \<Rightarrow> bool \<Rightarrow> bool \<Rightarrow> bool \<times> CValidationState" where
  "vs_DoS st level ret corruptionIn =
     (if vs_mode st = MODE_ERROR then (ret, st)
      else (ret, st\<lparr>nDoS := nDoS st + level, vs_mode := MODE_INVALID, corruptionPossible := corruptionIn\<rparr>))"

definition vs_Invalid :: "CValidationState \<Rightarrow> bool \<Rightarrow> bool \<times> CValidationState" where
  "vs_Invalid st ret = vs_DoS st 0 ret False"

definition vs_Error :: "CValidationState \<Rightarrow> bool \<times> CValidationState" where
  "vs_Error st = (False, st\<lparr>vs_mode := MODE_ERROR\<rparr>)"

definition vs_IsValid :: "CValidationState \<Rightarrow> bool" where "vs_IsValid st = (vs_mode st = MODE_VALID)"
definition vs_IsInvalid :: "CValidationState \<Rightarrow> bool" where "vs_IsInvalid st = (vs_mode st = MODE_INVALID)"
definition vs_IsError :: "CValidationState \<Rightarrow> bool" where "vs_IsError st = (vs_mode st = MODE_ERROR)"

definition vs_IsInvalid_DoS :: "CValidationState \<Rightarrow> int \<Rightarrow> bool \<times> int" where
  "vs_IsInvalid_DoS st nDoSOut = (if vs_IsInvalid st then (True, nDoS st) else (False, nDoSOut))"

section \<open>The context-free check\<close>

fun check_outputs :: "CTxOut list \<Rightarrow> cash \<Rightarrow> CValidationState \<Rightarrow> (bool \<times> CValidationState) option" where
  "check_outputs [] nValueOut st = None"
| "check_outputs (txout # r) nValueOut st =
     (if cash_lt_int (nValue txout) 0 then Some (vs_DoS st 100 False False)
      else if cash_gt_int (nValue txout) MAX_MONEY then Some (vs_DoS st 100 False False)
      else let nValueOut = cash_plus_assign nValueOut (nValue txout)
           in if \<not> MoneyRange nValueOut then Some (vs_DoS st 100 False False)
              else check_outputs r nValueOut st)"

text \<open>The set of outpoints seen so far, as the list of its elements.\<close>
fun check_duplicates :: "CTxIn list \<Rightarrow> COutPoint list \<Rightarrow> CValidationState \<Rightarrow> (bool \<times> CValidationState) option" where
  "check_duplicates [] vInOutPoints st = None"
| "check_duplicates (txin # r) vInOutPoints st =
     (if list_ex (\<lambda>p. \<not> op_lt p (prevout txin) \<and> \<not> op_lt (prevout txin) p) vInOutPoints
      then Some (vs_DoS st 100 False False)
      else check_duplicates r (prevout txin # vInOutPoints) st)"

definition CheckTransaction :: "CTransaction \<Rightarrow> CValidationState \<Rightarrow> bool \<times> CValidationState" where
  "CheckTransaction tx st =
     (if vin tx = [] then vs_DoS st 10 False False
      else if vout tx = [] then vs_DoS st 10 False False
      else if size_tx tx > MAX_BLOCK_SIZE then vs_DoS st 100 False False
      else case check_outputs (vout tx) cash_empty st of Some r \<Rightarrow> r | None \<Rightarrow>
        case check_duplicates (vin tx) [] st of Some r \<Rightarrow> r | None \<Rightarrow>
          if tx_IsCoinBase tx
          then if length (scriptSig (vin tx ! 0)) < 2 \<or> length (scriptSig (vin tx ! 0)) > 100
               then vs_DoS st 100 False False else (True, st)
          else if list_ex (\<lambda>txin. op_IsNull (prevout txin)) (vin tx)
               then vs_DoS st 10 False False else (True, st))"

section \<open>Minimum fee\<close>

datatype GetMinFee_mode = GMF_BLOCK | GMF_RELAY | GMF_SEND

text \<open>\<open>return MAX_MONEY\<close> converts with \<open>Cash(const Amount&)\<close>, while \<open>nMinFee = MAX_MONEY\<close> assigns.\<close>
definition tx_GetMinFee ::
  "cash \<Rightarrow> cash \<Rightarrow> CTransaction \<Rightarrow> u32 \<Rightarrow> bool \<Rightarrow> GetMinFee_mode \<Rightarrow> cash" where
  "tx_GetMinFee nMinTxFee nMinRelayTxFee tx nBlockSize fAllowFree md =
     (let nBaseFee = (if md = GMF_RELAY then nMinRelayTxFee else nMinTxFee);
          nBytes = size_tx tx;
          nNewBlockSize = nBlockSize + nBytes;
          nMinFee = cash_times nBaseFee (1 + ucast nBytes div 1000);
          nMinFee = (if fAllowFree \<and>
                        nBytes < (if md = GMF_SEND then 5000 else DEFAULT_BLOCK_PRIORITY_SIZE - 1000)
                     then cash_assign_int nMinFee 0 else nMinFee);
          nMinFee = fold (\<lambda>txout f. if cash_lt_int (nValue txout) DUST_SOFT_LIMIT
                                    then cash_plus_assign f nBaseFee else f) (vout tx) nMinFee
      in if nBlockSize \<noteq> 1 \<and> nNewBlockSize \<ge> MAX_BLOCK_SIZE_GEN div 2 \<and> nNewBlockSize \<ge> MAX_BLOCK_SIZE_GEN
         then cash_of_amount MAX_MONEY
         else let nMinFee =
                    (if nBlockSize \<noteq> 1 \<and> nNewBlockSize \<ge> MAX_BLOCK_SIZE_GEN div 2
                     then fst (cash_times_assign nMinFee (ucast (MAX_BLOCK_SIZE_GEN div (MAX_BLOCK_SIZE_GEN - nNewBlockSize))))
                     else nMinFee)
              in if \<not> MoneyRange nMinFee then cash_assign_int nMinFee MAX_MONEY else nMinFee)"

section \<open>Codecs\<close>

context codec begin

text \<open>A codec of another type, through conversions.\<close>
lemma converted:
  assumes "\<And>x. ok' x \<Longrightarrow> ok (f x) \<and> g (f x) = x" and "\<And>x. ser' x = ser (f x)"
  shows "codec (rbind get (\<lambda>b. rreturn (g b))) ser' ok'"
proof (intro codec.intro codec_axioms.intro)
  show "stream_reader (rbind get (\<lambda>b. rreturn (g b)))"
    by (intro reader_bind stream_reader_axioms reader_return)
  show "ok' x \<Longrightarrow> rbind get (\<lambda>b. rreturn (g b)) (ser' x @ rest) = Inr (x, rest)" for x rest
    using assms get_ser by (simp add: rbind_def rreturn_def)
qed

end

lemma string_bytes_inverse [simp]: "string_of_bytes (bytes_of_string s) = s"
proof (induction s)
  case (Cons c s)
  have "unat (word_of_nat (of_char c) :: byte) = of_char c"
    by (simp add: unat_of_nat)
  with Cons show ?case by (simp add: string_of_bytes_def bytes_of_string_def)
qed (simp add: string_of_bytes_def bytes_of_string_def)

lemma length_bytes_of_string [simp]: "length (bytes_of_string s) = length s"
  by (simp add: bytes_of_string_def)

abbreviation name_ok :: "CashName \<Rightarrow> bool" where "name_ok s \<equiv> fits_size s"

definition cash_ok :: "cash \<Rightarrow> bool" where
  "cash_ok c \<longleftrightarrow> fixed c = 0 \<and> cash_wf c \<and> fits_size (local_map c) \<and> list_all (\<lambda>e. name_ok (fst e)) (local_map c)"

definition outpoint_ok :: "COutPoint \<Rightarrow> bool" where
  "outpoint_ok p \<longleftrightarrow> length (op_hash p) = WIDTH256"

definition txin_ok :: "CTxIn \<Rightarrow> bool" where
  "txin_ok i \<longleftrightarrow> outpoint_ok (prevout i) \<and> fits_size (scriptSig i)"

definition txout_ok :: "CTxOut \<Rightarrow> bool" where
  "txout_ok out \<longleftrightarrow> cash_ok (nValue out) \<and> fits_size (scriptPubKey out)"

text \<open>A transaction as the program holds it: full-width hashes, sorted amounts without a fixed part, and
  no container above the limit of the reader.\<close>
definition tx_ok :: "CTransaction \<Rightarrow> bool" where
  "tx_ok tx \<longleftrightarrow> fits_size (vin tx) \<and> list_all txin_ok (vin tx) \<and> fits_size (vout tx) \<and>
     list_all txout_ok (vout tx) \<and> fits_size (Attachments tx)"

interpretation CashName: codec unser_CashName ser_CashName name_ok
  unfolding unser_CashName_def
  by (rule string_codec.converted [where f = bytes_of_string]) (simp_all add: ser_CashName_def)

lemma cash_map_codec:
  "codec (unser_map unser_CashName unser_int) (ser_map ser_CashName ser_int)
     (\<lambda>m :: CashStruct. fits_size m \<and> om_wf m \<and> list_all (\<lambda>e. name_ok (fst e) \<and> 8 dvd LENGTH(64)) m)"
  by (rule map_codec [OF CashName.codec_axioms int_codec.codec_axioms])

lemma bu_of_bytes_8: "length h = 8 \<Longrightarrow> bu_of_bytes 8 (bu_bytes h) = h"
  using bu_of_bytes_bu_bytes [of h] by simp

interpretation outpoint: codec unser_outpoint ser_outpoint outpoint_ok
proof (intro codec.intro codec_axioms.intro)
  show "stream_reader unser_outpoint"
    unfolding unser_outpoint_def unser_flat_def by (intro reader_bind) auto
  show "outpoint_ok p \<Longrightarrow> unser_outpoint (ser_outpoint p @ rest) = Inr (p, rest)" for p rest
    by (simp add: unser_outpoint_def unser_flat_def ser_outpoint_def ser_flat_def rbind_def rreturn_def
        read_bytes_def outpoint_ok_def le_val_ser_int bu_of_bytes_8)
qed

interpretation txin: codec unser_txin ser_txin txin_ok
proof (intro codec.intro codec_axioms.intro)
  show "stream_reader unser_txin"
    unfolding unser_txin_def by (intro reader_bind outpoint.stream_reader_axioms) auto
  show "txin_ok i \<Longrightarrow> unser_txin (ser_txin i @ rest) = Inr (i, rest)" for i rest
    by (simp add: unser_txin_def ser_txin_def rbind_def rreturn_def outpoint.get_ser unser_ser_vch
        unser_ser_int txin_ok_def)
qed

interpretation txout: codec unser_txout ser_txout txout_ok
proof (intro codec.intro codec_axioms.intro)
  show "stream_reader unser_txout"
    unfolding unser_txout_def unser_cash_def
    by (intro reader_bind codec.axioms(1) [OF cash_map_codec]) auto
  fix out rest assume "txout_ok out"
  then show "unser_txout (ser_txout out @ rest) = Inr (out, rest)"
    using codec.get_ser [OF cash_map_codec, of "local_map (nValue out)" "ser_vch (scriptPubKey out) @ rest"]
    by (simp add: unser_txout_def ser_txout_def unser_cash_def ser_cash_def rbind_def rreturn_def
        unser_ser_vch txout_ok_def cash_ok_def cash_wf_def txout_init_def txout_SetNull_def
        cash_assign_int_def cash_empty_def)
qed

interpretation tx: codec unser_tx ser_tx tx_ok
proof (intro codec.intro codec_axioms.intro)
  note vi = txin.vector_codec [of 64] and vo = txout.vector_codec [of 80]
  show "stream_reader unser_tx"
    unfolding unser_tx_def
    by (intro reader_bind codec.axioms(1) [OF vi] codec.axioms(1) [OF vo]) auto
  show "tx_ok tx \<Longrightarrow> unser_tx (ser_tx tx @ rest) = Inr (tx, rest)" for tx rest
    by (simp add: unser_tx_def ser_tx_def rbind_def rreturn_def codec.get_ser [OF vi] codec.get_ser [OF vo]
        unser_ser_vch unser_ser_int tx_ok_def)
qed

section \<open>Sizes\<close>

lemma size_vector_ok:
  assumes "\<And>x. ok x \<Longrightarrow> size1 x = word_of_nat (length (ser x))" and "list_all ok v"
  shows "size_vector size1 v = word_of_nat (length (ser_vector ser v))"
proof -
  have "list_all ok v \<Longrightarrow> foldl (\<lambda>n x. n + size1 x) c v = c + word_of_nat (length (concat (map ser v)))" for c
    by (induction v arbitrary: c) (simp_all add: assms(1))
  then show ?thesis
    using assms(2) by (simp add: size_vector_def size_list_as_def ser_vector_def size_compact)
qed

interpretation CashName_sized: sized_writer ser_CashName size_CashName
  by unfold_locales (simp only: size_CashName_def ser_CashName_def string_sized.size_ser)

interpretation cash_sized: sized_writer ser_cash size_cash
proof -
  have "sized_writer (ser_map ser_CashName (ser_int :: i64 \<Rightarrow> _)) (size_map size_CashName size_int)"
    by (rule map_sized [OF CashName_sized.sized_writer_axioms int_sized.sized_writer_axioms])
  then show "sized_writer ser_cash size_cash"
    by (simp add: sized_writer_def ser_cash_def size_cash_def)
qed

interpretation txout_sized: sized_writer ser_txout size_txout
  by unfold_locales (simp add: size_txout_def ser_txout_def cash_sized.size_ser vch_sized.size_ser)

lemma size_txin_ser: "txin_ok i \<Longrightarrow> size_txin i = word_of_nat (length (ser_txin i))"
  by (simp add: size_txin_def ser_txin_def size_outpoint_def ser_outpoint_def ser_flat_def txin_ok_def
      outpoint_ok_def vch_sized.size_ser int_sized.size_ser)

lemma size_tx_ser: "tx_ok tx \<Longrightarrow> size_tx tx = word_of_nat (length (ser_tx tx))"
  using size_vector_ok [of txin_ok size_txin ser_txin "vin tx", OF size_txin_ser] sized_writer.size_ser [OF txout_sized.vector_sized, of "vout tx"]
  by (simp add: size_tx_def ser_tx_def tx_ok_def vch_sized.size_ser int_sized.size_ser)

text \<open>C27: A transaction reads back as written, whatever follows it in the stream; a transaction cut short is an error;
  distinct transactions have distinct codes, so only a collision of the digests gives them one hash; the announced size is the
  length of the code.\<close>

theorem tx_roundtrip:
  assumes "tx_ok tx" and "tx_ok tx'"
  shows "unser_tx (ser_tx tx @ rest) = Inr (tx, rest)
    \<and> (k < length (ser_tx tx) \<longrightarrow> (\<exists>e. unser_tx (take k (ser_tx tx)) = Inl e))
    \<and> (ser_tx tx = ser_tx tx' \<longrightarrow> tx = tx')
    \<and> (tx_GetHash C tx = tx_GetHash C tx' \<longleftrightarrow> Hash C (ser_tx tx) = Hash C (ser_tx tx'))
    \<and> size_tx tx = word_of_nat (length (ser_tx tx))"
proof (intro conjI impI)
  show "unser_tx (ser_tx tx @ rest) = Inr (tx, rest)" by (rule tx.get_ser [OF assms(1)])
  show "\<exists>e. unser_tx (take k (ser_tx tx)) = Inl e" if "k < length (ser_tx tx)"
    by (rule tx.truncated [OF assms(1) that])
  show "tx = tx'" if "ser_tx tx = ser_tx tx'"
    using tx.ser_prefix_free [OF assms, of "[]" "[]"] that by simp
  show "tx_GetHash C tx = tx_GetHash C tx' \<longleftrightarrow> Hash C (ser_tx tx) = Hash C (ser_tx tx')"
    by (simp add: tx_GetHash_def SerializeHash_def hw_GetHash_def hw_write_def hw_init_def Hash_def Let_def)
  show "size_tx tx = word_of_nat (length (ser_tx tx))" by (rule size_tx_ser [OF assms(1)])
qed

abbreviation (input) example_tx :: "byte list \<Rightarrow> CTransaction" where
  "example_tx att \<equiv>
     \<lparr>nVersion = 2,
      vin = [\<lparr>prevout = \<lparr>op_hash = [1, 2, 3, 4, 5, 6, 7, 8], op_n = 1\<rparr>, scriptSig = [0x51], nSequence = 0xFFFFFFFF\<rparr>],
      vout = [\<lparr>nValue = \<lparr>local_map = [(''EUR'', 500), (''TET'', 7)], fixed = 0\<rparr>, scriptPubKey = [0x76, 0xA9]\<rparr>],
      nLockTime = 0, Attachments = att\<rparr>"

lemma example_tx_ok: "tx_ok (example_tx [a])"
  by (simp add: tx_ok_def txin_ok_def outpoint_ok_def txout_ok_def cash_ok_def cash_wf_def) code_simp?

theorem tx_roundtrip_witness:
  "unser_tx (ser_tx (example_tx [9]) @ [1, 2]) = Inr (example_tx [9], [1, 2]) \<and>
   size_tx (example_tx [9]) = word_of_nat (length (ser_tx (example_tx [9]))) \<and>
   ser_tx (example_tx [9]) \<noteq> ser_tx (example_tx [8])"
  using tx_roundtrip [OF example_tx_ok example_tx_ok, of 9 "[1, 2]" 0 8] by auto

text \<open>Equality looks neither at the attachments, which the hash covers, nor at amounts except circuit by circuit
  (\<open>Cash.cash_order_exact\<close>).\<close>
lemma tx_eq_ignores_attachments:
  "tx_eq (example_tx [9]) (example_tx [8]) \<and> ser_tx (example_tx [9]) \<noteq> ser_tx (example_tx [8])"
  using tx.ser_prefix_free [OF example_tx_ok example_tx_ok, of 9 "[]" 8 "[]"]
  by (auto simp: tx_eq_def txin_eq_def txout_eq_def op_eq_def cash_eq_def cash_lt_def cash_gt_def i64_le_def
      cash_size_def getLocal_def)

section \<open>The context-free check\<close>

text \<open>The amounts of one output: every circuit between nothing and \<open>MAX_MONEY\<close>.\<close>
definition output_in_range :: "cash \<Rightarrow> bool" where
  "output_in_range c \<longleftrightarrow> (\<forall>(k, v)\<in>set (local_map c). 0 \<le> sint v \<and> sint v \<le> 1840000000000)"

text \<open>What the check of the running total comes to: some circuit is not above \<open>MAX_MONEY\<close>.\<close>
definition total_in_range :: "cash \<Rightarrow> bool" where
  "total_in_range c \<longleftrightarrow> local_map c = [] \<or> (\<exists>(k, v)\<in>set (local_map c). sint v \<le> 1840000000000)"

lemma output_range_iff:
  assumes "fixed c = 0"
  shows "\<not> cash_lt_int c 0 \<and> \<not> cash_gt_int c MAX_MONEY \<longleftrightarrow> output_in_range c"
proof -
  have mm: "sint MAX_MONEY = 1840000000000"
    by (simp add: MAX_MONEY_def COIN_def)
  have gt: "\<not> cash_gt_int c MAX_MONEY \<longleftrightarrow> (\<forall>(k, v)\<in>set (local_map c). sint v \<le> 1840000000000)"
    unfolding cash_gt_int_def i64_not_less i64_le_def sint_Cash_Max mm
    by (subst Max_le_iff) (auto simp: assms)
  have lt: "\<not> cash_lt_int c 0 \<longleftrightarrow> (\<forall>(k, v)\<in>set (local_map c). 0 \<le> sint v)"
  proof (cases "local_map c")
    case Nil
    then show ?thesis by (simp add: cash_lt_int_def i64_le_def Cash_Min_def assms)
  next
    case (Cons e it)
    then show ?thesis
      by (cases e; cases it)
        (auto simp: cash_lt_int_def i64_le_def Cash_Min_def assms sint_min_loop split_beta)
  qed
  show ?thesis using gt lt by (auto simp: output_in_range_def)
qed

lemma total_range_iff: "fixed c = 0 \<Longrightarrow> MoneyRange c \<longleftrightarrow> total_in_range c"
  by (auto simp: MoneyRange_cases total_in_range_def list_ex_iff split_beta split: list.split)

lemma fixed_plus_assign: "fixed c = 0 \<Longrightarrow> fixed d = 0 \<Longrightarrow> fixed (cash_plus_assign c d) = 0"
  by (simp add: cash_plus_assign_def Let_def)

text \<open>The sum of the first outputs.\<close>
definition total_out :: "CTxOut list \<Rightarrow> cash \<Rightarrow> cash" where
  "total_out outs c = foldl cash_plus_assign c (map nValue outs)"

lemma check_outputs_iff:
  assumes "fixed c = 0" and "list_all (\<lambda>out. fixed (nValue out) = 0) outs"
  shows "check_outputs outs c st =
    (if (\<forall>out\<in>set outs. output_in_range (nValue out)) \<and>
        (\<forall>k<length outs. total_in_range (total_out (take (Suc k) outs) c))
     then None else Some (vs_DoS st 100 False False))"
  using assms
proof (induction outs arbitrary: c)
  case (Cons out outs)
  define c' where "c' = cash_plus_assign c (nValue out)"
  have f: "fixed c' = 0" "fixed (nValue out) = 0"
    using Cons.prems by (simp_all add: c'_def fixed_plus_assign)
  have tot: "(\<forall>k<length (out # outs). total_in_range (total_out (take (Suc k) (out # outs)) c)) \<longleftrightarrow>
      total_in_range c' \<and> (\<forall>k<length outs. total_in_range (total_out (take (Suc k) outs) c'))"
    by (simp only: length_Cons All_less_Suc2) (simp add: total_out_def c'_def)
  have "check_outputs (out # outs) c st =
      (if output_in_range (nValue out) \<and> total_in_range c' then check_outputs outs c' st
       else Some (vs_DoS st 100 False False))"
    using output_range_iff [OF f(2)] total_range_iff [OF f(1)]
    by (auto simp: c'_def Let_def)
  then show ?case
    using Cons.IH [OF f(1)] Cons.prems(2) unfolding tot by auto
qed simp

lemma op_lt_total:
  assumes "outpoint_ok p" and "outpoint_ok q"
  shows "\<not> op_lt p q \<and> \<not> op_lt q p \<longleftrightarrow> p = q"
proof -
  have "length (op_hash p) = length (op_hash q)" using assms by (simp add: outpoint_ok_def)
  then show ?thesis
    by (auto simp: op_lt_def bu_lt_iff bu_eq_iff uval_inject intro: COutPoint.equality)
qed

lemma check_duplicates_iff:
  assumes "list_all txin_ok ins" and "list_all outpoint_ok seen"
  shows "check_duplicates ins seen st =
    (if distinct (map prevout ins) \<and> set (map prevout ins) \<inter> set seen = {} then None
     else Some (vs_DoS st 100 False False))"
  using assms
proof (induction ins arbitrary: seen)
  case (Cons i ins)
  then have "list_ex (\<lambda>p. \<not> op_lt p (prevout i) \<and> \<not> op_lt (prevout i) p) seen \<longleftrightarrow> prevout i \<in> set seen"
    using op_lt_total by (auto simp: list_ex_iff list_all_iff txin_ok_def)
  with Cons show ?case by (auto simp: txin_ok_def)
qed simp

lemma op_IsNull_iff:
  assumes "outpoint_ok p"
  shows "op_IsNull p \<longleftrightarrow> p = op_SetNull"
proof -
  obtain a b c d e f g h where "op_hash p = [a, b, c, d, e, f, g, h]"
    using assms by (auto simp: outpoint_ok_def numeral_eq_Suc length_Suc_conv)
  then show ?thesis
    by (cases p) (auto simp: op_IsNull_def op_SetNull_def bu_eq64_def bu_of64_def lo32_def hi32_def
        bu_is_zero.simps numeral_eq_Suc)
qed

definition tx_in_bounds :: "CTransaction \<Rightarrow> bool" where
  "tx_in_bounds tx \<longleftrightarrow>
     size_tx tx \<le> 1000000 \<and>
     (\<forall>out\<in>set (vout tx). output_in_range (nValue out)) \<and>
     (\<forall>k<length (vout tx). total_in_range (total_out (take (Suc k) (vout tx)) cash_empty)) \<and>
     distinct (map prevout (vin tx))"

lemma CheckTransaction_cases:
  assumes "tx_ok tx"
  shows "CheckTransaction tx st =
    (if vin tx = [] \<or> vout tx = [] then vs_DoS st 10 False False
     else if \<not> tx_in_bounds tx then vs_DoS st 100 False False
     else if map prevout (vin tx) = [op_SetNull] then
       (if 2 \<le> length (scriptSig (hd (vin tx))) \<and> length (scriptSig (hd (vin tx))) \<le> 100 then (True, st)
        else vs_DoS st 100 False False)
     else if op_SetNull \<in> set (map prevout (vin tx)) then vs_DoS st 10 False False
     else (True, st))"
proof -
  have ok: "list_all txin_ok (vin tx)" and fx: "list_all (\<lambda>out. fixed (nValue out) = 0) (vout tx)"
    using assms by (auto simp: tx_ok_def txout_ok_def cash_ok_def list_all_iff)
  have null: "op_IsNull (prevout i) \<longleftrightarrow> prevout i = op_SetNull" if "i \<in> set (vin tx)" for i
    using that ok by (intro op_IsNull_iff) (auto simp: txin_ok_def list_all_iff)
  have cb: "tx_IsCoinBase tx \<longleftrightarrow> map prevout (vin tx) = [op_SetNull]"
    using null by (cases "vin tx") (auto simp: tx_IsCoinBase_def)
  have nulls: "list_ex (\<lambda>txin. op_IsNull (prevout txin)) (vin tx) \<longleftrightarrow> op_SetNull \<in> set (map prevout (vin tx))"
    using null by (force simp: list_ex_iff image_iff)
  have out: "check_outputs (vout tx) cash_empty st =
      (if (\<forall>out\<in>set (vout tx). output_in_range (nValue out)) \<and>
          (\<forall>k<length (vout tx). total_in_range (total_out (take (Suc k) (vout tx)) cash_empty))
       then None else Some (vs_DoS st 100 False False))"
    using fx by (intro check_outputs_iff) (simp_all add: cash_empty_def)
  have dup: "check_duplicates (vin tx) [] st =
      (if distinct (map prevout (vin tx)) then None else Some (vs_DoS st 100 False False))"
    using check_duplicates_iff [OF ok, of "[]" st] by simp
  have size: "size_tx tx > MAX_BLOCK_SIZE \<longleftrightarrow> \<not> size_tx tx \<le> 1000000"
    by (simp add: MAX_BLOCK_SIZE_def not_le)
  show ?thesis
    unfolding CheckTransaction_def out dup nulls cb size tx_in_bounds_def
    by (cases "vin tx") auto
qed

text \<open>C16: The context-free check accepts exactly the transactions that have inputs and outputs, fit a block, give every
  circuit of every output an amount from 0 to \<open>MAX_MONEY\<close> while the running totals keep at least one circuit not above it,
  spend no outpoint twice, and are either a coinbase with a script of 2 to 100 bytes or spend no null outpoint.  A rejection
  charges 10 for missing inputs or outputs and for a null outpoint, 100 otherwise; an acceptance leaves the validation state as
  it was.\<close>

theorem CheckTransaction_exact:
  assumes "tx_ok tx"
  shows "CheckTransaction tx st =
    (if vin tx = [] \<or> vout tx = [] then vs_DoS st 10 False False
     else if \<not> tx_in_bounds tx then vs_DoS st 100 False False
     else if map prevout (vin tx) = [op_SetNull] then
       (if 2 \<le> length (scriptSig (hd (vin tx))) \<and> length (scriptSig (hd (vin tx))) \<le> 100 then (True, st)
        else vs_DoS st 100 False False)
     else if op_SetNull \<in> set (map prevout (vin tx)) then vs_DoS st 10 False False
     else (True, st))"
  using assms by (rule CheckTransaction_cases)

text \<open>Two circuits in every output, so that the first total can pass \<open>MAX_MONEY\<close>: the sum is accepted.\<close>
abbreviation (input) overflow_out :: CTxOut where
  "overflow_out \<equiv> \<lparr>nValue = \<lparr>local_map = [(''EUR'', 1840000000000), (''TET'', 0)], fixed = 0\<rparr>, scriptPubKey = []\<rparr>"

abbreviation (input) overflow_tx :: CTransaction where
  "overflow_tx \<equiv> (example_tx [])\<lparr>vout := [overflow_out, overflow_out]\<rparr>"

lemma overflow_total:
  "total_out [overflow_out] cash_empty = \<lparr>local_map = [(''EUR'', 1840000000000), (''TET'', 0)], fixed = 0\<rparr>"
  "total_out [overflow_out, overflow_out] cash_empty =
     \<lparr>local_map = [(''EUR'', 3680000000000), (''TET'', 0)], fixed = 0\<rparr>"
  by (simp_all add: total_out_def cash_plus_assign_def getLocal_def cash_empty_def at_def)

lemma overflow_size: "size_tx overflow_tx = 105"
proof -
  have "size_CashName ''EUR'' = 4" "size_CashName ''TET'' = 4"
    by (simp_all add: size_CashName_def  size_string_def GetSizeOfCompactSize_def)
  then have "size_txout overflow_out = 26"
    by (simp add: size_txout_def size_int_def size_vch_def size_cash_def size_map_def size_pair_def
        size_list_as_def GetSizeOfCompactSize_def)
  then show ?thesis
    by (simp add: size_tx_def size_vector_def size_list_as_def size_txin_def size_outpoint_def size_int_def
        size_vch_def GetSizeOfCompactSize_def)
qed

theorem CheckTransaction_exact_witness:
  "CheckTransaction overflow_tx vs_init = (True, vs_init) \<and>
   total_out (vout overflow_tx) cash_empty = \<lparr>local_map = [(''EUR'', 3680000000000), (''TET'', 0)], fixed = 0\<rparr>"
proof -
  have "tx_ok overflow_tx"
    by (simp add: tx_ok_def txin_ok_def outpoint_ok_def txout_ok_def cash_ok_def cash_wf_def)
  moreover have "tx_in_bounds overflow_tx"
    unfolding tx_in_bounds_def overflow_size
    by (simp add: output_in_range_def All_less_Suc2 overflow_total total_in_range_def)
  ultimately show ?thesis
    using CheckTransaction_exact [of overflow_tx vs_init]
    by (simp add: overflow_total op_SetNull_def)
qed

section \<open>Replacement order\<close>

text \<open>The lower of two sequence numbers decides; on a tie the old transaction stays.\<close>

lemma newer_step:
  fixes x y l :: "'a::linorder"
  assumes mono: "\<And>b c. b < c \<Longrightarrow> P c \<Longrightarrow> P b"
    and 1: "(f1, l1) = (if x \<le> l then (False, x) else (f, l))"
    and 2: "(f2, l2) = (if y < l1 then (True, y) else (f1, l1))"
  shows "(f2 \<and> P l2) \<or> (\<exists>b\<in>B. b < l2 \<and> P b) \<longleftrightarrow>
    (f \<and> l < x \<and> P l) \<or> (y < l \<and> y < x \<and> P y) \<or> (\<exists>b\<in>B. b < l \<and> b < x \<and> P b)"
proof -
  have low: "P y \<or> (\<exists>b\<in>B. b < y \<and> P b) \<longleftrightarrow> P y \<or> (\<exists>b\<in>B. b < u \<and> P b)" if "y < u" for u
    using that mono by (metis linorder_neqE order.strict_trans)
  consider "x \<le> l" "y < x" | "x \<le> l" "x \<le> y" | "l < x" "y < l" | "l < x" "l \<le> y"
    by (meson linorder_not_le)
  then show ?thesis
  proof cases
    case 1
    then have "f2" "l2 = y" "y < l" using assms(2,3) by auto
    moreover have "b < l \<and> b < x \<and> P b \<longleftrightarrow> b < x \<and> P b" for b using 1(1) by auto
    ultimately show ?thesis using low [OF 1(2)] 1 by (simp add: leD)
  next
    case 2
    then have "\<not> y < x" by simp
    then have "\<not> f2" "l2 = x" using assms(2,3) 2(1) by auto
    moreover have "b < l \<and> b < x \<and> P b \<longleftrightarrow> b < x \<and> P b" for b using 2(1) by auto
    ultimately show ?thesis using 2 by (simp add: leD)
  next
    case 3
    then have "\<not> x \<le> l" "y < x" by auto
    then have "f2" "l2 = y" "y < x" using assms(2,3) 3(2) by auto
    moreover have "b < l \<and> b < x \<and> P b \<longleftrightarrow> b < l \<and> P b" for b using 3(1) by auto
    moreover have "P l \<Longrightarrow> P y" using mono 3(2) by blast
    ultimately show ?thesis using low [OF 3(2)] 3 by auto
  next
    case 4
    then have "\<not> y < l" "\<not> x \<le> l" by simp_all
    then have "f2 = f" "l2 = l" using assms(2,3) by auto
    moreover have "b < l \<and> b < x \<and> P b \<longleftrightarrow> b < l \<and> P b" for b using 4(1) by auto
    ultimately show ?thesis using 4 by (simp add: leD)
  qed
qed

lemma newer_loop_iff:
  "newer_loop ps nLowest fNewer \<longleftrightarrow>
     (let ds = filter (\<lambda>(i, j). nSequence i \<noteq> nSequence j) ps;
          a = map (nSequence \<circ> fst) ds; b = map (nSequence \<circ> snd) ds
      in (fNewer \<and> (\<forall>x\<in>set a. nLowest < x)) \<or>
         (\<exists>y\<in>set b. y < nLowest \<and> (\<forall>x\<in>set a. y < x)))"
proof (induction ps arbitrary: nLowest fNewer)
  case (Cons p ps)
  obtain i j where p: "p = (i, j)" by (cases p)
  show ?case
  proof (cases "nSequence i = nSequence j")
    case True
    then show ?thesis using Cons.IH by (simp add: p)
  next
    case False
    obtain f1 l1 where 1: "(f1, l1) = (if nSequence i \<le> nLowest then (False, nSequence i) else (fNewer, nLowest))"
      by (metis surj_pair)
    obtain f2 l2 where 2: "(f2, l2) = (if nSequence j < l1 then (True, nSequence j) else (f1, l1))"
      by (metis surj_pair)
    let ?ds = "filter (\<lambda>(i, j). nSequence i \<noteq> nSequence j) ps"
    let ?P = "\<lambda>b. \<forall>a\<in>nSequence ` fst ` set ?ds. b < a"
    let ?B = "nSequence ` snd ` set ?ds"
    have "newer_loop (p # ps) nLowest fNewer = newer_loop ps l2 f2"
      using False unfolding p newer_loop.simps 1 [symmetric] by (simp add: 2 [symmetric])
    also have "\<dots> \<longleftrightarrow> (f2 \<and> ?P l2) \<or> (\<exists>b\<in>?B. b < l2 \<and> ?P b)"
      unfolding Cons.IH by (simp add: image_comp Let_def)
    also have "\<dots> \<longleftrightarrow> (fNewer \<and> nLowest < nSequence i \<and> ?P nLowest) \<or>
        (nSequence j < nLowest \<and> nSequence j < nSequence i \<and> ?P (nSequence j)) \<or>
        (\<exists>b\<in>?B. b < nLowest \<and> b < nSequence i \<and> ?P b)"
      by (rule newer_step [OF _ 1 2]) auto
    finally show ?thesis
      using False by (simp add: p image_comp Let_def)
  qed
qed simp

text \<open>The sequence numbers of the inputs in which two transactions differ.\<close>
definition changed :: "CTransaction \<Rightarrow> CTransaction \<Rightarrow> (u32 \<times> u32) list" where
  "changed tx old = filter (\<lambda>(a, b). a \<noteq> b) (zip (map nSequence (vin tx)) (map nSequence (vin old)))"

lemma changed_eq:
  "changed tx old =
     map (\<lambda>(i, j). (nSequence i, nSequence j)) (filter (\<lambda>(i, j). nSequence i \<noteq> nSequence j) (zip (vin tx) (vin old)))"
  by (simp add: changed_def zip_map_map filter_map o_def case_prod_unfold)

lemma op_neq_iff: "outpoint_ok p \<Longrightarrow> outpoint_ok q \<Longrightarrow> op_neq p q \<longleftrightarrow> p \<noteq> q"
  by (auto simp: op_neq_def op_eq_def outpoint_ok_def bu_eq_iff)

lemma prevouts_differ:
  "length is = length js \<Longrightarrow> list_all txin_ok is \<Longrightarrow> list_all txin_ok js \<Longrightarrow>
   list_ex (\<lambda>(i, j). op_neq (prevout i) (prevout j)) (zip is js) \<longleftrightarrow> map prevout is \<noteq> map prevout js"
  by (induction "is" js rule: list_induct2) (auto simp: op_neq_iff txin_ok_def)

lemma IsNewerThan_iff:
  assumes "tx_ok tx" and "tx_ok old"
  shows "tx_IsNewerThan tx old \<longleftrightarrow>
     map prevout (vin tx) = map prevout (vin old) \<and>
     (\<exists>y\<in>set (map snd (changed tx old)). \<forall>x\<in>set (map fst (changed tx old)). y < x)"
proof (cases "length (vin tx) = length (vin old)")
  case True
  let ?z = "zip (vin tx) (vin old)"
  have loop: "newer_loop ?z UINT_MAX False \<longleftrightarrow>
      (\<exists>y\<in>set (map snd (changed tx old)). y < UINT_MAX \<and> (\<forall>x\<in>set (map fst (changed tx old)). y < x))"
    unfolding newer_loop_iff changed_eq by (simp add: Let_def o_def split_beta image_comp)
  have top: "y < UINT_MAX" if y: "y \<in> set (map snd (changed tx old))" and least: "\<forall>x\<in>set (map fst (changed tx old)). y < x" for y
  proof -
    obtain p where p: "p \<in> set (changed tx old)" "y = snd p" using y unfolding set_map by blast
    define x where "x = fst p"
    have "x \<in> set (map fst (changed tx old))" using p(1) by (simp add: x_def)
    then have "y < x" using least by blast
    also have "x \<le> UINT_MAX"
    proof -
      have top: "UINT_MAX = - 1" by simp
      show ?thesis unfolding top by (rule word_n1_ge)
    qed
    finally show ?thesis .
  qed
  show ?thesis
    using True prevouts_differ [OF True] assms loop top
    unfolding tx_IsNewerThan_def tx_ok_def by metis
next
  case False
  then show ?thesis by (auto simp: tx_IsNewerThan_def dest: map_eq_imp_length_eq)
qed

text \<open>A transaction is newer than another exactly when it spends the same outpoints in the same order and, among the
  inputs whose sequence numbers differ, the other one has the strictly lowest number; so no two transactions are newer
  than each other and none is newer than itself.\<close>

theorem IsNewerThan_exact:
  assumes "tx_ok tx" and "tx_ok old"
  shows "(tx_IsNewerThan tx old \<longleftrightarrow>
       map prevout (vin tx) = map prevout (vin old) \<and>
       (\<exists>y\<in>set (map snd (changed tx old)). \<forall>x\<in>set (map fst (changed tx old)). y < x))
    \<and> \<not> (tx_IsNewerThan tx old \<and> tx_IsNewerThan old tx)
    \<and> \<not> tx_IsNewerThan tx tx"
proof (intro conjI)
  have swap: "changed old tx = map prod.swap (changed tx old)"
    by (simp add: changed_def zip_commute [of "map nSequence (vin old)"] filter_map o_def case_prod_unfold prod.swap_def eq_commute)
  show "\<not> (tx_IsNewerThan tx old \<and> tx_IsNewerThan old tx)"
  proof
    assume "tx_IsNewerThan tx old \<and> tx_IsNewerThan old tx"
    then obtain y x where "y \<in> set (map snd (changed tx old))" "\<forall>a\<in>set (map fst (changed tx old)). y < a"
      and "x \<in> set (map snd (changed old tx))" "\<forall>b\<in>set (map fst (changed old tx)). x < b"
      unfolding IsNewerThan_iff [OF assms] IsNewerThan_iff [OF assms(2,1)] by blast
    moreover have "set (map snd (changed old tx)) = set (map fst (changed tx old))"
      and "set (map fst (changed old tx)) = set (map snd (changed tx old))"
      by (simp_all add: swap image_comp o_def)
    ultimately have "y < x" and "x < y" by blast+
    then show False by simp
  qed
  have "changed tx tx = []"
    by (simp add: changed_def zip_same_conv_map filter_map o_def)
  then show "\<not> tx_IsNewerThan tx tx"
    unfolding IsNewerThan_iff [OF assms(1,1)] by simp
qed (rule IsNewerThan_iff [OF assms])

theorem IsNewerThan_exact_witness:
  "tx_IsNewerThan (example_tx [9])
     ((example_tx [9])\<lparr>vin := [\<lparr>prevout = \<lparr>op_hash = [1, 2, 3, 4, 5, 6, 7, 8], op_n = 1\<rparr>, scriptSig = [], nSequence = 3\<rparr>]\<rparr>)"
proof -
  have "tx_ok ((example_tx [9])\<lparr>vin := [\<lparr>prevout = \<lparr>op_hash = [1, 2, 3, 4, 5, 6, 7, 8], op_n = 1\<rparr>, scriptSig = [], nSequence = 3\<rparr>]\<rparr>)"
    by (simp add: tx_ok_def txin_ok_def outpoint_ok_def txout_ok_def cash_ok_def cash_wf_def)
  from IsNewerThan_exact [OF example_tx_ok this, of 9] show ?thesis
    by (simp add: changed_def)
qed

section \<open>Fees\<close>

text \<open>When the block would be full, the code means to ask for more than anyone has; the conversion to \<open>Cash\<close>
  drops the number, so what it asks for is nothing.\<close>
lemma GetMinFee_full_block:
  assumes "nBlockSize \<noteq> 1" and "nBlockSize + size_tx tx \<ge> MAX_BLOCK_SIZE_GEN"
  shows "tx_GetMinFee nMinTxFee nMinRelayTxFee tx nBlockSize fAllowFree md = cash_empty"
proof -
  have "MAX_BLOCK_SIZE_GEN div 2 \<le> MAX_BLOCK_SIZE_GEN"
    by (simp add: MAX_BLOCK_SIZE_GEN_def MAX_BLOCK_SIZE_def)
  then have "nBlockSize + size_tx tx \<ge> MAX_BLOCK_SIZE_GEN div 2"
    using assms(2) by (rule order.trans)
  with assms show ?thesis
    by (simp add: tx_GetMinFee_def Let_def cash_of_amount_def cash_empty_def)
qed

text \<open>\<open>GetValueOut\<close> is the sum of the outputs when every running total is in range, and an error otherwise.\<close>
lemma GetValueOut_exact:
  assumes "tx_ok tx"
  shows "tx_GetValueOut tx =
    (if \<forall>k<length (vout tx). total_in_range (total_out (take (Suc k) (vout tx)) cash_empty)
     then Inr (total_out (vout tx) cash_empty)
     else Inl ''CTransaction::GetValueOut() : value out of range'')"
proof -
  have "value_out_loop outs c =
      (if \<forall>k<length outs. total_in_range (total_out (take (Suc k) outs) c) then Inr (total_out outs c)
       else Inl ''CTransaction::GetValueOut() : value out of range'')"
    if "fixed c = 0" "list_all (\<lambda>out. fixed (nValue out) = 0) outs" for outs c
    using that
  proof (induction outs arbitrary: c)
    case (Cons out outs)
    define c' where "c' = cash_plus_assign c (nValue out)"
    have f: "fixed c' = 0"
      using Cons.prems by (simp_all add: c'_def fixed_plus_assign)
    have tot: "(\<forall>k<length (out # outs). total_in_range (total_out (take (Suc k) (out # outs)) c)) \<longleftrightarrow>
        total_in_range c' \<and> (\<forall>k<length outs. total_in_range (total_out (take (Suc k) outs) c'))"
      by (simp only: length_Cons All_less_Suc2) (simp add: total_out_def c'_def)
    have "total_out (out # outs) c = total_out outs c'"
      by (simp add: total_out_def c'_def)
    then show ?case
      using Cons.IH [OF f] Cons.prems(2) total_range_iff [OF f] unfolding tot by (simp add: c'_def [symmetric])
  qed (simp add: total_out_def)
  from this [of cash_empty "vout tx"] show ?thesis
    using assms by (auto simp: tx_GetValueOut_def tx_ok_def txout_ok_def cash_ok_def list_all_iff cash_empty_def)
qed

end
