(* ===== verification/Signature.thy ===== *)
theory Signature
  imports Transaction
begin

text \<open>
  What a signature of an input signs, and its check (\<open>script.cpp\<close>): the hash of the transaction with
  the parts blanked that the hash type leaves open, the cache of valid signatures with its random
  eviction, and the check that consults it.  The random hashes are a stream, of which the cache holds
  the position.
\<close>

section \<open>The signature hash\<close>

text \<open>The other inputs' scripts emptied, and this one's set to the script that is signed.\<close>
definition blank_scripts :: "script \<Rightarrow> nat \<Rightarrow> CTxIn list \<Rightarrow> CTxIn list" where
  "blank_scripts scriptCode nIn v =
     (let v = map (\<lambda>i. i\<lparr>scriptSig := []\<rparr>) v in v[nIn := (v ! nIn)\<lparr>scriptSig := scriptCode\<rparr>])"

text \<open>The others may update at will.\<close>
definition zero_sequences :: "nat \<Rightarrow> CTxIn list \<Rightarrow> CTxIn list" where
  "zero_sequences nIn v =
     map (\<lambda>i. if i \<noteq> nIn then (v ! i)\<lparr>nSequence := 0\<rparr> else v ! i) [0..<length v]"

text \<open>The copy of the transaction that is hashed; \<open>None\<close> when an index is out of range.\<close>
definition sighash_tx :: "script \<Rightarrow> CTransaction \<Rightarrow> nat \<Rightarrow> u32 \<Rightarrow> CTransaction option" where
  "sighash_tx scriptCode txTo nIn nHashType =
     (if nIn \<ge> length (vin txTo) then None
      else
        let txTmp = txTo;
            scriptCode = fst (FindAndDelete scriptCode (push_opcode [] OP_CODESEPARATOR));
            txTmp = txTmp\<lparr>vin := blank_scripts scriptCode nIn (vin txTmp)\<rparr>;
            blanked =
              (if nHashType AND 0x1f = 2
               then Some (txTmp\<lparr>vout := [], vin := zero_sequences nIn (vin txTmp)\<rparr>)
               else if nHashType AND 0x1f = 3
               then (let nOut = nIn
                     in if nOut \<ge> length (vout txTmp) then None
                        else Some (txTmp\<lparr>vout := map txout_SetNull (take nOut (vout txTmp)) @ [vout txTmp ! nOut],
                                         vin := zero_sequences nIn (vin txTmp)\<rparr>))
               else Some txTmp)
        in case blanked of None \<Rightarrow> None
           | Some txTmp \<Rightarrow>
               Some (if nHashType AND 0x80 \<noteq> 0 then txTmp\<lparr>vin := [vin txTmp ! nIn]\<rparr> else txTmp))"

definition SignatureHash :: "('k, 'x) crypto_scheme \<Rightarrow> script \<Rightarrow> CTransaction \<Rightarrow> nat \<Rightarrow> u32 \<Rightarrow> uint256" where
  "SignatureHash C scriptCode txTo nIn nHashType =
     (case sighash_tx scriptCode txTo nIn nHashType of
        None \<Rightarrow> bu_of64 WIDTH256 1
      | Some txTmp \<Rightarrow>
          (let ss = hw_write (hw_write hw_init (ser_tx txTmp)) (ser_int nHashType) in hw_GetHash C ss))"

definition tx_GetNormalizedHash :: "('k, 'x) crypto_scheme \<Rightarrow> CTransaction \<Rightarrow> uint256" where
  "tx_GetNormalizedHash C tx = SignatureHash C [] tx 0 (word_of_nat SIGHASH_ALL)"

section \<open>The signature cache\<close>

type_synonym sigdata = "uint256 \<times> byte list \<times> CPubKey"

text \<open>The order of the tuples: by hash, then signature, then public key.\<close>
definition sigdata_lt :: "sigdata \<Rightarrow> sigdata \<Rightarrow> bool" where
  "sigdata_lt a b =
     (case a of (h, s, p) \<Rightarrow> case b of (h', s', p') \<Rightarrow>
        bu_lt h h' \<or> (\<not> bu_lt h' h \<and> (s < s' \<or> (\<not> s' < s \<and> pk_lt p p'))))"

definition sigdata_same :: "sigdata \<Rightarrow> sigdata \<Rightarrow> bool" where
  "sigdata_same a b = (\<not> sigdata_lt a b \<and> \<not> sigdata_lt b a)"

record CSignatureCache =
  setValid :: "sigdata list"
  rand_pos :: nat

definition sigcache_init :: CSignatureCache where
  "sigcache_init = \<lparr>setValid = [], rand_pos = 0\<rparr>"

definition sigcache_Get :: "CSignatureCache \<Rightarrow> uint256 \<Rightarrow> byte list \<Rightarrow> CPubKey \<Rightarrow> bool" where
  "sigcache_Get cache hash vchSig pubKey =
     (let k = (hash, vchSig, pubKey) in list_ex (sigdata_same k) (setValid cache))"

text \<open>\<open>std::set::insert\<close> on the ordered list: an equivalent element stays.\<close>
fun sigset_insert :: "sigdata \<Rightarrow> sigdata list \<Rightarrow> sigdata list" where
  "sigset_insert k [] = [k]"
| "sigset_insert k (e # es) =
     (if sigdata_lt k e then k # e # es else if sigdata_lt e k then e # sigset_insert k es else e # es)"

text \<open>Erasing the lower bound of a key, or the first element when every element is below it.\<close>
definition sigset_evict :: "sigdata \<Rightarrow> sigdata list \<Rightarrow> sigdata list" where
  "sigset_evict k s =
     (let below = takeWhile (\<lambda>e. sigdata_lt e k) s; rest = dropWhile (\<lambda>e. sigdata_lt e k) s
      in if rest = [] then tl s else below @ tl rest)"

lemma length_sigset_evict: "s \<noteq> [] \<Longrightarrow> length (sigset_evict k s) < length s"
proof -
  assume s: "s \<noteq> []"
  have "length s = length (takeWhile (\<lambda>e. sigdata_lt e k) s) + length (dropWhile (\<lambda>e. sigdata_lt e k) s)"
    by (metis length_append takeWhile_dropWhile_id)
  moreover have "0 < length s" using s by simp
  ultimately show ?thesis
    by (cases "dropWhile (\<lambda>e. sigdata_lt e k) s") (simp_all add: sigset_evict_def Let_def)
qed

text \<open>The options and the source of random hashes the cache uses.\<close>
record sig_env =
  maxsigcachesize :: int
  GetRandHash :: "nat \<Rightarrow> uint256"

function evict_loop :: "sig_env \<Rightarrow> sigdata list \<Rightarrow> nat \<Rightarrow> sigdata list \<times> nat" where
  "evict_loop E s pos =
     (if int (length s) > maxsigcachesize E \<and> s \<noteq> []
      then let randomHash = GetRandHash E pos
           in evict_loop E (sigset_evict (randomHash, [], pk_of_vch []) s) (pos + 1)
      else (s, pos))"
  by auto
termination
  by (relation "measure (\<lambda>(E, s, pos). length s)") (auto intro: length_sigset_evict)

declare evict_loop.simps [simp del]

definition sigcache_Set ::
  "sig_env \<Rightarrow> CSignatureCache \<Rightarrow> uint256 \<Rightarrow> byte list \<Rightarrow> CPubKey \<Rightarrow> CSignatureCache" where
  "sigcache_Set E cache hash vchSig pubKey =
     (if maxsigcachesize E \<le> 0 then cache
      else case evict_loop E (setValid cache) (rand_pos cache) of (s, pos) \<Rightarrow>
        \<lparr>setValid = sigset_insert (hash, vchSig, pubKey) s, rand_pos = pos\<rparr>)"

section \<open>The check\<close>

definition CheckSig ::
  "('k, 'x) crypto_scheme \<Rightarrow> sig_env \<Rightarrow> valtype \<Rightarrow> valtype \<Rightarrow> script \<Rightarrow> CTransaction \<Rightarrow> nat \<Rightarrow> u32 \<Rightarrow> u32 \<Rightarrow>
   CSignatureCache \<Rightarrow> bool \<times> CSignatureCache" where
  "CheckSig C E vchSig vchPubKey scriptCode txTo nIn nHashType flags cache =
     (let pubkey = pk_of_vch vchPubKey in
      if \<not> pk_IsValid pubkey then (False, cache)
      else if vchSig = [] then (False, cache)
      else if nHashType \<noteq> 0 \<and> nHashType \<noteq> ucast (last vchSig) then (False, cache)
      else
        let nHashType = ucast (last vchSig);
            vchSig = butlast vchSig;
            sighash = SignatureHash C scriptCode txTo nIn nHashType
        in if sigcache_Get cache sighash vchSig pubkey then (True, cache)
           else if \<not> pk_Verify C pubkey sighash vchSig then (False, cache)
           else (True, if flags AND SCRIPT_VERIFY_NOCACHE = 0 then sigcache_Set E cache sighash vchSig pubkey
                       else cache))"

section \<open>The cache is transparent\<close>

text \<open>The check without a cache.\<close>
definition sig_valid :: "('k, 'x) crypto_scheme \<Rightarrow> valtype \<Rightarrow> valtype \<Rightarrow> script \<Rightarrow> CTransaction \<Rightarrow> nat \<Rightarrow> u32 \<Rightarrow> bool" where
  "sig_valid C vchSig vchPubKey scriptCode txTo nIn nHashType \<longleftrightarrow>
     pk_IsValid (pk_of_vch vchPubKey) \<and> vchSig \<noteq> [] \<and> (nHashType = 0 \<or> nHashType = ucast (last vchSig)) \<and>
     pk_Verify C (pk_of_vch vchPubKey) (SignatureHash C scriptCode txTo nIn (ucast (last vchSig))) (butlast vchSig)"

text \<open>Every entry is a full-width hash with a signature that verifies under its key.\<close>
definition cache_sound :: "('k, 'x) crypto_scheme \<Rightarrow> CSignatureCache \<Rightarrow> bool" where
  "cache_sound C cache \<longleftrightarrow>
     (\<forall>(h, s, p)\<in>set (setValid cache). length h = WIDTH256 \<and> pk_ok p \<and> pk_Verify C p h s)"

lemma cache_sound_init [simp]: "cache_sound C sigcache_init"
  by (simp add: cache_sound_def sigcache_init_def)

lemma pk_ok_of_vch [simp]: "pk_ok (pk_of_vch b)"
proof -
  have "pk_GetLen h \<le> 65" for h by (simp add: pk_GetLen_def)
  from this [of "b ! 0"] show ?thesis
    by (auto simp: pk_of_vch_def pk_Set_def pk_ok_def pk_memory_def pk_Invalidate_def Let_def)
qed

lemma length_SignatureHash [simp]: "length (SignatureHash C s tx n t) = WIDTH256"
  by (simp add: SignatureHash_def hw_GetHash_def bu_of64_def Let_def split: option.split)

lemma sigdata_same_eq:
  assumes "length h = length h'" and "pk_ok p" and "pk_ok p'"
  shows "sigdata_same (h, s, p) (h', s', p') \<longleftrightarrow> h = h' \<and> s = s' \<and> pk_eq p p'"
proof -
  have h: "\<not> bu_lt h h' \<and> \<not> bu_lt h' h \<longleftrightarrow> h = h'"
    using assms(1) by (auto simp: bu_lt_iff) (metis linorder_cases uval_inject)
  have p: "pk_eq p p' \<longleftrightarrow> \<not> pk_lt p p' \<and> \<not> pk_lt p' p"
    by (rule pk_eq_iff_not_lt [OF assms(2,3)])
  show ?thesis
    using h p by (auto simp: sigdata_same_def sigdata_lt_def)
qed

lemma pk_Verify_cong: "pk_ok p \<Longrightarrow> pk_ok p' \<Longrightarrow> pk_eq p p' \<Longrightarrow> pk_Verify C p h s = pk_Verify C p' h s"
proof -
  assume "pk_ok p" "pk_ok p'" "pk_eq p p'"
  then have h: "pk_vch p ! 0 = pk_vch p' ! 0" and b: "pk_bytes p = pk_bytes p'"
    by (simp_all add: pk_eq_bytes)
  then show ?thesis
    by (simp add: pk_Verify_def pk_IsValid_def ec_SetPubKey_def pk_size_def pk_bytes_def)
qed

lemma sigset_insert_set: "set (sigset_insert k s) \<subseteq> insert k (set s)"
  by (induction s) auto

lemma set_tl: "set (tl xs) \<subseteq> set xs"
  by (cases xs) auto

lemma sigset_evict_set: "set (sigset_evict k s) \<subseteq> set s"
proof -
  let ?b = "takeWhile (\<lambda>e. sigdata_lt e k) s" and ?r = "dropWhile (\<lambda>e. sigdata_lt e k) s"
  have "set s = set ?b \<union> set ?r"
    by (metis set_append takeWhile_dropWhile_id)
  then have "set (?b @ tl ?r) \<subseteq> set s"
    using set_tl [of ?r] by auto
  then show ?thesis
    using set_tl [of s] by (simp add: sigset_evict_def Let_def)
qed

lemma evict_loop_step:
  "evict_loop E s pos =
     (if int (length s) > maxsigcachesize E \<and> s \<noteq> []
      then evict_loop E (sigset_evict (GetRandHash E pos, [], pk_of_vch []) s) (pos + 1) else (s, pos))"
  by (subst evict_loop.simps) (simp only: Let_def)

lemma evict_loop_spec:
  "set (fst (evict_loop E s pos)) \<subseteq> set s \<and>
   (0 \<le> maxsigcachesize E \<longrightarrow> int (length (fst (evict_loop E s pos))) \<le> maxsigcachesize E)"
proof (induction "length s" arbitrary: s pos rule: less_induct)
  case less
  show ?case
  proof (cases "int (length s) > maxsigcachesize E \<and> s \<noteq> []")
    case True
    let ?s = "sigset_evict (GetRandHash E pos, [], pk_of_vch []) s"
    have "evict_loop E s pos = evict_loop E ?s (pos + 1)"
      by (subst evict_loop_step) (rule if_P [OF True])
    moreover have "length ?s < length s" using True by (intro length_sigset_evict) simp
    ultimately show ?thesis
      using less [of ?s "pos + 1"] sigset_evict_set [of "(GetRandHash E pos, [], pk_of_vch [])" s] by auto
  next
    case False
    then have "evict_loop E s pos = (s, pos)"
      by (subst evict_loop_step) (rule if_not_P)
    with False show ?thesis by auto
  qed
qed

lemmas evict_loop_set = evict_loop_spec [THEN conjunct1]

lemma length_sigset_insert: "length (sigset_insert k s) \<le> Suc (length s)"
  by (induction s) auto

lemma sigcache_Set_sound:
  assumes "cache_sound C cache" and "length h = WIDTH256" and "pk_ok p" and "pk_Verify C p h s"
  shows "cache_sound C (sigcache_Set E cache h s p)"
proof -
  obtain s' pos where e: "evict_loop E (setValid cache) (rand_pos cache) = (s', pos)"
    by (metis surj_pair)
  then have "set s' \<subseteq> set (setValid cache)" by (metis evict_loop_set fst_conv)
  then have "set (sigset_insert (h, s, p) s') \<subseteq> insert (h, s, p) (set (setValid cache))"
    using sigset_insert_set by blast
  then show ?thesis
    using assms e by (fastforce simp: sigcache_Set_def cache_sound_def)
qed

lemma sigcache_Get_sound:
  assumes "cache_sound C cache" and "sigcache_Get cache h s p" and "length h = WIDTH256" and "pk_ok p"
  shows "pk_Verify C p h s"
proof -
  obtain h' s' p' where e: "(h', s', p') \<in> set (setValid cache)" and "sigdata_same (h, s, p) (h', s', p')"
    using assms(2) by (auto simp: sigcache_Get_def list_ex_iff)
  moreover have "length h' = WIDTH256" "pk_ok p'" "pk_Verify C p' h' s'"
    using assms(1) e by (auto simp: cache_sound_def)
  ultimately show ?thesis
    using assms(3,4) pk_Verify_cong [of p p' C h s] by (simp add: sigdata_same_eq)
qed

lemma CheckSig_sound:
  assumes "cache_sound C cache" and "CheckSig C E sg pk sc tx n t fl cache = (r, cache')"
  shows "r = sig_valid C sg pk sc tx n t \<and> cache_sound C cache'"
proof -
  let ?h = "SignatureHash C sc tx n (ucast (last sg))"
  have get: "sigcache_Get cache ?h (butlast sg) (pk_of_vch pk) \<Longrightarrow> pk_Verify C (pk_of_vch pk) ?h (butlast sg)"
    by (rule sigcache_Get_sound [OF assms(1)]) simp_all
  have set: "pk_Verify C (pk_of_vch pk) ?h (butlast sg) \<Longrightarrow>
      cache_sound C (sigcache_Set E cache ?h (butlast sg) (pk_of_vch pk))"
    by (rule sigcache_Set_sound [OF assms(1)]) simp_all
  show ?thesis
    using assms(2) get set assms(1)
    by (auto simp: CheckSig_def sig_valid_def Let_def split: if_splits)
qed

text \<open>A sequence of checks through one cache.\<close>

type_synonym sig_request = "valtype \<times> valtype \<times> script \<times> CTransaction \<times> nat \<times> u32 \<times> u32"

fun check_all :: "('k, 'x) crypto_scheme \<Rightarrow> sig_env \<Rightarrow> sig_request list \<Rightarrow> CSignatureCache \<Rightarrow>
    bool list \<times> CSignatureCache" where
  "check_all C E [] cache = ([], cache)"
| "check_all C E ((sg, pk, sc, tx, n, t, fl) # qs) cache =
     (case CheckSig C E sg pk sc tx n t fl cache of (r, cache) \<Rightarrow>
        (case check_all C E qs cache of (rs, cache) \<Rightarrow> (r # rs, cache)))"

definition cache_bounded :: "sig_env \<Rightarrow> CSignatureCache \<Rightarrow> bool" where
  "cache_bounded E cache \<longleftrightarrow>
     int (length (setValid cache)) \<le> (if maxsigcachesize E \<le> 0 then 0 else maxsigcachesize E + 1)"

lemma sigcache_Set_bounded: "cache_bounded E cache \<Longrightarrow> cache_bounded E (sigcache_Set E cache h s p)"
proof (cases "maxsigcachesize E \<le> 0")
  case False
  then have "int (length (fst (evict_loop E (setValid cache) (rand_pos cache)))) \<le> maxsigcachesize E"
    using evict_loop_spec [of E "setValid cache" "rand_pos cache"] by simp
  with False show ?thesis
    using length_sigset_insert [of "(h, s, p)" "fst (evict_loop E (setValid cache) (rand_pos cache))"]
    by (auto simp: cache_bounded_def sigcache_Set_def case_prod_unfold)
qed (simp add: sigcache_Set_def)

lemma CheckSig_bounded:
  "cache_bounded E cache \<Longrightarrow> CheckSig C E sg pk sc tx n t fl cache = (r, cache') \<Longrightarrow> cache_bounded E cache'"
  by (auto simp: CheckSig_def Let_def sigcache_Set_bounded split: if_splits)

lemma check_all_spec:
  "cache_sound C cache \<Longrightarrow> cache_bounded E cache \<Longrightarrow>
   fst (check_all C E qs cache) = map (\<lambda>(sg, pk, sc, tx, n, t, fl). sig_valid C sg pk sc tx n t) qs \<and>
   cache_bounded E (snd (check_all C E qs cache)) \<and> cache_sound C (snd (check_all C E qs cache))"
proof (induction C E qs cache rule: check_all.induct)
  case (2 C E sg pk sc tx n t fl qs cache)
  obtain r cache' where c: "CheckSig C E sg pk sc tx n t fl cache = (r, cache')"
    by (metis surj_pair)
  have "r = sig_valid C sg pk sc tx n t" "cache_sound C cache'" "cache_bounded E cache'"
    using CheckSig_sound [OF 2(2) c] CheckSig_bounded [OF 2(3) c] by simp_all
  with 2(1) [OF c [symmetric]] c show ?case by (simp add: case_prod_unfold)
qed simp

text \<open>C18: Checking signatures through the cache gives, for every sequence of checks from an empty cache, whatever the flags, the random
  evictions and the configured size, the answers of checking each signature afresh; and the cache never holds more than one entry above its
  configured size.\<close>

theorem sigcache_transparent:
  "fst (check_all C E qs sigcache_init) = map (\<lambda>(sg, pk, sc, tx, n, t, fl). sig_valid C sg pk sc tx n t) qs
   \<and> int (length (setValid (snd (check_all C E qs sigcache_init)))) \<le> max 0 (maxsigcachesize E + 1)"
proof -
  have "cache_bounded E sigcache_init" by (simp add: cache_bounded_def sigcache_init_def)
  from check_all_spec [OF cache_sound_init this, of C qs] show ?thesis
    by (auto simp: cache_bounded_def split: if_splits)
qed

section \<open>What a signature covers\<close>

abbreviation (input) base_type :: "u32 \<Rightarrow> u32" where "base_type t \<equiv> t AND 0x1f"

text \<open>The inputs and the outputs of the copy that is hashed.\<close>

definition signed_in :: "script \<Rightarrow> nat \<Rightarrow> u32 \<Rightarrow> nat \<Rightarrow> CTxIn \<Rightarrow> CTxIn" where
  "signed_in s n t k i =
     \<lparr>prevout = prevout i, scriptSig = (if k = n then fst (FindAndDelete s [OP_CODESEPARATOR]) else []),
      nSequence = (if k \<noteq> n \<and> (base_type t = 2 \<or> base_type t = 3) then 0 else nSequence i)\<rparr>"

definition signed_vin :: "script \<Rightarrow> CTransaction \<Rightarrow> nat \<Rightarrow> u32 \<Rightarrow> CTxIn list" where
  "signed_vin s tx n t =
     (let ins = map (\<lambda>k. signed_in s n t k (vin tx ! k)) [0..<length (vin tx)]
      in if t AND 0x80 \<noteq> 0 then [ins ! n] else ins)"

definition signed_vout :: "CTransaction \<Rightarrow> nat \<Rightarrow> u32 \<Rightarrow> CTxOut list" where
  "signed_vout tx n t =
     (if base_type t = 2 then []
      else if base_type t = 3 then map txout_SetNull (take n (vout tx)) @ [vout tx ! n]
      else vout tx)"

lemma sighash_tx_eq:
  "sighash_tx s tx n t =
     (if n < length (vin tx) \<and> (base_type t = 3 \<longrightarrow> n < length (vout tx))
      then Some (tx\<lparr>vin := signed_vin s tx n t, vout := signed_vout tx n t\<rparr>) else None)"
proof (cases "n < length (vin tx)")
  case True
  let ?c = "fst (FindAndDelete s [OP_CODESEPARATOR])"
  let ?v = "blank_scripts ?c n (vin tx)"
  have nth: "?v ! k = \<lparr>prevout = prevout (vin tx ! k), scriptSig = if k = n then ?c else [],
      nSequence = nSequence (vin tx ! k)\<rparr>" if "k < length (vin tx)" for k
    using that True by (auto simp: nth_list_update blank_scripts_def Let_def)
  have len: "length ?v = length (vin tx)" by (simp add: blank_scripts_def Let_def)
  have all: "?v = map (\<lambda>k. signed_in s n t k (vin tx ! k)) [0..<length (vin tx)]"
    if "\<not> (base_type t = 2 \<or> base_type t = 3)"
    using that by (intro nth_equalityI) (auto simp: nth len signed_in_def)
  have zero: "zero_sequences n ?v = map (\<lambda>k. signed_in s n t k (vin tx ! k)) [0..<length (vin tx)]"
    if "base_type t = 2 \<or> base_type t = 3"
    using that by (intro nth_equalityI) (auto simp: nth len signed_in_def zero_sequences_def)
  show ?thesis
    using True
    by (cases "base_type t = 2"; cases "base_type t = 3")
      (simp_all add: sighash_tx_def Let_def push_opcode_def signed_vin_def signed_vout_def not_le all zero)
qed (simp add: sighash_tx_def)


lemma length_signed [simp]: "length (map (\<lambda>k. signed_in s n t k (vin tx ! k)) [0..<length (vin tx)]) = length (vin tx)"
  by simp

lemma sighash_tx_ok:
  assumes "tx_ok tx" and "fits_size (fst (FindAndDelete s [OP_CODESEPARATOR]))" and "sighash_tx s tx n t = Some a"
  shows "tx_ok a"
proof -
  have a: "a = tx\<lparr>vin := signed_vin s tx n t, vout := signed_vout tx n t\<rparr>" and n: "n < length (vin tx)"
    and m: "base_type t = 3 \<longrightarrow> n < length (vout tx)"
    using assms(3) by (auto simp: sighash_tx_eq split: if_splits)
  have ins: "txin_ok (signed_in s n t k (vin tx ! k))" if "k < length (vin tx)" for k
    using that assms(1,2) by (auto simp: signed_in_def txin_ok_def tx_ok_def list_all_length)
  have null: "txout_ok (txout_SetNull out)" for out
    by (simp add: txout_ok_def txout_SetNull_def cash_ok_def cash_wf_def cash_assign_int_def)
  show ?thesis
    using assms(1) ins n m null
    by (auto simp: a tx_ok_def signed_vin_def signed_vout_def list_all_length Let_def nth_append)
qed

lemma signed_vin_own:
  assumes "n < length (vin tx)" and "n < length (vin tx')" and "signed_vin s tx n t = signed_vin s' tx' n t"
  shows "signed_in s n t n (vin tx ! n) = signed_in s' n t n (vin tx' ! n)"
proof (cases "t AND 0x80 = 0")
  case True
  have *: "signed_vin s tx n t ! n = signed_in s n t n (vin tx ! n)" if "n < length (vin tx)" for s tx
    using that True by (simp add: signed_vin_def Let_def)
  show ?thesis unfolding * [OF assms(1), of s, symmetric] * [OF assms(2), of s', symmetric] assms(3) ..
next
  case False
  have *: "hd (signed_vin s tx n t) = signed_in s n t n (vin tx ! n)" if "n < length (vin tx)" for s tx
    using that False by (simp add: signed_vin_def Let_def)
  show ?thesis unfolding * [OF assms(1), of s, symmetric] * [OF assms(2), of s', symmetric] assms(3) ..
qed

lemma SignatureHash_scripts:
  "SignatureHash C s (tx\<lparr>vin := map (\<lambda>i. i\<lparr>scriptSig := f i\<rparr>) (vin tx)\<rparr>) n t = SignatureHash C s tx n t"
proof -
  have "signed_vin s (tx\<lparr>vin := map (\<lambda>i. i\<lparr>scriptSig := f i\<rparr>) (vin tx)\<rparr>) n t = signed_vin s tx n t"
    if "n < length (vin tx)"
    using that by (simp add: signed_vin_def signed_in_def Let_def)
  then show ?thesis
    by (auto simp: SignatureHash_def sighash_tx_eq signed_vout_def)
qed

text \<open>C6: What a signature commits to.  The copy that is hashed exists unless the index, or for the single-output type the output, is out of
  range (the hash is then the number 1 whatever the transaction); it does not depend on the scripts of the inputs.  Two signature hashes with the same bytes have the same hash type and agree on the version, the lock time, the
  attachments, the input that is signed with its outpoint and sequence number, and the signed script without code separators; on all outpoints unless anyone can pay; on
  all sequence numbers and all outputs when the type is neither none nor single, and on the output of the same index when it is
  single.\<close>

theorem SignatureHash_covers:
  assumes "tx_ok tx" and "tx_ok tx'"
    and "fits_size (fst (FindAndDelete s [OP_CODESEPARATOR]))" and "fits_size (fst (FindAndDelete s' [OP_CODESEPARATOR]))"
    and "sighash_tx s tx n t = Some a" and "sighash_tx s' tx' n t' = Some b"
    and "ser_tx a @ ser_int t = ser_tx b @ ser_int t'"
  shows "t = t' \<and> nVersion tx = nVersion tx' \<and> nLockTime tx = nLockTime tx' \<and> Attachments tx = Attachments tx'
    \<and> prevout (vin tx ! n) = prevout (vin tx' ! n) \<and> nSequence (vin tx ! n) = nSequence (vin tx' ! n)
    \<and> fst (FindAndDelete s [OP_CODESEPARATOR]) = fst (FindAndDelete s' [OP_CODESEPARATOR])
    \<and> (t AND 0x80 = 0 \<longrightarrow> map prevout (vin tx) = map prevout (vin tx'))
    \<and> (t AND 0x80 = 0 \<and> base_type t \<noteq> 2 \<and> base_type t \<noteq> 3 \<longrightarrow> map nSequence (vin tx) = map nSequence (vin tx'))
    \<and> (base_type t \<noteq> 2 \<and> base_type t \<noteq> 3 \<longrightarrow> vout tx = vout tx')
    \<and> (base_type t = 3 \<longrightarrow> vout tx ! n = vout tx' ! n)
    \<and> (sighash_tx s tx m u = None \<longleftrightarrow> length (vin tx) \<le> m \<or> (base_type u = 3 \<and> length (vout tx) \<le> m))
    \<and> (sighash_tx s tx m u = None \<longrightarrow> SignatureHash C s tx m u = bu_of64 WIDTH256 1)
    \<and> SignatureHash C s (tx\<lparr>vin := map (\<lambda>i. i\<lparr>scriptSig := f i\<rparr>) (vin tx)\<rparr>) n t = SignatureHash C s tx n t"
proof -
  have ok: "tx_ok a" "tx_ok b"
    using sighash_tx_ok assms by blast+
  have ab: "a = b" and tt: "ser_int t = ser_int t'"
    using tx.ser_prefix_free [OF ok assms(7)] by simp_all
  have t: "t = t'"
    using int_codec.ser_prefix_free [of t "[]" t' "[]"] tt by simp
  have a: "a = tx\<lparr>vin := signed_vin s tx n t, vout := signed_vout tx n t\<rparr>" and n: "n < length (vin tx)"
    and m: "base_type t = 3 \<longrightarrow> n < length (vout tx)"
    using assms(5) by (auto simp: sighash_tx_eq split: if_splits)
  have b: "b = tx'\<lparr>vin := signed_vin s' tx' n t, vout := signed_vout tx' n t\<rparr>" and n': "n < length (vin tx')"
    and m': "base_type t = 3 \<longrightarrow> n < length (vout tx')"
    using assms(6) by (auto simp: sighash_tx_eq t split: if_splits)
  have ins: "signed_vin s tx n t = signed_vin s' tx' n t" and outs: "signed_vout tx n t = signed_vout tx' n t"
    and rest: "nVersion tx = nVersion tx'" "nLockTime tx = nLockTime tx'" "Attachments tx = Attachments tx'"
    using arg_cong [OF ab, of vin] arg_cong [OF ab, of vout] arg_cong [OF ab, of nVersion]
      arg_cong [OF ab, of nLockTime] arg_cong [OF ab, of Attachments]
    unfolding a b by simp_all
  have own: "signed_in s n t n (vin tx ! n) = signed_in s' n t n (vin tx' ! n)"
    by (rule signed_vin_own [OF n n' ins])
  have len: "length (vin tx) = length (vin tx')" if "t AND 0x80 = 0"
    using that arg_cong [OF ins, of length] by (simp add: signed_vin_def Let_def)
  have nth: "signed_in s n t k (vin tx ! k) = signed_in s' n t k (vin tx' ! k)"
    if "t AND 0x80 = 0" "k < length (vin tx)" for k
    using that len arg_cong [OF ins, of "\<lambda>v. v ! k"] by (simp add: signed_vin_def Let_def)
  have pre: "t AND 0x80 = 0 \<longrightarrow> map prevout (vin tx) = map prevout (vin tx')"
    using len nth [THEN arg_cong, of _ prevout] by (auto simp: list_eq_iff_nth_eq signed_in_def)
  have seq: "t AND 0x80 = 0 \<and> base_type t \<noteq> 2 \<and> base_type t \<noteq> 3 \<longrightarrow> map nSequence (vin tx) = map nSequence (vin tx')"
    using len nth [THEN arg_cong, of _ nSequence] by (auto simp: list_eq_iff_nth_eq signed_in_def)
  have out: "base_type t \<noteq> 2 \<and> base_type t \<noteq> 3 \<longrightarrow> vout tx = vout tx'"
    and single: "base_type t = 3 \<longrightarrow> vout tx ! n = vout tx' ! n"
    using outs m m' by (auto simp: signed_vout_def)
  have none: "sighash_tx s tx m u = None \<longleftrightarrow> length (vin tx) \<le> m \<or> (base_type u = 3 \<and> length (vout tx) \<le> m)"
    by (auto simp: sighash_tx_eq)
  have hash: "sighash_tx s tx m u = None \<longrightarrow> SignatureHash C s tx m u = bu_of64 WIDTH256 1"
    by (simp add: SignatureHash_def)
  show ?thesis
    using t rest own pre seq out single none hash SignatureHash_scripts [where C = C and s = s and tx = tx and f = f and n = n and t = t]
    by (intro conjI) (simp_all add: signed_in_def)
qed


theorem SignatureHash_covers_witness:
  "SignatureHash example_crypto [0x51] ((example_tx [9])\<lparr>vin := map (\<lambda>i. i\<lparr>scriptSig := [1, 2]\<rparr>) (vin (example_tx [9]))\<rparr>) 0 1 =
     SignatureHash example_crypto [0x51] (example_tx [9]) 0 1
   \<and> SignatureHash example_crypto [0x51] (example_tx [9]) 1 3 = bu_of64 WIDTH256 1"
proof -
  have d: "FindAndDelete [0x51] [OP_CODESEPARATOR] = ([0x51], 0)" by code_simp
  obtain a where a: "sighash_tx [0x51] (example_tx [9]) 0 1 = Some a"
    by (simp add: sighash_tx_eq)
  have "fits_size (fst (FindAndDelete [0x51] [OP_CODESEPARATOR]))" by (simp add: d)
  from SignatureHash_covers [OF example_tx_ok example_tx_ok this this a a refl,
      where C = example_crypto and f = "\<lambda>_. [1, 2]" and m = 1 and u = 3]
  show ?thesis by (simp add: sighash_tx_eq)
qed

end
