(* ===== verification/Interpreter.thy ===== *)
theory Interpreter
  imports Signature "HOL-Library.Sublist"
begin

text \<open>
  The script interpreter (\<open>EvalScript\<close> and \<open>VerifyScript\<close> of \<open>script.cpp\<close>): a stack machine that runs an
  unlocking script and then the script it claims to satisfy.  The stacks are lists with the top first.
  An operation returns \<open>Inr\<close> the machine to go on with, or \<open>Inl\<close> the machine as it is when the code
  returns \<open>false\<close> or throws; the caller can still see that stack.  Signatures are checked by the argument \<open>chk\<close>
  of the operations, which \<open>EvalScript\<close> instantiates with \<open>CheckSig\<close> and its cache.
\<close>

section \<open>The machine\<close>

record vm =
  stack :: "valtype list"
  altstack :: "valtype list"
  vfExec :: "bool list"
  pbegincodehash :: script
  nOpCount :: nat
  vm_cache :: CSignatureCache

type_synonym vm_result = "vm + vm"
type_synonym sig_checker = "valtype \<Rightarrow> valtype \<Rightarrow> script \<Rightarrow> CSignatureCache \<Rightarrow> bool \<times> CSignatureCache"

definition vchFalse :: valtype where "vchFalse = []"
definition vchTrue :: valtype where "vchTrue = [1]"

definition vch_of_bool :: "bool \<Rightarrow> valtype" where
  "vch_of_bool f = (if f then vchTrue else vchFalse)"

text \<open>\<open>None\<close>: the exception.\<close>
definition CastToBigNum :: "'b bn_lib \<Rightarrow> valtype \<Rightarrow> 'b option" where
  "CastToBigNum L vch =
     (if length vch > 4 then None else Some (bn_setvch L (bn_getvch L (bn_setvch L vch))))"

fun CastToBool :: "valtype \<Rightarrow> bool" where
  "CastToBool [] = False"
| "CastToBool (c # vch) =
     (if c \<noteq> 0 then (if vch = [] \<and> c = 0x80 then False else True) else CastToBool vch)"

section \<open>Pushes and control\<close>

definition op_push_number :: "'b bn_lib \<Rightarrow> byte \<Rightarrow> vm \<Rightarrow> vm_result" where
  "op_push_number L opcode m =
     (let bn = bn_of_int L (ucast opcode - ucast (OP_1 - 1)) in Inr (m\<lparr>stack := bn_getvch L bn # stack m\<rparr>))"

definition op_if :: "byte \<Rightarrow> bool \<Rightarrow> vm \<Rightarrow> vm_result" where
  "op_if opcode fExec m =
     (if fExec
      then (case stack m of
              [] \<Rightarrow> Inl m
            | vch # r \<Rightarrow>
                (let fValue = CastToBool vch;
                     fValue = (if opcode = OP_NOTIF then \<not> fValue else fValue)
                 in Inr (m\<lparr>stack := r, vfExec := fValue # vfExec m\<rparr>)))
      else Inr (m\<lparr>vfExec := False # vfExec m\<rparr>))"

definition op_else :: "vm \<Rightarrow> vm_result" where
  "op_else m = (case vfExec m of [] \<Rightarrow> Inl m | f # r \<Rightarrow> Inr (m\<lparr>vfExec := (\<not> f) # r\<rparr>))"

definition op_endif :: "vm \<Rightarrow> vm_result" where
  "op_endif m = (case vfExec m of [] \<Rightarrow> Inl m | f # r \<Rightarrow> Inr (m\<lparr>vfExec := r\<rparr>))"

definition op_verify :: "vm \<Rightarrow> vm_result" where
  "op_verify m =
     (case stack m of [] \<Rightarrow> Inl m
      | vch # r \<Rightarrow> if CastToBool vch then Inr (m\<lparr>stack := r\<rparr>) else Inl m)"

section \<open>Stack operations\<close>

definition set_stack :: "vm \<Rightarrow> valtype list \<Rightarrow> vm_result" where
  "set_stack m s = Inr (m\<lparr>stack := s\<rparr>)"

definition op_stack_many :: "byte \<Rightarrow> vm \<Rightarrow> vm_result" where
  "op_stack_many opcode m =
     (if opcode = OP_TOALTSTACK then
        (case stack m of x # r \<Rightarrow> Inr (m\<lparr>altstack := x # altstack m, stack := r\<rparr>) | _ \<Rightarrow> Inl m)
      else if opcode = OP_FROMALTSTACK then
        (case altstack m of x # r \<Rightarrow> Inr (m\<lparr>stack := x # stack m, altstack := r\<rparr>) | _ \<Rightarrow> Inl m)
      else if opcode = OP_2DROP then
        (case stack m of x2 # x1 # r \<Rightarrow> set_stack m r | _ \<Rightarrow> Inl m)
      else if opcode = OP_2DUP then
        (case stack m of x2 # x1 # r \<Rightarrow> set_stack m (x2 # x1 # x2 # x1 # r) | _ \<Rightarrow> Inl m)
      else if opcode = OP_3DUP then
        (case stack m of x3 # x2 # x1 # r \<Rightarrow> set_stack m (x3 # x2 # x1 # x3 # x2 # x1 # r) | _ \<Rightarrow> Inl m)
      else if opcode = OP_2OVER then
        (case stack m of x4 # x3 # x2 # x1 # r \<Rightarrow> set_stack m (x2 # x1 # x4 # x3 # x2 # x1 # r) | _ \<Rightarrow> Inl m)
      else if opcode = OP_2ROT then
        (case stack m of x6 # x5 # x4 # x3 # x2 # x1 # r \<Rightarrow> set_stack m (x2 # x1 # x6 # x5 # x4 # x3 # r) | _ \<Rightarrow> Inl m)
      else \<comment> \<open>\<open>OP_2SWAP\<close>\<close>
        (case stack m of x4 # x3 # x2 # x1 # r \<Rightarrow> set_stack m (x2 # x1 # x4 # x3 # r) | _ \<Rightarrow> Inl m))"

definition op_stack_one :: "'b bn_lib \<Rightarrow> byte \<Rightarrow> vm \<Rightarrow> vm_result" where
  "op_stack_one L opcode m =
     (if opcode = OP_IFDUP then
        (case stack m of x # r \<Rightarrow> set_stack m (if CastToBool x then x # x # r else x # r) | _ \<Rightarrow> Inl m)
      else if opcode = OP_DEPTH then
        set_stack m (bn_getvch L (bn_setulong L (word_of_nat (length (stack m)))) # stack m)
      else if opcode = OP_DROP then
        (case stack m of x # r \<Rightarrow> set_stack m r | _ \<Rightarrow> Inl m)
      else if opcode = OP_DUP then
        (case stack m of x # r \<Rightarrow> set_stack m (x # x # r) | _ \<Rightarrow> Inl m)
      else if opcode = OP_NIP then
        (case stack m of x2 # x1 # r \<Rightarrow> set_stack m (x2 # r) | _ \<Rightarrow> Inl m)
      else if opcode = OP_OVER then
        (case stack m of x2 # x1 # r \<Rightarrow> set_stack m (x1 # x2 # x1 # r) | _ \<Rightarrow> Inl m)
      else if opcode = OP_ROT then
        (case stack m of x3 # x2 # x1 # r \<Rightarrow> set_stack m (x1 # x3 # x2 # r) | _ \<Rightarrow> Inl m)
      else if opcode = OP_SWAP then
        (case stack m of x2 # x1 # r \<Rightarrow> set_stack m (x1 # x2 # r) | _ \<Rightarrow> Inl m)
      else if opcode = OP_TUCK then
        (case stack m of x2 # x1 # r \<Rightarrow> set_stack m (x2 # x1 # x2 # r) | _ \<Rightarrow> Inl m)
      else \<comment> \<open>\<open>OP_SIZE\<close>\<close>
        (case stack m of x # r \<Rightarrow> set_stack m (bn_getvch L (bn_setulong L (word_of_nat (length x))) # x # r)
         | _ \<Rightarrow> Inl m))"

definition op_pick_roll :: "'b bn_lib \<Rightarrow> byte \<Rightarrow> vm \<Rightarrow> vm_result" where
  "op_pick_roll L opcode m =
     (if length (stack m) < 2 then Inl m
      else case CastToBigNum L (hd (stack m)) of None \<Rightarrow> Inl m
      | Some bn \<Rightarrow>
          (let n = bn_getint L bn; s = tl (stack m); m = m\<lparr>stack := s\<rparr>
           in if n < 0 \<or> n \<ge> int (length s) then Inl m
              else (let vch = s ! nat n;
                        s = (if opcode = OP_ROLL then take (nat n) s @ drop (Suc (nat n)) s else s)
                    in set_stack m (vch # s))))"

definition op_equal :: "byte \<Rightarrow> vm \<Rightarrow> vm_result" where
  "op_equal opcode m =
     (case stack m of
        vch2 # vch1 # r \<Rightarrow>
          (let fEqual = (vch1 = vch2); m = m\<lparr>stack := vch_of_bool fEqual # r\<rparr>
           in if opcode = OP_EQUALVERIFY then (if fEqual then set_stack m r else Inl m) else Inr m)
      | _ \<Rightarrow> Inl m)"

section \<open>Numeric operations\<close>

definition bn_bool :: "'b bn_lib \<Rightarrow> bool \<Rightarrow> 'b" where
  "bn_bool L f = bn_of_int L (if f then 1 else 0)"

definition bnZero :: "'b bn_lib \<Rightarrow> 'b" where "bnZero L = bn_of_int L 0"
definition bnOne :: "'b bn_lib \<Rightarrow> 'b" where "bnOne L = bn_of_int L 1"

definition num1 :: "'b bn_lib \<Rightarrow> byte \<Rightarrow> 'b \<Rightarrow> 'b" where
  "num1 L opcode bn =
     (if opcode = OP_1ADD then bn_plus L bn (bnOne L)
      else if opcode = OP_1SUB then bn_minus L bn (bnOne L)
      else if opcode = OP_NEGATE then bn_uminus L bn
      else if opcode = OP_ABS then (if bn_lt L bn (bnZero L) then bn_uminus L bn else bn)
      else if opcode = OP_NOT then bn_bool L (bn_eq L bn (bnZero L))
      else \<comment> \<open>\<open>OP_0NOTEQUAL\<close>\<close> bn_bool L (bn_neq L bn (bnZero L)))"

definition op_num1 :: "'b bn_lib \<Rightarrow> byte \<Rightarrow> vm \<Rightarrow> vm_result" where
  "op_num1 L opcode m =
     (case stack m of [] \<Rightarrow> Inl m
      | x # r \<Rightarrow> (case CastToBigNum L x of None \<Rightarrow> Inl m
                 | Some bn \<Rightarrow> set_stack m (bn_getvch L (num1 L opcode bn) # r)))"

definition num2 :: "'b bn_lib \<Rightarrow> byte \<Rightarrow> 'b \<Rightarrow> 'b \<Rightarrow> 'b" where
  "num2 L opcode bn1 bn2 =
     (let z = bnZero L in
      if opcode = OP_ADD then bn_plus L bn1 bn2
      else if opcode = OP_SUB then bn_minus L bn1 bn2
      else if opcode = OP_BOOLAND then bn_bool L (bn_neq L bn1 z \<and> bn_neq L bn2 z)
      else if opcode = OP_BOOLOR then bn_bool L (bn_neq L bn1 z \<or> bn_neq L bn2 z)
      else if opcode = OP_NUMEQUAL then bn_bool L (bn_eq L bn1 bn2)
      else if opcode = OP_NUMEQUALVERIFY then bn_bool L (bn_eq L bn1 bn2)
      else if opcode = OP_NUMNOTEQUAL then bn_bool L (bn_neq L bn1 bn2)
      else if opcode = OP_LESSTHAN then bn_bool L (bn_lt L bn1 bn2)
      else if opcode = OP_GREATERTHAN then bn_bool L (bn_gt L bn1 bn2)
      else if opcode = OP_LESSTHANOREQUAL then bn_bool L (bn_le L bn1 bn2)
      else if opcode = OP_GREATERTHANOREQUAL then bn_bool L (bn_ge L bn1 bn2)
      else if opcode = OP_MIN then (if bn_lt L bn1 bn2 then bn1 else bn2)
      else \<comment> \<open>\<open>OP_MAX\<close>\<close> (if bn_gt L bn1 bn2 then bn1 else bn2))"

definition op_num2 :: "'b bn_lib \<Rightarrow> byte \<Rightarrow> vm \<Rightarrow> vm_result" where
  "op_num2 L opcode m =
     (case stack m of
        x2 # x1 # r \<Rightarrow>
          (case CastToBigNum L x1 of None \<Rightarrow> Inl m
           | Some bn1 \<Rightarrow> (case CastToBigNum L x2 of None \<Rightarrow> Inl m
               | Some bn2 \<Rightarrow>
                   (let out = bn_getvch L (num2 L opcode bn1 bn2); m = m\<lparr>stack := out # r\<rparr>
                    in if opcode = OP_NUMEQUALVERIFY
                       then (if CastToBool out then set_stack m r else Inl m)
                       else Inr m)))
      | _ \<Rightarrow> Inl m)"

definition op_within :: "'b bn_lib \<Rightarrow> vm \<Rightarrow> vm_result" where
  "op_within L m =
     (case stack m of
        x3 # x2 # x1 # r \<Rightarrow>
          (case CastToBigNum L x1 of None \<Rightarrow> Inl m
           | Some bn1 \<Rightarrow> (case CastToBigNum L x2 of None \<Rightarrow> Inl m
               | Some bn2 \<Rightarrow> (case CastToBigNum L x3 of None \<Rightarrow> Inl m
                   | Some bn3 \<Rightarrow>
                       (let fValue = (bn_le L bn2 bn1 \<and> bn_lt L bn1 bn3)
                        in set_stack m (vch_of_bool fValue # r)))))
      | _ \<Rightarrow> Inl m)"

section \<open>Cryptographic operations\<close>

definition op_hash :: "('k, 'x) crypto_scheme \<Rightarrow> byte \<Rightarrow> vm \<Rightarrow> vm_result" where
  "op_hash C opcode m =
     (case stack m of [] \<Rightarrow> Inl m
      | vch # r \<Rightarrow>
          (let vchHash =
                 (if opcode = OP_RIPEMD160 then RIPEMD160 C vch
                  else if opcode = OP_SHA1 then SHA1 C vch
                  else if opcode = OP_SHA256 then SHA256 C vch
                  else if opcode = OP_HASH160 then bu_bytes (Hash160 C vch)
                  else \<comment> \<open>\<open>OP_HASH256\<close>\<close> bu_bytes (Hash C vch))
           in set_stack m (vchHash # r)))"

definition op_checksig :: "bool \<Rightarrow> sig_checker \<Rightarrow> byte \<Rightarrow> vm \<Rightarrow> vm_result" where
  "op_checksig fStrictEncodings chk opcode m =
     (case stack m of
        vchPubKey # vchSig # r \<Rightarrow>
          (let scriptCode = fst (FindAndDelete (pbegincodehash m) (push_vch [] vchSig));
               fSuccess = (\<not> fStrictEncodings \<or> (IsCanonicalSignature vchSig \<and> IsCanonicalPubKey vchPubKey));
               (fSuccess, cache) =
                 (if fSuccess then chk vchSig vchPubKey scriptCode (vm_cache m) else (fSuccess, vm_cache m));
               m = m\<lparr>stack := vch_of_bool fSuccess # r, vm_cache := cache\<rparr>
           in if opcode = OP_CHECKSIGVERIFY then (if fSuccess then set_stack m r else Inl m) else Inr m)
      | _ \<Rightarrow> Inl m)"

text \<open>The signatures left and the keys left, topmost first.\<close>
fun multisig_loop ::
  "bool \<Rightarrow> sig_checker \<Rightarrow> script \<Rightarrow> valtype list \<Rightarrow> valtype list \<Rightarrow> CSignatureCache \<Rightarrow> bool \<times> CSignatureCache" where
  "multisig_loop strict chk code [] keys cache = (True, cache)"
| "multisig_loop strict chk code (vchSig # sigs) [] cache = (False, cache)"
| "multisig_loop strict chk code (vchSig # sigs) (vchPubKey # keys) cache =
     (let fOk = (\<not> strict \<or> (IsCanonicalSignature vchSig \<and> IsCanonicalPubKey vchPubKey));
          (fOk, cache) = (if fOk then chk vchSig vchPubKey code cache else (fOk, cache));
          sigs' = (if fOk then sigs else vchSig # sigs)
      in if length sigs' > length keys then (False, cache)
         else multisig_loop strict chk code sigs' keys cache)"

definition op_checkmultisig :: "'b bn_lib \<Rightarrow> bool \<Rightarrow> sig_checker \<Rightarrow> byte \<Rightarrow> vm \<Rightarrow> vm_result" where
  "op_checkmultisig L fStrictEncodings chk opcode m =
     (let s = stack m; i = 1 in
      if length s < i then Inl m
      else case CastToBigNum L (s ! (i - 1)) of None \<Rightarrow> Inl m
      | Some bn \<Rightarrow>
        (let nKeysCount = bn_getint L bn in
         if nKeysCount < 0 \<or> nKeysCount > 20 then Inl m
         else
           (let nKeys = nat nKeysCount; m = m\<lparr>nOpCount := nOpCount m + nKeys\<rparr> in
            if nOpCount m > 201 then Inl m
            else
              (let ikey = i + 1; i = ikey + nKeys in
               if length s < i then Inl m
               else case CastToBigNum L (s ! (i - 1)) of None \<Rightarrow> Inl m
               | Some bn \<Rightarrow>
                 (let nSigsCount = bn_getint L bn in
                  if nSigsCount < 0 \<or> nSigsCount > nKeysCount then Inl m
                  else
                    (let nSigs = nat nSigsCount; isig = i + 1; i = isig + nSigs in
                     if length s < i then Inl m
                     else
                       (let sigs = take nSigs (drop (isig - 1) s);
                            keys = take nKeys (drop (ikey - 1) s);
                            scriptCode = fold (\<lambda>vchSig code. fst (FindAndDelete code (push_vch [] vchSig))) sigs (pbegincodehash m);
                            (fSuccess, cache) = multisig_loop fStrictEncodings chk scriptCode sigs keys (vm_cache m);
                            r = drop i s;
                            m = m\<lparr>stack := vch_of_bool fSuccess # r, vm_cache := cache\<rparr>
                        in if opcode = OP_CHECKMULTISIGVERIFY then (if fSuccess then set_stack m r else Inl m)
                           else Inr m)))))))"

section \<open>The loop\<close>

definition disabled_opcodes :: "byte list" where
  "disabled_opcodes =
     [OP_CAT, OP_SUBSTR, OP_LEFT, OP_RIGHT, OP_INVERT, OP_AND, OP_OR, OP_XOR, OP_2MUL, OP_2DIV, OP_MUL, OP_DIV,
      OP_MOD, OP_LSHIFT, OP_RSHIFT]"

text \<open>The \<open>switch\<close>; the argument \<open>pc\<close> is the position after the instruction.\<close>
definition exec_op ::
  "('k, 'x) crypto_scheme \<Rightarrow> 'b bn_lib \<Rightarrow> bool \<Rightarrow> sig_checker \<Rightarrow> byte \<Rightarrow> bool \<Rightarrow> script \<Rightarrow> vm \<Rightarrow> vm_result" where
  "exec_op C L strict chk opcode fExec pc m =
     (if opcode = OP_1NEGATE \<or> (OP_1 \<le> opcode \<and> opcode \<le> OP_16) then op_push_number L opcode m
      else if opcode = OP_NOP \<or> (OP_NOP1 \<le> opcode \<and> opcode \<le> OP_NOP10) then Inr m
      else if opcode = OP_IF \<or> opcode = OP_NOTIF then op_if opcode fExec m
      else if opcode = OP_ELSE then op_else m
      else if opcode = OP_ENDIF then op_endif m
      else if opcode = OP_VERIFY then op_verify m
      else if opcode = OP_RETURN then Inl m
      else if opcode \<in> set [OP_TOALTSTACK, OP_FROMALTSTACK, OP_2DROP, OP_2DUP, OP_3DUP, OP_2OVER, OP_2ROT, OP_2SWAP]
           then op_stack_many opcode m
      else if opcode \<in> set [OP_IFDUP, OP_DEPTH, OP_DROP, OP_DUP, OP_NIP, OP_OVER, OP_ROT, OP_SWAP, OP_TUCK, OP_SIZE]
           then op_stack_one L opcode m
      else if opcode = OP_PICK \<or> opcode = OP_ROLL then op_pick_roll L opcode m
      else if opcode = OP_EQUAL \<or> opcode = OP_EQUALVERIFY then op_equal opcode m
      else if opcode \<in> set [OP_1ADD, OP_1SUB, OP_NEGATE, OP_ABS, OP_NOT, OP_0NOTEQUAL] then op_num1 L opcode m
      else if opcode \<in> set [OP_ADD, OP_SUB, OP_BOOLAND, OP_BOOLOR, OP_NUMEQUAL, OP_NUMEQUALVERIFY, OP_NUMNOTEQUAL,
                           OP_LESSTHAN, OP_GREATERTHAN, OP_LESSTHANOREQUAL, OP_GREATERTHANOREQUAL, OP_MIN, OP_MAX]
           then op_num2 L opcode m
      else if opcode = OP_WITHIN then op_within L m
      else if opcode \<in> set [OP_RIPEMD160, OP_SHA1, OP_SHA256, OP_HASH160, OP_HASH256] then op_hash C opcode m
      else if opcode = OP_CODESEPARATOR then Inr (m\<lparr>pbegincodehash := pc\<rparr>)
      else if opcode = OP_CHECKSIG \<or> opcode = OP_CHECKSIGVERIFY then op_checksig strict chk opcode m
      else if opcode = OP_CHECKMULTISIG \<or> opcode = OP_CHECKMULTISIGVERIFY then op_checkmultisig L strict chk opcode m
      else Inl m)"

text \<open>An instruction past the limits on its size and number: the push or the \<open>switch\<close>, and the size limit.\<close>
definition run_op ::
  "('k, 'x) crypto_scheme \<Rightarrow> 'b bn_lib \<Rightarrow> bool \<Rightarrow> sig_checker \<Rightarrow> byte \<Rightarrow> byte list \<Rightarrow> script \<Rightarrow> vm \<Rightarrow> vm_result" where
  "run_op C L strict chk opcode vchPushValue pc m =
     (let fExec = (\<not> list_ex (\<lambda>f. \<not> f) (vfExec m)) in
      case (if fExec \<and> opcode \<le> OP_PUSHDATA4 then Inr (m\<lparr>stack := vchPushValue # stack m\<rparr>)
            else if fExec \<or> (OP_IF \<le> opcode \<and> opcode \<le> OP_ENDIF)
            then exec_op C L strict chk opcode fExec pc m else Inr m) of
        Inl m \<Rightarrow> Inl m
      | Inr m \<Rightarrow> if length (stack m) + length (altstack m) > 1000 then Inl m else Inr m)"

text \<open>One instruction, already read as \<open>opcode\<close> and \<open>vchPushValue\<close>.\<close>
definition step ::
  "('k, 'x) crypto_scheme \<Rightarrow> 'b bn_lib \<Rightarrow> bool \<Rightarrow> sig_checker \<Rightarrow> byte \<Rightarrow> byte list \<Rightarrow> script \<Rightarrow> vm \<Rightarrow> vm_result" where
  "step C L strict chk opcode vchPushValue pc m =
     (if length vchPushValue > MAX_SCRIPT_ELEMENT_SIZE then Inl m
      else
        (let m = (if opcode > OP_16 then m\<lparr>nOpCount := nOpCount m + 1\<rparr> else m) in
         if opcode > OP_16 \<and> nOpCount m > 201 then Inl m
         else if opcode \<in> set disabled_opcodes then Inl m
         else run_op C L strict chk opcode vchPushValue pc m))"

function eval_loop ::
  "('k, 'x) crypto_scheme \<Rightarrow> 'b bn_lib \<Rightarrow> bool \<Rightarrow> sig_checker \<Rightarrow> script \<Rightarrow> vm \<Rightarrow> vm_result" where
  "eval_loop C L strict chk pc m =
     (if pc = [] then (if vfExec m \<noteq> [] then Inl m else Inr m)
      else case GetOp2 pc of (fRet, opcode, vchPushValue, pc') \<Rightarrow>
        if \<not> fRet then Inl m
        else case step C L strict chk opcode vchPushValue pc' m of
               Inl m \<Rightarrow> Inl m
             | Inr m \<Rightarrow> eval_loop C L strict chk pc' m)"
  by pat_completeness auto
termination
  by (relation "measure (\<lambda>(C, L, strict, chk, pc, m). length pc)") (auto dest!: GetOp2_shorter [OF sym])

declare eval_loop.simps [simp del]

definition eval_script ::
  "('k, 'x) crypto_scheme \<Rightarrow> 'b bn_lib \<Rightarrow> bool \<Rightarrow> sig_checker \<Rightarrow> valtype list \<Rightarrow> script \<Rightarrow> CSignatureCache \<Rightarrow> vm_result" where
  "eval_script C L strict chk s script cache =
     (let m = \<lparr>stack = s, altstack = [], vfExec = [], pbegincodehash = script, nOpCount = 0, vm_cache = cache\<rparr>
      in if length script > 10000 then Inl m else eval_loop C L strict chk script m)"

text \<open>The result, the stack and the cache after the call.\<close>
definition eval_result :: "vm_result \<Rightarrow> bool \<times> valtype list \<times> CSignatureCache" where
  "eval_result r = (case r of Inl m \<Rightarrow> (False, stack m, vm_cache m) | Inr m \<Rightarrow> (True, stack m, vm_cache m))"

definition EvalScript ::
  "('k, 'x) crypto_scheme \<Rightarrow> 'b bn_lib \<Rightarrow> sig_env \<Rightarrow> valtype list \<Rightarrow> script \<Rightarrow> CTransaction \<Rightarrow> nat \<Rightarrow> u32 \<Rightarrow> u32 \<Rightarrow>
   CSignatureCache \<Rightarrow> bool \<times> valtype list \<times> CSignatureCache" where
  "EvalScript C L E s script txTo nIn flags nHashType cache =
     (let fStrictEncodings = (flags AND SCRIPT_VERIFY_STRICTENC \<noteq> 0);
          chk = (\<lambda>vchSig vchPubKey scriptCode. CheckSig C E vchSig vchPubKey scriptCode txTo nIn nHashType flags)
      in eval_result (eval_script C L fStrictEncodings chk s script cache))"

text \<open>\<open>None\<close>: the assertion that the copied stack is not empty fails.\<close>
definition VerifyScript ::
  "('k, 'x) crypto_scheme \<Rightarrow> 'b bn_lib \<Rightarrow> sig_env \<Rightarrow> script \<Rightarrow> script \<Rightarrow> CTransaction \<Rightarrow> nat \<Rightarrow> u32 \<Rightarrow> u32 \<Rightarrow>
   CSignatureCache \<Rightarrow> (bool \<times> CSignatureCache) option" where
  "VerifyScript C L E sSig sPubKey txTo nIn flags nHashType cache =
     (case EvalScript C L E [] sSig txTo nIn flags nHashType cache of (ok, s, cache) \<Rightarrow>
      if \<not> ok then Some (False, cache)
      else
        let stackCopy = (if flags AND SCRIPT_VERIFY_P2SH \<noteq> 0 then s else [])
        in case EvalScript C L E s sPubKey txTo nIn flags nHashType cache of (ok, s, cache) \<Rightarrow>
           if \<not> ok then Some (False, cache)
           else if s = [] then Some (False, cache)
           else if CastToBool (hd s) = False then Some (False, cache)
           else if flags AND SCRIPT_VERIFY_P2SH \<noteq> 0 \<and> IsPayToScriptHash sPubKey
           then (if \<not> IsPushOnly sSig then Some (False, cache)
                 else if stackCopy = [] then None
                 else
                   let pubKey2 = hd stackCopy; stackCopy = tl stackCopy
                   in case EvalScript C L E stackCopy pubKey2 txTo nIn flags nHashType cache of (ok, s, cache) \<Rightarrow>
                      if \<not> ok then Some (False, cache)
                      else if s = [] then Some (False, cache)
                      else Some (CastToBool (hd s), cache))
           else Some (True, cache))"

section \<open>The loop, instruction by instruction\<close>

lemma eval_loop_Nil [simp]:
  "eval_loop C L strict chk [] m = (if vfExec m \<noteq> [] then Inl m else Inr m)"
  by (subst eval_loop.simps) simp

lemma eval_loop_step:
  "pc \<noteq> [] \<Longrightarrow> GetOp2 pc = (True, opcode, v, pc') \<Longrightarrow>
   eval_loop C L strict chk pc m =
     (case step C L strict chk opcode v pc' m of Inl m \<Rightarrow> Inl m | Inr m \<Rightarrow> eval_loop C L strict chk pc' m)"
  by (subst eval_loop.simps) simp

section \<open>Multisignature\<close>

text \<open>Signatures in order against keys in order: the first key that fits a signature can be taken.\<close>

definition matching :: "('s \<Rightarrow> 'k \<Rightarrow> bool) \<Rightarrow> 's list \<Rightarrow> 'k list \<Rightarrow> bool" where
  "matching G sigs keys \<longleftrightarrow> (\<exists>ks. subseq ks keys \<and> list_all2 G sigs ks)"

lemma matching_Nil [simp]: "matching G [] keys"
  by (auto simp: matching_def)

lemma matching_Nil2 [simp]: "\<not> matching G (s # sigs) []"
  by (auto simp: matching_def list_all2_Cons1)

lemma matching_length: "matching G sigs keys \<Longrightarrow> length sigs \<le> length keys"
  by (auto simp: matching_def dest!: list_all2_lengthD list_emb_length)

lemma matching_Cons:
  "matching G (s # sigs) (k # keys) \<longleftrightarrow> (if G s k then matching G sigs keys else matching G (s # sigs) keys)"
proof (cases "G s k")
  case True
  have "matching G sigs keys" if m: "matching G (s # sigs) (k # keys)"
  proof -
    obtain k' ks where "subseq (k' # ks) (k # keys)" "list_all2 G sigs ks"
      using m by (auto simp: matching_def list_all2_Cons1)
    then have "subseq ks keys" by (metis subseq_Cons' subseq_Cons2' subseq_order.trans subseq_Cons2_iff)
    then show ?thesis using \<open>list_all2 G sigs ks\<close> by (auto simp: matching_def)
  qed
  moreover have "matching G (s # sigs) (k # keys)" if m: "matching G sigs keys"
  proof -
    obtain ks where "subseq ks keys" "list_all2 G sigs ks"
      using m by (auto simp: matching_def)
    with True show ?thesis
      by (auto simp: matching_def intro!: exI [of _ "k # ks"])
  qed
  ultimately show ?thesis using True by auto
next
  case False
  have "subseq ks (k # keys) \<and> list_all2 G (s # sigs) ks \<longleftrightarrow> subseq ks keys \<and> list_all2 G (s # sigs) ks" for ks
    using False by (cases ks) (auto simp: subseq_Cons2_iff intro: list_emb_Cons)
  then show ?thesis using False by (simp add: matching_def)
qed

lemma multisig_matching:
  assumes "\<And>s k c. fst (chk s k code c) = ok s k"
  shows "length sigs \<le> length keys \<Longrightarrow>
    fst (multisig_loop strict chk code sigs keys cache) \<longleftrightarrow>
      matching (\<lambda>s k. (\<not> strict \<or> (IsCanonicalSignature s \<and> IsCanonicalPubKey k)) \<and> ok s k) sigs keys"
proof (induction keys arbitrary: sigs cache)
  case (Cons k keys)
  show ?case
  proof (cases sigs)
    case s: (Cons s sigs')
    let ?G = "\<lambda>s k. (\<not> strict \<or> (IsCanonicalSignature s \<and> IsCanonicalPubKey k)) \<and> ok s k"
    obtain r c where r: "(if \<not> strict \<or> (IsCanonicalSignature s \<and> IsCanonicalPubKey k) then chk s k code cache
        else (False, cache)) = (r, c)"
      by (metis surj_pair)
    then have G: "r = ?G s k" using assms [of s k cache] by (auto split: if_splits)
    let ?sigs = "if r then sigs' else s # sigs'"
    have "multisig_loop strict chk code sigs (k # keys) cache =
        (if length ?sigs > length keys then (False, c) else multisig_loop strict chk code ?sigs keys c)"
      using r by (auto simp: s Let_def split: if_splits)
    then show ?thesis
      using Cons.IH [of ?sigs c] matching_length [of ?G ?sigs keys] G
      by (auto simp: s matching_Cons not_less)
  qed simp
qed simp

section \<open>The cache does not matter\<close>

text \<open>A checker that decides \<open>ok\<close> and keeps an invariant of the cache it threads.\<close>

locale sig_oracle =
  fixes chk :: sig_checker and ok :: "valtype \<Rightarrow> valtype \<Rightarrow> script \<Rightarrow> bool" and sound :: "CSignatureCache \<Rightarrow> bool"
  assumes decides: "sound c \<Longrightarrow> fst (chk s k code c) = ok s k code"
    and keeps: "sound c \<Longrightarrow> sound (snd (chk s k code c))"

text \<open>The checker without a cache.\<close>
definition pure_checker :: "(valtype \<Rightarrow> valtype \<Rightarrow> script \<Rightarrow> bool) \<Rightarrow> sig_checker" where
  "pure_checker ok s k code c = (ok s k code, c)"

interpretation pure: sig_oracle "pure_checker ok" ok "\<lambda>_. True"
  by unfold_locales (simp_all add: pure_checker_def)

text \<open>The pairs of results of a machine with a cache and of one without.\<close>

definition uncached :: "vm \<Rightarrow> vm" where
  "uncached m = m\<lparr>vm_cache := sigcache_init\<rparr>"

lemma uncached_simps [simp]:
  "stack (uncached m) = stack m" "altstack (uncached m) = altstack m" "vfExec (uncached m) = vfExec m"
  "pbegincodehash (uncached m) = pbegincodehash m" "nOpCount (uncached m) = nOpCount m"
  "vm_cache (uncached m) = sigcache_init"
  by (simp_all add: uncached_def)

lemma uncached_update [simp]:
  "uncached (m\<lparr>stack := a\<rparr>) = uncached m\<lparr>stack := a\<rparr>"
  "uncached (m\<lparr>altstack := b\<rparr>) = uncached m\<lparr>altstack := b\<rparr>"
  "uncached (m\<lparr>vfExec := d\<rparr>) = uncached m\<lparr>vfExec := d\<rparr>"
  "uncached (m\<lparr>pbegincodehash := e\<rparr>) = uncached m\<lparr>pbegincodehash := e\<rparr>"
  "uncached (m\<lparr>nOpCount := n\<rparr>) = uncached m\<lparr>nOpCount := n\<rparr>"
  "uncached (m\<lparr>vm_cache := c\<rparr>) = uncached m"
  by (simp_all add: uncached_def)

definition agrees :: "(CSignatureCache \<Rightarrow> bool) \<Rightarrow> vm_result \<Rightarrow> vm_result \<Rightarrow> bool" where
  "agrees sound r r' \<longleftrightarrow>
     (case r of
        Inl m \<Rightarrow> sound (vm_cache m) \<and> r' = Inl (uncached m)
      | Inr m \<Rightarrow> sound (vm_cache m) \<and> r' = Inr (uncached m))"

lemma agrees_simps [simp]:
  "agrees sound (Inl m) r' \<longleftrightarrow> sound (vm_cache m) \<and> r' = Inl (uncached m)"
  "agrees sound (Inr m) r' \<longleftrightarrow> sound (vm_cache m) \<and> r' = Inr (uncached m)"
  by (simp_all add: agrees_def)

lemma agrees_if:
  "agrees sound x x' \<Longrightarrow> agrees sound y y' \<Longrightarrow> agrees sound (if b then x else y) (if b then x' else y')"
  by simp

lemmas op_defs = op_push_number_def op_if_def op_else_def op_endif_def op_verify_def set_stack_def op_stack_many_def
  op_stack_one_def op_pick_roll_def op_equal_def op_num1_def op_num2_def op_within_def op_hash_def

lemma agrees_ops:
  assumes "sound (vm_cache m)"
  shows "agrees sound (op_push_number L opc m) (op_push_number L opc (uncached m))"
    and "agrees sound (op_if opc f m) (op_if opc f (uncached m))"
    and "agrees sound (op_else m) (op_else (uncached m))"
    and "agrees sound (op_endif m) (op_endif (uncached m))"
    and "agrees sound (op_verify m) (op_verify (uncached m))"
    and "agrees sound (op_equal opc m) (op_equal opc (uncached m))"
    and "agrees sound (op_num1 L opc m) (op_num1 L opc (uncached m))"
    and "agrees sound (op_num2 L opc m) (op_num2 L opc (uncached m))"
    and "agrees sound (op_within L m) (op_within L (uncached m))"
    and "agrees sound (op_hash C opc m) (op_hash C opc (uncached m))"
    and "agrees sound (op_pick_roll L opc m) (op_pick_roll L opc (uncached m))"
  using assms by (auto simp: op_defs Let_def split: list.split option.split if_splits)

lemma agrees_stack:
  assumes "sound (vm_cache m)"
  shows "agrees sound (op_stack_many opc m) (op_stack_many opc (uncached m))"
    and "agrees sound (op_stack_one L opc m) (op_stack_one L opc (uncached m))"
  using assms
  by (simp_all add: op_stack_many_def op_stack_one_def set_stack_def split: list.split)

context sig_oracle begin

lemma agrees_checksig:
  assumes "sound (vm_cache m)"
  shows "agrees sound (op_checksig strict chk opc m) (op_checksig strict (pure_checker ok) opc (uncached m))"
proof -
  have d: "r = ok s k code \<and> sound c" if "chk s k code (vm_cache m) = (r, c)" for s k code r c
    using that decides [OF assms, of s k code] keeps [OF assms, of s k code] by simp
  show ?thesis
    using assms
    by (auto simp: op_checksig_def pure_checker_def set_stack_def Let_def dest!: d split: list.split prod.split)
qed

lemma multisig_agrees:
  assumes "sound cache"
  shows "fst (multisig_loop strict chk code sigs keys cache)
       = fst (multisig_loop strict (pure_checker ok) code sigs keys cache')
     \<and> snd (multisig_loop strict (pure_checker ok) code sigs keys cache') = cache'
     \<and> sound (snd (multisig_loop strict chk code sigs keys cache))"
  using assms
proof (induction keys arbitrary: sigs cache)
  case Nil
  then show ?case by (cases sigs) simp_all
next
  case (Cons k keys)
  show ?case
  proof (cases sigs)
    case s: (Cons s sigs')
    obtain r c where r: "chk s k code cache = (r, c)" by (metis surj_pair)
    then have "r = ok s k code" "sound c"
      using decides [OF Cons.prems, of s k code] keeps [OF Cons.prems, of s k code] by simp_all
    then show ?thesis
      using Cons r by (auto simp: s pure_checker_def Let_def)
  qed (use Cons in simp)
qed

lemma agrees_multisig:
  assumes "sound (vm_cache m)"
  shows "agrees sound (op_checkmultisig L strict chk opc m)
    (op_checkmultisig L strict (pure_checker ok) opc (uncached m))"
proof -
  have d: "r = r' \<and> c' = sigcache_init \<and> sound c"
    if "multisig_loop strict chk code sigs keys (vm_cache m) = (r, c)"
      and "multisig_loop strict (pure_checker ok) code sigs keys sigcache_init = (r', c')"
    for code sigs keys r c r' c'
    using that multisig_agrees [OF assms, of strict code sigs keys sigcache_init] by simp
  show ?thesis
    using assms
    by (auto simp: op_checkmultisig_def set_stack_def Let_def split: option.split prod.split dest: d)
qed

lemma agrees_exec:
  "sound (vm_cache m) \<Longrightarrow>
   agrees sound (exec_op C L strict chk opc f pc m) (exec_op C L strict (pure_checker ok) opc f pc (uncached m))"
  unfolding exec_op_def
  by (intro agrees_if agrees_ops agrees_stack agrees_checksig agrees_multisig)
    simp_all

lemma agrees_run:
  assumes s: "sound (vm_cache m)"
  shows "agrees sound (run_op C L strict chk opc v pc m) (run_op C L strict (pure_checker ok) opc v pc (uncached m))"
proof -
  let ?f = "\<not> list_ex (\<lambda>f. \<not> f) (vfExec m)"
  let ?x = "if ?f \<and> opc \<le> OP_PUSHDATA4 then Inr (m\<lparr>stack := v # stack m\<rparr>)
       else if ?f \<or> (OP_IF \<le> opc \<and> opc \<le> OP_ENDIF) then exec_op C L strict chk opc ?f pc m else Inr m"
  let ?y = "if ?f \<and> opc \<le> OP_PUSHDATA4 then Inr (uncached m\<lparr>stack := v # stack m\<rparr>)
       else if ?f \<or> (OP_IF \<le> opc \<and> opc \<le> OP_ENDIF) then exec_op C L strict (pure_checker ok) opc ?f pc (uncached m)
       else Inr (uncached m)"
  have "agrees sound ?x ?y"
    using s by (intro agrees_if agrees_exec) simp_all
  then have "agrees sound (case ?x of Inl m \<Rightarrow> Inl m
        | Inr m \<Rightarrow> if length (stack m) + length (altstack m) > 1000 then Inl m else Inr m)
      (case ?y of Inl m \<Rightarrow> Inl m
        | Inr m \<Rightarrow> if length (stack m) + length (altstack m) > 1000 then Inl m else Inr m)"
    by (cases ?x) simp_all
  then show ?thesis
    unfolding run_op_def Let_def uncached_simps .
qed

lemma agrees_step:
  assumes "sound (vm_cache m)"
  shows "agrees sound (step C L strict chk opc v pc m) (step C L strict (pure_checker ok) opc v pc (uncached m))"
  using assms agrees_run [of "m\<lparr>nOpCount := nOpCount m + 1\<rparr>" C L strict opc v pc] agrees_run [of m C L strict opc v pc]
  by (auto simp: step_def Let_def)

lemma agrees_loop:
  "sound (vm_cache m) \<Longrightarrow>
   agrees sound (eval_loop C L strict chk pc m) (eval_loop C L strict (pure_checker ok) pc (uncached m))"
proof (induction "length pc" arbitrary: pc m rule: less_induct)
  case less
  show ?case
  proof (cases "pc = []")
    case False
    obtain r opc v pc' where g: "GetOp2 pc = (r, opc, v, pc')" by (metis prod_cases4)
    show ?thesis
    proof (cases r)
      case True
      then have "length pc' < length pc" using g GetOp2_shorter by metis
      moreover note agrees_step [OF less.prems, of C L strict opc v pc']
      ultimately show ?thesis
        using False g True less.hyps
        by (cases "step C L strict chk opc v pc' m") (simp_all add: eval_loop_step)
    qed (use False g less.prems in \<open>simp add: eval_loop.simps\<close>)
  qed (use less.prems in simp)
qed

end

interpretation checksig: sig_oracle
    "\<lambda>s k code. CheckSig C E s k code tx n ht flags" "\<lambda>s k code. sig_valid C s k code tx n ht" "cache_sound C"
proof unfold_locales
  fix c s k code
  assume "cache_sound C c"
  from CheckSig_sound [OF this, of E s k code tx n ht flags]
  show "fst (CheckSig C E s k code tx n ht flags c) = sig_valid C s k code tx n ht"
    and "cache_sound C (snd (CheckSig C E s k code tx n ht flags c))"
    by (metis prod.collapse)+
qed

section \<open>The verdict\<close>

text \<open>Evaluation with a checker that has no cache.\<close>
definition eval_spec ::
  "('k, 'x) crypto_scheme \<Rightarrow> 'b bn_lib \<Rightarrow> bool \<Rightarrow> (valtype \<Rightarrow> valtype \<Rightarrow> script \<Rightarrow> bool) \<Rightarrow> valtype list \<Rightarrow> script \<Rightarrow>
   bool \<times> valtype list" where
  "eval_spec C L strict ok s script =
     (case eval_script C L strict (pure_checker ok) s script sigcache_init of
        Inl m \<Rightarrow> (False, stack m) | Inr m \<Rightarrow> (True, stack m))"

definition top_true :: "bool \<times> valtype list \<Rightarrow> bool" where
  "top_true r \<longleftrightarrow> fst r \<and> snd r \<noteq> [] \<and> CastToBool (hd (snd r))"

text \<open>What the three evaluations of the code decide together.\<close>
definition verify_spec ::
  "('k, 'x) crypto_scheme \<Rightarrow> 'b bn_lib \<Rightarrow> bool \<Rightarrow> bool \<Rightarrow> (valtype \<Rightarrow> valtype \<Rightarrow> script \<Rightarrow> bool) \<Rightarrow> script \<Rightarrow> script \<Rightarrow> bool" where
  "verify_spec C L strict p2sh ok sSig sPubKey \<longleftrightarrow>
     fst (eval_spec C L strict ok [] sSig)
     \<and> top_true (eval_spec C L strict ok (snd (eval_spec C L strict ok [] sSig)) sPubKey)
     \<and> (p2sh \<and> IsPayToScriptHash sPubKey \<longrightarrow>
          IsPushOnly sSig
          \<and> snd (eval_spec C L strict ok [] sSig) \<noteq> []
          \<and> top_true (eval_spec C L strict ok (tl (snd (eval_spec C L strict ok [] sSig)))
                        (hd (snd (eval_spec C L strict ok [] sSig)))))"

lemma EvalScript_spec:
  assumes "cache_sound C cache"
  shows "\<exists>cache'. cache_sound C cache' \<and>
    EvalScript C L E s script tx n flags ht cache =
      (fst (eval_spec C L (flags AND SCRIPT_VERIFY_STRICTENC \<noteq> 0) (\<lambda>s k code. sig_valid C s k code tx n ht) s script),
       snd (eval_spec C L (flags AND SCRIPT_VERIFY_STRICTENC \<noteq> 0) (\<lambda>s k code. sig_valid C s k code tx n ht) s script),
       cache')"
proof -
  let ?strict = "flags AND SCRIPT_VERIFY_STRICTENC \<noteq> 0" and ?ok = "\<lambda>s k code. sig_valid C s k code tx n ht"
  let ?m = "\<lparr>stack = s, altstack = [], vfExec = [], pbegincodehash = script, nOpCount = 0, vm_cache = cache\<rparr>"
  let ?r = "eval_script C L ?strict (\<lambda>s k code. CheckSig C E s k code tx n ht flags) s script cache"
  have u: "uncached ?m = \<lparr>stack = s, altstack = [], vfExec = [], pbegincodehash = script, nOpCount = 0,
      vm_cache = sigcache_init\<rparr>"
    by (simp add: uncached_def)
  have "agrees (cache_sound C) (eval_loop C L ?strict (\<lambda>s k code. CheckSig C E s k code tx n ht flags) script ?m)
      (eval_loop C L ?strict (pure_checker ?ok) script (uncached ?m))"
    by (rule sig_oracle.agrees_loop [OF checksig.sig_oracle_axioms]) (simp add: assms)
  then have "agrees (cache_sound C) ?r (eval_script C L ?strict (pure_checker ?ok) s script sigcache_init)"
    unfolding u eval_script_def Let_def using assms by (simp add: u)
  then show ?thesis
    by (cases ?r) (auto simp: EvalScript_def eval_result_def eval_spec_def Let_def)
qed

lemma GetOp2_op: "0x4e < opc \<Longrightarrow> GetOp2 (opc # rest) = (True, opc, [], rest)"
  by (simp add: GetOp2_def flip: not_less)

lemma eval_loop_op:
  "0x4e < opc \<Longrightarrow> eval_loop C L strict chk (opc # rest) m =
     (case step C L strict chk opc [] rest m of Inl m \<Rightarrow> Inl m | Inr m \<Rightarrow> eval_loop C L strict chk rest m)"
  by (rule eval_loop_step) (simp_all add: GetOp2_op)

lemma eval_loop_push:
  "length b < 2 ^ 32 \<Longrightarrow> eval_loop C L strict chk (push_data b @ rest) m =
     (case step C L strict chk (push_op b) b rest m of Inl m \<Rightarrow> Inl m | Inr m \<Rightarrow> eval_loop C L strict chk rest m)"
  by (rule eval_loop_step) (simp_all add: GetOp2_push_data)

lemmas exec_defs = step_def run_op_def exec_op_def disabled_opcodes_def Let_def MAX_SCRIPT_ELEMENT_SIZE_def

lemma step_push:
  assumes "vfExec m = []" and "length b \<le> 520" and "length (stack m) + length (altstack m) < 1000"
  shows "step C L strict chk (push_op b) b pc m = Inr (m\<lparr>stack := b # stack m\<rparr>)"
proof -
  have "push_op b \<notin> set disabled_opcodes"
    using push_op_le [of b] by (auto simp: disabled_opcodes_def)
  moreover have "\<not> OP_16 < push_op b" using push_op_le [of b] by (simp add: word_less_nat_alt word_le_nat_alt)
  ultimately show ?thesis
    using assms push_op_le [of b] by (simp add: step_def run_op_def MAX_SCRIPT_ELEMENT_SIZE_def)
qed

lemma IsPayToScriptHash_eq:
  "IsPayToScriptHash s \<longleftrightarrow> (\<exists>h. length h = 20 \<and> s = OP_HASH160 # push_data h @ [OP_EQUAL])"
proof
  assume a: "IsPayToScriptHash s"
  then obtain x y r where s: "s = x # y # r" and r: "length r = 21"
    by (cases s; cases "tl s") (auto simp: IsPayToScriptHash_def)
  have "r = take 20 r @ [r ! 20]" using r by (simp add: take_Suc_conv_app_nth [symmetric])
  then show "\<exists>h. length h = 20 \<and> s = OP_HASH160 # push_data h @ [OP_EQUAL]"
    using a s r by (intro exI [of _ "take 20 r"]) (auto simp: IsPayToScriptHash_def push_data_def)
qed (auto simp: IsPayToScriptHash_def push_data_def nth_append)

text \<open>An executed instruction of the \<open>switch\<close> within the limits.\<close>

lemma step_exec:
  assumes "vfExec m = []" and "OP_16 < opc" and "opc \<notin> set disabled_opcodes" and "nOpCount m < 201"
  shows "step C L strict chk opc [] pc m =
    (case exec_op C L strict chk opc True pc (m\<lparr>nOpCount := nOpCount m + 1\<rparr>) of
       Inl m \<Rightarrow> Inl m | Inr m \<Rightarrow> if length (stack m) + length (altstack m) > 1000 then Inl m else Inr m)"
proof -
  have "\<not> opc \<le> OP_PUSHDATA4" using assms(2) by (simp add: word_less_nat_alt word_le_nat_alt)
  with assms show ?thesis by (simp add: step_def run_op_def)
qed

lemma exec_basic:
  "exec_op C L strict chk OP_DUP f pc m = op_stack_one L OP_DUP m"
  "exec_op C L strict chk OP_HASH160 f pc m = op_hash C OP_HASH160 m"
  "exec_op C L strict chk OP_EQUAL f pc m = op_equal OP_EQUAL m"
  "exec_op C L strict chk OP_EQUALVERIFY f pc m = op_equal OP_EQUALVERIFY m"
  "exec_op C L strict chk OP_CHECKSIG f pc m = op_checksig strict chk OP_CHECKSIG m"
  by (simp_all add: exec_op_def)

lemma p2sh_eval:
  assumes h: "length h = 20" and m: "stack m = x # r" "altstack m = []" "vfExec m = []" "nOpCount m = 0"
    and "length r < 999"
  shows "eval_loop C L strict chk (OP_HASH160 # push_data h @ [OP_EQUAL]) m =
    Inr (m\<lparr>stack := vch_of_bool (bu_bytes (Hash160 C x) = h) # r, nOpCount := 2\<rparr>)"
  using assms
  by (simp add: eval_loop_op eval_loop_push step_exec disabled_opcodes_def exec_basic op_hash_def set_stack_def
      step_push op_equal_def)

end
