(* ===== verification/ScriptEval.thy ===== *)
theory ScriptEval
  imports Interpreter
begin

text \<open>
  What script evaluation decides: verification refines a specification over signature validity, the
  standard scripts unlock exactly for the right data, the numeric and multisignature operations have
  their mathematical meaning, and successful scripts respect the resource limits.
\<close>

section \<open>Standard scripts\<close>

definition p2pkh :: "byte list \<Rightarrow> script" where
  "p2pkh h = OP_DUP # OP_HASH160 # push_data h @ [OP_EQUALVERIFY, OP_CHECKSIG]"

definition pushes :: "byte list list \<Rightarrow> script" where
  "pushes bs = concat (map push_data bs)"

lemma eval_pushes:
  assumes "list_all (\<lambda>b. length b \<le> 520) bs" and "vfExec m = []" and "length (stack m) + length (altstack m) + length bs \<le> 1000"
  shows "eval_loop C L strict chk (pushes bs) m = Inr (m\<lparr>stack := rev bs @ stack m\<rparr>)"
  using assms
proof (induction bs arbitrary: m)
  case (Cons b bs)
  let ?m = "m\<lparr>stack := b # stack m\<rparr>"
  have "eval_loop C L strict chk (pushes bs) ?m = Inr (?m\<lparr>stack := rev bs @ stack ?m\<rparr>)"
    by (rule Cons.IH) (use Cons.prems in auto)
  then show ?case
    using Cons.prems by (simp add: pushes_def eval_loop_push step_push)
qed (simp add: pushes_def)

lemma eval_spec_pushes:
  "list_all (\<lambda>b. length b \<le> 520) bs \<Longrightarrow> length bs \<le> 1000 \<Longrightarrow> length (pushes bs) \<le> 10000 \<Longrightarrow>
   eval_spec C L strict ok [] (pushes bs) = (True, rev bs)"
  by (simp add: eval_spec_def eval_script_def eval_pushes)

lemma p2pkh_eval:
  assumes h: "length h = 20"
  shows "top_true (eval_spec C L strict ok [pub, sg] (p2pkh h)) \<longleftrightarrow>
    bu_bytes (Hash160 C pub) = h \<and> (strict \<longrightarrow> IsCanonicalSignature sg \<and> IsCanonicalPubKey pub)
    \<and> ok sg pub (fst (FindAndDelete (p2pkh h) (push_vch [] sg)))"
proof -
  have "length (p2pkh h) \<le> 10000" using h by (simp add: p2pkh_def push_data_def)
  then show ?thesis
    using h
    by (auto simp: eval_spec_def eval_script_def top_true_def p2pkh_def eval_loop_op eval_loop_push step_exec
        disabled_opcodes_def exec_basic op_stack_one_def op_hash_def set_stack_def step_push op_equal_def
        op_checksig_def pure_checker_def vch_of_bool_def vchTrue_def vchFalse_def Let_def)
qed

lemma p2sh_spec:
  assumes h: "length h = 20" and r: "length s < 1000"
  shows "eval_spec C L strict ok s (OP_HASH160 # push_data h @ [OP_EQUAL]) =
    (case s of [] \<Rightarrow> (False, []) | x # r \<Rightarrow> (True, vch_of_bool (bu_bytes (Hash160 C x) = h) # r))"
proof -
  have l: "length (push_data h) \<le> 100" using h by (simp add: push_data_def)
  show ?thesis
  proof (cases s)
    case Nil
    with l show ?thesis
      by (simp add: eval_spec_def eval_script_def eval_loop_op step_exec disabled_opcodes_def exec_basic op_hash_def)
  next
    case (Cons x r)
    with assms l show ?thesis
      by (simp add: eval_spec_def eval_script_def p2sh_eval)
  qed
qed

section \<open>Verification\<close>

lemma p2sh_nonempty:
  assumes "IsPayToScriptHash script" and "fst (eval_spec C L strict ok s script)"
  shows "s \<noteq> []"
  using assms p2sh_spec [of _ "[]" C L strict ok] by (auto simp: IsPayToScriptHash_eq)

lemma VerifyScript_verdict:
  assumes "cache_sound C cache"
  shows "\<exists>cache'. cache_sound C cache' \<and> VerifyScript C L E sSig sPubKey tx n flags ht cache =
    Some (verify_spec C L (flags AND SCRIPT_VERIFY_STRICTENC \<noteq> 0) (flags AND SCRIPT_VERIFY_P2SH \<noteq> 0)
            (\<lambda>s k code. sig_valid C s k code tx n ht) sSig sPubKey, cache')"
proof -
  let ?ev = "eval_spec C L (flags AND SCRIPT_VERIFY_STRICTENC \<noteq> 0) (\<lambda>s k code. sig_valid C s k code tx n ht)"
  let ?p2sh = "flags AND SCRIPT_VERIFY_P2SH \<noteq> 0"
  obtain c1 where e1: "EvalScript C L E [] sSig tx n flags ht cache = (fst (?ev [] sSig), snd (?ev [] sSig), c1)"
    and c1: "cache_sound C c1"
    using EvalScript_spec [OF assms] by blast
  let ?s = "snd (?ev [] sSig)"
  obtain c2 where e2: "EvalScript C L E ?s sPubKey tx n flags ht c1 = (fst (?ev ?s sPubKey), snd (?ev ?s sPubKey), c2)"
    and c2: "cache_sound C c2"
    using EvalScript_spec [OF c1] by blast
  obtain c3 where e3: "EvalScript C L E (tl ?s) (hd ?s) tx n flags ht c2 =
      (fst (?ev (tl ?s) (hd ?s)), snd (?ev (tl ?s) (hd ?s)), c3)" and c3: "cache_sound C c3"
    using EvalScript_spec [OF c2] by blast
  have ne: "?s \<noteq> []" if "IsPayToScriptHash sPubKey" "fst (?ev ?s sPubKey)"
    using p2sh_nonempty [OF that] .
  show ?thesis
    using assms c1 c2 c3 ne
    by (auto simp: VerifyScript_def verify_spec_def top_true_def e1 e2 e3 Let_def)
qed

text \<open>C5: Script verification decides the specification over signature validity: the unlocking script runs, the locking
  script runs on the stack it leaves and ends with a true top, and for a pay-to-script-hash output the unlocking script only
  pushes and the pushed script runs to a true top on the rest of the stack.  The assertion of the code never fails, and neither the
  cache of signatures, as long as it is sound, nor its options change the verdict; the cache stays sound.\<close>

theorem VerifyScript_spec:
  assumes "cache_sound C cache"
  shows "\<exists>cache'. cache_sound C cache' \<and> VerifyScript C L E sSig sPubKey tx n flags ht cache =
    Some (verify_spec C L (flags AND SCRIPT_VERIFY_STRICTENC \<noteq> 0) (flags AND SCRIPT_VERIFY_P2SH \<noteq> 0)
            (\<lambda>s k code. sig_valid C s k code tx n ht) sSig sPubKey, cache')"
  by (rule VerifyScript_verdict [OF assms])

section \<open>Numbers on the stack\<close>

text \<open>The integer that each numeric operation computes.\<close>

definition num1_spec :: "byte \<Rightarrow> int \<Rightarrow> int" where
  "num1_spec opc v =
     (if opc = OP_1ADD then v + 1 else if opc = OP_1SUB then v - 1 else if opc = OP_NEGATE then - v
      else if opc = OP_ABS then \<bar>v\<bar> else if opc = OP_NOT then of_bool (v = 0) else of_bool (v \<noteq> 0))"

definition num2_spec :: "byte \<Rightarrow> int \<Rightarrow> int \<Rightarrow> int" where
  "num2_spec opc v w =
     (if opc = OP_ADD then v + w else if opc = OP_SUB then v - w
      else if opc = OP_BOOLAND then of_bool (v \<noteq> 0 \<and> w \<noteq> 0) else if opc = OP_BOOLOR then of_bool (v \<noteq> 0 \<or> w \<noteq> 0)
      else if opc = OP_NUMEQUAL \<or> opc = OP_NUMEQUALVERIFY then of_bool (v = w)
      else if opc = OP_NUMNOTEQUAL then of_bool (v \<noteq> w)
      else if opc = OP_LESSTHAN then of_bool (v < w) else if opc = OP_GREATERTHAN then of_bool (v > w)
      else if opc = OP_LESSTHANOREQUAL then of_bool (v \<le> w) else if opc = OP_GREATERTHANOREQUAL then of_bool (v \<ge> w)
      else if opc = OP_MIN then min v w else max v w)"

lemma length_sn_bytes_bound:
  assumes "0 < k" and "\<bar>v\<bar> < 2 ^ (8 * k - 1)"
  shows "length (sn_bytes v) \<le> k"
proof -
  let ?n = "nat \<bar>v\<bar>"
  obtain j where k: "k = Suc j" using assms(1) by (cases k) auto
  have n: "?n < 128 * 256 ^ j"
    using assms(2) by (simp add: k nat_less_iff power_mult power_add)
  also have "\<dots> \<le> 256 ^ Suc j" by simp
  finally have "length (le_digits ?n) \<le> Suc j" by (simp only: length_le_digits)
  then show ?thesis
    using n by (cases "length (le_digits ?n) = Suc j") (auto simp: length_sn_bytes k)
qed

lemma sn_val_4: "length b \<le> 4 \<Longrightarrow> \<bar>sn_val b\<bar> < 2 ^ 31"
proof -
  assume l: "length b \<le> 4"
  have "(2::int) ^ (8 * length b - 1) \<le> 2 ^ 31" using l by (intro power_increasing) auto
  then show ?thesis using abs_sn_val_less [of b] by linarith
qed

context bignum begin

lemma CastToBigNum_val:
  "CastToBigNum L x = (if length x > 4 then None else Some (bn_setvch L (sn_bytes (sn_val x))))"
  "length x \<le> 4 \<Longrightarrow> val (bn_setvch L (sn_bytes (sn_val x))) = sn_val x"
proof -
  show "CastToBigNum L x = (if length x > 4 then None else Some (bn_setvch L (sn_bytes (sn_val x))))"
    by (simp add: CastToBigNum_def getvch val_setvch)
  assume "length x \<le> 4"
  then show "val (bn_setvch L (sn_bytes (sn_val x))) = sn_val x"
    using length_sn_bytes_le [of x] by (simp add: val_setvch)
qed

lemma val_bool: "val (bn_bool L f) = of_bool f" "val (bnZero L) = 0" "val (bnOne L) = 1"
  by (simp_all add: bn_bool_def bnZero_def bnOne_def val_of_int)

lemma val_num1: "val (num1 L opc b) = num1_spec opc (val b)"
  by (simp add: num1_def num1_spec_def bn_plus_def bn_minus_def val_ops val_bool cmp_iff)

lemma val_num2: "val (num2 L opc a b) = num2_spec opc (val a) (val b)"
  by (simp add: num2_def num2_spec_def bn_plus_def bn_minus_def val_ops val_bool cmp_iff Let_def)

end

lemma num1_spec_bound: "\<bar>v\<bar> < 2 ^ 31 \<Longrightarrow> \<bar>num1_spec opc v\<bar> < 2 ^ 39"
  unfolding num1_spec_def by auto

lemma num2_spec_bound: "\<bar>v\<bar> < 2 ^ 31 \<Longrightarrow> \<bar>w\<bar> < 2 ^ 31 \<Longrightarrow> \<bar>num2_spec opc v w\<bar> < 2 ^ 39"
  by (auto simp: num2_spec_def)

text \<open>The numeric operations compute on the integers their operands stand for, signed little-endian codes of at most four
  bytes, and push the minimal code of the result, of at most five bytes, which is exact without overflow; an operand longer than four bytes or missing
  ends the script.  \<open>WITHIN\<close> tests the half-open interval, and \<open>NUMEQUALVERIFY\<close> pops its result or
  ends the script.\<close>

theorem numeric_ops_exact:
  assumes "bignum L val"
  shows "op_num1 L opc m = (case stack m of [] \<Rightarrow> Inl m
      | x # r \<Rightarrow> if length x > 4 then Inl m else set_stack m (sn_bytes (num1_spec opc (sn_val x)) # r))
   \<and> (opc \<noteq> OP_NUMEQUALVERIFY \<longrightarrow> op_num2 L opc m = (case stack m of
        y # x # r \<Rightarrow> if length x > 4 \<or> length y > 4 then Inl m
                     else set_stack m (sn_bytes (num2_spec opc (sn_val x) (sn_val y)) # r)
      | _ \<Rightarrow> Inl m))
   \<and> op_num2 L OP_NUMEQUALVERIFY m = (case stack m of
        y # x # r \<Rightarrow> if length x > 4 \<or> length y > 4 then Inl m
                     else if sn_val x = sn_val y then set_stack m r else Inl (m\<lparr>stack := [] # r\<rparr>)
      | _ \<Rightarrow> Inl m)
   \<and> op_within L m = (case stack m of
        z # y # x # r \<Rightarrow> if length x > 4 \<or> length y > 4 \<or> length z > 4 then Inl m
                     else set_stack m (vch_of_bool (sn_val y \<le> sn_val x \<and> sn_val x < sn_val z) # r)
      | _ \<Rightarrow> Inl m)
   \<and> (length a \<le> 4 \<and> length b \<le> 4 \<longrightarrow>
        length (sn_bytes (num1_spec opc (sn_val a))) \<le> 5 \<and> length (sn_bytes (num2_spec opc (sn_val a) (sn_val b))) \<le> 5)"
proof -
  note num = bignum.CastToBigNum_val [OF assms] bignum.getvch [OF assms] bignum.val_num1 [OF assms] bignum.val_num2 [OF assms]
  have c: "CastToBool (sn_bytes (of_bool f)) = f" for f
    by (cases f) (simp_all add: sn_bytes_def le_digits_pos)
  have z: "num2_spec OP_NUMEQUALVERIFY v w = of_bool (v = w)" for v w by (simp add: num2_spec_def)
  have e: "sn_bytes 0 = []" by (simp add: sn_bytes_def)
  show ?thesis
    using num1_spec_bound [OF sn_val_4, of a opc] num2_spec_bound [OF sn_val_4 sn_val_4, of a b opc]
    by (auto simp: op_num1_def op_num2_def op_within_def num set_stack_def Let_def not_le c z e
        bignum.cmp_iff [OF assms] split: list.split intro!: length_sn_bytes_bound)
qed

section \<open>Multisignature as a matching\<close>

lemma op_checkmultisig_loop:
  assumes "bignum L val" and stack: "stack m = nv # keys @ kv # sigs @ dummy # r"
    and nv: "length nv \<le> 4" "sn_val nv = int (length keys)" and kv: "length kv \<le> 4" "sn_val kv = int (length sigs)"
    and bounds: "length keys \<le> 20" "length sigs \<le> length keys" "nOpCount m + length keys \<le> 201"
    and loop: "multisig_loop strict chk (fold (\<lambda>s code. fst (FindAndDelete code (push_vch [] s))) sigs (pbegincodehash m))
                 sigs keys (vm_cache m) = (f, c)"
  defines "m' \<equiv> m\<lparr>nOpCount := nOpCount m + length keys, vm_cache := c\<rparr>"
  shows "op_checkmultisig L strict chk OP_CHECKMULTISIG m = Inr (m'\<lparr>stack := vch_of_bool f # r\<rparr>)"
    and "op_checkmultisig L strict chk OP_CHECKMULTISIGVERIFY m = (if f then Inr (m'\<lparr>stack := r\<rparr>) else Inl (m'\<lparr>stack := vchFalse # r\<rparr>))"
proof -
  have count: "bn_getint L (bn_setvch L (sn_bytes (sn_val v))) = int k" if "length v \<le> 4" "sn_val v = int k" "k \<le> 20" for v k
    using that bignum.CastToBigNum_val(2) [OF assms(1) that(1)] by (simp add: bignum.getint [OF assms(1)])
  have rest: "drop (length sigs + (length keys + k)) (nv # keys @ kv # sigs @ dummy # r) = r" if "k = 3" for k
  proof -
    have "drop (length (nv # keys @ kv # sigs @ [dummy])) ((nv # keys @ kv # sigs @ [dummy]) @ r) = r"
      by (subst drop_append) simp
    then show ?thesis using that by (simp add: ac_simps numeral_3_eq_3)
  qed
  show "op_checkmultisig L strict chk OP_CHECKMULTISIG m = Inr (m'\<lparr>stack := vch_of_bool f # r\<rparr>)"
    and "op_checkmultisig L strict chk OP_CHECKMULTISIGVERIFY m = (if f then Inr (m'\<lparr>stack := r\<rparr>) else Inl (m'\<lparr>stack := vchFalse # r\<rparr>))"
    using bounds count [OF nv] count [OF kv] loop nv(1) kv(1) unfolding m'_def
    by (simp_all add: op_checkmultisig_def bignum.CastToBigNum_val(1) [OF assms(1)] stack Let_def nth_append set_stack_def
        vch_of_bool_def rest flip: not_le)
qed

text \<open>C25: \<open>CHECKMULTISIG\<close> over well-formed counts, keys, signatures and the extra element it pops: it succeeds exactly when the
  signatures can be matched in order with some of the keys, in order, each valid under its key (and canonical when strict), so
  every signature has a key of its own; the walk of the code, which never goes back to a key, misses no
  matching.\<close>

theorem checkmultisig_exact:
  assumes "bignum L val" and "cache_sound C (vm_cache m)"
    and stack: "stack m = nv # keys @ kv # sigs @ dummy # r"
    and nv: "length nv \<le> 4" "sn_val nv = int (length keys)" and kv: "length kv \<le> 4" "sn_val kv = int (length sigs)"
    and bounds: "length keys \<le> 20" "length sigs \<le> length keys" "nOpCount m + length keys \<le> 201"
  shows "\<exists>cache. cache_sound C cache \<and>
    (let code = fold (\<lambda>s code. fst (FindAndDelete code (push_vch [] s))) sigs (pbegincodehash m);
         valid = (\<lambda>s k. (\<not> strict \<or> (IsCanonicalSignature s \<and> IsCanonicalPubKey k)) \<and> sig_valid C s k code tx n ht);
         m' = m\<lparr>nOpCount := nOpCount m + length keys, vm_cache := cache\<rparr>;
         chk = (\<lambda>s k code. CheckSig C E s k code tx n ht flags)
     in op_checkmultisig L strict chk OP_CHECKMULTISIG m = Inr (m'\<lparr>stack := vch_of_bool (matching valid sigs keys) # r\<rparr>)
      \<and> op_checkmultisig L strict chk OP_CHECKMULTISIGVERIFY m =
          (if matching valid sigs keys then Inr (m'\<lparr>stack := r\<rparr>) else Inl (m'\<lparr>stack := vchFalse # r\<rparr>)))"
proof -
  let ?code = "fold (\<lambda>s code. fst (FindAndDelete code (push_vch [] s))) sigs (pbegincodehash m)"
  let ?ok = "\<lambda>s k code. sig_valid C s k code tx n ht"
  let ?chk = "\<lambda>s k code. CheckSig C E s k code tx n ht flags"
  let ?valid = "\<lambda>s k. (\<not> strict \<or> (IsCanonicalSignature s \<and> IsCanonicalPubKey k)) \<and> ?ok s k ?code"
  obtain f c where fc: "multisig_loop strict ?chk ?code sigs keys (vm_cache m) = (f, c)" by (metis surj_pair)
  have "fst (multisig_loop strict (pure_checker ?ok) ?code sigs keys sigcache_init) \<longleftrightarrow> matching ?valid sigs keys"
    by (rule multisig_matching [OF _ bounds(2)]) (simp add: pure_checker_def)
  then have f: "f \<longleftrightarrow> matching ?valid sigs keys" and c: "cache_sound C c"
    using sig_oracle.multisig_agrees [OF checksig.sig_oracle_axioms assms(2), of strict E tx n ht flags ?code sigs keys sigcache_init] fc
    by simp_all
  show ?thesis
    using c f op_checkmultisig_loop [OF assms(1) stack nv kv bounds fc] by (intro exI [of _ c]) (simp add: Let_def)
qed

section \<open>Resource limits\<close>

text \<open>What an operation of the \<open>switch\<close> keeps when it succeeds.\<close>

definition small :: "vm \<Rightarrow> bool" where
  "small m \<longleftrightarrow> list_all (\<lambda>x. length x \<le> 520) (stack m) \<and> list_all (\<lambda>x. length x \<le> 520) (altstack m)"

definition keeps :: "vm \<Rightarrow> vm_result \<Rightarrow> bool" where
  "keeps m r \<longleftrightarrow>
     (case r of Inl _ \<Rightarrow> True
      | Inr m' \<Rightarrow> nOpCount m \<le> nOpCount m' \<and> (nOpCount m \<le> 201 \<longrightarrow> nOpCount m' \<le> 201) \<and> (small m \<longrightarrow> small m'))"

lemma keeps_simps [simp]:
  "keeps m (Inl m')"
  "keeps m (Inr m') \<longleftrightarrow>
     nOpCount m \<le> nOpCount m' \<and> (nOpCount m \<le> 201 \<longrightarrow> nOpCount m' \<le> 201) \<and> (small m \<longrightarrow> small m')"
  by (simp_all add: keeps_def)

lemma keeps_if: "keeps m x \<Longrightarrow> keeps m y \<Longrightarrow> keeps m (if b then x else y)"
  by simp

lemma small_bool [simp]: "length (vch_of_bool f) \<le> 520"
  by (simp add: vch_of_bool_def vchTrue_def vchFalse_def)

lemma keeps_ops:
  shows "keeps m (op_if opc f m)" and "keeps m (op_else m)" and "keeps m (op_endif m)"
    and "keeps m (op_verify m)" and "keeps m (op_equal opc m)" and "keeps m (op_within L m)"
  by (simp_all add: small_def op_if_def op_else_def op_endif_def op_verify_def op_equal_def set_stack_def op_within_def
      Let_def split: list.split option.split)

lemma keeps_stack_many: "keeps m (op_stack_many opc m)"
  unfolding op_stack_many_def by (intro keeps_if; simp add: small_def set_stack_def split: list.split)

lemma keeps_checksig: "keeps m (op_checksig strict chk opc m)"
  by (simp add: small_def op_checksig_def set_stack_def Let_def split: list.split prod.split)

lemma list_all_drop: "list_all P xs \<Longrightarrow> list_all P (drop n xs)"
  by (auto simp: list_all_iff dest: in_set_dropD)

lemma keeps_cases:
  "(b \<Longrightarrow> keeps m x) \<Longrightarrow> (\<not> b \<Longrightarrow> keeps m y) \<Longrightarrow> keeps m (if b then x else y)"
  "keeps m x \<Longrightarrow> (\<And>v. keeps m (f v)) \<Longrightarrow> keeps m (case z of None \<Rightarrow> x | Some v \<Rightarrow> f v)"
  "(\<And>v w. keeps m (g v w)) \<Longrightarrow> keeps m (case p of (v, w) \<Rightarrow> g v w)"
  by (simp_all split: option.split prod.split)

lemma keeps_multisig: "keeps m (op_checkmultisig L strict chk opc m)"
  unfolding op_checkmultisig_def Let_def set_stack_def
  by (intro keeps_cases keeps_simps(1); simp only: keeps_simps not_less; simp add: small_def list_all_drop)

lemma list_all_nth_drop: "list_all P xs \<Longrightarrow> n < length xs \<Longrightarrow> P (xs ! n)"
  by (simp add: list_all_length)

lemma list_all_parts:
  "list_all P s \<Longrightarrow> list_all P (take n s)" "list_all P s \<Longrightarrow> 0 \<le> z \<Longrightarrow> z < int (length s) \<Longrightarrow> P (s ! nat z)"
  by (auto simp: list_all_length)

lemma keeps_pick_roll: "keeps m (op_pick_roll L opc m)"
proof (cases "stack m")
  case (Cons x s)
  show ?thesis
    unfolding op_pick_roll_def Let_def set_stack_def
    by (intro keeps_cases keeps_simps(1); simp only: keeps_simps not_less de_Morgan_disj not_le;
        simp add: small_def Cons list_all_parts [of "\<lambda>x. length x \<le> 520"] list_all_drop)
qed (simp add: op_pick_roll_def)

lemma keeps_hash:
  assumes "\<And>b. length (RIPEMD160 C b) \<le> 520 \<and> length (SHA1 C b) \<le> 520 \<and> length (SHA256 C b) \<le> 520"
  shows "keeps m (op_hash C opc m)"
proof -
  have "length (bu_bytes (Hash160 C b)) \<le> 520" "length (bu_bytes (Hash C b)) \<le> 520" for b
    by (simp_all add: Hash160_def Hash_def Let_def)
  with assms show ?thesis
    by (auto simp: small_def op_hash_def set_stack_def Let_def split: list.split)
qed


lemma length_word_bytes: "\<bar>v\<bar> < 2 ^ 39 \<Longrightarrow> length (sn_bytes v) \<le> 520"
  using length_sn_bytes_bound [of 5 v] by simp

context bignum begin

lemma keeps_numbers:
  shows "keeps m (op_num1 L opc m)" and "keeps m (op_num2 L opc m)"
proof -
  have 1: "length (bn_getvch L (num1 L opc (bn_setvch L (sn_bytes (sn_val x))))) \<le> 520" if "length x \<le> 4" for x
    using length_word_bytes [OF num1_spec_bound [OF sn_val_4 [OF that]], of opc] that
    by (simp add: getvch val_num1 CastToBigNum_val)
  have 2: "length (bn_getvch L (num2 L opc (bn_setvch L (sn_bytes (sn_val x))) (bn_setvch L (sn_bytes (sn_val y))))) \<le> 520"
    if "length x \<le> 4" "length y \<le> 4" for x y
    using length_word_bytes [OF num2_spec_bound [OF sn_val_4 [OF that(1)] sn_val_4 [OF that(2)]], of opc] that
    by (simp add: getvch val_num2 CastToBigNum_val)
  show "keeps m (op_num1 L opc m)"
    by (simp add: op_num1_def set_stack_def CastToBigNum_val(1) 1 small_def split: list.split)
  show "keeps m (op_num2 L opc m)"
    by (simp add: op_num2_def set_stack_def CastToBigNum_val(1) 2 small_def Let_def split: list.split)
qed

lemma length_small_number:
  "n \<le> 1000 \<Longrightarrow> length (bn_getvch L (bn_setulong L (word_of_nat n))) \<le> 520"
proof -
  assume n: "n \<le> 1000"
  then have "uint (word_of_nat n :: u64) = int n" by (simp add: uint_nat unat_of_nat)
  with n show ?thesis by (simp add: getvch bn_setulong_def val_set_word length_word_bytes)
qed

lemma keeps_stack_one:
  assumes "length (stack m) \<le> 1000"
  shows "keeps m (op_stack_one L opc m)"
  unfolding op_stack_one_def
  by (intro keeps_if; use assms in \<open>auto simp: small_def set_stack_def length_small_number split: list.split\<close>)

lemma keeps_push_number: "keeps m (op_push_number L opc m)"
proof -
  have "uint opc < 256" using uint_lt2p [of opc] by simp
  moreover have "(ucast opc - 80 :: i64) = word_of_int (uint opc - 80)"
    by (simp flip: wi_hom_sub)
  ultimately have "sint (ucast opc - 80 :: i64) = uint opc - 80"
    by (simp only: sint_sbintrunc') (subst signed_take_bit_int_eq_self; simp)
  moreover have "\<bar>uint opc - 80\<bar> < 549755813888" using \<open>uint opc < 256\<close> uint_ge_0 [of opc] by linarith
  ultimately show ?thesis
    by (simp add: op_push_number_def small_def Let_def getvch val_of_int length_word_bytes)
qed

end

definition if_depth :: "byte \<Rightarrow> int" where
  "if_depth opc = (if opc = OP_IF \<or> opc = OP_NOTIF then 1 else if opc = OP_ENDIF then -1 else 0)"

definition nests :: "int \<Rightarrow> vm \<Rightarrow> vm_result \<Rightarrow> bool" where
  "nests d m r \<longleftrightarrow> (case r of Inl _ \<Rightarrow> True | Inr m' \<Rightarrow> int (length (vfExec m')) = int (length (vfExec m)) + d)"

lemma nests_simps [simp]:
  "nests d m (Inl m')" "nests d m (Inr m') \<longleftrightarrow> int (length (vfExec m')) = int (length (vfExec m)) + d"
  by (simp_all add: nests_def)

lemma nests_cases:
  "(b \<Longrightarrow> nests d m x) \<Longrightarrow> (\<not> b \<Longrightarrow> nests d m y) \<Longrightarrow> nests d m (if b then x else y)"
  "nests d m x \<Longrightarrow> (\<And>v. nests d m (f v)) \<Longrightarrow> nests d m (case z of None \<Rightarrow> x | Some v \<Rightarrow> f v)"
  "nests d m x \<Longrightarrow> (\<And>v w. nests d m (g2 v w)) \<Longrightarrow> nests d m (case s of [] \<Rightarrow> x | v # w \<Rightarrow> g2 v w)"
  "(\<And>v w. nests d m (g v w)) \<Longrightarrow> nests d m (case p of (v, w) \<Rightarrow> g v w)"
  "vfExec m' = vfExec m \<Longrightarrow> nests 0 m (Inr m')"
  by (simp_all split: option.split prod.split list.split)

lemma nests_ops:
  shows "nests 0 m (op_push_number L opc m)" and "nests 0 m (op_verify m)" and "nests 0 m (op_equal opc m)"
    and "nests 0 m (op_within L m)" and "nests 0 m (op_num1 L opc m)" and "nests 0 m (op_num2 L opc m)"
    and "nests 0 m (op_hash C opc m)" and "nests 0 m (op_stack_many opc m)" and "nests 0 m (op_stack_one L opc m)"
    and "nests 0 m (op_pick_roll L opc m)" and "nests 0 m (op_checksig strict chk opc m)"
    and "nests 0 m (op_checkmultisig L strict chk opc m)"
  unfolding op_defs op_checksig_def op_checkmultisig_def Let_def
  by (intro nests_cases nests_simps(1); simp)+

lemma nests_control:
  "nests 1 m (op_if opc f m)" "nests 0 m (op_else m)" "nests (-1) m (op_endif m)"
  by (simp_all add: op_if_def op_else_def op_endif_def Let_def split: list.split)

lemma nests_exec: "nests (if_depth opc) m (exec_op C L strict chk opc f pc m)"
  unfolding exec_op_def
  by (intro nests_cases(1); auto simp: if_depth_def nests_ops nests_control)

context bignum begin

lemma keeps_exec:
  assumes "\<And>b. length (RIPEMD160 C b) \<le> 520 \<and> length (SHA1 C b) \<le> 520 \<and> length (SHA256 C b) \<le> 520"
    and "length (stack m) \<le> 1000"
  shows "keeps m (exec_op C L strict chk opc f pc m)"
  unfolding exec_op_def
  by (intro keeps_if keeps_ops keeps_numbers keeps_stack_many keeps_stack_one keeps_checksig keeps_multisig
      keeps_pick_roll keeps_push_number keeps_hash assms keeps_simps(1))
    (simp_all add: small_def)

text \<open>One instruction that succeeds.\<close>

lemma step_limits:
  assumes dig: "\<And>b. length (RIPEMD160 C b) \<le> 520 \<and> length (SHA1 C b) \<le> 520 \<and> length (SHA256 C b) \<le> 520"
    and m: "length (stack m) + length (altstack m) \<le> 1000" "nOpCount m \<le> 201" "small m"
    and step: "step C L strict chk opc v pc m = Inr m'"
  shows "length v \<le> 520 \<and> opc \<notin> set disabled_opcodes
    \<and> nOpCount m + of_bool (OP_16 < opc) \<le> nOpCount m' \<and> nOpCount m' \<le> 201
    \<and> length (stack m') + length (altstack m') \<le> 1000 \<and> small m'
    \<and> int (length (vfExec m')) = int (length (vfExec m)) + if_depth opc"
proof -
  let ?m = "if OP_16 < opc then m\<lparr>nOpCount := nOpCount m + 1\<rparr> else m"
  let ?f = "\<not> list_ex (\<lambda>f. \<not> f) (vfExec ?m)"
  let ?r = "if ?f \<and> opc \<le> OP_PUSHDATA4 then Inr (?m\<lparr>stack := v # stack ?m\<rparr>)
      else if ?f \<or> (OP_IF \<le> opc \<and> opc \<le> OP_ENDIF) then exec_op C L strict chk opc ?f pc ?m else Inr ?m"
  have v: "length v \<le> 520" and opc: "opc \<notin> set disabled_opcodes" and count: "nOpCount ?m \<le> 201"
    and run: "run_op C L strict chk opc v pc ?m = Inr m'"
    using step m(2) by (auto simp: step_def MAX_SCRIPT_ELEMENT_SIZE_def Let_def split: if_splits)
  from run have r: "?r = Inr m'" and size: "length (stack m') + length (altstack m') \<le> 1000"
    unfolding run_op_def Let_def by (auto split: sum.splits if_splits)
  have sm: "small ?m" "length (stack ?m) \<le> 1000" using m by (simp_all add: small_def)
  have "keeps ?m ?r"
    by (intro keeps_if keeps_exec dig sm) (use v in \<open>simp_all add: small_def\<close>)
  then have k: "nOpCount ?m \<le> nOpCount m' \<and> nOpCount m' \<le> 201 \<and> small m'"
    using sm count unfolding r by simp
  have low: "opc \<le> OP_PUSHDATA4 \<Longrightarrow> if_depth opc = 0"
    and other: "\<not> (OP_IF \<le> opc \<and> opc \<le> OP_ENDIF) \<Longrightarrow> if_depth opc = 0"
    by (auto simp: if_depth_def)
  have "nests (if_depth opc) ?m ?r"
    by (intro nests_cases(1) nests_exec) (simp_all add: low other)
  then have "int (length (vfExec m')) = int (length (vfExec m)) + if_depth opc"
    unfolding r by simp
  with v opc k size show ?thesis by (auto split: if_splits)
qed

lemma loop_limits:
  assumes dig: "\<And>b. length (RIPEMD160 C b) \<le> 520 \<and> length (SHA1 C b) \<le> 520 \<and> length (SHA256 C b) \<le> 520"
  shows "length (stack m) + length (altstack m) \<le> 1000 \<Longrightarrow> nOpCount m \<le> 201 \<Longrightarrow> small m \<Longrightarrow>
    eval_loop C L strict chk pc m = Inr m' \<Longrightarrow>
    snd (parse pc) = []
    \<and> list_all (\<lambda>i. length (ins_arg i) \<le> 520 \<and> ins_op i \<notin> set disabled_opcodes) (fst (parse pc))
    \<and> nOpCount m + length (filter (\<lambda>i. OP_16 < ins_op i) (fst (parse pc))) \<le> nOpCount m' \<and> nOpCount m' \<le> 201
    \<and> int (length (vfExec m)) + sum_list (map (if_depth \<circ> ins_op) (fst (parse pc))) = 0
    \<and> length (stack m') + length (altstack m') \<le> 1000 \<and> small m'"
proof (induction "length pc" arbitrary: pc m rule: less_induct)
  case less
  show ?case
  proof (cases "pc = []")
    case False
    obtain r opc v pc' where g: "GetOp2 pc = (r, opc, v, pc')" by (metis prod_cases4)
    have r: r using less.prems(4) False g by (cases r) (simp_all add: eval_loop.simps)
    then obtain m1 where s: "step C L strict chk opc v pc' m = Inr m1"
      and e: "eval_loop C L strict chk pc' m1 = Inr m'"
      using less.prems(4) False g by (auto simp: eval_loop_step split: sum.splits)
    have "length pc' < length pc" using g r GetOp2_shorter by metis
    from less.hyps [OF this _ _ _ e] step_limits [OF dig less.prems(1-3) s] parse_step [of pc opc v pc'] g r
    show ?thesis by auto
  qed (use less.prems in \<open>auto split: if_splits\<close>)
qed

end

text \<open>C26: What a script that evaluates successfully satisfies, whatever the signatures: it has at most 10000 bytes, every instruction
  can be read, no operand is longer than 520 bytes, no disabled instruction occurs (executed or not), at most 201 instructions are not pushes, every conditional
  is closed, and from a stack within the limits the final stack has at most 1000 elements of at most 520
  bytes.\<close>

theorem EvalScript_limits:
  assumes "bignum L val"
    and "\<And>b. length (RIPEMD160 C b) \<le> 520 \<and> length (SHA1 C b) \<le> 520 \<and> length (SHA256 C b) \<le> 520"
    and "length s \<le> 1000" and "list_all (\<lambda>x. length x \<le> 520) s"
    and "EvalScript C L E s script tx n flags ht cache = (True, s', cache')"
  shows "length script \<le> 10000 \<and> snd (parse script) = []
    \<and> list_all (\<lambda>i. length (ins_arg i) \<le> 520 \<and> ins_op i \<notin> set disabled_opcodes) (fst (parse script))
    \<and> length (filter (\<lambda>i. OP_16 < ins_op i) (fst (parse script))) \<le> 201
    \<and> length (filter (\<lambda>i. ins_op i = OP_IF \<or> ins_op i = OP_NOTIF) (fst (parse script)))
      = length (filter (\<lambda>i. ins_op i = OP_ENDIF) (fst (parse script)))
    \<and> length s' \<le> 1000 \<and> list_all (\<lambda>x. length x \<le> 520) s'"
proof -
  let ?m = "\<lparr>stack = s, altstack = [], vfExec = [], pbegincodehash = script, nOpCount = 0, vm_cache = cache\<rparr>"
  have len: "length script \<le> 10000"
    using assms(5) by (auto simp: EvalScript_def eval_script_def eval_result_def Let_def split: if_splits)
  then obtain m' where e: "eval_loop C L (flags AND SCRIPT_VERIFY_STRICTENC \<noteq> 0)
      (\<lambda>sg pk code. CheckSig C E sg pk code tx n ht flags) script ?m = Inr m'" and s': "s' = stack m'"
    using assms(5) by (auto simp: EvalScript_def eval_script_def eval_result_def Let_def split: sum.splits if_splits)
  have depth: "sum_list (map (if_depth \<circ> ins_op) is) =
      int (length (filter (\<lambda>i. ins_op i = OP_IF \<or> ins_op i = OP_NOTIF) is)) - int (length (filter (\<lambda>i. ins_op i = OP_ENDIF) is))"
    for "is" :: "instr list"
    by (induction "is") (auto simp: if_depth_def)
  show ?thesis
    using bignum.loop_limits [OF assms(1,2) _ _ _ e] assms(3,4) len depth [of "fst (parse script)"]
    by (simp add: small_def s')
qed

text \<open>C24: Paying to a public key hash: a signature and a key unlock the standard script exactly when the key has the hash that the script names
  and the signature is valid under it (and both are canonical when the flags ask for strict encodings), for
  the script with the signature's own pushes removed.\<close>

theorem p2pkh_exact:
  assumes "cache_sound C cache" and "length h = 20" and "length sg \<le> 520" and "length pub \<le> 520"
  shows "\<exists>cache'. cache_sound C cache' \<and>
    VerifyScript C L E (push_vch (push_vch [] sg) pub) (p2pkh h) tx n flags ht cache =
      Some (bu_bytes (Hash160 C pub) = h
            \<and> (flags AND SCRIPT_VERIFY_STRICTENC \<noteq> 0 \<longrightarrow> IsCanonicalSignature sg \<and> IsCanonicalPubKey pub)
            \<and> sig_valid C sg pub (fst (FindAndDelete (p2pkh h) (push_vch [] sg))) tx n ht, cache')"
proof -
  have s: "push_vch (push_vch [] sg) pub = pushes [sg, pub]" by (simp add: push_vch_def pushes_def)
  have "length (push_data b) \<le> 530" if "length b \<le> 520" for b using that by (simp add: push_data_def)
  from this [of sg] this [of pub] assms(3,4) have l: "length (pushes [sg, pub]) \<le> 10000" by (simp add: pushes_def)
  have "\<not> IsPayToScriptHash (p2pkh h)" by (simp add: IsPayToScriptHash_def p2pkh_def)
  with VerifyScript_verdict [OF assms(1), of L E "push_vch (push_vch [] sg) pub" "p2pkh h" tx n flags ht] show ?thesis
    using l assms(2-4) by (simp add: verify_spec_def s eval_spec_pushes p2pkh_eval)
qed

lemma p2sh_overflow:
  assumes "length h = 20" and "1000 \<le> length s"
  shows "\<not> fst (eval_spec C L strict ok s (OP_HASH160 # push_data h @ [OP_EQUAL]))"
proof -
  obtain x r where s: "s = x # r" using assms(2) by (cases s) auto
  have full: "step C L strict chk (push_op h) h pc m = Inl (m\<lparr>stack := h # stack m\<rparr>)"
    if "vfExec m = []" "1000 \<le> length (stack m) + length (altstack m)" for chk pc m
  proof -
    have "push_op h \<notin> set disabled_opcodes" "\<not> OP_16 < push_op h"
      using push_op_le [of h] by (auto simp: disabled_opcodes_def word_less_nat_alt word_le_nat_alt)
    with that show ?thesis
      using assms(1) push_op_le [of h] by (simp add: step_def run_op_def MAX_SCRIPT_ELEMENT_SIZE_def)
  qed
  show ?thesis
    using assms
    by (simp add: s eval_spec_def eval_script_def eval_loop_op step_exec disabled_opcodes_def exec_basic op_hash_def
        set_stack_def eval_loop_push full Let_def)
qed

text \<open>C23: Paying to a script hash: with the flag set, the standard script is unlocked exactly when the unlocking script only pushes, its
  last push is a script with the hash that the output names, and that script run on the other pushes ends with a
  true top.\<close>

theorem p2sh_exact:
  assumes "cache_sound C cache" and "length h = 20" and "flags AND SCRIPT_VERIFY_P2SH \<noteq> 0"
  shows "\<exists>cache'. cache_sound C cache' \<and>
    VerifyScript C L E sSig (OP_HASH160 # push_data h @ [OP_EQUAL]) tx n flags ht cache =
      Some (IsPushOnly sSig
            \<and> (case eval_spec C L (flags AND SCRIPT_VERIFY_STRICTENC \<noteq> 0) (\<lambda>s k code. sig_valid C s k code tx n ht) [] sSig of
                 (True, redeem # s) \<Rightarrow>
                   length s < 999 \<and> bu_bytes (Hash160 C redeem) = h
                   \<and> top_true (eval_spec C L (flags AND SCRIPT_VERIFY_STRICTENC \<noteq> 0)
                                (\<lambda>s k code. sig_valid C s k code tx n ht) s redeem)
               | _ \<Rightarrow> False), cache')"
proof -
  let ?ev = "eval_spec C L (flags AND SCRIPT_VERIFY_STRICTENC \<noteq> 0) (\<lambda>s k code. sig_valid C s k code tx n ht)"
  let ?h = "OP_HASH160 # push_data h @ [OP_EQUAL]"
  have p: "IsPayToScriptHash ?h" using assms(2) IsPayToScriptHash_eq by blast
  obtain f s where e: "?ev [] sSig = (f, s)" by (metis surj_pair)
  have "verify_spec C L (flags AND SCRIPT_VERIFY_STRICTENC \<noteq> 0) True (\<lambda>s k code. sig_valid C s k code tx n ht) sSig ?h =
      (IsPushOnly sSig \<and> (case (f, s) of (True, redeem # s) \<Rightarrow> length s < 999 \<and> bu_bytes (Hash160 C redeem) = h
         \<and> top_true (?ev s redeem) | _ \<Rightarrow> False))"
  proof (cases s)
    case Nil
    then show ?thesis using assms(2) by (simp add: p2sh_spec verify_spec_def e top_true_def split: bool.split)
  next
    case (Cons redeem r)
    have top: "top_true (?ev (redeem # r) ?h) \<longleftrightarrow> length r < 999 \<and> bu_bytes (Hash160 C redeem) = h"
      using assms(2)
      by (cases "length r < 999") (simp_all add: p2sh_spec p2sh_overflow top_true_def vch_of_bool_def vchTrue_def vchFalse_def)
    show ?thesis using p by (auto simp: verify_spec_def e Cons top split: bool.split)
  qed
  with VerifyScript_verdict [OF assms(1), of L E sSig ?h tx n flags ht] assms(3) e show ?thesis by simp
qed

abbreviation (input) example_env :: sig_env where
  "example_env \<equiv> \<lparr>maxsigcachesize = 50000, GetRandHash = \<lambda>_. replicate 8 0\<rparr>"

abbreviation (input) example_vm :: "valtype list \<Rightarrow> vm" where
  "example_vm s \<equiv> \<lparr>stack = s, altstack = [], vfExec = [], pbegincodehash = [], nOpCount = 1, vm_cache = sigcache_init\<rparr>"

theorem VerifyScript_spec_witness:
  "\<exists>cache. VerifyScript example_crypto ref_bn example_env [0x51] [0x52, 0x93, 0x53, 0x87] (example_tx [9]) 0 0 0 sigcache_init
    = Some (True, cache)"
proof -
  have "verify_spec example_crypto ref_bn False False (\<lambda>s k code. sig_valid example_crypto s k code (example_tx [9]) 0 0)
      [0x51] [0x52, 0x93, 0x53, 0x87] = True"
    by code_simp
  with VerifyScript_spec [OF cache_sound_init, of example_crypto ref_bn example_env "[0x51]" "[0x52, 0x93, 0x53, 0x87]"
      "example_tx [9]" 0 0 0]
  show ?thesis by auto
qed

theorem EvalScript_limits_witness:
  "EvalScript example_crypto ref_bn example_env [] [0x51, 0x63, 0x52, 0x68] (example_tx [9]) 0 0 0 sigcache_init
     = (True, [[2]], sigcache_init)
   \<and> list_all (\<lambda>x. length x \<le> 520) [[2 :: byte]]"
proof -
  have e: "EvalScript example_crypto ref_bn example_env [] [0x51, 0x63, 0x52, 0x68] (example_tx [9]) 0 0 0 sigcache_init
     = (True, [[2]], sigcache_init)"
    by code_simp
  have "length (RIPEMD160 example_crypto b) \<le> 520 \<and> length (SHA1 example_crypto b) \<le> 520
      \<and> length (SHA256 example_crypto b) \<le> 520" for b
    by (auto simp: example_crypto_def)
  from EvalScript_limits [OF ref_bn.bignum_axioms this _ _ e] e show ?thesis by simp
qed

theorem numeric_ops_exact_witness:
  "op_num2 ref_bn OP_ADD (example_vm [[1], [0xff, 0]]) = Inr (example_vm [[0, 1]])
   \<and> op_within ref_bn (example_vm [[9], [5], [0x81]]) = Inr (example_vm [[]])"
proof -
  have a: "sn_val [1] = 1" "sn_val [0xff, 0] = 255" "sn_val [9] = 9" "sn_val [5] = 5" "sn_val [0x81] = -1"
    by code_simp+
  have b: "sn_bytes (num2_spec OP_ADD 255 1) = [0, 1]" by code_simp
  note e = numeric_ops_exact [OF ref_bn.bignum_axioms]
  have c: "op_num2 ref_bn OP_ADD (example_vm [[1], [0xff, 0]]) = Inr (example_vm [[0, 1]])"
    using e [of OP_ADD "example_vm [[1], [0xff, 0]]", THEN conjunct2, THEN conjunct1]
    by (simp add: a b set_stack_def)
  have "op_within ref_bn (example_vm [[9], [5], [0x81]]) = Inr (example_vm [[]])"
    using e [of 0 "example_vm [[9], [5], [0x81]]", THEN conjunct2, THEN conjunct2, THEN conjunct2, THEN conjunct1]
    by (simp add: a set_stack_def vch_of_bool_def vchFalse_def)
  with c show ?thesis ..
qed

theorem checkmultisig_exact_witness:
  "\<exists>m'. op_checkmultisig ref_bn False (\<lambda>s k code. CheckSig example_crypto example_env s k code (example_tx [9]) 0 0 0)
     OP_CHECKMULTISIG (example_vm [[1], [2], [1], [1], []]) = Inr m' \<and> stack m' = [[]]"
proof -
  have n: "sn_val [1] = int (length [[2 :: byte]])" by code_simp
  have "\<not> sig_valid example_crypto [1] [2] code (example_tx [9]) 0 0" for code
  proof -
    have "\<not> pk_IsValid (pk_of_vch [2])" by code_simp
    then show ?thesis by (simp add: sig_valid_def)
  qed
  then have "\<not> matching (\<lambda>s k. (\<not> False \<or> (IsCanonicalSignature s \<and> IsCanonicalPubKey k))
      \<and> sig_valid example_crypto s k code (example_tx [9]) 0 0) [[1]] [[2]]" for code
    by (simp add: matching_Cons)
  with checkmultisig_exact [OF ref_bn.bignum_axioms, of example_crypto "example_vm [[1], [2], [1], [1], []]" "[1]" "[[2]]" "[1]" "[[1]]" "[]"
      "[]" False "example_tx [9]" 0 0 example_env 0] n
  show ?thesis by (auto simp: vch_of_bool_def vchFalse_def Let_def)
qed

theorem p2pkh_exact_witness:
  "\<exists>cache. VerifyScript example_crypto ref_bn example_env (push_vch (push_vch [] [7, 1]) [2])
     (p2pkh (bu_bytes (Hash160 example_crypto [2]))) (example_tx [9]) 0 0 0 sigcache_init = Some (False, cache)"
proof -
  have "length (bu_bytes (Hash160 example_crypto [2])) = 20" by (simp add: Hash160_def Let_def)
  moreover have "\<not> sig_valid example_crypto [7, 1] [2] code (example_tx [9]) 0 0" for code
  proof -
    have "\<not> pk_IsValid (pk_of_vch [2])" by code_simp
    then show ?thesis by (simp add: sig_valid_def)
  qed
  ultimately show ?thesis
    using p2pkh_exact [OF cache_sound_init, of "bu_bytes (Hash160 example_crypto [2])" "[7, 1]" "[2]" example_crypto ref_bn
        example_env "example_tx [9]" 0 0 0]
    by auto
qed

theorem p2sh_exact_witness:
  "\<exists>cache. VerifyScript example_crypto ref_bn example_env (push_vch [] [0x51])
     (OP_HASH160 # push_data (bu_bytes (Hash160 example_crypto [0x51])) @ [OP_EQUAL]) (example_tx [9]) 0 1 0 sigcache_init
   = Some (True, cache)"
proof -
  let ?ok = "\<lambda>s k code. sig_valid example_crypto s k code (example_tx [9]) 0 0"
  have l: "length (bu_bytes (Hash160 example_crypto [0x51])) = 20" by (simp add: Hash160_def Let_def)
  have "eval_spec example_crypto ref_bn False ?ok [] (push_vch [] [0x51]) = (True, [[0x51]])"
    and "IsPushOnly (push_vch [] [0x51])"
    and "top_true (eval_spec example_crypto ref_bn False ?ok [] [0x51])"
    by code_simp+
  with p2sh_exact [OF cache_sound_init l, where C = example_crypto and flags = 1 and L = ref_bn and E = example_env and
      sSig = "push_vch [] [0x51]" and tx = "example_tx [9]" and n = 0 and ht = 0]
  show ?thesis by auto
qed

end
