(* ===== verification/CheckQueue.thy ===== *)
theory CheckQueue
  imports Tetra_Prelude
begin

text \<open>
  The queue of script checks that one master and several workers empty together (\<open>CCheckQueue\<close> and
  \<open>CCheckQueueControl\<close>, \<open>checkqueue.h\<close>).  The code between two acquisitions of the mutex is one step of a thread, so
  is one check outside of it; the steps of the threads interleave freely.  The type of the checks and what a check
  returns are parameters, as in the template.
\<close>

section \<open>The queue and its threads\<close>

text \<open>Where a thread stands in \<open>Loop\<close>: before the mutex, with the size and the result of its last batch; in
  \<open>cond.wait\<close>, notified or not; at work on the rest of a batch.  The master is outside of \<open>Loop\<close> between two calls
  of \<open>Wait\<close>.\<close>
datatype 'c cq_thread =
    Outside
  | Locking u32 bool
  | Waiting bool
  | Working u32 "'c list" bool
  | Returned bool

text \<open>The master is the first thread; the back of the vector is the end of the list.\<close>
record 'c CCheckQueue =
  queue :: "'c list"
  nIdle :: int
  nTotal :: int
  fAllOk :: bool
  nTodo :: u32
  fQuit :: bool
  nBatchSize :: u32
  threads :: "'c cq_thread list"

definition cq_init :: "u32 \<Rightarrow> nat \<Rightarrow> 'c CCheckQueue" where
  "cq_init nBatchSizeIn nWorkers =
     \<lparr>queue = [], nIdle = 0, nTotal = 0, fAllOk = True, nTodo = 0, fQuit = False, nBatchSize = nBatchSizeIn,
      threads = Outside # replicate nWorkers (Locking 0 True)\<rparr>"

definition at_thread :: "'c CCheckQueue \<Rightarrow> nat \<Rightarrow> 'c cq_thread \<Rightarrow> 'c CCheckQueue" where
  "at_thread q i t = q\<lparr>threads := (threads q)[i := t]\<rparr>"

text \<open>Notifying a thread that does not wait has no effect.\<close>
definition notify :: "'c CCheckQueue \<Rightarrow> nat \<Rightarrow> 'c CCheckQueue" where
  "notify q i = (case threads q ! i of Waiting _ \<Rightarrow> at_thread q i (Waiting True) | _ \<Rightarrow> q)"

definition notify_all :: "'c CCheckQueue \<Rightarrow> 'c CCheckQueue" where
  "notify_all q = q\<lparr>threads := hd (threads q) # map (\<lambda>t. case t of Waiting _ \<Rightarrow> Waiting True | _ \<Rightarrow> t) (tl (threads q))\<rparr>"

text \<open>The clean-up of the previous round, at the start of the critical section.\<close>
definition cq_account :: "'c CCheckQueue \<Rightarrow> nat \<Rightarrow> u32 \<Rightarrow> bool \<Rightarrow> 'c CCheckQueue" where
  "cq_account q i nNow fOk =
     (if nNow \<noteq> 0 then
        let q = q\<lparr>fAllOk := (fAllOk q \<and> fOk), nTodo := nTodo q - nNow\<rparr>
        in if nTodo q = 0 \<and> i \<noteq> 0 then notify q 0 else q
      else q\<lparr>nTotal := nTotal q + 1\<rparr>)"

definition batch_size :: "'c CCheckQueue \<Rightarrow> u32" where
  "batch_size q = max 1 (min (nBatchSize q) (word_of_nat (length (queue q)) div word_of_int (nTotal q + nIdle q + 1)))"

text \<open>The rest of the critical section: return, wait, or take a batch from the back of the queue.\<close>
definition cq_section :: "'c CCheckQueue \<Rightarrow> nat \<Rightarrow> 'c CCheckQueue" where
  "cq_section q i =
     (if queue q = [] then
        (if (i = 0 \<or> fQuit q) \<and> nTodo q = 0
         then at_thread (q\<lparr>nTotal := nTotal q - 1, fAllOk := (if i = 0 then True else fAllOk q)\<rparr>) i (Returned (fAllOk q))
         else at_thread (q\<lparr>nIdle := nIdle q + 1\<rparr>) i (Waiting False))
      else
        let nNow = batch_size q; n = length (queue q) - unat nNow
        in at_thread (q\<lparr>queue := take n (queue q)\<rparr>) i (Working nNow (rev (drop n (queue q))) (fAllOk q)))"

definition cq_Add :: "'c CCheckQueue \<Rightarrow> 'c list \<Rightarrow> nat \<Rightarrow> 'c CCheckQueue" where
  "cq_Add q vChecks i =
     (let q = q\<lparr>queue := queue q @ vChecks, nTodo := nTodo q + word_of_nat (length vChecks)\<rparr>
      in if length vChecks = 1 then (if i \<noteq> 0 then notify q i else q)
         else if length vChecks > 1 then notify_all q else q)"

text \<open>The steps of the threads.\<close>
inductive cq_step :: "('c \<Rightarrow> bool) \<Rightarrow> 'c CCheckQueue \<Rightarrow> 'c CCheckQueue \<Rightarrow> bool" for check where
  lock: "i < length (threads q) \<Longrightarrow> threads q ! i = Locking nNow fOk \<Longrightarrow>
    cq_step check q (cq_section (cq_account q i nNow fOk) i)"
| wake: "i < length (threads q) \<Longrightarrow> threads q ! i = Waiting True \<Longrightarrow>
    cq_step check q (cq_section (q\<lparr>nIdle := nIdle q - 1\<rparr>) i)"
| work: "i < length (threads q) \<Longrightarrow> threads q ! i = Working nNow (c # vChecks) fOk \<Longrightarrow>
    cq_step check q (at_thread q i (Working nNow vChecks (if fOk then check c else fOk)))"
| done_batch: "i < length (threads q) \<Longrightarrow> threads q ! i = Working nNow [] fOk \<Longrightarrow>
    cq_step check q (at_thread q i (Locking nNow fOk))"

text \<open>The constructor of \<open>CCheckQueueControl\<close>, with its assertions.\<close>
definition control_init :: "'c CCheckQueue \<Rightarrow> bool" where
  "control_init q = (nTotal q = nIdle q \<and> nTodo q = 0 \<and> fAllOk q = True)"

text \<open>The workers that wait and were not notified.\<close>
definition sleeping :: "'c CCheckQueue \<Rightarrow> nat set" where
  "sleeping q = {i. 0 < i \<and> i < length (threads q) \<and> threads q ! i = Waiting False}"

text \<open>The states, with the checks added since the last result: the master adds checks and calls \<open>Wait\<close> while it is
  outside of \<open>Loop\<close>; \<open>notify_one\<close> wakes any one of the workers that wait, if there is one; a wait may also end
  without a notification.  A vector of checks has a length below 2^32.\<close>
inductive cq_reach :: "('c \<Rightarrow> bool) \<Rightarrow> u32 \<Rightarrow> nat \<Rightarrow> 'c CCheckQueue \<Rightarrow> 'c list \<Rightarrow> bool" for check bsize nWorkers where
  init: "cq_reach check bsize nWorkers (cq_init bsize nWorkers) []"
| thread_step: "cq_reach check bsize nWorkers q cs \<Longrightarrow> cq_step check q q' \<Longrightarrow> cq_reach check bsize nWorkers q' cs"
| spurious: "cq_reach check bsize nWorkers q cs \<Longrightarrow> i < length (threads q) \<Longrightarrow>
    cq_reach check bsize nWorkers (notify q i) cs"
| add: "cq_reach check bsize nWorkers q cs \<Longrightarrow> threads q ! 0 = Outside \<Longrightarrow> i < length (threads q) \<Longrightarrow>
    sleeping q \<noteq> {} \<longrightarrow> i \<in> sleeping q \<Longrightarrow>
    length cs + length vChecks < 2 ^ 32 \<Longrightarrow> cq_reach check bsize nWorkers (cq_Add q vChecks i) (cs @ vChecks)"
| wait: "cq_reach check bsize nWorkers q cs \<Longrightarrow> threads q ! 0 = Outside \<Longrightarrow>
    cq_reach check bsize nWorkers (at_thread q 0 (Locking 0 True)) cs"
| result: "cq_reach check bsize nWorkers q cs \<Longrightarrow> threads q ! 0 = Returned r \<Longrightarrow>
    cq_reach check bsize nWorkers (at_thread q 0 Outside) []"

inductive_cases cq_stepE: "cq_step check q q'"

section \<open>The invariant\<close>

fun claim :: "'c cq_thread \<Rightarrow> nat" where
  "claim (Locking n ok) = unat n" | "claim (Working n cs ok) = unat n" | "claim _ = 0"

fun counted :: "'c cq_thread \<Rightarrow> int" where
  "counted (Locking n ok) = (if n = 0 then 0 else 1)" | "counted (Working n cs ok) = 1" | "counted (Waiting w) = 1"
| "counted _ = 0"

fun idling :: "'c cq_thread \<Rightarrow> int" where "idling (Waiting w) = 1" | "idling _ = 0"

fun vouches :: "('c \<Rightarrow> bool) \<Rightarrow> 'c cq_thread \<Rightarrow> bool" where
  "vouches check (Locking n ok) = (n = 0 \<or> ok)" | "vouches check (Working n cs ok) = (ok \<and> list_all check cs)"
| "vouches check _ = True"

fun thread_ok :: "bool \<Rightarrow> 'c cq_thread \<Rightarrow> bool" where
  "thread_ok master (Working n cs ok) = (n \<noteq> 0)"
| "thread_ok master Outside = master" | "thread_ok master (Returned r) = master" | "thread_ok master _ = True"

definition cq_sums :: "nat \<Rightarrow> 'c CCheckQueue \<Rightarrow> bool" where
  "cq_sums bound q \<longleftrightarrow>
     nTodo q = word_of_nat (length (queue q) + sum_list (map claim (threads q))) \<and>
     length (queue q) + sum_list (map claim (threads q)) \<le> bound \<and> bound < 2 ^ 32 \<and>
     nTotal q = sum_list (map counted (threads q)) \<and> nIdle q = sum_list (map idling (threads q)) \<and>
     threads q \<noteq> [] \<and> (\<forall>i<length (threads q). thread_ok (i = 0) (threads q ! i)) \<and> \<not> fQuit q"

definition all_ok :: "('c \<Rightarrow> bool) \<Rightarrow> 'c CCheckQueue \<Rightarrow> bool" where
  "all_ok check q \<longleftrightarrow> fAllOk q \<and> list_all check (queue q) \<and> list_all (vouches check) (threads q)"

definition cq_verdict :: "('c \<Rightarrow> bool) \<Rightarrow> 'c CCheckQueue \<Rightarrow> 'c list \<Rightarrow> bool" where
  "cq_verdict check q cs \<longleftrightarrow>
     (case threads q ! 0 of
        Returned r \<Rightarrow> r = list_all check cs \<and> fAllOk q \<and> nTodo q = 0
      | Waiting w \<Rightarrow> all_ok check q = list_all check cs \<and> (w \<or> queue q = [] \<and> nTodo q \<noteq> 0)
      | _ \<Rightarrow> all_ok check q = list_all check cs)"

definition cq_inv :: "('c \<Rightarrow> bool) \<Rightarrow> 'c CCheckQueue \<Rightarrow> 'c list \<Rightarrow> bool" where
  "cq_inv check q cs \<longleftrightarrow> cq_sums (length cs) q \<and> cq_verdict check q cs"

lemma sum_update_nat: "i < length ts \<Longrightarrow> sum_list (map f (ts[i := t])) + f (ts ! i) = sum_list (map f ts) + (f t :: nat)"
  by (induction ts arbitrary: i) (auto split: nat.split)

lemma sum_update_int: "i < length ts \<Longrightarrow> sum_list (map f (ts[i := t])) = sum_list (map f ts) + (f t - f (ts ! i) :: int)"
  by (induction ts arbitrary: i) (auto split: nat.split)

lemma list_all_at: "i < length ts \<Longrightarrow> list_all P ts = (P (ts ! i) \<and> (\<forall>j<length ts. j \<noteq> i \<longrightarrow> P (ts ! j)))"
  by (auto simp: list_all_length)

lemma list_all_update:
  "i < length ts \<Longrightarrow> list_all P (ts[i := t]) = (P t \<and> (\<forall>j<length ts. j \<noteq> i \<longrightarrow> P (ts ! j)))"
  by (auto simp: list_all_length nth_list_update)


text \<open>A notification changes nothing that the invariant counts.\<close>

definition woken :: "'c cq_thread list \<Rightarrow> 'c cq_thread list \<Rightarrow> bool" where
  "woken = list_all2 (\<lambda>t t'. t' = t \<or> (\<exists>w. t = Waiting w \<and> t' = Waiting True))"

lemma woken_refl: "woken ts ts"
  by (simp add: woken_def list_all2_refl)

lemma woken_facts:
  assumes "woken ts ts'"
  shows "length ts' = length ts" "map claim ts' = map claim ts" "map counted ts' = map counted ts"
    "map idling ts' = map idling ts" "list_all (vouches check) ts' = list_all (vouches check) ts"
    "\<forall>i<length ts. thread_ok m (ts' ! i) = thread_ok m (ts ! i)"
    "\<forall>i<length ts. ts' ! i = ts ! i \<or> (\<exists>w. ts ! i = Waiting w \<and> ts' ! i = Waiting True)"
  using assms unfolding woken_def
  by (induction ts ts' rule: list_all2_induct) (auto simp: nth_Cons split: nat.splits)

lemma cq_inv_woken:
  assumes "cq_inv check q cs" and "woken (threads q) ts"
  shows "cq_inv check (q\<lparr>threads := ts\<rparr>) cs"
proof -
  note w = woken_facts [OF assms(2)]
  have s: "cq_sums (length cs) q" "cq_verdict check q cs" using assms(1) by (simp_all add: cq_inv_def)
  have ne: "threads q \<noteq> []" using s(1) by (simp add: cq_sums_def)
  then have "ts \<noteq> []" using w(1) by auto
  then have "cq_sums (length cs) (q\<lparr>threads := ts\<rparr>)"
    using s(1) w(1-4) w(6) by (simp add: cq_sums_def)
  moreover have "all_ok check (q\<lparr>threads := ts\<rparr>) = all_ok check q" by (simp add: all_ok_def w(5))
  moreover have "ts ! 0 = threads q ! 0 \<or> (\<exists>w. threads q ! 0 = Waiting w \<and> ts ! 0 = Waiting True)"
    using w(7) ne by auto
  ultimately show ?thesis
    using s(2) unfolding cq_inv_def cq_verdict_def by (auto split: cq_thread.splits)
qed

lemma notify_woken: "\<exists>ts. notify q i = q\<lparr>threads := ts\<rparr> \<and> woken (threads q) ts"
proof (cases "i < length (threads q) \<and> (\<exists>w. threads q ! i = Waiting w)")
  case True
  then have "woken (threads q) ((threads q)[i := Waiting True])"
    by (auto simp: woken_def list_all2_conv_all_nth nth_list_update)
  moreover have "notify q i = q\<lparr>threads := (threads q)[i := Waiting True]\<rparr>"
    using True by (auto simp: notify_def at_thread_def)
  ultimately show ?thesis by blast
next
  case False
  then have "notify q i = q\<lparr>threads := threads q\<rparr>"
    by (cases "i < length (threads q)")
       (auto simp: notify_def at_thread_def not_less list_update_beyond split: cq_thread.split)
  then show ?thesis using woken_refl by blast
qed

lemma notify_all_woken: "threads q \<noteq> [] \<Longrightarrow> \<exists>ts. notify_all q = q\<lparr>threads := ts\<rparr> \<and> woken (threads q) ts"
  unfolding notify_all_def
  by (rule exI, rule conjI [OF refl], cases "threads q")
     (auto simp: woken_def list_all2_map2 intro!: list_all2_refl split: cq_thread.splits)

lemmas cq_defs = cq_inv_def cq_sums_def cq_verdict_def at_thread_def all_ok_def

lemma claims_zero:
  assumes "cq_sums b q" and "nTodo q = 0"
  shows "queue q = [] \<and> (\<forall>i<length (threads q). claim (threads q ! i) = 0 \<and> vouches check (threads q ! i))"
proof -
  have n: "word_of_nat (length (queue q) + sum_list (map claim (threads q))) = (0 :: u32)"
    "length (queue q) + sum_list (map claim (threads q)) < 2 ^ 32"
    using assms by (auto simp: cq_sums_def)
  then have z: "length (queue q) + sum_list (map claim (threads q)) = 0"
    using of_nat_inverse [OF n(1)] n(2) by simp
  then have c: "\<forall>i<length (threads q). claim (threads q ! i) = 0" by (simp add: sum_list_eq_0_iff)
  have "vouches check (threads q ! i)" if "i < length (threads q)" for i
  proof -
    have "claim (threads q ! i) = 0" "thread_ok (i = 0) (threads q ! i)"
      using c that assms(1) by (simp_all add: cq_sums_def)
    then show ?thesis by (cases "threads q ! i") (simp_all add: unat_eq_0)
  qed
  with z c show ?thesis by simp
qed


section \<open>Every step keeps it\<close>

lemma nth_set: "i < length ts \<Longrightarrow> (\<forall>j<length ts. P j (ts[i := t] ! j)) = (P i t \<and> (\<forall>j<length ts. j \<noteq> i \<longrightarrow> P j (ts ! j)))"
  by (auto simp: nth_list_update)

lemma batch_size_bounds:
  assumes "queue q \<noteq> []" and "length (queue q) < 2 ^ 32"
  shows "1 \<le> unat (batch_size q) \<and> unat (batch_size q) \<le> length (queue q)"
proof -
  let ?d = "word_of_nat (length (queue q)) div word_of_int (nTotal q + nIdle q + 1) :: u32"
  have "unat ?d \<le> length (queue q)"
    using assms(2) of_nat_inverse [of "length (queue q)" "word_of_nat (length (queue q)) :: u32"]
    by (simp add: unat_div_distrib div_le_dividend)
  then have "unat (min (nBatchSize q) ?d) \<le> length (queue q)"
    by (auto simp: min_def word_le_nat_alt)
  moreover have "1 \<le> length (queue q)" using assms(1) by (simp add: Suc_leI)
  ultimately show ?thesis unfolding batch_size_def by (auto simp: max_def word_le_nat_alt)
qed

text \<open>A thread that holds the mutex and is about to look at the queue is counted as one that was notified.\<close>

definition park :: "'c CCheckQueue \<Rightarrow> nat \<Rightarrow> 'c CCheckQueue" where
  "park q i = at_thread (q\<lparr>nIdle := nIdle q + 1\<rparr>) i (Waiting True)"

lemma section_parked: "cq_section q i = cq_section ((park q i)\<lparr>nIdle := nIdle (park q i) - 1\<rparr>) i"
  by (simp add: cq_section_def park_def at_thread_def batch_size_def Let_def)

lemma wake_inv:
  assumes inv: "cq_inv check q cs" and i: "i < length (threads q)" "threads q ! i = Waiting True"
  shows "cq_inv check (cq_section (q\<lparr>nIdle := nIdle q - 1\<rparr>) i) cs"
proof -
  let ?q = "q\<lparr>nIdle := nIdle q - 1\<rparr>"
  have s: "cq_sums (length cs) q" and v: "cq_verdict check q cs" using inv by (simp_all add: cq_inv_def)
  have ok: "\<forall>j<length (threads q). j \<noteq> i \<longrightarrow> thread_ok (j = 0) (threads q ! j)" using s by (simp add: cq_sums_def)
  have len: "length (queue q) < 2 ^ 32" using s by (simp add: cq_sums_def)
  have all: "all_ok check q = list_all check cs" if "i = 0" using that v i by (simp add: cq_verdict_def)
  note upd = sum_update_nat [OF i(1), of claim] sum_update_int [OF i(1)] nth_set [OF i(1), where P = "\<lambda>j. thread_ok (j = 0)"]
    list_all_update [OF i(1)]
  consider (ret) "queue q = []" "i = 0" "nTodo q = 0" | (wait) "queue q = []" "i \<noteq> 0 \<or> nTodo q \<noteq> 0" | (take) "queue q \<noteq> []"
    by blast
  then show ?thesis
  proof cases
    case ret
    have "all_ok check q = fAllOk q"
      using claims_zero [OF s ret(3), of check] by (auto simp: all_ok_def list_all_length)
    then have r: "fAllOk q = list_all check cs" using all [OF ret(2)] by simp
    have e: "cq_section ?q i = q\<lparr>nIdle := nIdle q - 1, nTotal := nTotal q - 1, fAllOk := True,
        threads := (threads q)[i := Returned (fAllOk q)]\<rparr>"
      using ret by (simp add: cq_section_def at_thread_def)
    have "\<forall>j<length (threads q). thread_ok (j = 0) ((threads q)[i := Returned (fAllOk q)] ! j)"
      unfolding upd(3) using ok ret(2) by simp
    then have "cq_sums (length cs) (cq_section ?q i)"
      using s i(2) upd(1) [of "Returned (fAllOk q)"] unfolding e cq_sums_def by (simp add: upd(2))
    moreover have "cq_verdict check (cq_section ?q i) cs"
      using r ret i unfolding e by (simp add: cq_verdict_def)
    ultimately show ?thesis by (simp add: cq_inv_def)
  next
    case wait
    have e: "cq_section ?q i = q\<lparr>threads := (threads q)[i := Waiting False]\<rparr>"
      using wait s by (auto simp: cq_section_def at_thread_def cq_sums_def)
    have a: "all_ok check (cq_section ?q i) = all_ok check q"
      using i unfolding e by (simp add: all_ok_def upd(4) list_all_at [OF i(1)])
    have "cq_sums (length cs) (cq_section ?q i)"
      using s i ok upd(1) [of "Waiting False"] unfolding e cq_sums_def by (simp add: upd(2,3))
    moreover have "cq_verdict check (cq_section ?q i) cs"
    proof (cases "i = 0")
      case True
      then show ?thesis using a all wait i unfolding e by (simp add: cq_verdict_def)
    next
      case False
      then show ?thesis using a v unfolding e by (simp add: cq_verdict_def split: cq_thread.splits)
    qed
    ultimately show ?thesis by (simp add: cq_inv_def)
  next
    case take
    let ?n = "batch_size ?q" and ?m = "length (queue q) - unat (batch_size ?q)"
    let ?t = "Working ?n (rev (drop ?m (queue q))) (fAllOk q)"
    have b: "1 \<le> unat ?n" "unat ?n \<le> length (queue q)"
      using batch_size_bounds [of ?q] take len by simp_all
    have e: "cq_section ?q i = q\<lparr>nIdle := nIdle q - 1, queue := take ?m (queue q), threads := (threads q)[i := ?t]\<rparr>"
      using take by (simp add: cq_section_def at_thread_def Let_def)
    have "list_all check (queue q) = (list_all check (take ?m (queue q)) \<and> list_all check (drop ?m (queue q)))"
      by (metis append_take_drop_id list_all_append)
    then have a: "all_ok check (cq_section ?q i) = all_ok check q"
      using i unfolding e by (auto simp: all_ok_def upd(4) list_all_at [OF i(1)] list_all_rev)
    have "length (take ?m (queue q)) + sum_list (map claim ((threads q)[i := ?t])) =
        length (queue q) + sum_list (map claim (threads q))"
      using upd(1) [of ?t] i b by simp
    then have "cq_sums (length cs) (cq_section ?q i)"
      using s i ok b unfolding e cq_sums_def by (auto simp: upd(2,3))
    moreover have "cq_verdict check (cq_section ?q i) cs"
    proof (cases "i = 0")
      case True
      then show ?thesis using a all i unfolding e by (simp add: cq_verdict_def)
    next
      case False
      then show ?thesis using a v take unfolding e by (simp add: cq_verdict_def split: cq_thread.splits)
    qed
    ultimately show ?thesis by (simp add: cq_inv_def)
  qed
qed


lemma account_inv:
  assumes inv: "cq_inv check q cs" and i: "i < length (threads q)" "threads q ! i = Locking nNow fOk"
  shows "cq_inv check (park (cq_account q i nNow fOk) i) cs"
proof -
  have s: "cq_sums (length cs) q" and v: "cq_verdict check q cs" using inv by (simp_all add: cq_inv_def)
  have ok: "\<forall>j<length (threads q). j \<noteq> i \<longrightarrow> thread_ok (j = 0) (threads q ! j)" using s by (simp add: cq_sums_def)
  note upd = sum_update_nat [OF i(1), of claim] sum_update_int [OF i(1)] nth_set [OF i(1), where P = "\<lambda>j. thread_ok (j = 0)"]
    list_all_update [OF i(1)]
  let ?t = "Waiting True :: 'a cq_thread"
  show ?thesis
  proof (cases "nNow = 0")
    case True
    have e: "park (cq_account q i nNow fOk) i = q\<lparr>nIdle := nIdle q + 1, nTotal := nTotal q + 1, threads := (threads q)[i := ?t]\<rparr>"
      using True by (simp add: cq_account_def park_def at_thread_def)
    have "all_ok check (park (cq_account q i nNow fOk) i) = all_ok check q"
      using i True unfolding e by (simp add: all_ok_def upd(4) list_all_at [OF i(1)])
    then have "cq_verdict check (park (cq_account q i nNow fOk) i) cs"
      using v i True unfolding e by (auto simp: cq_verdict_def nth_list_update split: cq_thread.splits)
    moreover have "cq_sums (length cs) (park (cq_account q i nNow fOk) i)"
      using s i ok True upd(1) [of ?t] unfolding e cq_sums_def by (simp add: upd(2,3))
    ultimately show ?thesis by (simp add: cq_inv_def)
  next
    case False
    let ?q = "q\<lparr>fAllOk := (fAllOk q \<and> fOk), nTodo := nTodo q - nNow, nIdle := nIdle q + 1, threads := (threads q)[i := ?t]\<rparr>"
    have le: "unat nNow \<le> sum_list (map claim (threads q))"
      using i by (metis claim.simps(1) elem_le_sum_list length_map nth_map)
    have sum: "unat nNow + sum_list (map claim ((threads q)[i := ?t])) = sum_list (map claim (threads q))"
      using upd(1) [of ?t] i by simp
    have "nTodo q = word_of_nat (unat nNow + (length (queue q) + sum_list (map claim ((threads q)[i := ?t]))))"
      using s unfolding cq_sums_def sum [symmetric] by (simp add: ac_simps)
    then have todo: "nTodo q - nNow = word_of_nat (length (queue q) + sum_list (map claim ((threads q)[i := ?t])))"
      by simp
    have sums: "cq_sums (length cs) ?q"
      using s i ok sum todo False unfolding cq_sums_def by (simp add: upd(2,3))
    have a: "all_ok check ?q = all_ok check q"
      using i False by (auto simp: all_ok_def upd(4) list_all_at [OF i(1)])
    have nz: "nTodo q \<noteq> 0"
    proof
      assume "nTodo q = 0"
      then have "claim (threads q ! i) = 0" using claims_zero [OF s, of check] i(1) by blast
      then show False using i(2) False by (simp add: unat_eq_0)
    qed
    show ?thesis
    proof (cases "nTodo q - nNow = 0 \<and> i \<noteq> 0")
      case True
      obtain ts where ts: "notify ?q 0 = ?q\<lparr>threads := ts\<rparr>" "woken (threads ?q) ts" using notify_woken by blast
      let ?Q = "q\<lparr>fAllOk := (fAllOk q \<and> fOk), nTodo := nTodo q - nNow, nIdle := nIdle q + 1\<rparr>"
      have p: "park (cq_account q i nNow fOk) i = notify ?q 0"
        using False True i
        by (auto simp: cq_account_def park_def at_thread_def notify_def Let_def list_update_swap split: cq_thread.split)
      have m: "notify ?q 0 = ?q\<lparr>threads := ts\<rparr>" by (rule ts(1))
      have "all_ok check (notify ?q 0) = all_ok check q"
        using woken_facts(5) [OF ts(2), of check] a unfolding m by (simp add: all_ok_def)
      moreover have "threads (notify ?q 0) ! 0 = (case threads q ! 0 of Waiting _ \<Rightarrow> Waiting True | t \<Rightarrow> t)"
      proof -
        have "threads q \<noteq> []" using i(1) by auto
        then show ?thesis using True by (auto simp: notify_def at_thread_def nth_list_update split: cq_thread.split)
      qed
      ultimately have "cq_verdict check (notify ?q 0) cs"
        using v nz by (cases "threads q ! 0") (simp_all add: cq_verdict_def)
      moreover have "cq_sums (length cs) (notify ?q 0)"
      proof -
        note w = woken_facts [OF ts(2)]
        have "ts \<noteq> []" using w(1) i by auto
        then show ?thesis using sums w(1-4) w(6) unfolding m by (simp add: cq_sums_def)
      qed
      ultimately show ?thesis unfolding p by (simp add: cq_inv_def)
    next
      case no: False
      have p: "park (cq_account q i nNow fOk) i = ?q"
        using False no by (auto simp: cq_account_def park_def at_thread_def Let_def)
      have "cq_verdict check ?q cs"
        using v a nz no i by (auto simp: cq_verdict_def nth_list_update split: cq_thread.splits)
      with sums show ?thesis unfolding p by (simp add: cq_inv_def)
    qed
  qed
qed


lemma work_inv:
  assumes inv: "cq_inv check q cs" and i: "i < length (threads q)" "threads q ! i = Working n xs ok"
    and t: "t = Locking n ok \<and> xs = [] \<or> (\<exists>c ys. xs = c # ys \<and> t = Working n ys (if ok then check c else ok))"
  shows "cq_inv check (at_thread q i t) cs"
proof -
  have s: "cq_sums (length cs) q" and v: "cq_verdict check q cs" using inv by (simp_all add: cq_inv_def)
  have ok: "\<forall>j<length (threads q). thread_ok (j = 0) (threads q ! j)" using s by (simp add: cq_sums_def)
  then have n: "n \<noteq> 0" using i by force
  note upd = sum_update_nat [OF i(1), of claim] sum_update_int [OF i(1)] nth_set [OF i(1), where P = "\<lambda>j. thread_ok (j = 0)"]
    list_all_update [OF i(1)]
  have w: "claim t = unat n" "counted t = 1" "idling t = 0" "thread_ok (i = 0) t"
    "vouches check t = vouches check (threads q ! i)"
    using t n i by (auto split: if_splits)
  have sum: "sum_list (map claim ((threads q)[i := t])) = sum_list (map claim (threads q))"
    using upd(1) [of t] i(2) w(1) by simp
  have "cq_sums (length cs) (at_thread q i t)"
    using s ok i(2) w sum unfolding cq_sums_def at_thread_def by (simp add: upd(2,3))
  moreover have "all_ok check (at_thread q i t) = all_ok check q"
    using w(5) by (simp add: all_ok_def at_thread_def upd(4) list_all_at [OF i(1)])
  then have "cq_verdict check (at_thread q i t) cs"
    using v i t by (auto simp: cq_verdict_def at_thread_def nth_list_update split: cq_thread.splits)
  ultimately show ?thesis by (simp add: cq_inv_def)
qed

lemma step_inv: "cq_step check q q' \<Longrightarrow> cq_inv check q cs \<Longrightarrow> cq_inv check q' cs"
proof (induction rule: cq_step.induct)
  case (lock i q nNow fOk)
  let ?p = "park (cq_account q i nNow fOk) i"
  have "length (threads (cq_account q i nNow fOk)) = length (threads q)"
    by (simp add: cq_account_def Let_def notify_def at_thread_def split: cq_thread.split)
  then have "i < length (threads ?p)" "threads ?p ! i = Waiting True" using lock(1) by (simp_all add: park_def at_thread_def)
  then show ?case
    using wake_inv [OF account_inv [OF lock(3,1,2)]] by (simp only: section_parked [of "cq_account q i nNow fOk"])
next
  case (wake i q)
  then show ?case by (intro wake_inv)
next
  case (work i q nNow c vChecks fOk)
  then show ?case by (intro work_inv) auto
next
  case (done_batch i q nNow fOk)
  then show ?case by (intro work_inv) auto
qed

lemma add_inv:
  assumes inv: "cq_inv check q cs" and m: "threads q ! 0 = Outside" and len: "length cs + length vs < 2 ^ 32"
  shows "cq_inv check (cq_Add q vs i) (cs @ vs)"
proof -
  let ?q = "q\<lparr>queue := queue q @ vs, nTodo := nTodo q + word_of_nat (length vs)\<rparr>"
  have "cq_inv check ?q (cs @ vs)"
    using inv m len by (auto simp: cq_defs)
  moreover have "threads ?q \<noteq> []" using inv by (simp add: cq_inv_def cq_sums_def)
  ultimately have "cq_inv check (notify ?q i) (cs @ vs)" "cq_inv check (notify_all ?q) (cs @ vs)" "cq_inv check ?q (cs @ vs)"
    using cq_inv_woken notify_woken [of ?q i] notify_all_woken [of ?q] by metis+
  then show ?thesis unfolding cq_Add_def Let_def by (auto split: if_split)
qed

lemma reach_inv: "cq_reach check bsize nWorkers q cs \<Longrightarrow> cq_inv check q cs"
proof (induction rule: cq_reach.induct)
  case init
  show ?case
    by (auto simp: cq_init_def cq_defs nth_Cons sum_list_replicate list_all_length split: nat.split)
next
  case (thread_step q cs q')
  then show ?case using step_inv by blast
next
  case (spurious q cs i)
  then show ?case using cq_inv_woken notify_woken [of q i] by metis
next
  case (add q cs i vChecks)
  then show ?case by (intro add_inv)
next
  case (wait q cs)
  have l: "0 < length (threads q)" using wait(3) by (simp add: cq_inv_def cq_sums_def)
  show ?case
    using wait(2,3) sum_update_nat [OF l, of claim "Locking 0 True"] l
    by (auto simp: cq_defs sum_update_int [OF l] list_all_update [OF l] list_all_at [OF l] nth_list_update)
next
  case (result q cs r)
  have l: "0 < length (threads q)" using result(3) by (simp add: cq_inv_def cq_sums_def)
  have s: "cq_sums (length cs) q" "nTodo q = 0" "fAllOk q"
    using result(2,3) by (simp_all add: cq_inv_def cq_verdict_def)
  have z: "queue q = []" "\<forall>i<length (threads q). vouches check (threads q ! i)" "sum_list (map claim (threads q)) = 0"
    using claims_zero [OF s(1,2), of check] by (auto simp: sum_list_eq_0_iff in_set_conv_nth)
  have c: "sum_list (map claim ((threads q)[0 := Outside])) = 0"
    using sum_update_nat [OF l, of claim Outside] unfolding z(3) by simp
  show ?case
    using s(2,3) s(1) z(1,2) c result(2) l
    by (auto simp: cq_defs sum_update_int [OF l] list_all_update [OF l] nth_list_update simp del: sum_list_eq_0_iff)
qed


section \<open>Every call of Wait returns\<close>

text \<open>The work left: a batch leaves the queue at a cost below that of its checks.\<close>

fun thread_load :: "'c cq_thread \<Rightarrow> nat" where
  "thread_load (Locking n ok) = 2" | "thread_load (Waiting w) = (if w then 1 else 0)"
| "thread_load (Working n cs ok) = 3 + length cs" | "thread_load _ = 0"

definition cq_load :: "'c CCheckQueue \<Rightarrow> nat" where
  "cq_load q = 5 * length (queue q) + sum_list (map thread_load (threads q))"

lemma section_load:
  assumes "i < length (threads q)" and "length (queue q) < 2 ^ 32"
  shows "cq_load (cq_section q i) + thread_load (threads q ! i) \<le> cq_load q"
proof (cases "queue q = []")
  case True
  then show ?thesis
    using sum_update_nat [OF assms(1), of thread_load "Returned (fAllOk q)"]
      sum_update_nat [OF assms(1), of thread_load "Waiting False"]
    by (auto simp: cq_section_def cq_load_def at_thread_def)
next
  case False
  let ?m = "length (queue q) - unat (batch_size q)"
  let ?t = "Working (batch_size q) (rev (drop ?m (queue q))) (fAllOk q)"
  have "1 \<le> unat (batch_size q)" "unat (batch_size q) \<le> length (queue q)"
    using batch_size_bounds [OF False assms(2)] by blast+
  then show ?thesis
    using False sum_update_nat [OF assms(1), of thread_load ?t]
    by (simp add: cq_section_def cq_load_def at_thread_def Let_def)
qed

lemma notify_load: "cq_load (notify q i) \<le> cq_load q + 1"
proof (cases "i < length (threads q)")
  case True
  then show ?thesis
    using sum_update_nat [OF True, of thread_load "Waiting True"]
    by (auto simp: notify_def at_thread_def cq_load_def split: cq_thread.split)
next
  case False
  then show ?thesis
    by (auto simp: notify_def at_thread_def cq_load_def not_less list_update_beyond split: cq_thread.split)
qed

lemma account_facts:
  assumes "threads q ! i = Locking nNow fOk"
  shows "threads (cq_account q i nNow fOk) ! i = Locking nNow fOk \<and> queue (cq_account q i nNow fOk) = queue q
    \<and> length (threads (cq_account q i nNow fOk)) = length (threads q)
    \<and> cq_load (cq_account q i nNow fOk) \<le> cq_load q + 1"
proof -
  let ?q = "q\<lparr>fAllOk := (fAllOk q \<and> fOk), nTodo := nTodo q - nNow\<rparr>"
  have "cq_load (notify ?q 0) \<le> cq_load q + 1"
    using notify_load [of ?q 0] by (simp add: cq_load_def)
  then show ?thesis
    using assms by (auto simp: cq_account_def Let_def cq_load_def notify_def at_thread_def split: cq_thread.splits)
qed

lemma step_load:
  assumes "cq_step check q q'" and "length (queue q) < 2 ^ 32"
  shows "cq_load q' < cq_load q"
  using assms
proof (induction rule: cq_step.induct)
  case (lock i q nNow fOk)
  note a = account_facts [OF lock(2)]
  have "cq_load (cq_section (cq_account q i nNow fOk) i) + thread_load (threads (cq_account q i nNow fOk) ! i) \<le>
      cq_load (cq_account q i nNow fOk)"
    using a lock(1,3) by (intro section_load) simp_all
  then show ?case using a by simp
next
  case (wake i q)
  then show ?case
    using section_load [of i "q\<lparr>nIdle := nIdle q - 1\<rparr>"] by (simp add: cq_load_def)
next
  case (work i q nNow c vChecks fOk)
  let ?t = "Working nNow vChecks (if fOk then check c else fOk)"
  have "cq_load (at_thread q i ?t) + thread_load (threads q ! i) = cq_load q + thread_load ?t"
    using sum_update_nat [OF work(1), of thread_load ?t] by (simp add: cq_load_def at_thread_def)
  then show ?case using work(2) by simp
next
  case (done_batch i q nNow fOk)
  have "cq_load (at_thread q i (Locking nNow fOk)) + thread_load (threads q ! i) = cq_load q + 2"
    using sum_update_nat [OF done_batch(1), of thread_load "Locking nNow fOk"] by (simp add: cq_load_def at_thread_def)
  then show ?case using done_batch(2) by simp
qed

definition in_loop :: "'c CCheckQueue \<Rightarrow> bool" where
  "in_loop q \<longleftrightarrow> (case threads q ! 0 of Outside \<Rightarrow> False | Returned r \<Rightarrow> False | _ \<Rightarrow> True)"

lemma busy_step:
  assumes "i < length (threads q)" and "claim (threads q ! i) \<noteq> 0"
  shows "\<exists>q'. cq_step check q q'"
proof (cases "threads q ! i")
  case (Locking n ok)
  then show ?thesis using cq_step.lock [OF assms(1)] by blast
next
  case (Working n cs ok)
  then show ?thesis using cq_step.work [OF assms(1)] cq_step.done_batch [OF assms(1)] by (cases cs) blast+
qed (use assms(2) in simp_all)

lemma loop_step:
  assumes inv: "cq_inv check q cs" and m: "in_loop q"
  shows "\<exists>q'. cq_step check q q'"
proof -
  have s: "cq_sums (length cs) q" "cq_verdict check q cs" using inv by (simp_all add: cq_inv_def)
  then have l: "0 < length (threads q)" by (simp add: cq_sums_def)
  show ?thesis
  proof (cases "threads q ! 0")
    case (Locking n ok)
    then show ?thesis using cq_step.lock [OF l] by blast
  next
    case (Working n cs ok)
    then show ?thesis using cq_step.work [OF l] cq_step.done_batch [OF l] by (cases cs) blast+
  next
    case (Waiting w)
    show ?thesis
    proof (cases w)
      case True
      then show ?thesis using cq_step.wake [OF l] Waiting by auto
    next
      case False
      then have "queue q = []" "nTodo q \<noteq> 0" using s(2) Waiting by (simp_all add: cq_verdict_def)
      then have "word_of_nat (sum_list (map claim (threads q))) \<noteq> (0 :: u32)" using s(1) by (simp add: cq_sums_def)
      then have "sum_list (map claim (threads q)) \<noteq> 0" by (intro notI) (simp del: sum_list_eq_0_iff)
      then obtain i where "i < length (threads q)" "claim (threads q ! i) \<noteq> 0"
        by (auto simp: sum_list_eq_0_iff in_set_conv_nth)
      then show ?thesis by (rule busy_step)
    qed
  qed (use m in \<open>simp_all add: in_loop_def\<close>)
qed

lemma section_master:
  "i < length (threads q) \<Longrightarrow> threads (cq_section q i) ! 0 =
     (if i = 0 then threads (cq_section q 0) ! 0 else threads q ! 0) \<and> threads (cq_section q 0) ! 0 \<noteq> Outside"
  by (cases "threads q") (auto simp: cq_section_def at_thread_def Let_def nth_list_update split: nat.split)

lemma step_master:
  assumes "cq_step check q q'" and "threads q ! 0 \<noteq> Outside"
  shows "threads q' ! 0 \<noteq> Outside"
  using assms
proof (induction rule: cq_step.induct)
  case (lock i q nNow fOk)
  have "threads (cq_account q i nNow fOk) ! 0 \<noteq> Outside"
    using lock(1,3) by (cases "threads q") (auto simp: cq_account_def Let_def notify_def at_thread_def split: cq_thread.split)
  then show ?case using section_master [of i "cq_account q i nNow fOk"] lock(1) account_facts [OF lock(2)] by metis
next
  case (wake i q)
  then show ?case using section_master [of i "q\<lparr>nIdle := nIdle q - 1\<rparr>"] by auto
qed (auto simp: at_thread_def nth_list_update)



section \<open>The workers are awake while there is work\<close>

definition awake :: "'c cq_thread \<Rightarrow> bool" where
  "awake t = (case t of Locking n ok \<Rightarrow> True | Waiting w \<Rightarrow> w | Working n cs ok \<Rightarrow> True | _ \<Rightarrow> False)"

definition someone_awake :: "'c CCheckQueue \<Rightarrow> bool" where
  "someone_awake q \<longleftrightarrow> (queue q \<noteq> [] \<and> 1 < length (threads q) \<longrightarrow>
     (\<exists>i>0. i < length (threads q) \<and> awake (threads q ! i)))"

lemma awake_simps [simp]:
  "awake (Locking n ok)" "awake (Waiting w) = w" "awake (Working n cs ok)" "\<not> awake Outside" "\<not> awake (Returned ok)"
  by (simp_all add: awake_def)

lemma awake_update: "j < length ts \<Longrightarrow> awake t \<Longrightarrow> awake (ts ! j) \<Longrightarrow> awake (ts[i := t] ! j)"
  by (cases "i = j") simp_all

lemma notify_same [simp]:
  "length (threads (notify q i)) = length (threads q)" "queue (notify q i) = queue q"
  "length (threads (notify_all q)) = (if threads q = [] then 1 else length (threads q))" "queue (notify_all q) = queue q"
  by (simp_all add: notify_def notify_all_def at_thread_def split: cq_thread.split)

lemma reach_threads: "cq_reach check bsize nWorkers q cs \<Longrightarrow> length (threads q) = Suc nWorkers"
proof (induction rule: cq_reach.induct)
  case (thread_step q cs q')
  then show ?case
    by (auto elim!: cq_stepE simp: cq_section_def cq_account_def at_thread_def Let_def)
next
  case (add q cs i vChecks)
  then show ?case
    by (auto simp: cq_Add_def Let_def)
qed (auto simp: cq_init_def at_thread_def)

text \<open>A thread that passes the critical section is awake afterwards unless it has found the queue empty.\<close>

lemma section_awake:
  assumes "someone_awake q" and "i < length (threads q)"
  shows "someone_awake (cq_section q i)"
proof (cases "queue q = []")
  case True
  then show ?thesis by (simp add: cq_section_def someone_awake_def at_thread_def)
next
  case False
  define t where "t = Working (batch_size q) (rev (drop (length (queue q) - unat (batch_size q)) (queue q))) (fAllOk q)"
  have e: "threads (cq_section q i) = (threads q)[i := t]"
    using False by (simp add: cq_section_def at_thread_def Let_def t_def)
  have "awake ((threads q)[i := t] ! j)" if "j < length (threads q)" "awake (threads q ! j)" for j
    using that by (simp add: awake_update t_def)
  then show ?thesis using assms(1) False unfolding someone_awake_def e by fastforce
qed

lemma notify_awake: "someone_awake q \<Longrightarrow> someone_awake (notify q i)"
proof -
  assume a: "someone_awake q"
  have "awake (threads (notify q i) ! j)" if "j < length (threads q)" "awake (threads q ! j)" for j
    using that by (auto simp: notify_def at_thread_def awake_update split: cq_thread.split)
  then show "someone_awake (notify q i)" using a by (fastforce simp: someone_awake_def)
qed

lemma step_awake: "cq_step check q q' \<Longrightarrow> someone_awake q \<Longrightarrow> someone_awake q'"
proof (induction rule: cq_step.induct)
  case (lock i q nNow fOk)
  have "someone_awake (cq_account q i nNow fOk)"
    using lock(3) notify_awake [of "q\<lparr>fAllOk := (fAllOk q \<and> fOk), nTodo := nTodo q - nNow\<rparr>" 0]
    by (auto simp: cq_account_def Let_def someone_awake_def)
  then show ?case using section_awake account_facts [OF lock(2)] lock(1) by metis
next
  case (wake i q)
  then show ?case using section_awake [of "q\<lparr>nIdle := nIdle q - 1\<rparr>" i] by (simp add: someone_awake_def)
qed (auto simp: someone_awake_def at_thread_def nth_list_update awake_def)

lemma not_sleeping: "cq_sums b q \<Longrightarrow> 0 < i \<Longrightarrow> i < length (threads q) \<Longrightarrow> i \<notin> sleeping q \<Longrightarrow> awake (threads q ! i)"
  by (cases "threads q ! i") (auto simp: cq_sums_def sleeping_def awake_def dest!: spec [where x = i])

text \<open>This is what the notifications of \<open>Add\<close> are for.\<close>

lemma add_awake:
  assumes "someone_awake q" and "cq_sums b q" and "sleeping q \<noteq> {} \<longrightarrow> i \<in> sleeping q"
  shows "someone_awake (cq_Add q vs i)"
proof (cases "vs = [] \<or> length (threads q) \<le> 1")
  case True
  then show ?thesis
    using assms(1,2) by (auto simp: someone_awake_def cq_Add_def Let_def cq_sums_def)
next
  case False
  let ?q = "q\<lparr>queue := queue q @ vs, nTodo := nTodo q + word_of_nat (length vs)\<rparr>"
  have w: "1 < length (threads q)" using False by simp
  have n: "\<exists>j>0. j < length (threads q) \<and> awake (threads (notify ?q i) ! j)" if "i \<noteq> 0"
  proof (cases "sleeping q = {}")
    case True
    have "awake (threads (notify ?q i) ! 1)"
      using not_sleeping [OF assms(2), of 1] w True by (auto simp: notify_def at_thread_def awake_update split: cq_thread.split)
    then show ?thesis using w by (intro exI [of _ 1]) simp
  next
    case False
    then show ?thesis
      using assms(3) by (intro exI [of _ i]) (auto simp: sleeping_def notify_def at_thread_def)
  qed
  have m: "\<exists>j>0. j < length (threads q) \<and> awake (threads q ! j)" if "i = 0"
    using not_sleeping [OF assms(2), of 1] w assms(3) that by (intro exI [of _ 1]) (auto simp: sleeping_def)
  have "awake (threads (notify_all ?q) ! 1)"
    using not_sleeping [OF assms(2), of 1] w
    by (auto simp: notify_all_def nth_tl sleeping_def split: cq_thread.splits)
  then have a: "\<exists>j>0. j < length (threads q) \<and> awake (threads (notify_all ?q) ! j)" using w by (intro exI [of _ 1]) simp
  have "length vs = 1 \<or> 1 < length vs" using False by (cases vs) (auto simp: Suc_lessI)
  then show ?thesis
    using n m a w unfolding cq_Add_def Let_def someone_awake_def by auto
qed

lemma reach_awake: "cq_reach check bsize nWorkers q cs \<Longrightarrow> someone_awake q"
proof (induction rule: cq_reach.induct)
  case (add q cs i vChecks)
  then show ?case using add_awake [of q "length cs"] reach_inv [OF add(1)] by (simp add: cq_inv_def)
next
  case (thread_step q cs q')
  then show ?case using step_awake by blast
next
  case (spurious q cs i)
  then show ?case using notify_awake by blast
qed (auto simp: someone_awake_def cq_init_def awake_def at_thread_def)

lemma todo_step:
  assumes inv: "cq_inv check q cs" and "someone_awake q" and "1 < length (threads q)" and "nTodo q \<noteq> 0"
  shows "\<exists>q'. cq_step check q q'"
proof (cases "queue q = []")
  case True
  have "cq_sums (length cs) q" using inv by (simp add: cq_inv_def)
  then have "word_of_nat (sum_list (map claim (threads q))) \<noteq> (0 :: u32)" using assms(4) True by (simp add: cq_sums_def)
  then have "sum_list (map claim (threads q)) \<noteq> 0" by (intro notI) (simp del: sum_list_eq_0_iff)
  then obtain i where "i < length (threads q)" "claim (threads q ! i) \<noteq> 0"
    by (auto simp: sum_list_eq_0_iff in_set_conv_nth)
  then show ?thesis by (rule busy_step)
next
  case False
  then obtain i where i: "i < length (threads q)" "awake (threads q ! i)"
    using assms(2,3) by (auto simp: someone_awake_def)
  show ?thesis
  proof (cases "threads q ! i")
    case (Locking n ok)
    then show ?thesis using cq_step.lock [OF i(1)] by blast
  next
    case (Waiting w)
    then show ?thesis using cq_step.wake [OF i(1)] i(2) by (auto simp: awake_def)
  next
    case (Working n cs ok)
    then show ?thesis using cq_step.work [OF i(1)] cq_step.done_batch [OF i(1)] by (cases cs) blast+
  qed (use i(2) in \<open>simp_all add: awake_def\<close>)
qed

text \<open>A run comes to a stop, or to a result, within the work left.\<close>

lemma run_stops:
  assumes run: "\<forall>k. if \<exists>q'. cq_step check (f k) q' then cq_step check (f k) (f (Suc k)) else f (Suc k) = f k"
    and len: "\<And>k. length (queue (f k)) < 2 ^ 32"
  shows "\<exists>k\<le>cq_load (f 0). \<nexists>q'. cq_step check (f k) q'"
proof (rule ccontr)
  assume no: "\<not> ?thesis"
  have st: "cq_step check (f k) (f (Suc k))" if "k \<le> cq_load (f 0)" for k using no run that by metis
  have "k \<le> Suc (cq_load (f 0)) \<Longrightarrow> cq_load (f k) + k \<le> cq_load (f 0)" for k
  proof (induction k)
    case (Suc k)
    then show ?case using step_load [OF st len, of k] by simp
  qed simp
  from this [of "Suc (cq_load (f 0))"] show False by simp
qed


section \<open>Properties\<close>

text \<open>C10: Whatever the number of workers, the sizes of the batches and the interleaving of the threads, \<open>Wait\<close> returns whether
  all the checks added since the last result hold, although a thread that has seen a failure skips the rest of its batch; and the
  assertions of the constructor of \<open>CCheckQueueControl\<close> hold whenever the queue is not in use.\<close>

theorem checkqueue_result:
  assumes "cq_reach check bsize nWorkers q cs"
  shows "(\<forall>r. threads q ! 0 = Returned r \<longrightarrow> r = list_all check cs)
    \<and> (threads q ! 0 = Outside \<and> cs = [] \<longrightarrow> control_init q)"
proof (intro conjI allI impI)
  have inv: "cq_sums (length cs) q" "cq_verdict check q cs" using reach_inv [OF assms] by (simp_all add: cq_inv_def)
  show "r = list_all check cs" if "threads q ! 0 = Returned r" for r
    using inv(2) that by (simp add: cq_verdict_def)
  show "control_init q" if m: "threads q ! 0 = Outside \<and> cs = []"
  proof -
    have "nTodo q = word_of_nat (length (queue q) + sum_list (map claim (threads q)))"
      "length (queue q) + sum_list (map claim (threads q)) \<le> 0"
      using inv(1) m by (simp_all only: cq_sums_def list.size)
    then have "nTodo q = word_of_nat 0" by (simp only: le_zero_eq)
    then have t: "nTodo q = 0" by simp
    have "counted t = idling t" if mem: "t \<in> set (threads q)" for t
    proof -
      obtain i where i: "i < length (threads q)" "t = threads q ! i" using mem by (auto simp: in_set_conv_nth)
      then have "claim t = 0" "thread_ok (i = 0) t"
        using claims_zero [OF inv(1) t, of check] inv(1) by (simp_all add: cq_sums_def)
      then show ?thesis by (cases t) (simp_all add: unat_eq_0)
    qed
    then have "map counted (threads q) = map idling (threads q)" by (intro map_cong refl)
    then have "sum_list (map counted (threads q)) = sum_list (map idling (threads q))" by (simp only:)
    then have "nTotal q = nIdle q" using inv(1) by (simp add: cq_sums_def)
    moreover have "fAllOk q" using inv(2) m by (simp add: cq_verdict_def all_ok_def)
    ultimately show ?thesis using t by (simp add: control_init_def)
  qed
qed

text \<open>C9: \<open>Wait\<close> returns under every schedule: from any state in which the master is in \<open>Loop\<close>, a run of the threads that
  does not stop while a step is possible brings the master back, with the conjunction of the checks added as the result, within
  a number of steps that is bounded by the work left.  And the workers do not sleep over work: whenever checks are queued and
  there is a worker, some worker is awake (it is about to lock the mutex, was notified or is at work), so that even before the
  master calls \<open>Wait\<close> a run comes to a state within that bound in which the queue is empty and every check was accounted for.
  (A worker may wait for ever while there is nothing to do.)\<close>

theorem wait_returns:
  assumes "cq_reach check bsize nWorkers q cs"
    and "f 0 = q" and "\<forall>k. if \<exists>q'. cq_step check (f k) q' then cq_step check (f k) (f (Suc k)) else f (Suc k) = f k"
  shows "(in_loop q \<longrightarrow> (\<exists>k\<le>cq_load q. threads (f k) ! 0 = Returned (list_all check cs)))
    \<and> (0 < nWorkers \<longrightarrow> (queue q \<noteq> [] \<longrightarrow> (\<exists>i>0. i < length (threads q) \<and> awake (threads q ! i)))
         \<and> (\<exists>k\<le>cq_load q. queue (f k) = [] \<and> nTodo (f k) = 0))"
proof (intro conjI impI)
  have reach: "cq_reach check bsize nWorkers (f k) cs" for k
  proof (induction k)
    case (Suc k)
    then show ?case using assms(3) cq_reach.thread_step [OF Suc] by metis
  qed (use assms in simp)
  have len: "length (queue (f k)) < 2 ^ 32" for k
    using reach_inv [OF reach [of k]] by (simp add: cq_inv_def cq_sums_def)
  note bounded = run_stops [OF assms(3) len]
  show "\<exists>i>0. i < length (threads q) \<and> awake (threads q ! i)" if "0 < nWorkers" "queue q \<noteq> []"
    using reach_awake [OF assms(1)] reach_threads [OF assms(1)] that by (simp add: someone_awake_def)
  show "\<exists>k\<le>cq_load q. queue (f k) = [] \<and> nTodo (f k) = 0" if w: "0 < nWorkers"
  proof -
    obtain k where k: "k \<le> cq_load q" "\<nexists>q'. cq_step check (f k) q'" using bounded assms(2) by auto
    have "nTodo (f k) = 0"
      using todo_step [OF reach_inv [OF reach] reach_awake [OF reach]] reach_threads [OF reach] w k(2) by fastforce
    then show ?thesis using claims_zero [of "length cs" "f k"] reach_inv [OF reach [of k]] k(1) by (auto simp: cq_inv_def)
  qed
  show "\<exists>k\<le>cq_load q. threads (f k) ! 0 = Returned (list_all check cs)" if l: "in_loop q"
  proof (rule ccontr)
    assume no: "\<not> ?thesis"
    have "in_loop (f k)" if "k \<le> cq_load q" for k
      using that
    proof (induction k)
      case (Suc k)
      then have k: "in_loop (f k)" by simp
      have st: "cq_step check (f k) (f (Suc k))" using assms(3) loop_step [OF reach_inv [OF reach] k] by metis
      have "threads (f k) ! 0 \<noteq> Outside" using k by (auto simp: in_loop_def)
      then have "threads (f (Suc k)) ! 0 \<noteq> Outside" using step_master [OF st] by blast
      moreover have "threads (f (Suc k)) ! 0 \<noteq> Returned r" for r
        using no Suc.prems reach_inv [OF reach [of "Suc k"]] by (auto simp: cq_inv_def cq_verdict_def)
      ultimately show ?case by (simp add: in_loop_def split: cq_thread.split)
    qed (use l assms(2) in simp)
    moreover obtain k where "k \<le> cq_load q" "\<nexists>q'. cq_step check (f k) q'" using bounded assms(2) by auto
    ultimately show False using loop_step [OF reach_inv [OF reach]] by blast
  qed
qed


text \<open>Two workers that have not started yet, and a check that fails.\<close>

abbreviation (input) cq_at :: "nat list \<Rightarrow> int \<Rightarrow> bool \<Rightarrow> u32 \<Rightarrow> nat cq_thread \<Rightarrow> nat CCheckQueue" where
  "cq_at cs n ok todo t \<equiv> \<lparr>queue = cs, nIdle = 0, nTotal = n, fAllOk = ok, nTodo = todo, fQuit = False,
     nBatchSize = 128, threads = [t, Locking 0 True, Locking 0 True]\<rparr>"

lemma cq_added_reach: "cq_reach (\<lambda>n. n = 2) 128 2 (cq_at [7] 0 True 1 (Locking 0 True)) [7]"
proof -
  have a: "cq_Add (cq_init 128 2) [7] 1 = cq_at [7] 0 True 1 Outside"
    by (simp add: cq_init_def cq_Add_def notify_def numeral_2_eq_2)
  have "cq_reach (\<lambda>n. n = 2) 128 2 (cq_Add (cq_init 128 2) [7] 1) ([] @ [7 :: nat])"
    by (rule cq_reach.add [OF cq_reach.init]) (auto simp: cq_init_def sleeping_def nth_Cons split: nat.splits)
  then have "cq_reach (\<lambda>n. n = 2) 128 2 (cq_at [7] 0 True 1 Outside) [7]" unfolding a by simp
  from cq_reach.wait [OF this] show ?thesis by (simp add: at_thread_def)
qed

lemma cq_added_run:
  "cq_step (\<lambda>n. n = 2) (cq_at [7] 0 True 1 (Locking 0 True)) (cq_at [] 1 True 1 (Working 1 [7] True))"
  "cq_step (\<lambda>n. n = 2) (cq_at [] 1 True 1 (Working 1 [7] True)) (cq_at [] 1 True 1 (Working 1 [] False))"
  "cq_step (\<lambda>n. n = 2) (cq_at [] 1 True 1 (Working 1 [] False)) (cq_at [] 1 True 1 (Locking 1 False))"
  "cq_step (\<lambda>n. n = 2) (cq_at [] 1 True 1 (Locking 1 False)) (cq_at [] 0 True 0 (Returned False))"
  using cq_step.lock [of 0 "cq_at [7] 0 True 1 (Locking 0 True)" 0 True "\<lambda>n. n = 2"]
    cq_step.work [of 0 "cq_at [] 1 True 1 (Working 1 [7] True)" 1 7 "[]" True "\<lambda>n. n = 2"]
    cq_step.done_batch [of 0 "cq_at [] 1 True 1 (Working 1 [] False)" 1 False "\<lambda>n. n = 2"]
    cq_step.lock [of 0 "cq_at [] 1 True 1 (Locking 1 False)" 1 False "\<lambda>n. n = 2"]
  by (simp_all add: cq_account_def cq_section_def at_thread_def batch_size_def Let_def)

text \<open>A run of the threads exists from every state.\<close>
lemma run_exists:
  "\<exists>f. f 0 = q \<and> (\<forall>k. if \<exists>q'. cq_step check (f k) q' then cq_step check (f k) (f (Suc k)) else f (Suc k) = f k)"
proof -
  define step where "step q = (if \<exists>q'. cq_step check q q' then SOME q'. cq_step check q q' else q)" for q
  have s: "if \<exists>q'. cq_step check q q' then cq_step check q (step q) else step q = q" for q
    by (auto simp: step_def intro: someI)
  show ?thesis by (rule exI [of _ "\<lambda>k. (step ^^ k) q"]) (use s in simp)
qed

theorem checkqueue_result_witness:
  "\<exists>q. cq_reach (\<lambda>n. n = 2) 128 2 q [7 :: nat] \<and> threads q ! 0 = Returned False \<and> \<not> list_all (\<lambda>n. n = 2) [7 :: nat]"
proof -
  let ?q = "cq_at [] 0 True 0 (Returned False)"
  have r: "cq_reach (\<lambda>n. n = 2) 128 2 ?q [7]"
    by (rule cq_reach.thread_step [OF cq_reach.thread_step [OF cq_reach.thread_step [OF cq_reach.thread_step
      [OF cq_added_reach cq_added_run(1)] cq_added_run(2)] cq_added_run(3)] cq_added_run(4)])
  have "list_all (\<lambda>n. n = 2) [7 :: nat] = False" using checkqueue_result [OF r] by simp
  then show ?thesis using r by force
qed

theorem wait_returns_witness:
  "\<exists>f. f 0 = cq_at [7] 0 True 1 (Locking 0 True) \<and>
     (\<forall>k. if \<exists>q'. cq_step (\<lambda>n. n = 2) (f k) q' then cq_step (\<lambda>n. n = 2) (f k) (f (Suc k)) else f (Suc k) = f k) \<and>
     (\<exists>k. k \<le> 11 \<and> threads (f k) ! 0 = Returned False) \<and> (\<exists>k. k \<le> 11 \<and> queue (f k) = [] \<and> nTodo (f k) = 0)"
proof -
  obtain f where f: "f 0 = cq_at [7] 0 True 1 (Locking 0 True)"
    "\<forall>k. if \<exists>q'. cq_step (\<lambda>n. n = 2) (f k) q' then cq_step (\<lambda>n. n = 2) (f k) (f (Suc k)) else f (Suc k) = f k"
    using run_exists [of "cq_at [7] 0 True 1 (Locking 0 True)" "\<lambda>n. n = 2"] by blast
  have "(\<exists>k. k \<le> 11 \<and> threads (f k) ! 0 = Returned False) \<and> (\<exists>k. k \<le> 11 \<and> queue (f k) = [] \<and> nTodo (f k) = 0)"
    using wait_returns [OF cq_added_reach f] by (simp add: cq_load_def in_loop_def)
  then show ?thesis using f by blast
qed

end
