(* ===== verification/Compressor.thy ===== *)
theory Compressor
  imports Script Transaction
begin

text \<open>
  The compact codes of scripts and outputs (\<open>CScriptCompressor\<close> of \<open>script.h\<close> and \<open>script.cpp\<close>,
  \<open>CTxOutCompressor\<close> of \<open>main.h\<close>), in which the coin database and the undo files keep the unspent outputs.
\<close>

section \<open>Script compression\<close>

definition nSpecialScripts :: u32 where "nSpecialScripts = 6"

text \<open>The object filled on success.\<close>
definition sc_IsToKeyID :: "script \<Rightarrow> CKeyID option" where
  "sc_IsToKeyID s =
     (if length s = 25 \<and> s ! 0 = OP_DUP \<and> s ! 1 = OP_HASH160 \<and> s ! 2 = 20 \<and> s ! 23 = OP_EQUALVERIFY \<and>
         s ! 24 = OP_CHECKSIG
      then Some (bu_of_bytes WIDTH160 (take 20 (drop 3 s))) else None)"

definition sc_IsToScriptID :: "script \<Rightarrow> CScriptID option" where
  "sc_IsToScriptID s =
     (if length s = 23 \<and> s ! 0 = OP_HASH160 \<and> s ! 1 = 20 \<and> s ! 22 = OP_EQUAL
      then Some (bu_of_bytes WIDTH160 (take 20 (drop 2 s))) else None)"

text \<open>The result and the key, which the second case sets even when it fails.\<close>
definition sc_IsToPubKey :: "('k, 'x) crypto_scheme \<Rightarrow> script \<Rightarrow> CPubKey \<Rightarrow> bool \<times> CPubKey" where
  "sc_IsToPubKey C s pubkey =
     (if length s = 35 \<and> s ! 0 = 33 \<and> s ! 34 = OP_CHECKSIG \<and> (s ! 1 = 0x02 \<or> s ! 1 = 0x03)
      then (True, pk_Set pubkey (take 33 (drop 1 s)))
      else if length s = 67 \<and> s ! 0 = 65 \<and> s ! 66 = OP_CHECKSIG \<and> s ! 1 = 0x04
      then (let pubkey = pk_Set pubkey (take 65 (drop 1 s)) in (pk_IsFullyValid C pubkey, pubkey))
      else (False, pubkey))"

definition sc_Compress :: "('k, 'x) crypto_scheme \<Rightarrow> script \<Rightarrow> byte list option" where
  "sc_Compress C s =
     (case sc_IsToKeyID s of Some keyID \<Rightarrow> Some (0x00 # bu_bytes keyID)
      | None \<Rightarrow>
        (case sc_IsToScriptID s of Some scriptID \<Rightarrow> Some (0x01 # bu_bytes scriptID)
         | None \<Rightarrow>
           (case sc_IsToPubKey C s pk_invalid of
              (False, _) \<Rightarrow> None
            | (True, pubkey) \<Rightarrow>
                (let out = take 32 (drop 1 (pk_vch pubkey)) in
                 if pk_vch pubkey ! 0 = 0x02 \<or> pk_vch pubkey ! 0 = 0x03 then Some (pk_vch pubkey ! 0 # out)
                 else if pk_vch pubkey ! 0 = 0x04 then Some ((0x04 OR (pk_vch pubkey ! 64 AND 0x01)) # out)
                 else None))))"

definition sc_GetSpecialSize :: "u32 \<Rightarrow> nat" where
  "sc_GetSpecialSize nSize =
     (if nSize = 0 \<or> nSize = 1 then 20 else if nSize = 2 \<or> nSize = 3 \<or> nSize = 4 \<or> nSize = 5 then 32 else 0)"

text \<open>The result and the script; \<open>None\<close> when the assertion on the size of the key fails.\<close>
definition sc_Decompress ::
  "('k, 'x) crypto_scheme \<Rightarrow> script \<Rightarrow> u32 \<Rightarrow> byte list \<Rightarrow> (bool \<times> script) option" where
  "sc_Decompress C s nSize v =
     (if nSize = 0 then Some (True, [OP_DUP, OP_HASH160, 20] @ take 20 v @ [OP_EQUALVERIFY, OP_CHECKSIG])
      else if nSize = 1 then Some (True, [OP_HASH160, 20] @ take 20 v @ [OP_EQUAL])
      else if nSize = 2 \<or> nSize = 3 then Some (True, [33, ucast nSize] @ take 32 v @ [OP_CHECKSIG])
      else if nSize = 4 \<or> nSize = 5 then
        (let vch = ucast (nSize - 2) # take 32 v
         in case pk_Decompress C (pk_of_vch vch) of
              (False, _) \<Rightarrow> Some (False, s)
            | (True, pubkey) \<Rightarrow>
                if pk_size pubkey \<noteq> 65 then None
                else Some (True, [65] @ take 65 (pk_vch pubkey) @ [OP_CHECKSIG]))
      else Some (False, s))"

definition size_script :: "('k, 'x) crypto_scheme \<Rightarrow> script \<Rightarrow> u32" where
  "size_script C s =
     (case sc_Compress C s of Some compr \<Rightarrow> word_of_nat (length compr)
      | None \<Rightarrow> (let nSize = word_of_nat (length s) + nSpecialScripts
                 in word_of_nat (length s) + word_of_nat (GetSizeOfVarInt nSize)))"

definition ser_script :: "('k, 'x) crypto_scheme \<Rightarrow> script \<Rightarrow> byte list" where
  "ser_script C s =
     (case sc_Compress C s of Some compr \<Rightarrow> ser_flat compr
      | None \<Rightarrow> (let nSize = word_of_nat (length s) + nSpecialScripts in WriteVarInt nSize @ ser_flat s))"

text \<open>Reading into an existing script; the inner \<open>None\<close> is the failed assertion.\<close>
definition unser_script :: "('k, 'x) crypto_scheme \<Rightarrow> script \<Rightarrow> script option reader" where
  "unser_script C s =
     rbind ReadVarInt (\<lambda>nSize :: u32.
       if nSize < nSpecialScripts
       then rbind (unser_flat (sc_GetSpecialSize nSize)) (\<lambda>vch.
              rreturn (map_option snd (sc_Decompress C s nSize vch)))
       else rbind (unser_flat (unat (nSize - nSpecialScripts))) (\<lambda>script. rreturn (Some script)))"

section \<open>Outputs\<close>

definition ser_txout_compr :: "('k, 'x) crypto_scheme \<Rightarrow> CTxOut \<Rightarrow> byte list" where
  "ser_txout_compr C out = ser_cash (nValue out) @ ser_script C (scriptPubKey out)"

definition size_txout_compr :: "('k, 'x) crypto_scheme \<Rightarrow> CTxOut \<Rightarrow> u32" where
  "size_txout_compr C out = size_cash (nValue out) + size_script C (scriptPubKey out)"

definition unser_txout_compr :: "('k, 'x) crypto_scheme \<Rightarrow> CTxOut \<Rightarrow> CTxOut option reader" where
  "unser_txout_compr C out =
     rbind (unser_cash (nValue out)) (\<lambda>v.
       rbind (unser_script C (scriptPubKey out)) (\<lambda>s.
         rreturn (map_option (\<lambda>s. \<lparr>nValue = v, scriptPubKey = s\<rparr>) s)))"

section \<open>Compressed scripts read back\<close>

lemma bu_bytes_bu_of_bytes: "length b = 4 * n \<Longrightarrow> bu_bytes (bu_of_bytes n b) = b"
proof (induction n b rule: bu_of_bytes.induct)
  case (2 n b)
  have "le_bytes 4 (le_val (take 4 b)) = take 4 b"
    using le_bytes_le_val [of "take 4 b"] 2(2) by simp
  moreover have "le_val (take 4 b) < 2 ^ 32"
    using le_val_bound [of "take 4 b"] 2(2) by simp
  ultimately show ?case
    using 2 by (simp add: bu_bytes_Cons unat_of_nat)
qed (simp add: bu_bytes_def)

lemma ReadVarInt_small: "x \<in> {0, 1, 2, 3, 4, 5} \<Longrightarrow> ReadVarInt (x # rest) = Inr (ucast x :: u32, rest)"
  by (auto simp: ReadVarInt_def)

text \<open>The two encodings of a point of the curve: the compressed one names the other coordinate by its parity.\<close>

definition point_compression :: "('k, 'x) crypto_scheme \<Rightarrow> bool" where
  "point_compression C \<longleftrightarrow>
     (\<forall>x y. length x = 32 \<and> length y = 32 \<and> o2i_ECPublicKey C (4 # x @ y) \<noteq> None \<longrightarrow>
        (\<exists>k. o2i_ECPublicKey C ((2 OR (last y AND 1)) # x) = Some k \<and> i2o_ECPublicKey C False k = 4 # x @ y))"

lemma take_nths:
  "2 \<le> length s \<Longrightarrow> take 2 s = [s ! 0, s ! 1]" "3 \<le> length s \<Longrightarrow> take 3 s = [s ! 0, s ! 1, s ! 2]"
  by (cases s; cases "tl s"; cases "tl (tl s)"; simp)+

lemma drop_nths:
  "length s = Suc n \<Longrightarrow> drop n s = [s ! n]" "length s = Suc (Suc n) \<Longrightarrow> drop n s = [s ! n, s ! Suc n]"
  by (simp_all add: Cons_nth_drop_Suc [symmetric])

lemma script_split_at:
  "length s = 25 \<Longrightarrow> s = [s ! 0, s ! 1, s ! 2] @ take 20 (drop 3 s) @ [s ! 23, s ! 24]"
  "length s = 23 \<Longrightarrow> s = [s ! 0, s ! 1] @ take 20 (drop 2 s) @ [s ! 22]"
  "length s = 35 \<Longrightarrow> s = [s ! 0, s ! 1] @ take 32 (drop 2 s) @ [s ! 34]"
  "length s = 67 \<Longrightarrow> s = [s ! 0, s ! 1] @ take 32 (drop 2 s) @ take 32 (drop 34 s) @ [s ! 66]"
  using append_take_drop_id [of 3 s] append_take_drop_id [of 20 "drop 3 s"]
    append_take_drop_id [of 2 s] append_take_drop_id [of 20 "drop 2 s"] append_take_drop_id [of 32 "drop 2 s"]
    append_take_drop_id [of 32 "drop 34 s"]
  by (simp_all add: take_nths drop_nths)


lemma and_1_cases: "(b :: byte) AND 1 = 0 \<or> b AND 1 = 1"
  by (metis and.right_idem and_one_eq mod2_eq_if)

lemma Decompress_Compress:
  assumes C: "point_compression C" and c: "sc_Compress C s = Some out"
  shows "\<exists>x v. out = x # v \<and> x \<in> {0, 1, 2, 3, 4, 5} \<and> length v = sc_GetSpecialSize (ucast x)
    \<and> sc_Decompress C s0 (ucast x) v = Some (True, s)"
proof -
  consider (key) h where "sc_IsToKeyID s = Some h" | (script) h where "sc_IsToKeyID s = None" "sc_IsToScriptID s = Some h"
    | (pub) k where "sc_IsToPubKey C s pk_invalid = (True, k)" "sc_IsToKeyID s = None" "sc_IsToScriptID s = None"
    using c by (auto simp: sc_Compress_def split: option.splits prod.splits bool.splits)
  then show ?thesis
  proof cases
    case key
    then have l: "length s = 25" and e: "[s ! 0, s ! 1, s ! 2] = [OP_DUP, OP_HASH160, 20]" "[s ! 23, s ! 24] = [OP_EQUALVERIFY, OP_CHECKSIG]"
      and h: "h = bu_of_bytes 5 (take 20 (drop 3 s))"
      by (auto simp: sc_IsToKeyID_def split: if_splits)
    have "s = [OP_DUP, OP_HASH160, 20] @ take 20 (drop 3 s) @ [OP_EQUALVERIFY, OP_CHECKSIG]"
      using script_split_at(1) [OF l] unfolding e .
    then show ?thesis
      using c key l h
      by (intro exI [of _ 0] exI [of _ "take 20 (drop 3 s)"])
        (simp add: sc_Compress_def bu_bytes_bu_of_bytes sc_GetSpecialSize_def sc_Decompress_def)
  next
    case script
    then have l: "length s = 23" and e: "[s ! 0, s ! 1] = [OP_HASH160, 20]" "[s ! 22] = [OP_EQUAL]"
      and h: "h = bu_of_bytes 5 (take 20 (drop 2 s))"
      by (auto simp: sc_IsToScriptID_def split: if_splits)
    have "s = [OP_HASH160, 20] @ take 20 (drop 2 s) @ [OP_EQUAL]"
      using script_split_at(2) [OF l] unfolding e .
    then show ?thesis
      using c script l h
      by (intro exI [of _ 1] exI [of _ "take 20 (drop 2 s)"])
        (simp add: sc_Compress_def bu_bytes_bu_of_bytes sc_GetSpecialSize_def sc_Decompress_def)
  next
    case pub
    show ?thesis
    proof (cases "length s = 35")
      case l: True
      have e: "[s ! 0] = [33]" "[s ! 34] = [OP_CHECKSIG]" and h: "s ! 1 = 2 \<or> s ! 1 = 3"
        using pub(1) l by (auto simp: sc_IsToPubKey_def split: if_splits)
      have s: "s = [33, s ! 1] @ take 32 (drop 2 s) @ [OP_CHECKSIG]"
        using script_split_at(3) [OF l] e by simp
      have d: "take 33 (drop 1 s) = s ! 1 # take 32 (drop 2 s)"
        by (subst s) (simp add: l)
      have k: "take 33 (pk_vch k) = s ! 1 # take 32 (drop 2 s)"
        using pub(1) l h e d by (auto simp: sc_IsToPubKey_def pk_Set_def pk_GetLen_def Let_def)
      have "pk_vch k ! 0 = s ! 1"
        using arg_cong [OF k, of "\<lambda>l. l ! 0"] by simp
      moreover have "take 32 (drop 1 (pk_vch k)) = take 32 (drop 2 s)"
        using arg_cong [OF k, of "drop 1"] by (simp add: drop_take)
      ultimately show ?thesis
        using c pub h l s
        by (intro exI [of _ "s ! 1"] exI [of _ "take 32 (drop 2 s)"])
          (auto simp: sc_Compress_def sc_GetSpecialSize_def sc_Decompress_def)
    next
      case False
      then have l: "length s = 67" and e: "[s ! 0, s ! 1] = [65, 4]" "[s ! 66] = [OP_CHECKSIG]"
        and k: "k = pk_Set pk_invalid (take 65 (drop 1 s))" and v: "pk_IsFullyValid C k"
        using pub(1) by (auto simp: sc_IsToPubKey_def Let_def split: if_splits)
      let ?x = "take 32 (drop 2 s)" and ?y = "take 32 (drop 34 s)"
      have length_xy: "length ?x = 32" "length ?y = 32" using l by simp_all
      have s: "s = [65, 4] @ ?x @ ?y @ [OP_CHECKSIG]"
        using script_split_at(4) [OF l] unfolding e .
      have d: "take 65 (drop 1 s) = 4 # ?x @ ?y"
        by (subst s) (simp add: l)
      have kv: "pk_vch k = 4 # ?x @ ?y"
        unfolding k d using l by (simp add: pk_Set_def pk_GetLen_def pk_invalid_def pk_Invalidate_def pk_memory_def)
      have "o2i_ECPublicKey C (4 # ?x @ ?y) \<noteq> None"
        using v l by (auto simp: pk_IsFullyValid_def ec_SetPubKey_def pk_size_def kv pk_GetLen_def split: option.splits if_splits)
      then obtain p where p: "o2i_ECPublicKey C ((2 OR (last ?y AND 1)) # ?x) = Some p"
        and i: "i2o_ECPublicKey C False p = 4 # ?x @ ?y"
        using C l unfolding point_compression_def by (metis length_xy)
      have y: "pk_vch k ! 64 = last ?y"
        using l by (simp add: kv nth_append last_conv_nth)
      have out: "out = (4 OR (last ?y AND 1)) # ?x"
        using c pub l y by (simp add: sc_Compress_def kv)
      let ?b = "last ?y AND 1"
      have n: "(ucast (ucast (4 OR ?b :: byte) - 2 :: u32) :: byte) = 2 OR ?b" "4 OR ?b \<in> {4, 5}"
        "(2 OR ?b) \<in> {2, 3}"
        using and_1_cases [of "last ?y"] by auto
      have sz: "pk_GetLen (2 OR ?b) = 33" using n(3) by (auto simp: pk_GetLen_def)
      have dec: "pk_Decompress C (pk_of_vch ((2 OR ?b) # ?x)) = (True, pk_Set (pk_of_vch ((2 OR ?b) # ?x)) (4 # ?x @ ?y))"
        using l p i sz
        by (simp add: pk_Decompress_def pk_IsValid_def pk_size_def pk_of_vch_def pk_Set_def pk_memory_def ec_SetPubKey_def
            ec_GetPubKey_def)
      have "length (pk_vch (pk_of_vch ((2 OR ?b) # ?x))) = 65"
        using l sz by (simp add: pk_of_vch_def pk_Set_def pk_memory_def)
      then have pk: "pk_vch (pk_Set (pk_of_vch ((2 OR ?b) # ?x)) (4 # ?x @ ?y)) = 4 # ?x @ ?y"
        using l by (simp add: pk_Set_def pk_GetLen_def)
      show ?thesis
        unfolding out
        using l n s dec pk
        by (intro exI [of _ "4 OR ?b"] exI [of _ "?x"])
          (auto simp: sc_GetSpecialSize_def sc_Decompress_def Let_def pk_size_def pk_GetLen_def)
    qed
  qed
qed

definition script_fits :: "script \<Rightarrow> bool" where
  "script_fits s \<longleftrightarrow> length s + 6 < 2 ^ 32"

lemma unser_ser_script:
  assumes "point_compression C" and "script_fits s"
  shows "unser_script C s0 (ser_script C s @ rest) = Inr (Some s, rest)"
proof (cases "sc_Compress C s")
  case (Some out)
  from Decompress_Compress [OF assms(1) this] obtain x v where o: "out = x # v" and x: "x \<in> {0, 1, 2, 3, 4, 5}"
    and l: "length v = sc_GetSpecialSize (ucast x)" and d: "sc_Decompress C s0 (ucast x) v = Some (True, s)"
    by blast
  have "(ucast x :: u32) < nSpecialScripts" using x by (auto simp: nSpecialScripts_def)
  with Some o l d ReadVarInt_small [OF x, of "v @ rest"] show ?thesis
    by (simp add: unser_script_def ser_script_def ser_flat_def unser_flat_def rbind_def rreturn_def)
next
  case None
  let ?n = "word_of_nat (length s) + nSpecialScripts :: u32"
  have n: "unat ?n = length s + 6"
    using assms(2) by (simp add: nSpecialScripts_def script_fits_def unat_word_ariths unat_of_nat)
  then have "\<not> ?n < nSpecialScripts" "unat (?n - nSpecialScripts) = length s"
    using assms(2) by (simp_all add: nSpecialScripts_def word_less_nat_alt unat_of_nat script_fits_def)
  with None show ?thesis
    by (simp add: unser_script_def ser_script_def ser_flat_def unser_flat_def rbind_def rreturn_def Let_def
        ReadWriteVarInt)
qed

lemma reader_script [intro]: "stream_reader (unser_script C s)"
  unfolding unser_script_def unser_flat_def by (intro reader_bind reader_if) auto

text \<open>An output with its amount in the form the program keeps it.\<close>
definition txout_compr_ok :: "CTxOut \<Rightarrow> bool" where
  "txout_compr_ok out \<longleftrightarrow> cash_ok (nValue out) \<and> script_fits (scriptPubKey out)"

lemma unser_ser_txout_compr:
  assumes "point_compression C" and "txout_compr_ok out" and "fixed (nValue o0) = 0"
  shows "unser_txout_compr C o0 (ser_txout_compr C out @ rest) = Inr (Some out, rest)"
  using assms codec.get_ser [OF cash_map_codec, of "local_map (nValue out)"]
  by (simp add: unser_ser_script unser_txout_compr_def ser_txout_compr_def unser_cash_def ser_cash_def rbind_def rreturn_def
      txout_compr_ok_def cash_ok_def cash_wf_def)

lemma reader_txout_compr [intro]: "stream_reader (unser_txout_compr C out)"
  unfolding unser_txout_compr_def unser_cash_def
  by (intro reader_bind codec.axioms(1) [OF cash_map_codec]) auto

lemma size_varint: "GetSizeOfVarInt n = length (WriteVarInt n)"
  using size_varint_tmp [of n 0 0] by (simp add: GetSizeOfVarInt_def WriteVarInt_def)

lemma size_txout_compr: "size_txout_compr C out = word_of_nat (length (ser_txout_compr C out))"
proof -
  have "size_script C s = word_of_nat (length (ser_script C s))" for s
    by (simp add: size_varint size_script_def ser_script_def ser_flat_def Let_def split: option.split)
  then show ?thesis
    by (simp add: size_txout_compr_def ser_txout_compr_def cash_sized.size_ser)
qed

text \<open>A curve whose points have a second coordinate of 0 or 1, for the examples.\<close>
definition example_curve :: "byte list crypto" where
  "example_curve = example_crypto
     \<lparr>o2i_ECPublicKey := (\<lambda>b.
        if length b = 33 \<and> (hd b = 2 \<or> hd b = 3) then Some ((hd b AND 1) # tl b)
        else if length b = 65 \<and> hd b = 4 \<and> drop 33 b = replicate 31 0 @ [last b AND 1]
        then Some ((last b AND 1) # take 32 (tl b)) else None),
      i2o_ECPublicKey := (\<lambda>c k.
        if c then (2 OR hd k) # tl k else 4 # tl k @ replicate 31 0 @ [hd k])\<rparr>"

lemma example_curve_compression: "point_compression example_curve"
proof -
  have "(2 OR (b AND 1)) AND 1 = b AND 1" "2 OR (b AND 1) = 2 \<or> 2 OR (b AND 1) = 3" for b :: byte
    using and_1_cases [of b] by auto
  moreover have "last (x @ y) = last y" if "length y = 32" for x y :: "byte list"
    using that by (cases y) auto
  ultimately show ?thesis
    by (auto simp: point_compression_def example_curve_def split: if_splits)
qed

end
