(* ===== verification/Coins.thy ===== *)
theory Coins
  imports Compressor
begin

text \<open>
  Unspent outputs (\<open>CCoins\<close>) and undo data (\<open>CTxInUndo\<close>, \<open>CTxUndo\<close>, \<open>CBlockUndo\<close>) of \<open>main.h\<close>: spending,
  and their codes.
\<close>

section \<open>Variable-length codes of signed integers\<close>

text \<open>The loop stops at once on a negative number, of which it writes seven bits.\<close>
definition WriteVarInt_int :: "u32 \<Rightarrow> byte list" where
  "WriteVarInt_int n = (if n <s 0 then [ucast (n AND 0x7F)] else WriteVarInt n)"

definition GetSizeOfVarInt_int :: "u32 \<Rightarrow> nat" where
  "GetSizeOfVarInt_int n = (if n <s 0 then 1 else GetSizeOfVarInt n)"

section \<open>Undo data\<close>

record CTxInUndo =
  u_txout :: CTxOut
  u_fCoinBase :: bool
  u_nHeight :: u32
  u_nVersion :: u32

definition undo_init :: CTxInUndo where
  "undo_init = \<lparr>u_txout = txout_init, u_fCoinBase = False, u_nHeight = 0, u_nVersion = 0\<rparr>"

definition undo_of :: "CTxOut \<Rightarrow> bool \<Rightarrow> u32 \<Rightarrow> u32 \<Rightarrow> CTxInUndo" where
  "undo_of out cb h v = \<lparr>u_txout = out, u_fCoinBase = cb, u_nHeight = h, u_nVersion = v\<rparr>"

definition size_txinundo :: "('k, 'x) crypto_scheme \<Rightarrow> CTxInUndo \<Rightarrow> u32" where
  "size_txinundo C u =
     word_of_nat (GetSizeOfVarInt (u_nHeight u * 2 + (if u_fCoinBase u then 1 else 0)))
     + (if u_nHeight u > 0 then word_of_nat (GetSizeOfVarInt_int (u_nVersion u)) else 0)
     + size_txout_compr C (u_txout u)"

definition ser_txinundo :: "('k, 'x) crypto_scheme \<Rightarrow> CTxInUndo \<Rightarrow> byte list" where
  "ser_txinundo C u =
     WriteVarInt (u_nHeight u * 2 + (if u_fCoinBase u then 1 else 0))
     @ (if u_nHeight u > 0 then WriteVarInt_int (u_nVersion u) else [])
     @ ser_txout_compr C (u_txout u)"

text \<open>Reading into an existing object; the inner \<open>None\<close> is a failed assertion.\<close>
definition unser_txinundo :: "('k, 'x) crypto_scheme \<Rightarrow> CTxInUndo \<Rightarrow> CTxInUndo option reader" where
  "unser_txinundo C u =
     rbind ReadVarInt (\<lambda>nCode :: u32.
       let h = nCode div 2; cb = (nCode AND 1 \<noteq> 0) in
       rbind (if h > 0 then ReadVarInt else rreturn (u_nVersion u)) (\<lambda>ver.
         rbind (unser_txout_compr C (u_txout u)) (\<lambda>out.
           rreturn (map_option (\<lambda>out. undo_of out cb h ver) out))))"

record CTxUndo = vprevout :: "CTxInUndo list"
record CBlockUndo = vtxundo :: "CTxUndo list"

definition ser_txundo :: "('k, 'x) crypto_scheme \<Rightarrow> CTxUndo \<Rightarrow> byte list" where
  "ser_txundo C u = ser_vector (ser_txinundo C) (vprevout u)"

definition ser_blockundo :: "('k, 'x) crypto_scheme \<Rightarrow> CBlockUndo \<Rightarrow> byte list" where
  "ser_blockundo C u = ser_vector (ser_txundo C) (vtxundo u)"

text \<open>A failed assertion ends the program while the elements are read.\<close>
definition unser_txundo :: "('k, 'x) crypto_scheme \<Rightarrow> CTxUndo option reader" where
  "unser_txundo C =
     rbind (unser_vector 96 (unser_txinundo C undo_init)) (\<lambda>us.
       rreturn (map_option (\<lambda>us. \<lparr>vprevout = us\<rparr>) (those us)))"

definition unser_blockundo :: "('k, 'x) crypto_scheme \<Rightarrow> CBlockUndo option reader" where
  "unser_blockundo C =
     rbind (unser_vector 24 (unser_txundo C)) (\<lambda>us.
       rreturn (map_option (\<lambda>us. \<lparr>vtxundo = us\<rparr>) (those us)))"

section \<open>Unspent outputs\<close>

record CCoins =
  c_fCoinBase :: bool
  c_vout :: "CTxOut list"
  c_nHeight :: u32
  c_nVersion :: u32

definition coins_of_tx :: "CTransaction \<Rightarrow> u32 \<Rightarrow> CCoins" where
  "coins_of_tx tx nHeightIn =
     \<lparr>c_fCoinBase = tx_IsCoinBase tx, c_vout = vout tx, c_nHeight = nHeightIn, c_nVersion = nVersion tx\<rparr>"

definition coins_init :: CCoins where
  "coins_init = \<lparr>c_fCoinBase = False, c_vout = [], c_nHeight = 0, c_nVersion = 0\<rparr>"

definition coins_Cleanup :: "CCoins \<Rightarrow> CCoins" where
  "coins_Cleanup c = c\<lparr>c_vout := rev (dropWhile txout_IsNull (rev (c_vout c)))\<rparr>"

text \<open>Equality of vectors: their lengths and the elements pairwise.\<close>
definition coins_eq :: "CCoins \<Rightarrow> CCoins \<Rightarrow> bool" where
  "coins_eq a b =
     (c_fCoinBase a = c_fCoinBase b \<and> c_nHeight a = c_nHeight b \<and> c_nVersion a = c_nVersion b \<and>
      list_all2 txout_eq (c_vout a) (c_vout b))"

definition coins_neq :: "CCoins \<Rightarrow> CCoins \<Rightarrow> bool" where "coins_neq a b = (\<not> coins_eq a b)"

definition mask_zero :: "CTxOut list \<Rightarrow> nat \<Rightarrow> bool" where
  "mask_zero v b = list_all (\<lambda>i. 2 + b * 8 + i < length v \<longrightarrow> txout_IsNull (v ! (2 + b * 8 + i))) [0..<8]"

text \<open>The loop runs while \<open>2 + b * 8 < vout.size()\<close>.\<close>
definition coins_CalcMaskSize :: "CCoins \<Rightarrow> nat \<Rightarrow> nat \<Rightarrow> nat \<times> nat" where
  "coins_CalcMaskSize c nBytes nNonzeroBytes =
     (case foldl (\<lambda>(nLastUsedByte, n) b. if \<not> mask_zero (c_vout c) b then (b + 1, n + 1) else (nLastUsedByte, n))
             (0, nNonzeroBytes) [0..<(length (c_vout c) + 5) div 8] of
        (nLastUsedByte, n) \<Rightarrow> (nBytes + nLastUsedByte, n))"

definition coins_IsAvailable :: "CCoins \<Rightarrow> nat \<Rightarrow> bool" where
  "coins_IsAvailable c nPos = (nPos < length (c_vout c) \<and> \<not> txout_IsNull (c_vout c ! nPos))"

definition coins_IsPruned :: "CCoins \<Rightarrow> bool" where
  "coins_IsPruned c = list_all txout_IsNull (c_vout c)"

definition coins_IsCoinBase :: "CCoins \<Rightarrow> bool" where "coins_IsCoinBase c = c_fCoinBase c"

definition header_code :: "CCoins \<Rightarrow> nat \<Rightarrow> u32" where
  "header_code c nMaskCode =
     (let fFirst = (length (c_vout c) > 0 \<and> \<not> txout_IsNull (c_vout c ! 0));
          fSecond = (length (c_vout c) > 1 \<and> \<not> txout_IsNull (c_vout c ! 1))
      in 8 * (word_of_nat nMaskCode - (if fFirst \<or> fSecond then 0 else 1)) + (if c_fCoinBase c then 1 else 0)
         + (if fFirst then 2 else 0) + (if fSecond then 4 else 0))"

definition avail_byte :: "CTxOut list \<Rightarrow> nat \<Rightarrow> byte" where
  "avail_byte v b =
     foldl (\<lambda>chAvail i. if 2 + b * 8 + i < length v \<and> \<not> txout_IsNull (v ! (2 + b * 8 + i))
                        then chAvail OR push_bit i 1 else chAvail) 0 [0..<8]"

text \<open>\<open>None\<close>: the assertion that something is unspent fails.\<close>
definition ser_coins :: "('k, 'x) crypto_scheme \<Rightarrow> CCoins \<Rightarrow> byte list option" where
  "ser_coins C c =
     (case coins_CalcMaskSize c 0 0 of (nMaskSize, nMaskCode) \<Rightarrow>
        if \<not> (coins_IsAvailable c 0 \<or> coins_IsAvailable c 1 \<or> nMaskCode \<noteq> 0) then None
        else Some (WriteVarInt_int (c_nVersion c) @ WriteVarInt (header_code c nMaskCode)
                   @ map (avail_byte (c_vout c)) [0..<nMaskSize]
                   @ concat (map (\<lambda>out. if \<not> txout_IsNull out then ser_txout_compr C out else []) (c_vout c))
                   @ WriteVarInt_int (c_nHeight c)))"

definition size_coins :: "('k, 'x) crypto_scheme \<Rightarrow> CCoins \<Rightarrow> u32 option" where
  "size_coins C c =
     (case coins_CalcMaskSize c 0 0 of (nMaskSize, nMaskCode) \<Rightarrow>
        if \<not> (coins_IsAvailable c 0 \<or> coins_IsAvailable c 1 \<or> nMaskCode \<noteq> 0) then None
        else Some (foldl (\<lambda>n out. if \<not> txout_IsNull out then n + size_txout_compr C out else n)
                     (word_of_nat (GetSizeOfVarInt_int (c_nVersion c))
                      + word_of_nat (GetSizeOfVarInt (header_code c nMaskCode)) + word_of_nat nMaskSize)
                     (c_vout c)
                   + word_of_nat (GetSizeOfVarInt_int (c_nHeight c))))"

text \<open>The bits of the bytes read until the given number of them was not zero.\<close>
function read_mask :: "nat \<Rightarrow> bool list reader" where
  "read_mask nMaskCode bs =
     (if nMaskCode > 0 then
        (case bs of [] \<Rightarrow> Inl EndOfData
         | chAvail # bs \<Rightarrow>
             (case read_mask (if chAvail \<noteq> 0 then nMaskCode - 1 else nMaskCode) bs of
                Inl e \<Rightarrow> Inl e
              | Inr (vAvail, rest) \<Rightarrow> Inr (map (\<lambda>p. chAvail AND push_bit p 1 \<noteq> 0) [0..<8] @ vAvail, rest)))
      else Inr ([], bs))"
  by pat_completeness auto
termination by (relation "measure (\<lambda>(n, bs). length bs)") auto

declare read_mask.simps [simp del]

fun read_outputs :: "('k, 'x) crypto_scheme \<Rightarrow> bool list \<Rightarrow> CTxOut list option reader" where
  "read_outputs C [] = rreturn (Some [])"
| "read_outputs C (f # vAvail) =
     rbind (if f then unser_txout_compr C txout_init else rreturn (Some txout_init)) (\<lambda>out.
       case out of None \<Rightarrow> rreturn None
       | Some out \<Rightarrow> rbind (read_outputs C vAvail) (\<lambda>outs. rreturn (map_option (\<lambda>outs. out # outs) outs)))"

definition unser_coins :: "('k, 'x) crypto_scheme \<Rightarrow> CCoins option reader" where
  "unser_coins C =
     rbind ReadVarInt (\<lambda>nVersion.
       rbind ReadVarInt (\<lambda>nCode :: u32.
         let nMaskCode = unat (nCode div 8 + (if nCode AND 6 \<noteq> 0 then 0 else 1))
         in rbind (read_mask nMaskCode) (\<lambda>bits.
              rbind (read_outputs C ([nCode AND 2 \<noteq> 0, nCode AND 4 \<noteq> 0] @ bits)) (\<lambda>outs.
                case outs of None \<Rightarrow> rreturn None
                | Some outs \<Rightarrow>
                    rbind ReadVarInt (\<lambda>nHeight.
                      rreturn (Some (coins_Cleanup
                        \<lparr>c_fCoinBase = (nCode AND 1 \<noteq> 0), c_vout = outs, c_nHeight = nHeight,
                         c_nVersion = nVersion\<rparr>)))))))"

text \<open>The result, the coins and the undo record, which is only built on success.\<close>
definition coins_Spend :: "CCoins \<Rightarrow> nat \<Rightarrow> CTxInUndo \<Rightarrow> bool \<times> CCoins \<times> CTxInUndo" where
  "coins_Spend c n undo =
     (if n \<ge> length (c_vout c) then (False, c, undo)
      else if txout_IsNull (c_vout c ! n) then (False, c, undo)
      else
        let undo = undo_of (c_vout c ! n) False 0 0;
            c = c\<lparr>c_vout := (c_vout c)[n := txout_SetNull (c_vout c ! n)]\<rparr>;
            c = coins_Cleanup c
        in if length (c_vout c) = 0
           then (True, c, undo\<lparr>u_nHeight := c_nHeight c, u_fCoinBase := c_fCoinBase c, u_nVersion := c_nVersion c\<rparr>)
           else (True, c, undo))"

definition coins_Spend_pos :: "CCoins \<Rightarrow> nat \<Rightarrow> bool \<times> CCoins" where
  "coins_Spend_pos c nPos = (case coins_Spend c nPos undo_init of (r, c, _) \<Rightarrow> (r, c))"

section \<open>The availability mask\<close>

definition is_avail :: "CTxOut list \<Rightarrow> nat \<Rightarrow> bool" where
  "is_avail v i \<longleftrightarrow> i < length v \<and> \<not> txout_IsNull (v ! i)"

definition bits8 :: "byte \<Rightarrow> bool list" where
  "bits8 ch = map (\<lambda>p. ch AND push_bit p 1 \<noteq> 0) [0..<8]"

lemma bit_or_flag: "bit (a OR push_bit i 1 :: byte) k \<longleftrightarrow> bit a k \<or> (i = k \<and> k < 8)"
  by (auto simp: bit_or_iff bit_push_bit_iff bit_1_iff possible_bit_def simp del: push_bit_of_1)

lemma bit_fold_or:
  "bit (foldl (\<lambda>c i. if P i then c OR push_bit i 1 else c) (a :: byte) is) k \<longleftrightarrow> bit a k \<or> (k \<in> set is \<and> P k \<and> k < 8)"
proof (induction "is" arbitrary: a)
  case (Cons i "is")
  show ?case
    unfolding foldl.simps Cons.IH by (cases "P i"; auto simp: bit_or_flag simp del: push_bit_of_1)
qed simp

lemma bit_avail_byte: "bit (avail_byte v b) k \<longleftrightarrow> k < 8 \<and> is_avail v (2 + b * 8 + k)"
  unfolding avail_byte_def is_avail_def by (subst bit_fold_or) auto

lemma bits8_avail: "bits8 (avail_byte v b) = map (\<lambda>k. is_avail v (2 + b * 8 + k)) [0..<8]"
  unfolding bits8_def
  by (rule map_cong [OF refl]) (simp add: bit_iff_and_push_bit_not_eq_0 [symmetric] bit_avail_byte del: push_bit_of_1)

lemma avail_byte_0: "avail_byte v b = 0 \<longleftrightarrow> mask_zero v b"
proof -
  have "avail_byte v b = 0 \<longleftrightarrow> (\<forall>k. \<not> bit (avail_byte v b) k)"
    by (metis bit_0_eq bit_word_eqI bot_apply bot_bool_def)
  then show ?thesis
    by (auto simp: bit_avail_byte mask_zero_def list_all_iff is_avail_def)
qed

lemma read_mask_bytes:
  "(ms = [] \<or> last ms \<noteq> 0) \<Longrightarrow> n = length (filter (\<lambda>m. m \<noteq> 0) ms) \<Longrightarrow>
   read_mask n (ms @ rest) = Inr (concat (map bits8 ms), rest)"
proof (induction ms arbitrary: n)
  case Nil
  then show ?case by (simp add: read_mask.simps)
next
  case (Cons m ms)
  have "n > 0"
    using Cons.prems by (cases "ms = []") (auto simp: filter_empty_conv)
  moreover have "read_mask (if m \<noteq> 0 then n - 1 else n) (ms @ rest) = Inr (concat (map bits8 ms), rest)"
    using Cons.prems by (intro Cons.IH) (auto split: if_splits)
  ultimately show ?case
    by (subst read_mask.simps) (simp add: bits8_def)
qed

text \<open>What the loop over the blocks of eight counts.\<close>

definition used_blocks :: "CTxOut list \<Rightarrow> nat list" where
  "used_blocks v = filter (\<lambda>b. \<not> mask_zero v b) [0..<(length v + 5) div 8]"

lemma mask_fold:
  "foldl (\<lambda>(l, n) b. if \<not> P b then (b + 1, n + 1) else (l, n)) (l, n) bs =
     (if filter (\<lambda>b. \<not> P b) bs = [] then l else last (filter (\<lambda>b. \<not> P b) bs) + 1,
      n + length (filter (\<lambda>b. \<not> P b) bs))"
  by (induction bs arbitrary: l n) auto

lemma CalcMaskSize_eq:
  "coins_CalcMaskSize c x y = (x + (if used_blocks (c_vout c) = [] then 0 else last (used_blocks (c_vout c)) + 1),
     y + length (used_blocks (c_vout c)))"
  by (simp add: coins_CalcMaskSize_def used_blocks_def mask_fold)

abbreviation (input) mask_size :: "CTxOut list \<Rightarrow> nat" where
  "mask_size v \<equiv> if used_blocks v = [] then 0 else last (used_blocks v) + 1"

lemma used_blocks_mem: "b \<in> set (used_blocks v) \<longleftrightarrow> \<not> mask_zero v b"
proof -
  have "b < (length v + 5) div 8" if "2 + b * 8 + i < length v" for i
  proof -
    have "Suc b \<le> (length v + 5) div 8"
      using that by (simp add: less_eq_div_iff_mult_less_eq)
    then show ?thesis by simp
  qed
  then have "\<not> mask_zero v b \<Longrightarrow> b < (length v + 5) div 8"
    by (auto simp: mask_zero_def list_all_iff)
  then show ?thesis by (auto simp: used_blocks_def)
qed

lemma mask_size_bound: "\<not> mask_zero v b \<Longrightarrow> b < mask_size v"
proof -
  assume "\<not> mask_zero v b"
  then have b: "b \<in> set (used_blocks v)" by (simp add: used_blocks_mem)
  moreover have "sorted (used_blocks v)" by (simp add: used_blocks_def sorted_wrt_filter)
  ultimately show ?thesis
    by (cases "used_blocks v" rule: rev_cases) (auto simp: sorted_append)
qed

lemma used_blocks_below: "used_blocks v = filter (\<lambda>b. \<not> mask_zero v b) [0..<mask_size v]"
proof (rule sorted_distinct_set_unique)
  show "sorted (used_blocks v)" "distinct (used_blocks v)"
    by (simp_all add: used_blocks_def sorted_wrt_filter)
  show "set (used_blocks v) = set (filter (\<lambda>b. \<not> mask_zero v b) [0..<mask_size v])"
    using mask_size_bound [of v] by (auto simp: used_blocks_mem split: if_splits)
qed (simp_all add: sorted_wrt_filter)

lemma read_avail_mask:
  "read_mask (length (used_blocks v)) (map (avail_byte v) [0..<mask_size v] @ rest) =
     Inr (map (is_avail v) [2..<2 + 8 * mask_size v], rest)"
proof -
  let ?ms = "map (avail_byte v) [0..<mask_size v]"
  have "?ms = [] \<or> last ?ms \<noteq> 0"
    using last_in_set [of "used_blocks v"] by (auto simp: last_map avail_byte_0 used_blocks_mem)
  moreover have "length (used_blocks v) = length (filter (\<lambda>m. m \<noteq> 0) ?ms)"
    by (subst used_blocks_below) (simp add: filter_map comp_def avail_byte_0)
  ultimately have "read_mask (length (used_blocks v)) (?ms @ rest) = Inr (concat (map bits8 ?ms), rest)"
    by (rule read_mask_bytes)
  moreover have "concat (map bits8 (map (avail_byte v) [0..<n])) = map (is_avail v) [2..<2 + 8 * n]" for n
  proof (induction n)
    case (Suc n)
    have "[2..<2 + 8 * Suc n] = [2..<2 + 8 * n] @ [2 + 8 * n..<2 + 8 * n + 8]"
      using upt_add_eq_append [of 2 "2 + 8 * n" 8] by (simp add: add.commute)
    also have "[2 + 8 * n..<2 + 8 * n + 8] = map (\<lambda>k. 2 + n * 8 + k) [0..<8]"
      using map_add_upt [of "2 + 8 * n" 8] by (simp add: ac_simps)
    finally have u: "[2..<2 + 8 * Suc n] = [2..<2 + 8 * n] @ map (\<lambda>k. 2 + n * 8 + k) [0..<8]" .
    have "concat (map bits8 (map (avail_byte v) [0..<Suc n])) =
        concat (map bits8 (map (avail_byte v) [0..<n])) @ bits8 (avail_byte v n)"
      by simp
    then show ?case
      unfolding u Suc.IH map_append by (simp add: bits8_avail comp_def)
  qed simp
  ultimately show ?thesis by simp
qed

section \<open>The header code\<close>

lemma and_pow_odd: "(w :: u32) AND 2 ^ i \<noteq> 0 \<longleftrightarrow> odd (unat w div 2 ^ i)"
  using bit_iff_and_push_bit_not_eq_0 [of w i] bit_iff_odd [of "unat w" i]
  by (simp add: bit_unsigned_iff push_bit_eq_mult possible_bit_def)

lemma and_6: "(w :: u32) AND 6 \<noteq> 0 \<longleftrightarrow> w AND 2 \<noteq> 0 \<or> w AND 4 \<noteq> 0"
proof -
  have "w AND 6 = (w AND 2) OR (w AND 4)"
    using bit.conj_disj_distrib [of w 2 4] by simp
  then show ?thesis by (simp add: or_eq_0_iff)
qed

lemma header_bits:
  assumes "n = 8 * k + a" and "a < 8" and "n < 2 ^ 32" and "unat (w :: u32) = n"
  shows "(w AND 1 \<noteq> 0) = odd a" and "(w AND 2 \<noteq> 0) = odd (a div 2)" and "(w AND 4 \<noteq> 0) = odd (a div 4)"
    and "unat (w div 8) = k"
proof -
  have "(8 * k + a) div 2 = 4 * k + a div 2" "(8 * k + a) div 4 = 2 * k + a div 4"
    by (simp_all add: div_add1_eq)
  then show "(w AND 1 \<noteq> 0) = odd a" "(w AND 2 \<noteq> 0) = odd (a div 2)" "(w AND 4 \<noteq> 0) = odd (a div 4)"
    using and_pow_odd [of w 0] and_pow_odd [of w 1] and_pow_odd [of w 2] assms by simp_all
  show "unat (w div 8) = k" using assms by (simp add: unat_div)
qed

lemma header_code_reads:
  assumes "m < 2 ^ 28" and "is_avail (c_vout c) 0 \<or> is_avail (c_vout c) 1 \<or> 0 < m"
  defines "w \<equiv> header_code c m"
  shows "(w AND 1 \<noteq> 0) = c_fCoinBase c" and "(w AND 2 \<noteq> 0) = is_avail (c_vout c) 0"
    and "(w AND 4 \<noteq> 0) = is_avail (c_vout c) 1" and "unat (w div 8 + (if w AND 6 \<noteq> 0 then 0 else 1)) = m"
proof -
  define f s where "f = is_avail (c_vout c) 0" and "s = is_avail (c_vout c) 1"
  define k where "k = (if f \<or> s then m else m - 1)"
  define a :: nat where "a = (if c_fCoinBase c then 1 else 0) + (if f then 2 else 0) + (if s then 4 else 0)"
  have km: "word_of_nat m - (if f \<or> s then 0 else 1 :: u32) = word_of_nat k"
    using assms(2) by (auto simp: k_def f_def s_def of_nat_diff)
  have "w = 8 * word_of_nat k + word_of_nat a"
    unfolding w_def header_code_def Let_def km [symmetric] a_def f_def s_def
    by (auto simp: is_avail_def)
  then have "w = word_of_nat (8 * k + a)" by simp
  moreover have "a < 8" by (simp add: a_def)
  moreover have n: "8 * k + a < 2 ^ 32" proof -
    have "k \<le> m" by (simp add: k_def)
    then show ?thesis using assms(1) \<open>a < 8\<close> by simp
  qed
  ultimately have u: "unat w = 8 * k + a" by (simp add: unat_of_nat del: of_nat_add of_nat_mult)
  note h = header_bits [OF refl \<open>a < 8\<close> n u]
  show 1: "(w AND 1 \<noteq> 0) = c_fCoinBase c" and 2: "(w AND 2 \<noteq> 0) = is_avail (c_vout c) 0"
    and 4: "(w AND 4 \<noteq> 0) = is_avail (c_vout c) 1"
    unfolding h f_def [symmetric] s_def [symmetric] by (simp_all add: a_def)
  have k1: "unat (w div 8 + 1) = k + 1"
    using h(4) assms(1) by (simp add: unat_word_ariths k_def)
  show "unat (w div 8 + (if w AND 6 \<noteq> 0 then 0 else 1)) = m"
    using assms(2) h(4) k1 unfolding and_6 2 4 by (auto simp: k_def f_def s_def)
qed

section \<open>Live outputs\<close>

definition live_outs :: "CTxOut list \<Rightarrow> nat \<Rightarrow> CTxOut option" where
  "live_outs v i = (if is_avail v i then Some (v ! i) else None)"

definition compact :: "CTxOut list \<Rightarrow> bool" where
  "compact v \<longleftrightarrow> (\<forall>out\<in>set v. txout_IsNull out \<longrightarrow> out = txout_init) \<and> (v = [] \<or> \<not> txout_IsNull (last v))"

lemma null_init [simp]: "txout_IsNull txout_init" "txout_IsNull (txout_SetNull out)"
  by (simp_all add: txout_IsNull_def txout_init_def txout_SetNull_def cash_size_def cash_assign_int_def)

lemma SetNull_init: "txout_SetNull out = txout_init"
  by (simp add: txout_init_def txout_SetNull_def cash_assign_int_def cash_empty_def)

lemma live_outs_cong: "is_avail v = is_avail w \<Longrightarrow> (\<And>i. is_avail v i \<Longrightarrow> v ! i = w ! i) \<Longrightarrow> live_outs v = live_outs w"
  by (auto simp: live_outs_def)

lemma live_outs_append: "(\<forall>out\<in>set ns. txout_IsNull out) \<Longrightarrow> live_outs (v @ ns) = live_outs v"
  by (auto simp: live_outs_def is_avail_def nth_append fun_eq_iff)

lemma cleanup_split: "\<exists>ns. v = rev (dropWhile P (rev v)) @ ns \<and> (\<forall>x\<in>set ns. P x)"
proof (intro exI conjI)
  show "v = rev (dropWhile P (rev v)) @ rev (takeWhile P (rev v))"
    by (metis rev_append rev_rev_ident takeWhile_dropWhile_id)
qed (auto dest: set_takeWhileD)

lemma live_outs_Cleanup [simp]: "live_outs (c_vout (coins_Cleanup c)) = live_outs (c_vout c)"
  using cleanup_split [of "c_vout c" txout_IsNull] live_outs_append by (metis CCoins.select_convs(2) CCoins.surjective CCoins.update_convs(2) coins_Cleanup_def)

lemma last_Cleanup: "rev (dropWhile P (rev v)) = [] \<or> \<not> P (last (rev (dropWhile P (rev v))))"
  by (metis hd_dropWhile last_rev rev_is_Nil_conv)

lemma compact_Cleanup:
  "(\<forall>out\<in>set (c_vout c). txout_IsNull out \<longrightarrow> out = txout_init) \<Longrightarrow> compact (c_vout (coins_Cleanup c))"
  using last_Cleanup [of txout_IsNull "c_vout c"]
  by (auto simp: compact_def coins_Cleanup_def dest: set_dropWhileD)

lemma Cleanup_meta [simp]:
  "c_fCoinBase (coins_Cleanup c) = c_fCoinBase c" "c_nHeight (coins_Cleanup c) = c_nHeight c"
  "c_nVersion (coins_Cleanup c) = c_nVersion c"
  by (simp_all add: coins_Cleanup_def)

lemma compact_length:
  assumes "compact v" shows "length v \<le> n \<longleftrightarrow> (\<forall>i\<ge>n. live_outs v i = None)"
proof
  assume n: "\<forall>i\<ge>n. live_outs v i = None"
  show "length v \<le> n"
  proof (rule ccontr)
    assume l: "\<not> length v \<le> n"
    then have "v \<noteq> []" by auto
    then have "live_outs v (length v - 1) \<noteq> None"
      using assms by (auto simp: compact_def live_outs_def is_avail_def last_conv_nth)
    with n l show False by auto
  qed
qed (auto simp: live_outs_def is_avail_def)

lemma compact_unique:
  assumes "compact v" and "compact w" and "live_outs v = live_outs w"
  shows "v = w"
proof (rule nth_equalityI)
  show l: "length v = length w"
    using compact_length [OF assms(1)] compact_length [OF assms(2)] assms(3) by (metis order.antisym order.refl)
  fix i assume i: "i < length v"
  show "v ! i = w ! i"
    using i l fun_cong [OF assms(3), of i] assms(1,2)
    by (auto simp: live_outs_def is_avail_def compact_def split: if_splits)
qed

section \<open>Coins read back\<close>

lemma read_outputs_avail:
  assumes "point_compression C" and "\<forall>i\<in>set is. is_avail v i \<longrightarrow> txout_compr_ok (v ! i)"
  shows "read_outputs C (map (is_avail v) is)
      (concat (map (\<lambda>i. if is_avail v i then ser_txout_compr C (v ! i) else []) is) @ rest) =
    Inr (Some (map (\<lambda>i. if is_avail v i then v ! i else txout_init) is), rest)"
  using assms(2)
proof (induction "is")
  case Nil
  then show ?case by (simp add: rreturn_def)
next
  case (Cons i "is")
  have "fixed (nValue txout_init) = 0"
    by (simp add: txout_init_def txout_SetNull_def cash_assign_int_def)
  then show ?case
    using Cons assms(1) by (simp add: rbind_def rreturn_def unser_ser_txout_compr)
qed

lemma concat_indexed:
  assumes "\<forall>i\<ge>n. f i = []" and "\<forall>i\<ge>m. f i = []"
  shows "concat (map f [0..<n]) = concat (map f [0..<m])"
proof -
  have *: "concat (map f [0..<n + d]) = concat (map f [0..<n])" if "\<forall>i\<ge>n. f i = []" for n d
    using that by (induction d) auto
  show ?thesis
    using * [of n "m - n"] * [of m "n - m"] assms by (cases "n \<le> m") (auto simp: le_diff_conv2)
qed

lemma concat_outputs:
  "(\<forall>i\<ge>n. \<not> is_avail v i) \<Longrightarrow>
   concat (map (\<lambda>out. if \<not> txout_IsNull out then e out else []) v)
     = concat (map (\<lambda>i. if is_avail v i then e (v ! i) else []) [0..<n])"
proof -
  assume n: "\<forall>i\<ge>n. \<not> is_avail v i"
  let ?f = "\<lambda>i. if is_avail v i then e (v ! i) else []"
  have "map (\<lambda>out. if \<not> txout_IsNull out then e out else []) v = map ?f [0..<length v]"
    by (rule nth_equalityI) (auto simp: is_avail_def)
  moreover have "concat (map ?f [0..<length v]) = concat (map ?f [0..<n])"
    by (rule concat_indexed) (use n in \<open>auto simp: is_avail_def\<close>)
  ultimately show ?thesis by simp
qed

lemma avail_below_mask: "i \<ge> 2 + 8 * mask_size v \<Longrightarrow> \<not> is_avail v i"
proof
  assume i: "i \<ge> 2 + 8 * mask_size v" and a: "is_avail v i"
  let ?b = "(i - 2) div 8" and ?j = "(i - 2) mod 8"
  have e: "2 + ?b * 8 + ?j = i" using i by simp
  have "\<not> mask_zero v ?b"
    unfolding mask_zero_def list_all_iff
    using a e by (intro notI) (drule bspec [of _ _ ?j]; auto simp: is_avail_def)
  then have "?b < mask_size v" by (rule mask_size_bound)
  then show False using i by simp
qed

lemma live_outs_map:
  assumes "\<forall>i\<ge>n. \<not> is_avail v i"
  shows "live_outs (map (\<lambda>i. if is_avail v i then v ! i else txout_init) [0..<n]) = live_outs v"
proof
  fix i
  show "live_outs (map (\<lambda>i. if is_avail v i then v ! i else txout_init) [0..<n]) i = live_outs v i"
  proof (cases "i < n")
    case True
    then show ?thesis by (auto simp: live_outs_def is_avail_def)
  next
    case False
    with assms have "\<not> is_avail v i" by simp
    with False show ?thesis by (simp add: live_outs_def is_avail_def)
  qed
qed

definition coins_ok :: "CCoins \<Rightarrow> bool" where
  "coins_ok c \<longleftrightarrow> list_all (\<lambda>out. txout_IsNull out \<or> txout_compr_ok out) (c_vout c) \<and> length (c_vout c) < 2 ^ 28 \<and>
     0 \<le>s c_nHeight c \<and> 0 \<le>s c_nVersion c"

lemma WriteVarInt_int_nonneg: "0 \<le>s n \<Longrightarrow> WriteVarInt_int n = WriteVarInt n"
  by (simp add: WriteVarInt_int_def word_sle_eq word_sless_alt)

lemma IsPruned_avail: "coins_IsPruned c \<longleftrightarrow> (\<forall>i. \<not> is_avail (c_vout c) i)"
  by (auto simp: coins_IsPruned_def is_avail_def list_all_length)

lemma used_blocks_length: "length (used_blocks v) \<le> length v"
proof -
  have "length (used_blocks v) \<le> (length v + 5) div 8"
    unfolding used_blocks_def by (rule order_trans [OF length_filter_le]) simp
  also have "\<dots> \<le> length v" by (cases "length v = 0") auto
  finally show ?thesis .
qed

lemma ser_coins_None: "ser_coins C c = None \<longleftrightarrow> coins_IsPruned c"
proof -
  have "is_avail (c_vout c) 0 \<or> is_avail (c_vout c) 1 \<or> used_blocks (c_vout c) \<noteq> [] \<longleftrightarrow> (\<exists>i. is_avail (c_vout c) i)"
  proof
    assume "\<exists>i. is_avail (c_vout c) i"
    then obtain i where i: "is_avail (c_vout c) i" ..
    show "is_avail (c_vout c) 0 \<or> is_avail (c_vout c) 1 \<or> used_blocks (c_vout c) \<noteq> []"
    proof (rule ccontr)
      assume "\<not> ?thesis"
      moreover then have "i \<ge> 2" using i by (metis One_nat_def less_2_cases not_less)
      ultimately show False using avail_below_mask [of "c_vout c" i] i by simp
    qed
  next
    assume "is_avail (c_vout c) 0 \<or> is_avail (c_vout c) 1 \<or> used_blocks (c_vout c) \<noteq> []"
    then show "\<exists>i. is_avail (c_vout c) i"
      using used_blocks_mem [of "hd (used_blocks (c_vout c))" "c_vout c"]
      by (auto simp: mask_zero_def list_all_iff is_avail_def)
  qed
  then show ?thesis
    by (auto simp: ser_coins_def CalcMaskSize_eq IsPruned_avail coins_IsAvailable_def is_avail_def)
qed

lemma unser_ser_coins:
  assumes C: "point_compression C" and ok: "coins_ok c" and s: "ser_coins C c = Some code"
  shows "\<exists>c'. unser_coins C (code @ rest) = Inr (Some c', rest) \<and> c_fCoinBase c' = c_fCoinBase c
    \<and> c_nHeight c' = c_nHeight c \<and> c_nVersion c' = c_nVersion c \<and> live_outs (c_vout c') = live_outs (c_vout c)
    \<and> compact (c_vout c') \<and> (compact (c_vout c) \<longrightarrow> c' = c)"
proof -
  let ?v = "c_vout c"
  let ?m = "length (used_blocks ?v)" and ?z = "mask_size ?v"
  let ?w = "header_code c ?m"
  let ?outs = "map (\<lambda>i. if is_avail ?v i then ?v ! i else txout_init) [0..<2 + 8 * ?z]"
  have code: "code = WriteVarInt (c_nVersion c) @ WriteVarInt ?w @ map (avail_byte ?v) [0..<?z]
      @ concat (map (\<lambda>out. if \<not> txout_IsNull out then ser_txout_compr C out else []) ?v) @ WriteVarInt (c_nHeight c)"
    and some: "is_avail ?v 0 \<or> is_avail ?v 1 \<or> 0 < ?m"
    using s ok unfolding ser_coins_def CalcMaskSize_eq
    by (auto simp: WriteVarInt_int_nonneg coins_ok_def coins_IsAvailable_def is_avail_def split: if_splits)
  have "?m < 2 ^ 28"
    using used_blocks_length [of ?v] ok by (simp add: coins_ok_def)
  note w = header_code_reads [OF this some]
  have avail: "\<forall>i\<ge>2 + 8 * ?z. \<not> is_avail ?v i" using avail_below_mask by blast
  have outs: "concat (map (\<lambda>out. if \<not> txout_IsNull out then ser_txout_compr C out else []) ?v) =
      concat (map (\<lambda>i. if is_avail ?v i then ser_txout_compr C (?v ! i) else []) [0..<2 + 8 * ?z])"
    by (rule concat_outputs [OF avail])
  have idx: "[is_avail ?v 0, is_avail ?v 1] @ map (is_avail ?v) [2..<2 + 8 * ?z] = map (is_avail ?v) [0..<2 + 8 * ?z]"
    by (simp add: upt_conv_Cons numeral_2_eq_2)
  have ok': "\<forall>i\<in>set [0..<2 + 8 * ?z]. is_avail ?v i \<longrightarrow> txout_compr_ok (?v ! i)"
    using ok by (auto simp: coins_ok_def list_all_length is_avail_def)
  let ?c = "\<lparr>c_fCoinBase = c_fCoinBase c, c_vout = ?outs, c_nHeight = c_nHeight c, c_nVersion = c_nVersion c\<rparr>"
  have r: "unser_coins C (code @ rest) = Inr (Some (coins_Cleanup ?c), rest)"
    unfolding code outs
    by (simp only: unser_coins_def rbind_def append_assoc ReadWriteVarInt sum.case prod.case w read_avail_mask Let_def idx
        read_outputs_avail [OF C ok'] option.case rreturn_def)
  have "compact (c_vout (coins_Cleanup ?c))"
    by (rule compact_Cleanup) (auto simp: is_avail_def)
  moreover have live: "live_outs (c_vout (coins_Cleanup ?c)) = live_outs ?v"
    using live_outs_map [OF avail] by simp
  ultimately have "compact ?v \<longrightarrow> coins_Cleanup ?c = c"
    using compact_unique [of "c_vout (coins_Cleanup ?c)" ?v] by (cases c) (auto intro: CCoins.equality)
  with r live \<open>compact (c_vout (coins_Cleanup ?c))\<close> show ?thesis
    by (intro exI [of _ "coins_Cleanup ?c"]) simp
qed

lemma size_varint_int: "GetSizeOfVarInt_int n = length (WriteVarInt_int n)"
  by (simp add: GetSizeOfVarInt_int_def WriteVarInt_int_def size_varint)

lemma size_ser_coins: "size_coins C c = map_option (\<lambda>code. word_of_nat (length code)) (ser_coins C c)"
proof -
  have "foldl (\<lambda>n out. if \<not> txout_IsNull out then n + size_txout_compr C out else n) k v =
      k + word_of_nat (length (concat (map (\<lambda>out. if \<not> txout_IsNull out then ser_txout_compr C out else []) v)))" for k v
    by (induction v arbitrary: k) (simp_all add: size_txout_compr)
  then show ?thesis
    by (simp add: size_coins_def ser_coins_def size_varint_int size_varint split: prod.split)
qed

lemma reader_mask [intro]: "stream_reader (read_mask n)"
proof
  fix bs x rest more
  show "read_mask n bs = Inr (x, rest) \<Longrightarrow> read_mask n (bs @ more) = Inr (x, rest @ more)"
  proof (induction bs arbitrary: n x)
    case Nil
    then show ?case by (subst (asm) read_mask.simps) (auto simp: read_mask.simps [of 0] split: if_splits)
  next
    case (Cons b bs)
    let ?n = "if b \<noteq> 0 then n - 1 else n"
    show ?case
    proof (cases "n > 0")
      case True
      then obtain y where y: "read_mask ?n bs = Inr (y, rest)"
        and x: "x = map (\<lambda>p. b AND push_bit p 1 \<noteq> 0) [0..<8] @ y"
        using Cons.prems by (subst (asm) read_mask.simps) (auto split: sum.splits)
      then show ?thesis
        using True Cons.IH [OF y] by (subst read_mask.simps) simp
    qed (use Cons.prems in \<open>simp add: read_mask.simps\<close>)
  qed
qed

lemma reader_outputs [intro]: "stream_reader (read_outputs C fs)"
proof (induction fs)
  case (Cons f fs)
  have "stream_reader (case out of None \<Rightarrow> rreturn None
      | Some out \<Rightarrow> rbind (read_outputs C fs) (\<lambda>outs. rreturn (map_option (\<lambda>outs. out # outs) outs)))" for out
    using Cons by (cases out) (auto intro: reader_bind)
  then show ?case
    unfolding read_outputs.simps by (intro reader_bind reader_if reader_txout_compr reader_return)
qed simp

lemma reader_coins [intro]: "stream_reader (unser_coins C)"
  unfolding unser_coins_def Let_def
  by (intro reader_bind reader_mask reader_outputs) (auto intro!: reader_bind split: option.split)

text \<open>Every proper prefix of what a reader accepts with nothing left over is an error.\<close>

context stream_reader begin

lemma prefix_error:
  assumes "get bs = Inr (x, [])" and "k < length bs"
  shows "\<exists>e. get (take k bs) = Inl e"
proof (cases "get (take k bs)")
  case (Inr a)
  then obtain y r where "get (take k bs) = Inr (y, r)" by (cases a) auto
  from extend [OF this, of "drop k bs"] have "r @ drop k bs = []" using assms(1) by simp
  then show ?thesis using assms(2) by simp
qed blast

end

text \<open>C22: Coins with an output left (the others cannot be written) read back, whatever follows, with the same flags, height and version and the
  same unspent outputs at the same positions; spent outputs come back empty and none is left at the end, so coins that
  are already in that form come back exactly.  A code cut short is an error and the announced size is the length of the code.  The
  hypotheses are the parity rule of compressed points of the curve, non-negative numbers and sizes within
  the limits.\<close>

theorem coins_roundtrip:
  assumes "point_compression C" and "coins_ok c"
  shows "(ser_coins C c = None \<longleftrightarrow> coins_IsPruned c)
    \<and> (\<forall>code. ser_coins C c = Some code \<longrightarrow>
         (\<exists>c'. unser_coins C (code @ rest) = Inr (Some c', rest)
               \<and> c_fCoinBase c' = c_fCoinBase c \<and> c_nHeight c' = c_nHeight c \<and> c_nVersion c' = c_nVersion c
               \<and> live_outs (c_vout c') = live_outs (c_vout c) \<and> compact (c_vout c') \<and> (compact (c_vout c) \<longrightarrow> c' = c))
         \<and> (\<forall>k < length code. \<exists>e. unser_coins C (take k code) = Inl e)
         \<and> size_coins C c = Some (word_of_nat (length code)))"
proof (intro conjI allI impI)
  show "ser_coins C c = None \<longleftrightarrow> coins_IsPruned c" by (rule ser_coins_None)
next
  fix code assume code: "ser_coins C c = Some code"
  show "\<exists>c'. unser_coins C (code @ rest) = Inr (Some c', rest)
       \<and> c_fCoinBase c' = c_fCoinBase c \<and> c_nHeight c' = c_nHeight c \<and> c_nVersion c' = c_nVersion c
       \<and> live_outs (c_vout c') = live_outs (c_vout c) \<and> compact (c_vout c') \<and> (compact (c_vout c) \<longrightarrow> c' = c)"
    by (rule unser_ser_coins [OF assms code])
  show "size_coins C c = Some (word_of_nat (length code))" by (simp add: size_ser_coins code)
  fix k assume k: "k < length code"
  obtain c' where "unser_coins C code = Inr (Some c', [])"
    using unser_ser_coins [OF assms code, of "[]"] by auto
  then show "\<exists>e. unser_coins C (take k code) = Inl e"
    using k by (rule stream_reader.prefix_error [OF reader_coins])
qed

section \<open>Undo records read back\<close>

definition undo_ok :: "CTxInUndo \<Rightarrow> bool" where
  "undo_ok u \<longleftrightarrow> txout_compr_ok (u_txout u) \<and> unat (u_nHeight u) < 2 ^ 31 \<and> 0 \<le>s u_nVersion u \<and>
     (u_nHeight u = 0 \<longrightarrow> u_nVersion u = 0)"

lemma unser_ser_txinundo:
  assumes C: "point_compression C" and u: "undo_ok u"
  shows "unser_txinundo C undo_init (ser_txinundo C u @ rest) = Inr (Some u, rest)"
proof -
  let ?w = "u_nHeight u * 2 + (if u_fCoinBase u then 1 else 0)"
  have w: "unat ?w = 2 * unat (u_nHeight u) + (if u_fCoinBase u then 1 else 0)"
    using u by (simp add: undo_ok_def unat_word_ariths)
  have "unat (?w div 2) = unat (u_nHeight u)"
    unfolding unat_div w by simp
  then have h: "?w div 2 = u_nHeight u" by (simp only: word_unat_eq_iff)
  have cb: "(?w AND 1 \<noteq> 0) = u_fCoinBase u"
    using and_pow_odd [of ?w 0] unfolding w by simp
  have f: "fixed (nValue (u_txout undo_init)) = 0"
    by (simp add: undo_init_def txout_init_def txout_SetNull_def cash_assign_int_def)
  have ok: "txout_compr_ok (u_txout u)" using u by (simp add: undo_ok_def)
  show ?thesis
  proof (cases "u_nHeight u > 0")
    case True
    then show ?thesis
      using u
      by (simp only: unser_txinundo_def ser_txinundo_def rbind_def append_assoc ReadWriteVarInt sum.case prod.case Let_def h cb
          if_True WriteVarInt_int_nonneg undo_ok_def unser_ser_txout_compr [OF C ok f] rreturn_def option.map)
        (simp add: undo_of_def)
  next
    case False
    then have z: "u_nHeight u = 0" using word_neq_0_conv by blast
    then have v: "u_nVersion undo_init = u_nVersion u" using u by (simp add: undo_ok_def undo_init_def)
    have r: "rreturn x bs = Inr (x, bs)" for x :: "'z" and bs by (simp add: rreturn_def)
    show ?thesis
      by (simp only: unser_txinundo_def ser_txinundo_def rbind_def append_assoc ReadWriteVarInt sum.case prod.case Let_def h cb
          if_not_P [OF False] append_Nil unser_ser_txout_compr [OF C ok f] r option.map v)
        (simp add: undo_of_def)
  qed
qed

lemma reader_txinundo [intro]: "stream_reader (unser_txinundo C u)"
  unfolding unser_txinundo_def Let_def by (intro reader_bind reader_if reader_txout_compr) auto

lemma option_codec:
  assumes "stream_reader get" and "\<And>x rest. ok x \<Longrightarrow> get (ser x @ rest) = Inr (Some x, rest)"
  shows "codec get (\<lambda>z. ser (the z)) (\<lambda>z. z \<noteq> None \<and> ok (the z))"
  using assms by (intro codec.intro codec_axioms.intro) auto

lemma those_Some: "those (map Some xs) = Some xs"
  by (induction xs) simp_all

lemma unser_ser_option_vector:
  assumes "stream_reader get" and "\<And>x rest. ok x \<Longrightarrow> get (ser x @ rest) = Inr (Some x, rest)"
    and "fits_size xs" and "list_all ok xs"
  shows "unser_vector sz get (ser_vector ser xs @ rest) = Inr (map Some xs, rest)"
proof -
  have "ser_vector (\<lambda>z. ser (the z)) (map Some xs) = ser_vector ser xs"
    by (simp add: ser_vector_def comp_def)
  moreover have "codec (unser_vector sz get) (ser_vector (\<lambda>z. ser (the z)))
      (\<lambda>v. fits_size v \<and> list_all (\<lambda>z. z \<noteq> None \<and> ok (the z)) v)"
    by (rule codec.vector_codec [OF option_codec [OF assms(1,2)]])
  from codec.get_ser [OF this, of "map Some xs" rest]
  have "unser_vector sz get (ser_vector (\<lambda>z. ser (the z)) (map Some xs) @ rest) = Inr (map Some xs, rest)"
    using assms(3,4) by (simp add: list_all_iff)
  ultimately show ?thesis by simp
qed

definition txundo_ok :: "CTxUndo \<Rightarrow> bool" where
  "txundo_ok u \<longleftrightarrow> fits_size (vprevout u) \<and> list_all undo_ok (vprevout u)"

lemma unser_ser_txundo:
  assumes "point_compression C" and "txundo_ok u"
  shows "unser_txundo C (ser_txundo C u @ rest) = Inr (Some u, rest)"
proof -
  have "unser_vector 96 (unser_txinundo C undo_init) (ser_vector (ser_txinundo C) (vprevout u) @ rest) =
      Inr (map Some (vprevout u), rest)"
    by (rule unser_ser_option_vector [where ok = undo_ok])
      (use assms in \<open>auto simp: txundo_ok_def unser_ser_txinundo\<close>)
  then show ?thesis by (simp add: unser_txundo_def ser_txundo_def rbind_def rreturn_def those_Some)
qed

lemma reader_txundo [intro]: "stream_reader (unser_txundo C)"
  unfolding unser_txundo_def by (intro reader_bind reader_vector reader_txinundo) auto

lemma unser_ser_blockundo:
  assumes "point_compression C" and "fits_size (vtxundo u)" and "list_all txundo_ok (vtxundo u)"
  shows "unser_blockundo C (ser_blockundo C u @ rest) = Inr (Some u, rest)"
proof -
  have "unser_vector 24 (unser_txundo C) (ser_vector (ser_txundo C) (vtxundo u) @ rest) = Inr (map Some (vtxundo u), rest)"
    by (rule unser_ser_option_vector [where ok = txundo_ok])
      (use assms in \<open>auto simp: unser_ser_txundo\<close>)
  then show ?thesis by (simp add: unser_blockundo_def ser_blockundo_def rbind_def rreturn_def those_Some)
qed

text \<open>Coins with a spent output before the one that is left.\<close>
definition example_coins :: CCoins where
  "example_coins = \<lparr>c_fCoinBase = True,
     c_vout = [txout_init, \<lparr>nValue = \<lparr>local_map = [(''TET'', 7)], fixed = 0\<rparr>, scriptPubKey = [OP_TRUE]\<rparr>],
     c_nHeight = 5, c_nVersion = 1\<rparr>"

lemma example_coins_ok: "coins_ok example_coins"
  by (simp add: coins_ok_def example_coins_def txout_compr_ok_def cash_ok_def cash_wf_def script_fits_def word_sle_eq)

theorem coins_roundtrip_witness:
  "\<exists>code. ser_coins example_curve example_coins = Some code \<and>
     unser_coins example_curve (code @ [1, 2]) = Inr (Some example_coins, [1, 2])"
proof -
  have "\<not> coins_IsPruned example_coins" "compact (c_vout example_coins)"
    by (simp_all add: coins_IsPruned_def example_coins_def compact_def txout_IsNull_def cash_size_def)
  then show ?thesis
    using coins_roundtrip [OF example_curve_compression example_coins_ok, of "[1, 2]"]
    by (cases "ser_coins example_curve example_coins") auto
qed

end
