(* ===== verification/CoinsView.thy ===== *)
theory CoinsView
  imports Coins HashKey "HOL-Library.Monad_Syntax"
begin

text \<open>
  The views of the unspent outputs (\<open>CCoinsView\<close>, \<open>CCoinsViewBacked\<close>, \<open>CCoinsViewCache\<close> of \<open>main.h\<close> and
  \<open>main.cpp\<close>).  A class of views is the record of its virtual functions over the state of an object; a
  cache over a view is again a view.  \<open>None\<close> stands for an exception or a failed assertion.  A pointer to
  a block index is the number of the object, \<open>None\<close> when it is null.
\<close>

section \<open>The interface\<close>

type_synonym block_ref = "nat option"
type_synonym coins_map = "(hash_key, CCoins) omap"

record 'b CCoinsView =
  v_GetCoins :: "'b \<Rightarrow> uint256 \<Rightarrow> (CCoins option \<times> 'b) option"
  v_SetCoins :: "'b \<Rightarrow> uint256 \<Rightarrow> CCoins \<Rightarrow> (bool \<times> 'b) option"
  v_HaveCoins :: "'b \<Rightarrow> uint256 \<Rightarrow> (bool \<times> 'b) option"
  v_GetBestBlock :: "'b \<Rightarrow> (block_ref \<times> 'b) option"
  v_SetBestBlock :: "'b \<Rightarrow> block_ref \<Rightarrow> (bool \<times> 'b) option"
  v_BatchWrite :: "'b \<Rightarrow> coins_map \<Rightarrow> block_ref \<Rightarrow> (bool \<times> 'b) option"

text \<open>The base class, which holds nothing.\<close>
definition null_view :: "unit CCoinsView" where
  "null_view =
     \<lparr>v_GetCoins = (\<lambda>b txid. Some (None, b)), v_SetCoins = (\<lambda>b txid coins. Some (False, b)),
      v_HaveCoins = (\<lambda>b txid. Some (False, b)), v_GetBestBlock = (\<lambda>b. Some (None, b)),
      v_SetBestBlock = (\<lambda>b pindex. Some (False, b)), v_BatchWrite = (\<lambda>b mapCoins pindex. Some (False, b))\<rparr>"

text \<open>A view that passes every call on to the one it is backed by.\<close>
definition backed_view :: "'b CCoinsView \<Rightarrow> 'b CCoinsView" where
  "backed_view V =
     \<lparr>v_GetCoins = (\<lambda>b txid. v_GetCoins V b txid), v_SetCoins = (\<lambda>b txid coins. v_SetCoins V b txid coins),
      v_HaveCoins = (\<lambda>b txid. v_HaveCoins V b txid), v_GetBestBlock = (\<lambda>b. v_GetBestBlock V b),
      v_SetBestBlock = (\<lambda>b pindex. v_SetBestBlock V b pindex),
      v_BatchWrite = (\<lambda>b mapCoins pindex. v_BatchWrite V b mapCoins pindex)\<rparr>"

section \<open>The cache\<close>

record 'b CCoinsViewCache =
  vbase :: 'b
  pindexTip :: block_ref
  cacheCoins :: coins_map

definition cache_init :: "'b \<Rightarrow> 'b CCoinsViewCache" where
  "cache_init baseIn = \<lparr>vbase = baseIn, pindexTip = None, cacheCoins = []\<rparr>"

definition cache_GetCoins ::
  "'b CCoinsView \<Rightarrow> 'b CCoinsViewCache \<Rightarrow> uint256 \<Rightarrow> (CCoins option \<times> 'b CCoinsViewCache) option" where
  "cache_GetCoins V this txid =
     (case om_find (cacheCoins this) (HK txid) of
        Some coins \<Rightarrow> Some (Some coins, this)
      | None \<Rightarrow> do {
          (r, b) \<leftarrow> v_GetCoins V (vbase this) txid;
          (case r of
             Some coins \<Rightarrow>
               Some (Some coins, this\<lparr>vbase := b, cacheCoins := om_put (cacheCoins this) (HK txid) coins\<rparr>)
           | None \<Rightarrow> Some (None, this\<lparr>vbase := b\<rparr>)) })"

text \<open>The entry the iterator points to, \<open>None\<close> for \<open>end()\<close>.\<close>
definition cache_FetchCoins ::
  "'b CCoinsView \<Rightarrow> 'b CCoinsViewCache \<Rightarrow> uint256 \<Rightarrow> (CCoins option \<times> 'b CCoinsViewCache) option" where
  "cache_FetchCoins V this txid =
     (case om_find (cacheCoins this) (HK txid) of
        Some coins \<Rightarrow> Some (Some coins, this)
      | None \<Rightarrow> do {
          (r, b) \<leftarrow> v_GetCoins V (vbase this) txid;
          (case r of
             None \<Rightarrow> Some (None, this\<lparr>vbase := b\<rparr>)
           | Some tmp \<Rightarrow>
               Some (Some tmp, this\<lparr>vbase := b, cacheCoins := om_insert (cacheCoins this) (HK txid) tmp\<rparr>)) })"

text \<open>The entry a reference is returned to, with the assertion that there is one.\<close>
definition cache_GetRef ::
  "'b CCoinsView \<Rightarrow> 'b CCoinsViewCache \<Rightarrow> uint256 \<Rightarrow> (CCoins \<times> 'b CCoinsViewCache) option" where
  "cache_GetRef V this txid = do {
     (it, this) \<leftarrow> cache_FetchCoins V this txid;
     coins \<leftarrow> it;
     Some (coins, this) }"

text \<open>Writing through such a reference.\<close>
definition cache_put :: "'b CCoinsViewCache \<Rightarrow> uint256 \<Rightarrow> CCoins \<Rightarrow> 'b CCoinsViewCache" where
  "cache_put this txid coins = this\<lparr>cacheCoins := om_put (cacheCoins this) (HK txid) coins\<rparr>"

definition cache_SetCoins ::
  "'b CCoinsViewCache \<Rightarrow> uint256 \<Rightarrow> CCoins \<Rightarrow> (bool \<times> 'b CCoinsViewCache) option" where
  "cache_SetCoins this txid coins = Some (True, cache_put this txid coins)"

definition cache_HaveCoins ::
  "'b CCoinsView \<Rightarrow> 'b CCoinsViewCache \<Rightarrow> uint256 \<Rightarrow> (bool \<times> 'b CCoinsViewCache) option" where
  "cache_HaveCoins V this txid = do { (it, this) \<leftarrow> cache_FetchCoins V this txid; Some (it \<noteq> None, this) }"

definition cache_GetBestBlock ::
  "'b CCoinsView \<Rightarrow> 'b CCoinsViewCache \<Rightarrow> (block_ref \<times> 'b CCoinsViewCache) option" where
  "cache_GetBestBlock V this =
     (if pindexTip this = None
      then do { (t, b) \<leftarrow> v_GetBestBlock V (vbase this); Some (t, this\<lparr>vbase := b, pindexTip := t\<rparr>) }
      else Some (pindexTip this, this))"

definition cache_SetBestBlock :: "'b CCoinsViewCache \<Rightarrow> block_ref \<Rightarrow> (bool \<times> 'b CCoinsViewCache) option" where
  "cache_SetBestBlock this pindex = Some (True, this\<lparr>pindexTip := pindex\<rparr>)"

definition cache_BatchWrite ::
  "'b CCoinsViewCache \<Rightarrow> coins_map \<Rightarrow> block_ref \<Rightarrow> (bool \<times> 'b CCoinsViewCache) option" where
  "cache_BatchWrite this mapCoins pindex =
     Some (True, this\<lparr>cacheCoins := foldl (\<lambda>m (k, c). om_put m k c) (cacheCoins this) mapCoins, pindexTip := pindex\<rparr>)"

definition cache_Flush :: "'b CCoinsView \<Rightarrow> 'b CCoinsViewCache \<Rightarrow> (bool \<times> 'b CCoinsViewCache) option" where
  "cache_Flush V this = do {
     (fOk, b) \<leftarrow> v_BatchWrite V (vbase this) (cacheCoins this) (pindexTip this);
     Some (fOk, if fOk then this\<lparr>vbase := b, cacheCoins := []\<rparr> else this\<lparr>vbase := b\<rparr>) }"

definition cache_GetCacheSize :: "'b CCoinsViewCache \<Rightarrow> u32" where
  "cache_GetCacheSize this = word_of_nat (length (cacheCoins this))"

text \<open>The virtual functions of the cache.\<close>
definition cache_view :: "'b CCoinsView \<Rightarrow> 'b CCoinsViewCache CCoinsView" where
  "cache_view V =
     \<lparr>v_GetCoins = cache_GetCoins V, v_SetCoins = cache_SetCoins, v_HaveCoins = cache_HaveCoins V,
      v_GetBestBlock = cache_GetBestBlock V, v_SetBestBlock = cache_SetBestBlock, v_BatchWrite = cache_BatchWrite\<rparr>"

section \<open>The contract\<close>

text \<open>What the unspent outputs of a transaction are: its flag, height and version and the outputs by position;
  nothing when all are spent.\<close>

type_synonym coin_info = "bool \<times> u32 \<times> u32 \<times> (nat \<Rightarrow> CTxOut option)"

definition info_of :: "CCoins \<Rightarrow> coin_info option" where
  "info_of c = (if coins_IsPruned c then None
                else Some (c_fCoinBase c, c_nHeight c, c_nVersion c, live_outs (c_vout c)))"

definition info_opt :: "CCoins option \<Rightarrow> coin_info option" where
  "info_opt r = (case r of None \<Rightarrow> None | Some c \<Rightarrow> info_of c)"

lemma info_opt_simps [simp]: "info_opt None = None" "info_opt (Some c) = info_of c"
  by (simp_all add: info_opt_def)

text \<open>Coins and hashes that every view can store.\<close>
definition storable :: "(hash_key \<times> CCoins) \<Rightarrow> bool" where
  "storable e \<longleftrightarrow> length (hk_limbs (fst e)) = WIDTH256 \<and> coins_ok (snd e)"

text \<open>In a good state every operation returns; a write that is refused changes nothing.\<close>

locale coins_view =
  fixes V :: "'b CCoinsView" and utxo :: "'b \<Rightarrow> uint256 \<Rightarrow> coin_info option" and good :: "'b \<Rightarrow> bool"
  assumes get: "good b \<Longrightarrow> length h = WIDTH256 \<Longrightarrow> \<exists>r b'. v_GetCoins V b h = Some (r, b') \<and>
      good b' \<and> utxo b' = utxo b \<and> info_opt r = utxo b h \<and> (\<forall>c. r = Some c \<longrightarrow> coins_ok c)"
    and set: "good b \<Longrightarrow> storable (HK h, c) \<Longrightarrow> \<exists>f b'. v_SetCoins V b h c = Some (f, b') \<and>
      good b' \<and> utxo b' = (if f then (utxo b)(h := info_of c) else utxo b)"
    and have_coins: "good b \<Longrightarrow> length h = WIDTH256 \<Longrightarrow> \<exists>f b'. v_HaveCoins V b h = Some (f, b') \<and>
      good b' \<and> utxo b' = utxo b \<and> (utxo b h \<noteq> None \<longrightarrow> f)"
    and best: "good b \<Longrightarrow> \<exists>t b'. v_GetBestBlock V b = Some (t, b') \<and> good b' \<and> utxo b' = utxo b"
    and set_best: "good b \<Longrightarrow> v_SetBestBlock V b t = Some (f, b') \<Longrightarrow> good b' \<and> utxo b' = utxo b"
    and batch: "good b \<Longrightarrow> om_wf m \<Longrightarrow> list_all storable m \<Longrightarrow> v_BatchWrite V b m t = Some (f, b') \<Longrightarrow>
      good b' \<and> (\<forall>h. utxo b' h = (if f then case om_find m (HK h) of Some c \<Rightarrow> info_of c | None \<Rightarrow> utxo b h else utxo b h))"

interpretation null_view: coins_view null_view "\<lambda>_ _. None" "\<lambda>_. True"
  by unfold_locales (auto simp: null_view_def)

text \<open>What a cache over a view holds: its own entries, and below them those of the view.\<close>

definition cache_utxo ::
  "('b \<Rightarrow> uint256 \<Rightarrow> coin_info option) \<Rightarrow> 'b CCoinsViewCache \<Rightarrow> uint256 \<Rightarrow> coin_info option" where
  "cache_utxo utxo c h = (case om_find (cacheCoins c) (HK h) of Some coins \<Rightarrow> info_of coins | None \<Rightarrow> utxo (vbase c) h)"

definition cache_wf :: "('b \<Rightarrow> bool) \<Rightarrow> 'b CCoinsViewCache \<Rightarrow> bool" where
  "cache_wf good c \<longleftrightarrow> good (vbase c) \<and> om_wf (cacheCoins c) \<and> list_all storable (cacheCoins c)"

section \<open>A cache over a view is a view\<close>

lemma om_insert_new: "om_find m k = None \<Longrightarrow> om_insert m k v = om_put m k v"
  by (simp add: om_insert_def)

lemma om_put_mem: "e \<in> set (om_put m k v) \<Longrightarrow> e = (k, v) \<or> e \<in> set m"
  by (induction m k v rule: om_put.induct) (auto split: if_splits)

lemma storable_put: "list_all storable m \<Longrightarrow> storable (k, c) \<Longrightarrow> list_all storable (om_put m k c)"
  by (auto simp: list_all_iff dest!: om_put_mem)

lemma storable_find: "list_all storable m \<Longrightarrow> om_find m (HK h) = Some c \<Longrightarrow> coins_ok c \<and> length h = WIDTH256"
  by (auto simp: om_find_map_of storable_def list_all_iff dest!: map_of_SomeD)

lemma om_find_foldl_put:
  "om_wf m \<Longrightarrow> om_wf es \<Longrightarrow>
   om_find (foldl (\<lambda>m (k, c). om_put m k c) m es) k = (case om_find es k of Some c \<Rightarrow> Some c | None \<Rightarrow> om_find m k)
   \<and> om_wf (foldl (\<lambda>m (k, c). om_put m k c) m es)"
proof (induction es arbitrary: m)
  case (Cons e es)
  obtain a v where e: "e = (a, v)" by (cases e)
  with Cons show ?case
    by (auto simp: om_find_put om_wf_notin split: option.split)
qed simp

lemma storable_foldl_put:
  "list_all storable m \<Longrightarrow> list_all storable es \<Longrightarrow> list_all storable (foldl (\<lambda>m (k, c). om_put m k c) m es)"
  by (induction es arbitrary: m) (auto simp: storable_put)

context coins_view begin

lemma fetch:
  assumes "cache_wf good c" and "length h = WIDTH256"
  shows "\<exists>r c'. cache_FetchCoins V c h = Some (r, c') \<and> cache_wf good c' \<and> cache_utxo utxo c' = cache_utxo utxo c
    \<and> info_opt r = cache_utxo utxo c h
    \<and> (\<forall>coins. r = Some coins \<longrightarrow> coins_ok coins \<and> om_find (cacheCoins c') (HK h) = Some coins)
    \<and> pindexTip c' = pindexTip c"
proof (cases "om_find (cacheCoins c) (HK h)")
  case None
  obtain r b where g: "v_GetCoins V (vbase c) h = Some (r, b)"
    and b: "good b" "utxo b = utxo (vbase c)" "info_opt r = utxo (vbase c) h" "\<forall>coins. r = Some coins \<longrightarrow> coins_ok coins"
    using get [of "vbase c" h] assms by (auto simp: cache_wf_def)
  let ?c = "case r of None \<Rightarrow> c\<lparr>vbase := b\<rparr>
      | Some tmp \<Rightarrow> c\<lparr>vbase := b, cacheCoins := om_put (cacheCoins c) (HK h) tmp\<rparr>"
  have "cache_FetchCoins V c h = Some (r, ?c)"
    using None g by (simp add: cache_FetchCoins_def om_insert_new split: option.split)
  then show ?thesis
    using b None assms
    by (cases r) (auto simp: cache_wf_def cache_utxo_def om_find_put storable_put storable_def fun_eq_iff
        split: option.split)
next
  case (Some coins)
  then have "cache_FetchCoins V c h = Some (Some coins, c)" by (simp add: cache_FetchCoins_def)
  moreover have "coins_ok coins"
    using storable_find [OF _ Some] assms(1) by (simp add: cache_wf_def)
  ultimately show ?thesis using Some assms(1) by (simp add: cache_utxo_def)
qed

lemma GetCoins_fetch: "cache_GetCoins V c h = cache_FetchCoins V c h"
  by (auto simp: cache_GetCoins_def cache_FetchCoins_def om_insert_new split: option.split Option.bind_split
      intro!: Option.bind_cong)

lemma put:
  "cache_wf good c \<Longrightarrow> storable (HK h, coins) \<Longrightarrow>
   cache_wf good (cache_put c h coins) \<and> cache_utxo utxo (cache_put c h coins) = (cache_utxo utxo c)(h := info_of coins)"
  by (auto simp: cache_put_def cache_wf_def cache_utxo_def om_find_put storable_put fun_eq_iff split: option.split)

lemma cache_contract: "coins_view (cache_view V) (cache_utxo utxo) (cache_wf good)"
proof
  fix c and h :: uint256
  assume a: "cache_wf good c" "length h = WIDTH256"
  obtain r c' where r: "cache_FetchCoins V c h = Some (r, c')" "cache_wf good c'" "cache_utxo utxo c' = cache_utxo utxo c"
    "info_opt r = cache_utxo utxo c h" "\<forall>coins. r = Some coins \<longrightarrow> coins_ok coins"
    using fetch [OF a] by blast
  then show "\<exists>r c'. v_GetCoins (cache_view V) c h = Some (r, c') \<and> cache_wf good c'
      \<and> cache_utxo utxo c' = cache_utxo utxo c \<and> info_opt r = cache_utxo utxo c h \<and> (\<forall>c. r = Some c \<longrightarrow> coins_ok c)"
    by (simp add: cache_view_def GetCoins_fetch)
  have "cache_utxo utxo c h \<noteq> None \<longrightarrow> r \<noteq> None" using r(4) by (cases r) auto
  then show "\<exists>f c'. v_HaveCoins (cache_view V) c h = Some (f, c') \<and> cache_wf good c'
      \<and> cache_utxo utxo c' = cache_utxo utxo c \<and> (cache_utxo utxo c h \<noteq> None \<longrightarrow> f)"
    using r by (simp add: cache_view_def cache_HaveCoins_def)
next
  fix c and h coins
  assume "cache_wf good c" "storable (HK h, coins)"
  then show "\<exists>f c'. v_SetCoins (cache_view V) c h coins = Some (f, c') \<and> cache_wf good c'
      \<and> cache_utxo utxo c' = (if f then (cache_utxo utxo c)(h := info_of coins) else cache_utxo utxo c)"
    using put [of c h coins] by (auto simp: cache_view_def cache_SetCoins_def)
next
  fix c
  assume "cache_wf good c"
  then show "\<exists>t c'. v_GetBestBlock (cache_view V) c = Some (t, c') \<and> cache_wf good c' \<and> cache_utxo utxo c' = cache_utxo utxo c"
    using best [of "vbase c"]
    by (auto simp: cache_view_def cache_GetBestBlock_def cache_wf_def cache_utxo_def fun_eq_iff split: option.split)
next
  fix c c' t f
  assume "cache_wf good c" "v_SetBestBlock (cache_view V) c t = Some (f, c')"
  then show "cache_wf good c' \<and> cache_utxo utxo c' = cache_utxo utxo c"
    by (auto simp: cache_view_def cache_SetBestBlock_def cache_wf_def cache_utxo_def fun_eq_iff split: option.split)
next
  fix c c' m t f
  assume "cache_wf good c" "om_wf m" "list_all storable m" "v_BatchWrite (cache_view V) c m t = Some (f, c')"
  then show "cache_wf good c' \<and> (\<forall>h. cache_utxo utxo c' h =
      (if f then case om_find m (HK h) of Some c \<Rightarrow> info_of c | None \<Rightarrow> cache_utxo utxo c h else cache_utxo utxo c h))"
    by (auto simp: cache_view_def cache_BatchWrite_def cache_wf_def cache_utxo_def om_find_foldl_put storable_foldl_put
        split: option.split)
qed

text \<open>The reference to an entry, when there is one.\<close>

lemma ref:
  assumes "cache_wf good c" and "length h = WIDTH256" and "cache_utxo utxo c h \<noteq> None"
  shows "\<exists>coins c'. cache_GetRef V c h = Some (coins, c') \<and> cache_wf good c' \<and> cache_utxo utxo c' = cache_utxo utxo c
    \<and> info_of coins = cache_utxo utxo c h \<and> coins_ok coins"
proof -
  obtain r c' where r: "cache_FetchCoins V c h = Some (r, c')" "cache_wf good c'" "cache_utxo utxo c' = cache_utxo utxo c"
    "info_opt r = cache_utxo utxo c h" "\<forall>coins. r = Some coins \<longrightarrow> coins_ok coins"
    using fetch [OF assms(1,2)] by blast
  then obtain coins where "r = Some coins" using assms(3) by (cases r) auto
  with r show ?thesis by (auto simp: cache_GetRef_def)
qed

text \<open>Flushing moves what the cache holds into the view below it.\<close>

lemma flush:
  assumes "cache_wf good c" and "cache_Flush V c = Some (f, c')"
  shows "cache_wf good c' \<and> cache_utxo utxo c' = cache_utxo utxo c
    \<and> (f \<longrightarrow> utxo (vbase c') = cache_utxo utxo c \<and> cacheCoins c' = [])"
proof -
  obtain b where b: "v_BatchWrite V (vbase c) (cacheCoins c) (pindexTip c) = Some (f, b)"
    and c': "c' = (if f then c\<lparr>vbase := b, cacheCoins := []\<rparr> else c\<lparr>vbase := b\<rparr>)"
    using assms(2) by (auto simp: cache_Flush_def split: Option.bind_splits)
  have "good b \<and> (\<forall>h. utxo b h = (if f then cache_utxo utxo c h else utxo (vbase c) h))"
    using batch [OF _ _ _ b] assms(1) by (auto simp: cache_wf_def cache_utxo_def)
  with c' assms(1) show ?thesis
    by (auto simp: cache_wf_def cache_utxo_def fun_eq_iff split: option.split)
qed

end

interpretation cache_null: coins_view "cache_view null_view" "cache_utxo (\<lambda>_ _. None)" "cache_wf (\<lambda>_. True)"
  by (rule null_view.cache_contract)

text \<open>C13: A cache is the map of unspent outputs of the view below it with its own entries on top: looking up and
  \<open>SetCoins\<close> return and are lookup and update of that map, for every 256-bit hash; a lookup changes nothing that can be seen
  although it fills the cache; \<open>HaveCoins\<close> holds of everything unspent; and \<open>Flush\<close> changes nothing that can be seen and, when it succeeds, moves the whole map into
  the view below.  The view below is any that has the same contract, another cache for example.\<close>

theorem cache_refines:
  assumes "coins_view V utxo good" and "cache_wf good c" and "storable (HK h, coins)"
  shows "(\<exists>r c'. cache_GetCoins V c h = Some (r, c') \<and> cache_wf good c' \<and> cache_utxo utxo c' = cache_utxo utxo c
      \<and> info_opt r = cache_utxo utxo c h)
    \<and> (\<exists>f c'. cache_HaveCoins V c h = Some (f, c') \<and> cache_wf good c' \<and> cache_utxo utxo c' = cache_utxo utxo c
      \<and> (cache_utxo utxo c h \<noteq> None \<longrightarrow> f))
    \<and> (\<exists>c'. cache_SetCoins c h coins = Some (True, c') \<and> cache_wf good c'
      \<and> cache_utxo utxo c' = (cache_utxo utxo c)(h := info_of coins))
    \<and> (\<forall>f c'. cache_Flush V c = Some (f, c') \<longrightarrow> cache_wf good c' \<and> cache_utxo utxo c' = cache_utxo utxo c
      \<and> (f \<longrightarrow> utxo (vbase c') = cache_utxo utxo c))"
proof (intro conjI allI impI)
  have h: "length h = WIDTH256" using assms(3) by (simp add: storable_def)
  note cv = coins_view.cache_contract [OF assms(1)]
  show "\<exists>r c'. cache_GetCoins V c h = Some (r, c') \<and> cache_wf good c' \<and> cache_utxo utxo c' = cache_utxo utxo c
      \<and> info_opt r = cache_utxo utxo c h"
    using coins_view.get [OF cv assms(2) h] by (auto simp: cache_view_def)
  show "\<exists>f c'. cache_HaveCoins V c h = Some (f, c') \<and> cache_wf good c' \<and> cache_utxo utxo c' = cache_utxo utxo c
      \<and> (cache_utxo utxo c h \<noteq> None \<longrightarrow> f)"
    using coins_view.have_coins [OF cv assms(2) h] by (auto simp: cache_view_def)
  show "\<exists>c'. cache_SetCoins c h coins = Some (True, c') \<and> cache_wf good c'
      \<and> cache_utxo utxo c' = (cache_utxo utxo c)(h := info_of coins)"
    using coins_view.put [OF assms] by (simp add: cache_SetCoins_def)
next
  fix f c' assume "cache_Flush V c = Some (f, c')"
  from coins_view.flush [OF assms(1,2) this]
  show "cache_wf good c'" "cache_utxo utxo c' = cache_utxo utxo c" "f \<Longrightarrow> utxo (vbase c') = cache_utxo utxo c"
    by blast+
qed

theorem cache_refines_witness:
  "let c = (cache_init (cache_init ()))\<lparr>cacheCoins := [(HK (replicate 8 1), example_coins)]\<rparr>
   in (\<exists>f c'. cache_HaveCoins (cache_view null_view) c (replicate 8 1) = Some (f, c') \<and> f)
    \<and> (\<forall>f c'. cache_Flush (cache_view null_view) c = Some (f, c') \<longrightarrow> f \<longrightarrow>
         cache_utxo (\<lambda>_ _. None) (vbase c') (replicate 8 1) = info_of example_coins)"
proof -
  let ?c = "(cache_init (cache_init ()))\<lparr>cacheCoins := [(HK (replicate 8 1), example_coins)]\<rparr>"
  have s: "storable (HK (replicate 8 1), example_coins)"
    using example_coins_ok by (simp add: storable_def)
  have wf: "cache_wf (cache_wf (\<lambda>_. True)) ?c"
    using s by (simp add: cache_wf_def cache_init_def)
  have u: "cache_utxo (cache_utxo (\<lambda>_ _. None)) ?c (replicate 8 1) = info_of example_coins"
    by (simp add: cache_utxo_def)
  have i: "info_of example_coins \<noteq> None"
    by (simp add: info_of_def coins_IsPruned_def example_coins_def txout_IsNull_def cash_size_def)
  show ?thesis
    using cache_refines [OF cache_null.coins_view_axioms wf s] u i unfolding Let_def by metis
qed

end
