(* ===== verification/Utxo.thy ===== *)
theory Utxo
  imports CoinsView
begin

text \<open>
  Transactions against the unspent outputs (\<open>main.cpp\<close>): availability and value of the inputs, spending
  them into undo records (\<open>UpdateCoins\<close>), and taking a transaction and a block back (\<open>DisconnectBlock\<close>).
\<close>

section \<open>Inputs\<close>

text \<open>\<open>None\<close>: the assertion that the output is available fails.\<close>
definition tx_GetOutputFor ::
  "'b CCoinsView \<Rightarrow> CTxIn \<Rightarrow> 'b CCoinsViewCache \<Rightarrow> (CTxOut \<times> 'b CCoinsViewCache) option" where
  "tx_GetOutputFor V input view = do {
     (coins, view) \<leftarrow> cache_GetRef V view (op_hash (prevout input));
     (if \<not> coins_IsAvailable coins (unat (op_n (prevout input))) then None
      else Some (c_vout coins ! unat (op_n (prevout input)), view)) }"

fun value_in_loop ::
  "'b CCoinsView \<Rightarrow> CTxIn list \<Rightarrow> cash \<Rightarrow> 'b CCoinsViewCache \<Rightarrow> (cash \<times> 'b CCoinsViewCache) option" where
  "value_in_loop V [] nResult view = Some (nResult, view)"
| "value_in_loop V (txin # v) nResult view = do {
     (out, view) \<leftarrow> tx_GetOutputFor V txin view;
     value_in_loop V v (cash_plus_assign nResult (nValue out)) view }"

definition tx_GetValueIn ::
  "'b CCoinsView \<Rightarrow> CTransaction \<Rightarrow> 'b CCoinsViewCache \<Rightarrow> (cash \<times> 'b CCoinsViewCache) option" where
  "tx_GetValueIn V tx inputs =
     (if tx_IsCoinBase tx then Some (cash_of_amount 0, inputs) else value_in_loop V (vin tx) cash_empty inputs)"

fun p2sh_sigops_loop ::
  "'b CCoinsView \<Rightarrow> CTxIn list \<Rightarrow> u32 \<Rightarrow> 'b CCoinsViewCache \<Rightarrow> (u32 \<times> 'b CCoinsViewCache) option" where
  "p2sh_sigops_loop V [] nSigOps view = Some (nSigOps, view)"
| "p2sh_sigops_loop V (txin # v) nSigOps view = do {
     (prev, view) \<leftarrow> tx_GetOutputFor V txin view;
     p2sh_sigops_loop V v
       (if IsPayToScriptHash (scriptPubKey prev) then nSigOps + GetSigOpCount_p2sh (scriptPubKey prev) (scriptSig txin)
        else nSigOps) view }"

definition tx_GetP2SHSigOpCount ::
  "'b CCoinsView \<Rightarrow> CTransaction \<Rightarrow> 'b CCoinsViewCache \<Rightarrow> (u32 \<times> 'b CCoinsViewCache) option" where
  "tx_GetP2SHSigOpCount V tx inputs =
     (if tx_IsCoinBase tx then Some (0, inputs) else p2sh_sigops_loop V (vin tx) 0 inputs)"

fun have_hashes :: "'b CCoinsView \<Rightarrow> CTxIn list \<Rightarrow> 'b CCoinsViewCache \<Rightarrow> (bool \<times> 'b CCoinsViewCache) option" where
  "have_hashes V [] inputs = Some (True, inputs)"
| "have_hashes V (txin # v) inputs = do {
     (f, inputs) \<leftarrow> cache_HaveCoins V inputs (op_hash (prevout txin));
     (if \<not> f then Some (False, inputs) else have_hashes V v inputs) }"

fun have_outputs :: "'b CCoinsView \<Rightarrow> CTxIn list \<Rightarrow> 'b CCoinsViewCache \<Rightarrow> (bool \<times> 'b CCoinsViewCache) option" where
  "have_outputs V [] inputs = Some (True, inputs)"
| "have_outputs V (txin # v) inputs = do {
     (coins, inputs) \<leftarrow> cache_GetRef V inputs (op_hash (prevout txin));
     (if \<not> coins_IsAvailable coins (unat (op_n (prevout txin))) then Some (False, inputs)
      else have_outputs V v inputs) }"

definition tx_HaveInputs ::
  "'b CCoinsView \<Rightarrow> CTransaction \<Rightarrow> 'b CCoinsViewCache \<Rightarrow> (bool \<times> 'b CCoinsViewCache) option" where
  "tx_HaveInputs V tx inputs =
     (if tx_IsCoinBase tx then Some (True, inputs)
      else do {
        (f, inputs) \<leftarrow> have_hashes V (vin tx) inputs;
        (if \<not> f then Some (False, inputs) else have_outputs V (vin tx) inputs) })"

section \<open>Spending\<close>

fun spend_inputs ::
  "'b CCoinsView \<Rightarrow> CTxIn list \<Rightarrow> 'b CCoinsViewCache \<Rightarrow> CTxUndo \<Rightarrow> ('b CCoinsViewCache \<times> CTxUndo) option" where
  "spend_inputs V [] inputs txundo = Some (inputs, txundo)"
| "spend_inputs V (txin # v) inputs txundo = do {
     (coins, inputs) \<leftarrow> cache_GetRef V inputs (op_hash (prevout txin));
     (case coins_Spend coins (unat (op_n (prevout txin))) undo_init of (ret, coins, undo) \<Rightarrow>
        let inputs = cache_put inputs (op_hash (prevout txin)) coins
        in if \<not> ret then None
           else spend_inputs V v inputs (txundo\<lparr>vprevout := vprevout txundo @ [undo]\<rparr>)) }"

definition tx_UpdateCoins ::
  "'b CCoinsView \<Rightarrow> CTransaction \<Rightarrow> 'b CCoinsViewCache \<Rightarrow> CTxUndo \<Rightarrow> u32 \<Rightarrow> uint256 \<Rightarrow>
   ('b CCoinsViewCache \<times> CTxUndo) option" where
  "tx_UpdateCoins V tx inputs txundo nHeight txhash = do {
     (inputs, txundo) \<leftarrow> (if \<not> tx_IsCoinBase tx then spend_inputs V (vin tx) inputs txundo else Some (inputs, txundo));
     (f, inputs) \<leftarrow> cache_SetCoins inputs txhash (coins_of_tx tx nHeight);
     (if f then Some (inputs, txundo) else None) }"

section \<open>Taking back\<close>

text \<open>The coins with one output put back, and whether nothing was wrong; \<open>None\<close> when the index does not
  fit after the vector was extended.\<close>
definition undo_coins :: "CCoins \<Rightarrow> nat \<Rightarrow> CTxInUndo \<Rightarrow> bool \<Rightarrow> (CCoins \<times> bool) option" where
  "undo_coins coins n undo fClean =
     (let (coins, fClean) =
            (if u_nHeight undo \<noteq> 0
             then (coins_init\<lparr>c_fCoinBase := u_fCoinBase undo, c_nHeight := u_nHeight undo, c_nVersion := u_nVersion undo\<rparr>,
                   fClean \<and> coins_IsPruned coins)
             else (coins, fClean \<and> \<not> coins_IsPruned coins));
          fClean = (fClean \<and> \<not> coins_IsAvailable coins n);
          size = unat (word_of_nat n + 1 :: u32);
          v = (if length (c_vout coins) < size then c_vout coins @ replicate (size - length (c_vout coins)) txout_init
               else c_vout coins)
      in if n < length v then Some (coins\<lparr>c_vout := v[n := u_txout undo]\<rparr>, fClean) else None)"

text \<open>The inputs of a transaction from the last to the first, with their undo records.\<close>
fun restore_inputs ::
  "'b CCoinsView \<Rightarrow> (CTxIn \<times> CTxInUndo) list \<Rightarrow> 'b CCoinsViewCache \<Rightarrow> bool \<Rightarrow> ('b CCoinsViewCache \<times> bool) option" where
  "restore_inputs V [] view fClean = Some (view, fClean)"
| "restore_inputs V ((txin, undo) # v) view fClean = do {
     (r, view) \<leftarrow> cache_GetCoins V view (op_hash (prevout txin));
     (coins, fClean) \<leftarrow> undo_coins (case r of Some coins \<Rightarrow> coins | None \<Rightarrow> coins_init) (unat (op_n (prevout txin))) undo fClean;
     (f, view) \<leftarrow> cache_SetCoins view (op_hash (prevout txin)) coins;
     restore_inputs V v view fClean }"

text \<open>One transaction of the block; the last argument is the undo data of one that is not the first.  The outer
  option is an exception, the inner one the early return \<open>false\<close>.\<close>
definition disconnect_tx ::
  "'b CCoinsView \<Rightarrow> CTransaction \<Rightarrow> uint256 \<Rightarrow> u32 \<Rightarrow> CTxUndo option \<Rightarrow> 'b CCoinsViewCache \<Rightarrow> bool \<Rightarrow>
   ('b CCoinsViewCache \<times> bool option) option" where
  "disconnect_tx V tx hash nHeight txundo view fClean = do {
     (have, view) \<leftarrow> cache_HaveCoins V view hash;
     (_, view) \<leftarrow> (if \<not> have then cache_SetCoins view hash (coins_of_tx tx nHeight) else Some (True, view));
     (outs, view) \<leftarrow> cache_GetRef V view hash;
     (let outsBlock = coins_of_tx tx nHeight;
          outs = (if c_nVersion outsBlock <s 0 then outs\<lparr>c_nVersion := c_nVersion outsBlock\<rparr> else outs);
          fClean = (fClean \<and> \<not> coins_neq outs outsBlock);
          view = cache_put view hash coins_init
      in case txundo of
           None \<Rightarrow> Some (view, Some fClean)
         | Some txundo \<Rightarrow>
             if length (vprevout txundo) \<noteq> length (vin tx) then Some (view, None)
             else do {
               (view, fClean) \<leftarrow> restore_inputs V (rev (zip (vin tx) (vprevout txundo))) view fClean;
               Some (view, Some fClean) }) }"

text \<open>The transactions in reverse order, each with its hash and its undo data.\<close>
fun disconnect_loop ::
  "'b CCoinsView \<Rightarrow> u32 \<Rightarrow> (CTransaction \<times> uint256 \<times> CTxUndo option) list \<Rightarrow> 'b CCoinsViewCache \<Rightarrow> bool \<Rightarrow>
   ('b CCoinsViewCache \<times> bool option) option" where
  "disconnect_loop V nHeight [] view fClean = Some (view, Some fClean)"
| "disconnect_loop V nHeight ((tx, hash, undo) # r) view fClean = do {
     (view, f) \<leftarrow> disconnect_tx V tx hash nHeight undo view fClean;
     (case f of None \<Rightarrow> Some (view, None) | Some fClean \<Rightarrow> disconnect_loop V nHeight r view fClean) }"

text \<open>The block index of the block: its own pointer, its predecessor, its height and whether the undo data
  could be read, with the data.  The result is the flag the caller gets with \<open>pfClean\<close> (\<open>None\<close> when it is not
  written after the start) and the returned flag.\<close>
definition DisconnectBlock ::
  "'b CCoinsView \<Rightarrow> ('k, 'x) crypto_scheme \<Rightarrow> CTransaction list \<Rightarrow> nat \<Rightarrow> block_ref \<Rightarrow> u32 \<Rightarrow> CBlockUndo option \<Rightarrow>
   bool \<Rightarrow> 'b CCoinsViewCache \<Rightarrow> (bool \<times> bool \<times> 'b CCoinsViewCache) option" where
  "DisconnectBlock V C vtx pindex pprev nHeight blockUndo pfClean view = do {
     (t, view) \<leftarrow> cache_GetBestBlock V view;
     (if t \<noteq> Some pindex then None
      else case blockUndo of None \<Rightarrow> Some (False, False, view)
      | Some blockUndo \<Rightarrow>
          if length (vtxundo blockUndo) + 1 \<noteq> length vtx then Some (False, False, view)
          else do {
            (view, f) \<leftarrow> disconnect_loop V nHeight
              (rev (zip vtx (zip (map (tx_GetHash C) vtx) (None # map Some (vtxundo blockUndo))))) view True;
            (case f of
               None \<Rightarrow> Some (False, False, view)
             | Some fClean \<Rightarrow> do {
                 (_, view) \<leftarrow> cache_SetBestBlock view pprev;
                 Some (if pfClean then (fClean, True, view) else (False, fClean, view)) }) }) }"

section \<open>Spending and restoring one output\<close>

definition spend_info :: "coin_info \<Rightarrow> nat \<Rightarrow> coin_info option" where
  "spend_info i n = (case i of (cb, h, v, outs) \<Rightarrow>
     if outs(n := None) = (\<lambda>_. None) then None else Some (cb, h, v, outs(n := None)))"

definition undo_for :: "coin_info \<Rightarrow> nat \<Rightarrow> CTxInUndo" where
  "undo_for i n = (case i of (cb, h, v, outs) \<Rightarrow>
     if outs(n := None) = (\<lambda>_. None) then undo_of (the (outs n)) cb h v else undo_of (the (outs n)) False 0 0)"

lemma IsPruned_live: "coins_IsPruned c \<longleftrightarrow> live_outs (c_vout c) = (\<lambda>_. None)"
  by (auto simp: IsPruned_avail live_outs_def fun_eq_iff split: if_splits)

lemma info_of_Some:
  "info_of c = Some (cb, h, v, outs) \<longleftrightarrow>
   c_fCoinBase c = cb \<and> c_nHeight c = h \<and> c_nVersion c = v \<and> live_outs (c_vout c) = outs \<and> outs \<noteq> (\<lambda>_. None)"
  by (auto simp: info_of_def IsPruned_live)

lemma info_of_None: "info_of c = None \<longleftrightarrow> live_outs (c_vout c) = (\<lambda>_. None)"
  by (auto simp: info_of_def IsPruned_live)

lemma info_of_live:
  "info_of c = (if live_outs (c_vout c) = (\<lambda>_. None) then None
     else Some (c_fCoinBase c, c_nHeight c, c_nVersion c, live_outs (c_vout c)))"
  by (simp add: info_of_def IsPruned_live)

lemma live_outs_update:
  "n < length v \<Longrightarrow> live_outs (v[n := out]) = (live_outs v)(n := if txout_IsNull out then None else Some out)"
  by (auto simp: live_outs_def is_avail_def nth_list_update fun_eq_iff)

lemma coins_ok_outs:
  "coins_ok c \<longleftrightarrow> (\<forall>n out. live_outs (c_vout c) n = Some out \<longrightarrow> txout_compr_ok out) \<and> length (c_vout c) < 2 ^ 28 \<and>
     0 \<le>s c_nHeight c \<and> 0 \<le>s c_nVersion c"
  by (auto simp: coins_ok_def live_outs_def is_avail_def list_all_length)

lemma length_Cleanup: "length (c_vout (coins_Cleanup c)) \<le> length (c_vout c)"
  using length_dropWhile_le [of txout_IsNull "rev (c_vout c)"] by (simp add: coins_Cleanup_def)

lemma Cleanup_Nil: "c_vout (coins_Cleanup c) = [] \<longleftrightarrow> live_outs (c_vout c) = (\<lambda>_. None)"
proof -
  have "c_vout (coins_Cleanup c) = [] \<longleftrightarrow> coins_IsPruned c"
    by (auto simp: coins_Cleanup_def coins_IsPruned_def list_all_iff)
  then show ?thesis by (simp add: IsPruned_live)
qed

lemma Spend_info:
  assumes "info_of c = Some i" and "i = (cb, h, v, outs)" and "outs n = Some out"
  shows "\<exists>c'. coins_Spend c n u = (True, c', undo_for i n) \<and> info_of c' = spend_info i n \<and> (coins_ok c \<longrightarrow> coins_ok c')"
proof -
  have c: "c_fCoinBase c = cb" "c_nHeight c = h" "c_nVersion c = v" "live_outs (c_vout c) = outs"
    using assms(1,2) by (simp_all add: info_of_Some)
  then have n: "n < length (c_vout c)" "\<not> txout_IsNull (c_vout c ! n)" "c_vout c ! n = out"
    using assms(3) by (auto simp: live_outs_def is_avail_def split: if_splits)
  let ?c1 = "c\<lparr>c_vout := (c_vout c)[n := txout_SetNull (c_vout c ! n)]\<rparr>"
  let ?c' = "coins_Cleanup ?c1"
  have l: "live_outs (c_vout ?c') = outs(n := None)"
    using n c by (simp add: live_outs_update)
  have "c_vout ?c' = [] \<longleftrightarrow> outs(n := None) = (\<lambda>_. None)"
    using Cleanup_Nil [of ?c1] l by simp
  then have "coins_Spend c n u = (True, ?c', undo_for i n)"
    using n c assms(2,3) by (auto simp: coins_Spend_def undo_for_def undo_of_def Let_def)
  moreover have "info_of ?c' = spend_info i n"
    using l c assms(2) by (simp add: info_of_live spend_info_def)
  moreover have "coins_ok c \<longrightarrow> coins_ok ?c'"
    using l c length_Cleanup [of ?c1] by (auto simp: coins_ok_outs)
  ultimately show ?thesis by blast
qed

text \<open>What the coins of a view satisfy.\<close>
definition info_fits :: "coin_info \<Rightarrow> bool" where
  "info_fits i \<longleftrightarrow> (case i of (cb, h, v, outs) \<Rightarrow>
     (\<forall>n out. outs n = Some out \<longrightarrow> txout_compr_ok out \<and> n + 1 < 2 ^ 28 \<and> \<not> txout_IsNull out) \<and> 0 \<le>s h \<and> 0 \<le>s v)"

lemma info_fits: "coins_ok c \<Longrightarrow> info_of c = Some i \<Longrightarrow> info_fits i"
  by (cases i) (auto simp: info_of_Some info_fits_def coins_ok_outs live_outs_def is_avail_def split: if_splits)

lemma undo_info:
  assumes i: "i = (cb, h, v, outs)" and n: "outs n = Some out" and h: "h \<noteq> 0" and fits: "info_fits i"
    and d: "info_of d = spend_info i n" "coins_ok d"
  shows "\<exists>d'. undo_coins d n (undo_for i n) f = Some (d', f) \<and> info_of d' = Some i \<and> coins_ok d'"
proof -
  have nb: "n + 1 < 2 ^ 28" and out: "txout_compr_ok out" "\<not> txout_IsNull out" and hv: "0 \<le>s h" "0 \<le>s v"
    using fits n i by (auto simp: info_fits_def)
  have size: "unat (word_of_nat n + 1 :: u32) = n + 1"
    using nb by (simp add: unat_word_ariths unat_of_nat)
  let ?pad = "\<lambda>v. if length v < n + 1 then v @ replicate (n + 1 - length v) txout_init else v"
  have pad: "n < length (?pad v)" "live_outs (?pad v) = live_outs v" "length v < 2 ^ 28 \<longrightarrow> length (?pad v) < 2 ^ 28" for v
    using nb by (auto simp: live_outs_append)
  have restored: "info_of (e\<lparr>c_vout := (?pad (c_vout e))[n := out]\<rparr>) = Some i \<and> coins_ok (e\<lparr>c_vout := (?pad (c_vout e))[n := out]\<rparr>)"
    if e: "c_fCoinBase e = cb" "c_nHeight e = h" "c_nVersion e = v" "live_outs (c_vout e) = outs(n := None)"
      "length (c_vout e) < 2 ^ 28" for e
  proof -
    have "live_outs ((?pad (c_vout e))[n := out]) = outs"
      using pad(1,2) [of "c_vout e"] e(4) out n by (auto simp: live_outs_update fun_eq_iff)
    moreover have "outs \<noteq> (\<lambda>_. None)" using n by auto
    moreover have "\<forall>n out. outs n = Some out \<longrightarrow> txout_compr_ok out" using fits i by (auto simp: info_fits_def)
    ultimately show ?thesis
      using e pad(3) [of "c_vout e"] hv i by (simp add: info_of_live coins_ok_outs)
  qed
  show ?thesis
  proof (cases "outs(n := None) = (\<lambda>_. None)")
    case True
    let ?e = "coins_init\<lparr>c_fCoinBase := cb, c_nHeight := h, c_nVersion := v\<rparr>"
    have u: "undo_for i n = undo_of out cb h v" using True n i by (simp add: undo_for_def)
    have "coins_IsPruned d" using d(1) True i by (simp add: spend_info_def info_of_None IsPruned_live)
    then have "undo_coins d n (undo_for i n) f = Some (?e\<lparr>c_vout := (?pad (c_vout ?e))[n := out]\<rparr>, f)"
      unfolding u undo_coins_def Let_def size
      using h by (simp add: undo_of_def coins_IsAvailable_def coins_init_def)
    moreover have "info_of (?e\<lparr>c_vout := (?pad (c_vout ?e))[n := out]\<rparr>) = Some i
        \<and> coins_ok (?e\<lparr>c_vout := (?pad (c_vout ?e))[n := out]\<rparr>)"
      by (rule restored) (use True in \<open>simp_all add: coins_init_def live_outs_def is_avail_def fun_eq_iff\<close>)
    ultimately show ?thesis by blast
  next
    case False
    have u: "undo_for i n = undo_of out False 0 0" using False n i by (simp add: undo_for_def)
    have e: "c_fCoinBase d = cb" "c_nHeight d = h" "c_nVersion d = v" "live_outs (c_vout d) = outs(n := None)"
      "\<not> coins_IsPruned d"
      using d(1) False i by (simp_all add: spend_info_def info_of_Some IsPruned_live)
    have "\<not> coins_IsAvailable d n"
      using fun_cong [OF e(4), of n] by (auto simp: live_outs_def is_avail_def coins_IsAvailable_def split: if_splits)
    then have "undo_coins d n (undo_for i n) f = Some (d\<lparr>c_vout := (?pad (c_vout d))[n := out]\<rparr>, f)"
      unfolding u undo_coins_def Let_def size
      using e(5) pad(1) [of "c_vout d"] by (simp add: undo_of_def split: if_splits)
    moreover have "info_of (d\<lparr>c_vout := (?pad (c_vout d))[n := out]\<rparr>) = Some i
        \<and> coins_ok (d\<lparr>c_vout := (?pad (c_vout d))[n := out]\<rparr>)"
      by (rule restored) (use e d(2) in \<open>simp_all add: coins_ok_outs\<close>)
    ultimately show ?thesis by blast
  qed
qed

section \<open>Spending and restoring the inputs of a transaction\<close>

type_synonym utxo_map = "uint256 \<Rightarrow> coin_info option"

abbreviation (input) in_hash :: "CTxIn \<Rightarrow> uint256" where "in_hash i \<equiv> op_hash (prevout i)"
abbreviation (input) in_n :: "CTxIn \<Rightarrow> nat" where "in_n i \<equiv> unat (op_n (prevout i))"

definition spend1 :: "utxo_map \<Rightarrow> CTxIn \<Rightarrow> utxo_map" where
  "spend1 U i = U(in_hash i := spend_info (the (U (in_hash i))) (in_n i))"

fun spent :: "utxo_map \<Rightarrow> CTxIn list \<Rightarrow> utxo_map" where
  "spent U [] = U"
| "spent U (i # v) = spent (spend1 U i) v"

fun undos :: "utxo_map \<Rightarrow> CTxIn list \<Rightarrow> CTxInUndo list" where
  "undos U [] = []"
| "undos U (i # v) = undo_for (the (U (in_hash i))) (in_n i) #
     undos (spend1 U i) v"

definition available :: "utxo_map \<Rightarrow> CTxIn \<Rightarrow> bool" where
  "available U i \<longleftrightarrow> length (in_hash i) = WIDTH256 \<and>
     (\<exists>cb h v outs. U (in_hash i) = Some (cb, h, v, outs) \<and> h \<noteq> 0 \<and> outs (in_n i) \<noteq> None)"

fun spendable :: "utxo_map \<Rightarrow> CTxIn list \<Rightarrow> bool" where
  "spendable U [] = True"
| "spendable U (i # v) = (available U i \<and> spendable (spend1 U i) v)"

lemma length_undos [simp]: "length (undos U v) = length v"
  by (induction v arbitrary: U) simp_all

lemma available_after:
  assumes "available U i" and "available U j" and "prevout i \<noteq> prevout j"
  shows "available (spend1 U i) j"
proof (cases "in_hash i = in_hash j")
  case True
  then have "in_n i \<noteq> in_n j" using assms(3) by (metis COutPoint.equality old.unit.exhaust word_unat_eq_iff)
  moreover obtain cb h v outs where "U (in_hash j) = Some (cb, h, v, outs)" "h \<noteq> 0" "outs (in_n j) \<noteq> None"
    "length (in_hash j) = WIDTH256"
    using assms(2) by (auto simp: available_def)
  moreover then have "outs(in_n i := None) \<noteq> (\<lambda>_. None)"
    using \<open>in_n i \<noteq> in_n j\<close> by (metis fun_upd_other)
  ultimately show ?thesis
    using True by (simp add: available_def spend_info_def spend1_def)
qed (use assms(2) in \<open>simp add: available_def spend1_def\<close>)

lemma spendable_distinct:
  "distinct (map prevout v) \<Longrightarrow> list_all (available U) v \<Longrightarrow> spendable U v"
proof (induction v arbitrary: U)
  case (Cons i v)
  have "list_all (available (spend1 U i)) v"
    using Cons.prems available_after [of U i] by (auto simp: list_all_iff)
  with Cons show ?case by simp
qed simp

context coins_view begin

lemma utxo_fits:
  assumes "cache_wf good c" and "length h = WIDTH256" and "cache_utxo utxo c h = Some i"
  shows "info_fits i"
proof -
  obtain coins where "info_of coins = Some i" "coins_ok coins"
    using ref [OF assms(1,2)] assms(3) by auto
  then show ?thesis by (rule info_fits [rotated])
qed

lemma spend_inputs_ok:
  assumes "cache_wf good c" and "spendable (cache_utxo utxo c) v"
  shows "\<exists>c'. spend_inputs V v c u = Some (c', u\<lparr>vprevout := vprevout u @ undos (cache_utxo utxo c) v\<rparr>)
    \<and> cache_wf good c' \<and> cache_utxo utxo c' = spent (cache_utxo utxo c) v"
  using assms
proof (induction v arbitrary: c u)
  case Nil
  then show ?case by simp
next
  case (Cons i v)
  let ?U = "cache_utxo utxo c" and ?h = "in_hash i" and ?n = "in_n i"
  obtain cb h ver outs where av: "length ?h = WIDTH256" "?U ?h = Some (cb, h, ver, outs)" "outs ?n \<noteq> None"
    using Cons.prems(2) by (auto simp: available_def)
  then obtain out where out: "outs ?n = Some out" by blast
  obtain coins c1 where r: "cache_GetRef V c ?h = Some (coins, c1)" "cache_wf good c1" "cache_utxo utxo c1 = ?U"
    "info_of coins = ?U ?h" "coins_ok coins"
    using ref [OF Cons.prems(1) av(1)] av(2) by auto
  obtain coins' where s: "coins_Spend coins ?n undo_init = (True, coins', undo_for (the (?U ?h)) ?n)"
    "info_of coins' = spend_info (the (?U ?h)) ?n" "coins_ok coins'"
    using Spend_info [where i = "(cb, h, ver, outs)" and outs = outs and out = out and n = ?n and c = coins and u = undo_init] r(4,5) av(2) out by auto
  let ?c2 = "cache_put c1 ?h coins'"
  have p: "cache_wf good ?c2" "cache_utxo utxo ?c2 = spend1 ?U i"
    using put [OF r(2), of ?h coins'] r(3) s(2,3) av(1) by (simp_all add: storable_def spend1_def)
  have "spendable (cache_utxo utxo ?c2) v" using Cons.prems(2) p(2) by simp
  from Cons.IH [OF p(1) this, of "u\<lparr>vprevout := vprevout u @ [undo_for (the (?U ?h)) ?n]\<rparr>"]
  show ?case using r(1) s(1) p(2) by (simp add: Let_def)
qed

lemma restore_append:
  "restore_inputs V (xs @ ys) c f = (case restore_inputs V xs c f of None \<Rightarrow> None | Some (c, f) \<Rightarrow> restore_inputs V ys c f)"
  by (induction V xs c f rule: restore_inputs.induct) (auto split: Option.bind_split)

lemma restore_inputs_ok:
  assumes "cache_wf good c" and "spendable U v" and "\<forall>h i. length h = WIDTH256 \<and> U h = Some i \<longrightarrow> info_fits i"
    and "cache_utxo utxo c = spent U v"
  shows "\<exists>c'. restore_inputs V (rev (zip v (undos U v))) c f = Some (c', f) \<and> cache_wf good c' \<and> cache_utxo utxo c' = U"
  using assms
proof (induction v arbitrary: U c)
  case Nil
  then show ?case by simp
next
  case (Cons i v)
  let ?h = "in_hash i" and ?n = "in_n i"
  obtain cb h ver outs where av: "length ?h = WIDTH256" "U ?h = Some (cb, h, ver, outs)" "h \<noteq> 0" "outs ?n \<noteq> None"
    using Cons.prems(2) by (auto simp: available_def)
  then obtain out where out: "outs ?n = Some out" by blast
  let ?i = "(cb, h, ver, outs)"
  let ?U = "spend1 U i"
  have U: "?U = U(?h := spend_info ?i ?n)" using av(2) by (simp add: spend1_def)
  have fits: "info_fits ?i" using Cons.prems(3) av by blast
  have "info_fits j" if "spend_info ?i ?n = Some j" for j
    using fits that by (auto simp: info_fits_def spend_info_def split: if_splits)
  then have "\<forall>k j. length k = WIDTH256 \<and> ?U k = Some j \<longrightarrow> info_fits j" using Cons.prems(3) by (auto simp: U)
  moreover have "spendable ?U v" "cache_utxo utxo c = spent ?U v"
    using Cons.prems(2,4) by simp_all
  ultimately obtain c1 where c1: "restore_inputs V (rev (zip v (undos ?U v))) c f = Some (c1, f)" "cache_wf good c1"
    "cache_utxo utxo c1 = ?U"
    using Cons.IH [OF Cons.prems(1), of ?U] by blast
  obtain r c2 where g: "cache_GetCoins V c1 ?h = Some (r, c2)" "cache_wf good c2" "cache_utxo utxo c2 = ?U"
    "info_opt r = spend_info ?i ?n" "\<forall>coins. r = Some coins \<longrightarrow> coins_ok coins"
    using fetch [OF c1(2) av(1)] c1(3) by (auto simp: GetCoins_fetch U)
  let ?d = "case r of Some coins \<Rightarrow> coins | None \<Rightarrow> coins_init"
  have "info_of coins_init = None" "coins_ok coins_init"
    by (simp_all add: info_of_def coins_IsPruned_def coins_init_def coins_ok_def)
  then have d: "info_of ?d = spend_info ?i ?n" "coins_ok ?d"
    using g(4,5) by (cases r; simp)+
  obtain d' where d': "undo_coins ?d ?n (undo_for ?i ?n) f = Some (d', f)" "info_of d' = Some ?i" "coins_ok d'"
    using undo_info [where i = ?i and outs = outs, OF refl out av(3) fits d] by blast
  have p: "cache_wf good (cache_put c2 ?h d')" "cache_utxo utxo (cache_put c2 ?h d') = U"
    using put [OF g(2), of ?h d'] g(3) d'(2,3) av by (auto simp: storable_def U)
  show ?case
    using av(2) c1(1) g(1) d'(1) p by (simp add: restore_append cache_SetCoins_def)
qed

end

section \<open>Connecting and disconnecting a transaction\<close>

lemma coins_eq_refl: "coins_eq c c"
proof -
  have "\<not> cash_lt v v" "\<not> cash_gt v v" for v
    by (cases "local_map v"; auto simp: cash_lt_def cash_gt_def getLocal_def cash_size_def i64_le_def)+
  then have "txout_eq out out" for out by (simp add: txout_eq_def cash_eq_def)
  then show ?thesis by (simp add: coins_eq_def list.rel_refl)
qed

lemma spent_other: "h \<notin> set (map in_hash v) \<Longrightarrow> spent U v h = U h"
  by (induction v arbitrary: U) (simp_all add: spend1_def)

definition live_input :: "utxo_map \<Rightarrow> CTxIn \<Rightarrow> bool" where
  "live_input U i \<longleftrightarrow> (\<exists>cb h v outs. U (in_hash i) = Some (cb, h, v, outs) \<and> outs (in_n i) \<noteq> None)"

lemma IsAvailable_live: "coins_IsAvailable c n \<longleftrightarrow> live_outs (c_vout c) n \<noteq> None"
  by (simp add: coins_IsAvailable_def live_outs_def is_avail_def)

lemma info_live: "(\<exists>cb h v outs. info_of c = Some (cb, h, v, outs) \<and> outs n \<noteq> None) \<longleftrightarrow> live_outs (c_vout c) n \<noteq> None"
  by (cases "live_outs (c_vout c) = (\<lambda>_. None)") (simp_all add: info_of_live)

context coins_view begin

lemma fetch_mono:
  assumes "cache_FetchCoins V c h = Some (r, c')" and "om_wf (cacheCoins c)"
    and "om_find (cacheCoins c) k = Some coins"
  shows "om_find (cacheCoins c') k = Some coins"
  using assms
  by (auto simp: cache_FetchCoins_def om_insert_new om_find_put split: option.splits Option.bind_splits prod.splits)

lemma have_hashes_ok:
  assumes "cache_wf good c" and "list_all (\<lambda>i. length (in_hash i) = WIDTH256) v" and "have_hashes V v c = Some (f, c')"
  shows "cache_wf good c' \<and> cache_utxo utxo c' = cache_utxo utxo c
    \<and> (f \<longrightarrow> (\<forall>i\<in>set v. om_find (cacheCoins c') (HK (in_hash i)) \<noteq> None))
    \<and> (\<forall>k coins. om_find (cacheCoins c) k = Some coins \<longrightarrow> om_find (cacheCoins c') k = Some coins)"
  using assms
proof (induction v arbitrary: c)
  case Nil
  then show ?case by simp
next
  case (Cons i v)
  obtain r c1 where r: "cache_FetchCoins V c (in_hash i) = Some (r, c1)" "cache_wf good c1"
    "cache_utxo utxo c1 = cache_utxo utxo c" "\<forall>coins. r = Some coins \<longrightarrow> om_find (cacheCoins c1) (HK (in_hash i)) = Some coins"
    using fetch [OF Cons.prems(1), of "in_hash i"] Cons.prems(2) by auto
  have mono: "om_find (cacheCoins c1) k = Some coins" if "om_find (cacheCoins c) k = Some coins" for k coins
    using fetch_mono [OF r(1) _ that] Cons.prems(1) by (simp add: cache_wf_def)
  show ?case
  proof (cases r)
    case None
    then show ?thesis using Cons.prems(3) r mono by (auto simp: cache_HaveCoins_def)
  next
    case (Some coins)
    then have h: "have_hashes V v c1 = Some (f, c')" using Cons.prems(3) r by (simp add: cache_HaveCoins_def)
    have "list_all (\<lambda>i. length (in_hash i) = WIDTH256) v" using Cons.prems(2) by simp
    from Cons.IH [OF r(2) this h] r Some mono show ?thesis by auto
  qed
qed

lemma have_outputs_ok:
  assumes "cache_wf good c" and "list_all (\<lambda>i. length (in_hash i) = WIDTH256) v"
    and "\<forall>i\<in>set v. om_find (cacheCoins c) (HK (in_hash i)) \<noteq> None"
  shows "have_outputs V v c = Some (list_all (live_input (cache_utxo utxo c)) v, c)"
  using assms
proof (induction v)
  case (Cons i v)
  obtain coins where f: "om_find (cacheCoins c) (HK (in_hash i)) = Some coins" using Cons.prems(3) by auto
  then have r: "cache_GetRef V c (in_hash i) = Some (coins, c)"
    by (simp add: cache_GetRef_def cache_FetchCoins_def)
  have u: "cache_utxo utxo c (in_hash i) = info_of coins" using f by (simp add: cache_utxo_def)
  have "coins_IsAvailable coins (in_n i) \<longleftrightarrow> live_input (cache_utxo utxo c) i"
    unfolding IsAvailable_live live_input_def u by (rule info_live [symmetric])
  then show ?case using Cons r by simp
qed simp

lemma HaveInputs_ok:
  assumes "cache_wf good c" and "list_all (\<lambda>i. length (in_hash i) = WIDTH256) (vin tx)"
    and "\<not> tx_IsCoinBase tx" and "tx_HaveInputs V tx c = Some (f, c')"
  shows "cache_wf good c' \<and> cache_utxo utxo c' = cache_utxo utxo c \<and> (f \<longrightarrow> list_all (live_input (cache_utxo utxo c)) (vin tx))"
proof -
  obtain g c1 where g: "have_hashes V (vin tx) c = Some (g, c1)"
    and r: "(if \<not> g then Some (False, c1) else have_outputs V (vin tx) c1) = Some (f, c')"
    using assms(3,4) by (auto simp: tx_HaveInputs_def split: Option.bind_splits)
  from have_hashes_ok [OF assms(1,2) g] have_outputs_ok [OF _ assms(2), of c1] r show ?thesis
    by (cases g) auto
qed

end

definition tx_fits :: "CTransaction \<Rightarrow> bool" where
  "tx_fits tx \<longleftrightarrow> \<not> tx_IsCoinBase tx \<and> distinct (map prevout (vin tx)) \<and>
     list_all (\<lambda>i. length (in_hash i) = WIDTH256) (vin tx)"

definition heights_set :: "utxo_map \<Rightarrow> bool" where
  "heights_set U \<longleftrightarrow> (\<forall>h cb ht v outs. U h = Some (cb, ht, v, outs) \<longrightarrow> ht \<noteq> 0)"

lemma live_available:
  "heights_set U \<Longrightarrow> length (in_hash i) = WIDTH256 \<Longrightarrow> live_input U i \<Longrightarrow> available U i"
  by (force simp: heights_set_def available_def live_input_def)

lemma live_spendable:
  assumes "tx_fits tx" and "heights_set U" and "list_all (live_input U) (vin tx)"
  shows "spendable U (vin tx)"
proof (rule spendable_distinct)
  show "distinct (map prevout (vin tx))" using assms(1) by (simp add: tx_fits_def)
  show "list_all (available U) (vin tx)"
    using assms live_available [of U] by (auto simp: tx_fits_def list_all_iff)
qed

lemma spendable_defined: "spendable U v \<Longrightarrow> U h = None \<Longrightarrow> h \<notin> set (map in_hash v)"
proof (induction v arbitrary: U)
  case (Cons i v)
  then have "in_hash i \<noteq> h" by (auto simp: available_def)
  moreover then have "spend1 U i h = None" using Cons.prems by (simp add: spend1_def)
  ultimately show ?case using Cons.IH [of "spend1 U i"] Cons.prems by auto
qed simp

text \<open>The cache and the undo data after \<open>UpdateCoins\<close>.\<close>

definition connected :: "utxo_map \<Rightarrow> CTransaction \<Rightarrow> u32 \<Rightarrow> uint256 \<Rightarrow> utxo_map" where
  "connected U tx nHeight txhash =
     (if tx_IsCoinBase tx then U else spent U (vin tx))(txhash := info_of (coins_of_tx tx nHeight))"

context coins_view begin

lemma UpdateCoins_ok:
  assumes "cache_wf good c" and "storable (HK txhash, coins_of_tx tx nHeight)"
    and "\<not> tx_IsCoinBase tx \<longrightarrow> spendable (cache_utxo utxo c) (vin tx)"
  shows "\<exists>c'. tx_UpdateCoins V tx c u nHeight txhash =
      Some (c', if tx_IsCoinBase tx then u else u\<lparr>vprevout := vprevout u @ undos (cache_utxo utxo c) (vin tx)\<rparr>)
    \<and> cache_wf good c' \<and> cache_utxo utxo c' = connected (cache_utxo utxo c) tx nHeight txhash
    \<and> om_find (cacheCoins c') (HK txhash) = Some (coins_of_tx tx nHeight)"
proof -
  have f: "om_find (cacheCoins (cache_put d txhash coins)) (HK txhash) = Some coins"
    if "cache_wf good d" for d :: "'b CCoinsViewCache" and coins
    using that by (simp add: cache_put_def cache_wf_def om_find_put)
  show ?thesis
  proof (cases "tx_IsCoinBase tx")
    case True
    then show ?thesis
      using put [OF assms(1,2)] f [OF assms(1)] by (simp add: tx_UpdateCoins_def cache_SetCoins_def connected_def)
  next
    case False
    obtain d where d: "spend_inputs V (vin tx) c u = Some (d, u\<lparr>vprevout := vprevout u @ undos (cache_utxo utxo c) (vin tx)\<rparr>)"
      "cache_wf good d" "cache_utxo utxo d = spent (cache_utxo utxo c) (vin tx)"
      using spend_inputs_ok [OF assms(1)] assms(3) False by blast
    show ?thesis
      using False d(1,3) put [OF d(2) assms(2)] f [OF d(2)]
      by (simp add: tx_UpdateCoins_def cache_SetCoins_def connected_def)
  qed
qed

text \<open>The outputs of the transaction as the view has them, and without them.\<close>

lemma remove_outputs:
  assumes "cache_wf good d" and "storable (HK txhash, coins_of_tx tx nHeight)"
  shows "\<exists>have d1 d2 outs. cache_HaveCoins V d txhash = Some (have, d1)
    \<and> (\<exists>r. (if \<not> have then cache_SetCoins d1 txhash (coins_of_tx tx nHeight) else Some (True, d1)) = Some (r, d2))
    \<and> cache_GetRef V d2 txhash = Some (outs, d2) \<and> cache_wf good (cache_put d2 txhash coins_init)
    \<and> cache_utxo utxo (cache_put d2 txhash coins_init) = (cache_utxo utxo d)(txhash := None)
    \<and> (om_find (cacheCoins d) (HK txhash) = Some (coins_of_tx tx nHeight) \<longrightarrow> outs = coins_of_tx tx nHeight)"
proof -
  have len: "length txhash = WIDTH256" using assms(2) by (simp add: storable_def)
  have init: "storable (HK txhash, coins_init)" "info_of coins_init = None"
    using len by (simp_all add: storable_def coins_ok_def coins_init_def info_of_def coins_IsPruned_def)
  obtain r d1 where r: "cache_FetchCoins V d txhash = Some (r, d1)" "cache_wf good d1" "cache_utxo utxo d1 = cache_utxo utxo d"
    "\<forall>coins. r = Some coins \<longrightarrow> om_find (cacheCoins d1) (HK txhash) = Some coins"
    using fetch [OF assms(1) len] by blast
  have g: "cache_GetRef V e txhash = Some (coins, e)" if "om_find (cacheCoins e) (HK txhash) = Some coins" for e :: "'b CCoinsViewCache" and coins
    using that by (simp add: cache_GetRef_def cache_FetchCoins_def)
  show ?thesis
  proof (cases r)
    case None
    let ?d2 = "cache_put d1 txhash (coins_of_tx tx nHeight)"
    have p: "cache_wf good ?d2" "cache_utxo utxo ?d2 = (cache_utxo utxo d)(txhash := info_of (coins_of_tx tx nHeight))"
      using put [OF r(2) assms(2)] r(3) by auto
    have "om_find (cacheCoins ?d2) (HK txhash) = Some (coins_of_tx tx nHeight)"
      using r(2) by (simp add: cache_put_def cache_wf_def om_find_put)
    then show ?thesis
      using None r(1) g [of ?d2] put [OF p(1) init(1)] p(2) init(2)
      by (auto simp: cache_HaveCoins_def cache_SetCoins_def)
  next
    case (Some coins)
    moreover have "om_find (cacheCoins d) (HK txhash) = Some k \<longrightarrow> coins = k" for k
      using r(1) Some by (auto simp: cache_FetchCoins_def)
    ultimately show ?thesis
      using r(1,3,4) g [of d1 coins] put [OF r(2) init(1)] init(2) by (auto simp: cache_HaveCoins_def)
  qed
qed

lemma disconnect_ok:
  assumes "cache_wf good d" and "storable (HK txhash, coins_of_tx tx nHeight)" and "\<not> tx_IsCoinBase tx"
    and "spendable U (vin tx)" and "\<forall>h i. length h = WIDTH256 \<and> U h = Some i \<longrightarrow> info_fits i" and "U txhash = None"
    and "cache_utxo utxo d = connected U tx nHeight txhash"
  shows "\<exists>d' f'. disconnect_tx V tx txhash nHeight (Some \<lparr>vprevout = undos U (vin tx)\<rparr>) d f = Some (d', Some f')
    \<and> cache_wf good d' \<and> cache_utxo utxo d' = U
    \<and> (om_find (cacheCoins d) (HK txhash) = Some (coins_of_tx tx nHeight) \<longrightarrow> f' = f)"
proof -
  obtain hv d1 d2 outs r where h: "cache_HaveCoins V d txhash = Some (hv, d1)"
    "(if \<not> hv then cache_SetCoins d1 txhash (coins_of_tx tx nHeight) else Some (True, d1)) = Some (r, d2)"
    "cache_GetRef V d2 txhash = Some (outs, d2)" and w: "cache_wf good (cache_put d2 txhash coins_init)"
    and u: "cache_utxo utxo (cache_put d2 txhash coins_init) = (cache_utxo utxo d)(txhash := None)"
    and o: "om_find (cacheCoins d) (HK txhash) = Some (coins_of_tx tx nHeight) \<longrightarrow> outs = coins_of_tx tx nHeight"
    using remove_outputs [OF assms(1,2)] by blast
  have "txhash \<notin> set (map in_hash (vin tx))" using spendable_defined [OF assms(4,6)] .
  then have "cache_utxo utxo (cache_put d2 txhash coins_init) = spent U (vin tx)"
    using u assms(3,6,7) spent_other [of txhash "vin tx" U] by (simp add: connected_def fun_upd_idem)
  note rest = restore_inputs_ok [OF w assms(4,5) this]
  let ?b = "coins_of_tx tx nHeight"
  let ?outs = "if c_nVersion ?b <s 0 then outs\<lparr>c_nVersion := c_nVersion ?b\<rparr> else outs"
  obtain d' where d': "restore_inputs V (rev (zip (vin tx) (undos U (vin tx)))) (cache_put d2 txhash coins_init)
      (f \<and> \<not> coins_neq ?outs ?b) = Some (d', f \<and> \<not> coins_neq ?outs ?b)" "cache_wf good d'" "cache_utxo utxo d' = U"
    using rest by blast
  have "disconnect_tx V tx txhash nHeight (Some \<lparr>vprevout = undos U (vin tx)\<rparr>) d f =
      Some (d', Some (f \<and> \<not> coins_neq ?outs ?b))"
    using h d'(1) unfolding disconnect_tx_def Let_def by simp
  moreover have "\<not> coins_neq ?outs ?b" if "outs = ?b"
    using that by (simp add: coins_neq_def coins_eq_refl)
  ultimately show ?thesis using d'(2,3) o by blast
qed

end

text \<open>C11: A transaction whose inputs are all available connects: \<open>UpdateCoins\<close> passes its assertions and leaves the
  unspent outputs without those it spends and with its own.  Disconnecting it with the undo data from that gives back exactly
  the unspent outputs from before, without reporting anything unclean; and so it does from any
  other state of the cache that holds the same outputs (after a flush, for example).  The view is any that keeps the contract; the
  transaction is not a coinbase, spends no output twice and has a fresh hash, and the outputs before it have heights other than zero,
  which is what the undo data marks the last output of a transaction with.\<close>

theorem disconnect_undoes_update:
  assumes "coins_view V utxo good" and "cache_wf good c" and "tx_fits tx" and "heights_set (cache_utxo utxo c)"
    and "cache_utxo utxo c txhash = None" and "storable (HK txhash, coins_of_tx tx nHeight)"
    and "tx_HaveInputs V tx c = Some (True, c1)"
  shows "\<exists>c2 undo. tx_UpdateCoins V tx c1 \<lparr>vprevout = []\<rparr> nHeight txhash = Some (c2, undo)
    \<and> cache_utxo utxo c2 = (spent (cache_utxo utxo c) (vin tx))(txhash := info_of (coins_of_tx tx nHeight))
    \<and> (\<exists>c3. disconnect_tx V tx txhash nHeight (Some undo) c2 True = Some (c3, Some True) \<and> cache_utxo utxo c3 = cache_utxo utxo c)
    \<and> (\<forall>d f. cache_wf good d \<and> cache_utxo utxo d = cache_utxo utxo c2 \<longrightarrow>
         (\<exists>d' f'. disconnect_tx V tx txhash nHeight (Some undo) d f = Some (d', Some f') \<and> cache_utxo utxo d' = cache_utxo utxo c))"
proof -
  note cv = assms(1)
  let ?U = "cache_utxo utxo c"
  have cb: "\<not> tx_IsCoinBase tx" and l: "list_all (\<lambda>i. length (in_hash i) = WIDTH256) (vin tx)"
    using assms(3) by (simp_all add: tx_fits_def)
  have h: "cache_wf good c1" "cache_utxo utxo c1 = ?U" "list_all (live_input ?U) (vin tx)"
    using coins_view.HaveInputs_ok [OF cv assms(2) l cb assms(7)] by auto
  have sp: "spendable ?U (vin tx)" using assms(3,4) h(3) by (rule live_spendable)
  have fits: "\<forall>h i. length h = WIDTH256 \<and> ?U h = Some i \<longrightarrow> info_fits i"
    using coins_view.utxo_fits [OF cv assms(2)] by blast
  let ?u = "\<lparr>vprevout = undos ?U (vin tx)\<rparr>"
  obtain c2 where c2: "tx_UpdateCoins V tx c1 \<lparr>vprevout = []\<rparr> nHeight txhash = Some (c2, ?u)" "cache_wf good c2"
    "cache_utxo utxo c2 = connected ?U tx nHeight txhash" "om_find (cacheCoins c2) (HK txhash) = Some (coins_of_tx tx nHeight)"
    using coins_view.UpdateCoins_ok [OF cv h(1) assms(6), of "\<lparr>vprevout = []\<rparr>"] sp cb h(2) by auto
  note undo = coins_view.disconnect_ok [OF cv _ assms(6) cb sp fits assms(5)]
  show ?thesis
  proof (rule exI [of _ c2], rule exI [of _ ?u], intro conjI)
    show "tx_UpdateCoins V tx c1 \<lparr>vprevout = []\<rparr> nHeight txhash = Some (c2, ?u)" by (rule c2(1))
    show "cache_utxo utxo c2 = (spent ?U (vin tx))(txhash := info_of (coins_of_tx tx nHeight))"
      using c2(3) cb by (simp add: connected_def)
    show "\<exists>c3. disconnect_tx V tx txhash nHeight (Some ?u) c2 True = Some (c3, Some True) \<and> cache_utxo utxo c3 = ?U"
      using undo [OF c2(2,3), of True] c2(4) by auto
    show "\<forall>d f. cache_wf good d \<and> cache_utxo utxo d = cache_utxo utxo c2 \<longrightarrow>
         (\<exists>d' f'. disconnect_tx V tx txhash nHeight (Some ?u) d f = Some (d', Some f') \<and> cache_utxo utxo d' = ?U)"
      using undo c2(3) by metis
  qed
qed

text \<open>A transaction that spends the only output of another.\<close>

abbreviation (input) spend_example :: CTransaction where
  "spend_example \<equiv> \<lparr>nVersion = 1, vin = [\<lparr>prevout = \<lparr>op_hash = replicate 8 1, op_n = 1\<rparr>, scriptSig = [], nSequence = 0\<rparr>],
     vout = [\<lparr>nValue = \<lparr>local_map = [(''TET'', 7)], fixed = 0\<rparr>, scriptPubKey = [OP_TRUE]\<rparr>], nLockTime = 0, Attachments = []\<rparr>"

abbreviation (input) spend_cache :: "unit CCoinsViewCache" where
  "spend_cache \<equiv> (cache_init ())\<lparr>cacheCoins := [(HK (replicate 8 1), example_coins)]\<rparr>"

theorem disconnect_undoes_update_witness:
  "\<exists>c2 undo. tx_UpdateCoins null_view spend_example spend_cache \<lparr>vprevout = []\<rparr> 6 (replicate 8 2) = Some (c2, undo)
    \<and> cache_utxo (\<lambda>_ _. None) c2 (replicate 8 1) = None
    \<and> (\<exists>c3. disconnect_tx null_view spend_example (replicate 8 2) 6 (Some undo) c2 True = Some (c3, Some True)
        \<and> cache_utxo (\<lambda>_ _. None) c3 = cache_utxo (\<lambda>_ _. None) spend_cache)"
proof -
  let ?h = "replicate 8 1 :: uint256"
  have s: "storable (HK ?h, example_coins)" using example_coins_ok by (simp add: storable_def)
  have wf: "cache_wf (\<lambda>_. True) spend_cache" using s by (simp add: cache_wf_def cache_init_def)
  have out: "storable (HK (replicate 8 2), coins_of_tx spend_example 6)"
    by (simp add: storable_def coins_ok_def coins_of_tx_def txout_compr_ok_def cash_ok_def cash_wf_def script_fits_def word_sle_eq)
  have u: "cache_utxo (\<lambda>_ _. None) spend_cache = (\<lambda>_. None)(?h := info_of example_coins)"
    by (rule ext) (simp add: cache_utxo_def cache_init_def)
  have i: "info_of example_coins = Some (True, 5, 1, live_outs (c_vout example_coins))"
    by (simp add: info_of_def coins_IsPruned_def example_coins_def txout_IsNull_def cash_size_def)
  have fits: "tx_fits spend_example" by (simp add: tx_fits_def tx_IsCoinBase_def op_IsNull_def)
  have have_in: "tx_HaveInputs null_view spend_example spend_cache = Some (True, spend_cache)"
    by (simp add: tx_HaveInputs_def tx_IsCoinBase_def op_IsNull_def cache_HaveCoins_def cache_GetRef_def
        cache_FetchCoins_def coins_IsAvailable_def example_coins_def txout_IsNull_def cash_size_def)
  have gone: "spent ((\<lambda>_. None)(?h := info_of example_coins)) (vin spend_example) ?h = None"
    unfolding i by (simp add: spend1_def spend_info_def) (auto simp: live_outs_def is_avail_def example_coins_def fun_eq_iff less_Suc_eq intro!: gr0I)
  have "heights_set (cache_utxo (\<lambda>_ _. None) spend_cache)" unfolding u i by (auto simp: heights_set_def)
  from disconnect_undoes_update [OF null_view.coins_view_axioms wf fits this _ out have_in]
  show ?thesis using gone unfolding u by auto
qed

end
