(* ===== verification/Merkle.thy ===== *)
theory Merkle
  imports Transaction
begin

text \<open>
  Merkle trees (\<open>CBlock\<close> in \<open>main.h\<close>): building the tree into one vector, the branch of a transaction and its
  check, and partial trees (\<open>CPartialMerkleTree\<close> in \<open>main.h\<close> and \<open>main.cpp\<close>), against the levels of the tree
  as lists.
\<close>

section \<open>The tree of a block\<close>

text \<open>\<open>Hash(BEGIN(a), END(a), BEGIN(b), END(b))\<close>.\<close>
definition merkle_node :: "('k, 'x) crypto_scheme \<Rightarrow> uint256 \<Rightarrow> uint256 \<Rightarrow> uint256" where
  "merkle_node C a b = Hash2 C (bu_bytes a) (bu_bytes b)"

text \<open>The inner loop, at \<open>i\<close>, and the loop over the levels.\<close>

function merkle_row :: "('k, 'x) crypto_scheme \<Rightarrow> nat \<Rightarrow> nat \<Rightarrow> nat \<Rightarrow> uint256 list \<Rightarrow> uint256 list" where
  "merkle_row C j nSize i vMerkleTree =
     (if i < nSize then
        (let i2 = min (i + 1) (nSize - 1)
         in merkle_row C j nSize (i + 2)
              (vMerkleTree @ [merkle_node C (vMerkleTree ! (j + i)) (vMerkleTree ! (j + i2))]))
      else vMerkleTree)"
  by pat_completeness auto
termination by (relation "measure (\<lambda>(C, j, nSize, i, t). nSize - i)") auto

function merkle_loop :: "('k, 'x) crypto_scheme \<Rightarrow> nat \<Rightarrow> nat \<Rightarrow> uint256 list \<Rightarrow> uint256 list" where
  "merkle_loop C j nSize vMerkleTree =
     (if nSize > 1 then merkle_loop C (j + nSize) ((nSize + 1) div 2) (merkle_row C j nSize 0 vMerkleTree)
      else vMerkleTree)"
  by pat_completeness auto
termination by (relation "measure (\<lambda>(C, j, nSize, t). nSize)") auto

declare merkle_row.simps [simp del] merkle_loop.simps [simp del]

definition merkle_tree :: "('k, 'x) crypto_scheme \<Rightarrow> CTransaction list \<Rightarrow> uint256 list" where
  "merkle_tree C vtx = merkle_loop C 0 (length vtx) (map (tx_GetHash C) vtx)"

text \<open>The root and the vector that is kept in the block.\<close>
definition BuildMerkleTree :: "('k, 'x) crypto_scheme \<Rightarrow> CTransaction list \<Rightarrow> uint256 \<times> uint256 list" where
  "BuildMerkleTree C vtx =
     (let vMerkleTree = merkle_tree C vtx
      in (if vMerkleTree = [] then bu_of64 WIDTH256 0 else last vMerkleTree, vMerkleTree))"

text \<open>\<open>None\<close>: one of the two assertions fails.\<close>
definition blk_GetTxHash :: "uint256 list \<Rightarrow> CTransaction list \<Rightarrow> nat \<Rightarrow> uint256 option" where
  "blk_GetTxHash vMerkleTree vtx nIndex =
     (if length vMerkleTree > 0 \<and> nIndex < length vtx then Some (vMerkleTree ! nIndex) else None)"

section \<open>Branches\<close>

text \<open>\<open>None\<close>: a read outside the vector.\<close>
function branch_loop :: "uint256 list \<Rightarrow> nat \<Rightarrow> nat \<Rightarrow> int \<Rightarrow> uint256 list \<Rightarrow> uint256 list option" where
  "branch_loop vMerkleTree j nSize nIndex vMerkleBranch =
     (if nSize > 1 then
        (let i = min (nIndex XOR 1) (int nSize - 1); p = int j + i
         in if p < 0 \<or> int (length vMerkleTree) \<le> p then None
            else branch_loop vMerkleTree (j + nSize) ((nSize + 1) div 2) (drop_bit 1 nIndex)
                   (vMerkleBranch @ [vMerkleTree ! nat p]))
      else Some vMerkleBranch)"
  by pat_completeness auto
termination by (relation "measure (\<lambda>(t, j, nSize, n, b). nSize)") auto

declare branch_loop.simps [simp del]

text \<open>The branch and the vector, which is built when it is empty.\<close>
definition GetMerkleBranch ::
  "('k, 'x) crypto_scheme \<Rightarrow> CTransaction list \<Rightarrow> uint256 list \<Rightarrow> int \<Rightarrow> uint256 list option" where
  "GetMerkleBranch C vtx vMerkleTree nIndex =
     (let vMerkleTree = (if vMerkleTree = [] then snd (BuildMerkleTree C vtx) else vMerkleTree)
      in branch_loop vMerkleTree 0 (length vtx) nIndex [])"

fun check_branch :: "('k, 'x) crypto_scheme \<Rightarrow> uint256 \<Rightarrow> uint256 list \<Rightarrow> int \<Rightarrow> uint256" where
  "check_branch C hash [] nIndex = hash"
| "check_branch C hash (otherside # vMerkleBranch) nIndex =
     check_branch C (if nIndex AND 1 \<noteq> 0 then merkle_node C otherside hash else merkle_node C hash otherside)
       vMerkleBranch (drop_bit 1 nIndex)"

definition CheckMerkleBranch :: "('k, 'x) crypto_scheme \<Rightarrow> uint256 \<Rightarrow> uint256 list \<Rightarrow> int \<Rightarrow> uint256" where
  "CheckMerkleBranch C hash vMerkleBranch nIndex =
     (if nIndex = -1 then bu_of64 WIDTH256 0 else check_branch C hash vMerkleBranch nIndex)"

section \<open>The levels of the tree\<close>

fun pair_up :: "('k, 'x) crypto_scheme \<Rightarrow> uint256 list \<Rightarrow> uint256 list" where
  "pair_up C [] = []"
| "pair_up C [a] = [merkle_node C a a]"
| "pair_up C (a # b # l) = merkle_node C a b # pair_up C l"

lemma length_pair_up [termination_simp, simp]: "length (pair_up C l) = (length l + 1) div 2"
  by (induction C l rule: pair_up.induct) auto

lemma nth_pair_up:
  "k < (length l + 1) div 2 \<Longrightarrow> pair_up C l ! k = merkle_node C (l ! (2 * k)) (l ! min (2 * k + 1) (length l - 1))"
proof (induction C l arbitrary: k rule: pair_up.induct)
  case (3 C a b l)
  then show ?case by (cases k) (auto simp: min_def nth_Cons')
qed auto

function merkle_levels :: "('k, 'x) crypto_scheme \<Rightarrow> uint256 list \<Rightarrow> uint256 list list" where
  "merkle_levels C l = (if length l > 1 then l # merkle_levels C (pair_up C l) else [l])"
  by pat_completeness auto
termination by (relation "measure (\<lambda>(C, l). length l)") auto

declare merkle_levels.simps [simp del]

function merkle_root :: "('k, 'x) crypto_scheme \<Rightarrow> uint256 list \<Rightarrow> uint256" where
  "merkle_root C l = (if length l > 1 then merkle_root C (pair_up C l) else hd l)"
  by pat_completeness auto
termination by (relation "measure (\<lambda>(C, l). length l)") auto

declare merkle_root.simps [simp del]

lemma merkle_row_eq:
  "j + n \<le> length t \<Longrightarrow> even i \<Longrightarrow> merkle_row C j n i t = t @ pair_up C (drop i (take n (drop j t)))"
proof (induction C j n i t rule: merkle_row.induct)
  case (1 C j n i t)
  show ?case
  proof (cases "i < n")
    case False
    then show ?thesis by (subst merkle_row.simps) simp
  next
    case True
    define l where "l = take n (drop j t)"
    have l: "length l = n" "\<And>k. k < n \<Longrightarrow> t ! (j + k) = l ! k" using 1(2) by (simp_all add: l_def)
    let ?x = "merkle_node C (t ! (j + i)) (t ! (j + min (i + 1) (n - 1)))"
    have x: "?x = merkle_node C (l ! i) (l ! min (i + 1) (n - 1))" using True l by simp
    have "merkle_row C j n (i + 2) (t @ [?x]) = (t @ [?x]) @ pair_up C (drop (i + 2) l)"
      using 1(1) [OF True refl] 1(2,3) by (simp add: l_def)
    moreover have "pair_up C (drop i l) = ?x # pair_up C (drop (i + 2) l)"
    proof (cases "i + 1 < n")
      case True
      then have "drop i l = l ! i # l ! (i + 1) # drop (i + 2) l"
        using l(1) by (simp add: Cons_nth_drop_Suc)
      then show ?thesis using True x by simp
    next
      case False
      then have "drop i l = [l ! i]" "n - 1 = i" using l(1) \<open>i < n\<close> by (simp_all add: Cons_nth_drop_Suc [symmetric])
      then show ?thesis using False x l(1) by simp
    qed
    ultimately show ?thesis using True l_def by (subst merkle_row.simps) (simp add: Let_def)
  qed
qed

lemma merkle_loop_eq:
  "merkle_loop C (length pre) (length l) (pre @ l) = pre @ concat (merkle_levels C l)"
proof (induction C l arbitrary: pre rule: merkle_levels.induct)
  case (1 C l)
  show ?case
  proof (cases "length l > 1")
    case True
    have "merkle_row C (length pre) (length l) 0 (pre @ l) = (pre @ l) @ pair_up C l"
      by (simp add: merkle_row_eq)
    then show ?thesis
      using True 1 [OF True, of "pre @ l"]
      by (subst merkle_loop.simps, subst merkle_levels.simps) simp
  next
    case False
    then show ?thesis by (subst merkle_loop.simps, subst merkle_levels.simps) simp
  qed
qed

lemma merkle_tree_eq: "merkle_tree C vtx = concat (merkle_levels C (map (tx_GetHash C) vtx))"
  using merkle_loop_eq [of C "[]" "map (tx_GetHash C) vtx"] by (simp add: merkle_tree_def)

lemma levels_not_Nil: "l \<noteq> [] \<Longrightarrow> merkle_levels C l \<noteq> [] \<and> last (merkle_levels C l) \<noteq> []"
proof (induction C l rule: merkle_levels.induct)
  case (1 C l)
  then show ?case by (subst (1 2) merkle_levels.simps) (auto simp flip: length_greater_0_conv)
qed

lemma last_levels: "l \<noteq> [] \<Longrightarrow> last (concat (merkle_levels C l)) = merkle_root C l"
proof (induction C l rule: merkle_levels.induct)
  case (1 C l)
  show ?case
  proof (cases "length l > 1")
    case True
    then have "pair_up C l \<noteq> []" by (simp flip: length_greater_0_conv)
    then have "concat (merkle_levels C (pair_up C l)) \<noteq> []"
      using levels_not_Nil [of "pair_up C l" C] last_in_set [of "merkle_levels C (pair_up C l)"] by auto
    then show ?thesis
      using True 1(1) [OF True \<open>pair_up C l \<noteq> []\<close>]
      by (subst merkle_levels.simps, subst merkle_root.simps) simp
  next
    case False
    then show ?thesis
      using 1(2) by (cases l) (simp_all add: merkle_levels.simps merkle_root.simps)
  qed
qed

lemma BuildMerkleTree_root:
  "vtx \<noteq> [] \<Longrightarrow> fst (BuildMerkleTree C vtx) = merkle_root C (map (tx_GetHash C) vtx)"
  using last_levels [of "map (tx_GetHash C) vtx" C] levels_not_Nil [of "map (tx_GetHash C) vtx" C]
    last_in_set [of "merkle_levels C (map (tx_GetHash C) vtx)"]
  by (auto simp: BuildMerkleTree_def Let_def merkle_tree_eq)

section \<open>Branches are checked as they are built\<close>

text \<open>The siblings on the way from a position to the root, and the hashes at those positions.\<close>

function siblings :: "('k, 'x) crypto_scheme \<Rightarrow> uint256 list \<Rightarrow> nat \<Rightarrow> uint256 list" where
  "siblings C l n =
     (if length l > 1
      then l ! (if even n then min (n + 1) (length l - 1) else n - 1) # siblings C (pair_up C l) (n div 2)
      else [])"
  by pat_completeness auto
termination by (relation "measure (\<lambda>(C, l, n). length l)") auto

declare siblings.simps [simp del]

lemma xor_one: "int n XOR 1 = (if even n then int n + 1 else int n - 1)"
proof (cases "even n")
  case True
  then have "int n XOR 1 = int n OR 1" by (auto simp: bit_eq_iff bit_simps)
  then show ?thesis using True by (simp add: or_one_eq)
next
  case False
  then have "int n XOR 1 = int n - 1"
    by (simp add: xor_one_eq)
  then show ?thesis using False by simp
qed

lemma sibling_position:
  "n < m \<Longrightarrow> min (int n XOR 1) (int m - 1) = int (if even n then min (n + 1) (m - 1) else n - 1)"
  by (auto simp: xor_one min_def elim: oddE)

lemma branch_loop_eq:
  "n < length l \<Longrightarrow>
   branch_loop (pre @ concat (merkle_levels C l)) (length pre) (length l) (int n) acc = Some (acc @ siblings C l n)"
proof (induction C l arbitrary: pre n acc rule: merkle_levels.induct)
  case (1 C l)
  show ?case
  proof (cases "length l > 1")
    case True
    obtain s where s: "s = (if even n then min (n + 1) (length l - 1) else n - 1)" by blast
    let ?p = "int (length pre) + min (int n XOR 1) (int (length l) - 1)"
    let ?t = "pre @ concat (merkle_levels C l)"
    have t: "?t = (pre @ l) @ concat (merkle_levels C (pair_up C l))"
      using True by (subst merkle_levels.simps) simp
    have sl: "s < length l" using True 1(2) unfolding s by auto
    have p: "?p = int (length pre + s)" unfolding sibling_position [OF 1(2)] s by simp
    have "nat ?p = length pre + s" unfolding p by (rule nat_int)
    then have "\<not> (?p < 0 \<or> int (length ?t) \<le> ?p)" "?t ! nat ?p = l ! s"
      using sl unfolding t by (simp_all add: nth_append p)
    moreover have "drop_bit 1 (int n) = int (n div 2)" by (simp add: drop_bit_eq_div zdiv_int)
    moreover have "n div 2 < length (pair_up C l)" using 1(2) by simp
    note ih = 1(1) [OF True this, of "pre @ l" "acc @ [l ! s]"]
    ultimately show ?thesis
      using True ih unfolding t
      by (subst branch_loop.simps, subst siblings.simps) (simp add: Let_def s)
  next
    case False
    then show ?thesis by (subst branch_loop.simps, subst siblings.simps) simp
  qed
qed

lemma node_above:
  assumes "n < length l"
  shows "pair_up C l ! (n div 2) =
     (let s = l ! (if even n then min (n + 1) (length l - 1) else n - 1)
      in if odd n then merkle_node C s (l ! n) else merkle_node C (l ! n) s)"
proof -
  have "n div 2 < (length l + 1) div 2" using assms by linarith
  note nth_pair_up [OF this, of C]
  moreover have "min (2 * (n div 2) + 1) (length l - 1) = n" if "odd n"
    using assms that by (simp add: odd_two_times_div_two_succ)
  ultimately show ?thesis using assms by (auto simp: Let_def odd_two_times_div_two_succ)
qed

lemma and_one: "(int n AND 1 \<noteq> 0) = odd n"
  by (simp add: and_one_eq mod2_eq_if)

lemma check_siblings:
  "n < length l \<Longrightarrow> check_branch C (l ! n) (siblings C l n) (int n) = merkle_root C l"
proof (induction C l n rule: siblings.induct)
  case (1 C l n)
  show ?case
  proof (cases "length l > 1")
    case True
    have "n div 2 < length (pair_up C l)" using 1(2) by simp
    from 1(1) [OF True this] show ?thesis
      using True node_above [OF 1(2), of C]
      by (subst siblings.simps, subst merkle_root.simps) (simp add: and_one drop_bit_eq_div zdiv_int Let_def)
  next
    case False
    then show ?thesis
      using 1(2) by (subst siblings.simps, subst merkle_root.simps) (cases l; simp)
  qed
qed

section \<open>Branches that lead to the root\<close>

text \<open>The pairs that the tree hashes and those a check hashes.\<close>

function tree_pairs :: "('k, 'x) crypto_scheme \<Rightarrow> uint256 list \<Rightarrow> (uint256 \<times> uint256) list" where
  "tree_pairs C l =
     (if length l > 1
      then map (\<lambda>k. (l ! (2 * k), l ! min (2 * k + 1) (length l - 1))) [0..<(length l + 1) div 2] @ tree_pairs C (pair_up C l)
      else [])"
  by pat_completeness auto
termination by (relation "measure (\<lambda>(C, l). length l)") auto

declare tree_pairs.simps [simp del]

fun check_pairs :: "('k, 'x) crypto_scheme \<Rightarrow> uint256 \<Rightarrow> uint256 list \<Rightarrow> int \<Rightarrow> (uint256 \<times> uint256) list" where
  "check_pairs C h [] n = []"
| "check_pairs C h (s # b) n =
     (let p = if n AND 1 \<noteq> 0 then (s, h) else (h, s)
      in p # check_pairs C (merkle_node C (fst p) (snd p)) b (drop_bit 1 n))"

text \<open>Two different pairs with one hash, one from each list.\<close>
definition collision_between ::
  "('k, 'x) crypto_scheme \<Rightarrow> (uint256 \<times> uint256) list \<Rightarrow> (uint256 \<times> uint256) list \<Rightarrow> bool" where
  "collision_between C ps qs \<longleftrightarrow>
     list_ex (\<lambda>p. list_ex (\<lambda>q. p \<noteq> q \<and> merkle_node C (fst p) (snd p) = merkle_node C (fst q) (snd q)) qs) ps"

lemma collision_mono:
  "collision_between C ps qs \<Longrightarrow> set ps \<subseteq> set ps' \<Longrightarrow> set qs \<subseteq> set qs' \<Longrightarrow> collision_between C ps' qs'"
  unfolding collision_between_def list_ex_iff by (meson subsetD)

lemma collisionI:
  "p \<in> set ps \<Longrightarrow> q \<in> set qs \<Longrightarrow> p \<noteq> q \<Longrightarrow> merkle_node C (fst p) (snd p) = merkle_node C (fst q) (snd q) \<Longrightarrow>
   collision_between C ps qs"
  by (auto simp: collision_between_def list_ex_iff)

lemma pair_in_tree:
  "length l > 1 \<Longrightarrow> k < (length l + 1) div 2 \<Longrightarrow> (l ! (2 * k), l ! min (2 * k + 1) (length l - 1)) \<in> set (tree_pairs C l)"
  by (subst tree_pairs.simps) auto

lemma tree_pairs_above: "length l > 1 \<Longrightarrow> set (tree_pairs C (pair_up C l)) \<subseteq> set (tree_pairs C l)"
  by (subst (2) tree_pairs.simps) auto

lemma check_sound:
  assumes "n < length l" and "length b = length (siblings C l n)" and "check_branch C h b (int n) = merkle_root C l"
  shows "h = l ! n \<or> collision_between C (check_pairs C h b (int n)) (tree_pairs C l)"
  using assms
proof (induction C l n arbitrary: h b rule: siblings.induct)
  case (1 C l n)
  show ?case
  proof (cases "length l > 1")
    case False
    then have "b = []" using 1(3) by (subst (asm) siblings.simps) simp
    then show ?thesis using False 1(2,4) by (subst (asm) merkle_root.simps) (cases l; simp)
  next
    case True
    define s where "s = l ! (if even n then min (n + 1) (length l - 1) else n - 1)"
    obtain o' b' where b: "b = o' # b'" "length b' = length (siblings C (pair_up C l) (n div 2))"
      using 1(3) True by (subst (asm) siblings.simps) (cases b; simp)
    define p where "p = (if odd n then (o', h) else (h, o'))"
    define q where "q = (if odd n then (s, l ! n) else (l ! n, s))"
    define h' where "h' = merkle_node C (fst p) (snd p)"
    have pairs: "check_pairs C h b (int n) = p # check_pairs C h' b' (int (n div 2))"
      unfolding b p_def h'_def by (simp add: and_one drop_bit_eq_div zdiv_int Let_def)
    have "check_branch C h' b' (int (n div 2)) = merkle_root C (pair_up C l)"
      using 1(4) True unfolding b p_def h'_def
      by (subst (asm) merkle_root.simps) (simp add: and_one drop_bit_eq_div zdiv_int split: if_splits)
    moreover have k: "n div 2 < length (pair_up C l)" using 1(2) by simp
    ultimately have ih: "h' = pair_up C l ! (n div 2) \<or>
        collision_between C (check_pairs C h' b' (int (n div 2))) (tree_pairs C (pair_up C l))"
      using 1(1) [OF True k b(2)] by blast
    have "q = (l ! (2 * (n div 2)), l ! min (2 * (n div 2) + 1) (length l - 1))"
      using 1(2) by (auto simp: q_def s_def odd_two_times_div_two_succ)
    then have q: "q \<in> set (tree_pairs C l)" using pair_in_tree [OF True, of "n div 2" C] k by simp
    have above: "pair_up C l ! (n div 2) = merkle_node C (fst q) (snd q)"
      unfolding node_above [OF 1(2)] by (simp add: Let_def q_def s_def)
    show ?thesis
    proof (cases "h' = pair_up C l ! (n div 2)")
      case False
      then have "collision_between C (check_pairs C h' b' (int (n div 2))) (tree_pairs C (pair_up C l))" using ih by blast
      then have "collision_between C (check_pairs C h b (int n)) (tree_pairs C l)"
        by (rule collision_mono) (use tree_pairs_above [OF True] in \<open>auto simp: pairs\<close>)
      then show ?thesis ..
    next
      case same: True
      show ?thesis
      proof (cases "p = q")
        case True
        then show ?thesis by (auto simp: p_def q_def split: if_splits)
      next
        case False
        have "collision_between C (check_pairs C h b (int n)) (tree_pairs C l)"
          using False same above q by (intro collisionI [of p _ q]) (simp_all add: pairs h'_def)
        then show ?thesis ..
      qed
    qed
  qed
qed

section \<open>Partial trees\<close>

text \<open>\<open>vBits\<close> and \<open>vHash\<close> are vectors; positions stay below the width of their level, so they are natural numbers.\<close>

record CPartialMerkleTree =
  nTransactions :: u32
  vBits :: "bool list"
  vHash :: "uint256 list"
  fBad :: bool

definition CalcTreeWidth :: "u32 \<Rightarrow> nat \<Rightarrow> u32" where
  "CalcTreeWidth n height = drop_bit height (n + push_bit height 1 - 1)"

fun CalcHash :: "('k, 'x) crypto_scheme \<Rightarrow> u32 \<Rightarrow> nat \<Rightarrow> nat \<Rightarrow> uint256 list \<Rightarrow> uint256" where
  "CalcHash C n 0 pos vTxid = vTxid ! pos"
| "CalcHash C n (Suc height) pos vTxid =
     (let left = CalcHash C n height (pos * 2) vTxid;
          right = (if pos * 2 + 1 < unat (CalcTreeWidth n height) then CalcHash C n height (pos * 2 + 1) vTxid else left)
      in merkle_node C left right)"

definition parent_of_match :: "u32 \<Rightarrow> nat \<Rightarrow> nat \<Rightarrow> bool list \<Rightarrow> bool" where
  "parent_of_match n height pos vMatch =
     list_ex (\<lambda>p. vMatch ! p) [push_bit height pos..<min (push_bit height (pos + 1)) (unat n)]"

fun TraverseAndBuild ::
  "('k, 'x) crypto_scheme \<Rightarrow> nat \<Rightarrow> nat \<Rightarrow> uint256 list \<Rightarrow> bool list \<Rightarrow> CPartialMerkleTree \<Rightarrow> CPartialMerkleTree" where
  "TraverseAndBuild C 0 pos vTxid vMatch t =
     t\<lparr>vBits := vBits t @ [parent_of_match (nTransactions t) 0 pos vMatch],
       vHash := vHash t @ [CalcHash C (nTransactions t) 0 pos vTxid]\<rparr>"
| "TraverseAndBuild C (Suc height) pos vTxid vMatch t =
     (let fParentOfMatch = parent_of_match (nTransactions t) (Suc height) pos vMatch;
          t = t\<lparr>vBits := vBits t @ [fParentOfMatch]\<rparr>
      in if \<not> fParentOfMatch then t\<lparr>vHash := vHash t @ [CalcHash C (nTransactions t) (Suc height) pos vTxid]\<rparr>
         else
           let t = TraverseAndBuild C height (pos * 2) vTxid vMatch t
           in if pos * 2 + 1 < unat (CalcTreeWidth (nTransactions t) height)
              then TraverseAndBuild C height (pos * 2 + 1) vTxid vMatch t else t)"

text \<open>What a traversal updates: the counters, the matches and the flag for invalid data.\<close>

record extract_state =
  nBitsUsed :: nat
  nHashUsed :: nat
  xMatch :: "uint256 list"
  xBad :: bool

fun TraverseAndExtract ::
  "('k, 'x) crypto_scheme \<Rightarrow> CPartialMerkleTree \<Rightarrow> nat \<Rightarrow> nat \<Rightarrow> extract_state \<Rightarrow> uint256 \<times> extract_state" where
  "TraverseAndExtract C t 0 pos st =
     (if nBitsUsed st \<ge> length (vBits t) then (bu_of64 WIDTH256 0, st\<lparr>xBad := True\<rparr>)
      else
        let fParentOfMatch = vBits t ! nBitsUsed st;
            st = st\<lparr>nBitsUsed := nBitsUsed st + 1\<rparr>
        in if nHashUsed st \<ge> length (vHash t) then (bu_of64 WIDTH256 0, st\<lparr>xBad := True\<rparr>)
           else
             let hash = vHash t ! nHashUsed st;
                 st = st\<lparr>nHashUsed := nHashUsed st + 1\<rparr>
             in (hash, if fParentOfMatch then st\<lparr>xMatch := xMatch st @ [hash]\<rparr> else st))"
| "TraverseAndExtract C t (Suc height) pos st =
     (if nBitsUsed st \<ge> length (vBits t) then (bu_of64 WIDTH256 0, st\<lparr>xBad := True\<rparr>)
      else
        let fParentOfMatch = vBits t ! nBitsUsed st;
            st = st\<lparr>nBitsUsed := nBitsUsed st + 1\<rparr>
        in if \<not> fParentOfMatch then
             (if nHashUsed st \<ge> length (vHash t) then (bu_of64 WIDTH256 0, st\<lparr>xBad := True\<rparr>)
              else (vHash t ! nHashUsed st, st\<lparr>nHashUsed := nHashUsed st + 1\<rparr>))
           else
             (case TraverseAndExtract C t height (pos * 2) st of (left, st) \<Rightarrow>
                case (if pos * 2 + 1 < unat (CalcTreeWidth (nTransactions t) height)
                      then TraverseAndExtract C t height (pos * 2 + 1) st else (left, st)) of (right, st) \<Rightarrow>
                  (merkle_node C left right, st)))"

text \<open>The height of the tree; a level of 31 or more has at most one node.\<close>

lemma width_31: "31 \<le> h \<Longrightarrow> CalcTreeWidth n h \<le> 1"
proof -
  assume h: "31 \<le> h"
  have "unat (CalcTreeWidth n h) = unat (n + push_bit h 1 - 1) div 2 ^ h"
    by (simp only: CalcTreeWidth_def unat_drop_bit_eq) (simp only: drop_bit_eq_div)
  also have "\<dots> \<le> unat (n + push_bit h 1 - 1) div 2 ^ 31"
    using h by (intro div_le_mono2 power_increasing) auto
  also have "\<dots> < 2"
    using unsigned_less [of "n + push_bit h 1 - 1"] by (simp add: less_mult_imp_div_less)
  finally show ?thesis by (simp add: word_le_nat_alt)
qed

function tree_height :: "u32 \<Rightarrow> nat \<Rightarrow> nat" where
  "tree_height n nHeight = (if CalcTreeWidth n nHeight > 1 then tree_height n (nHeight + 1) else nHeight)"
  by pat_completeness auto
termination
proof (relation "measure (\<lambda>(n, h). 31 - h)")
  fix n nHeight assume "CalcTreeWidth n nHeight > 1"
  then have "nHeight < 31" using width_31 [of nHeight n] by (meson leD leI)
  then show "((n, nHeight + 1), n, nHeight) \<in> measure (\<lambda>(n, h). 31 - h)" by auto
qed simp

declare tree_height.simps [simp del]

definition pmt_of :: "('k, 'x) crypto_scheme \<Rightarrow> uint256 list \<Rightarrow> bool list \<Rightarrow> CPartialMerkleTree" where
  "pmt_of C vTxid vMatch =
     (let t = \<lparr>nTransactions = word_of_nat (length vTxid), vBits = [], vHash = [], fBad = False\<rparr>
      in TraverseAndBuild C (tree_height (nTransactions t) 0) 0 vTxid vMatch t)"

definition pmt_init :: CPartialMerkleTree where
  "pmt_init = \<lparr>nTransactions = 0, vBits = [], vHash = [], fBad = True\<rparr>"

text \<open>The root, or zero; the matches; and the tree, in which the flag may have been set.\<close>
definition ExtractMatches ::
  "('k, 'x) crypto_scheme \<Rightarrow> CPartialMerkleTree \<Rightarrow> uint256 \<times> uint256 list \<times> CPartialMerkleTree" where
  "ExtractMatches C t =
     (let zero = bu_of64 WIDTH256 0 in
      if nTransactions t = 0 then (zero, [], t)
      else if nTransactions t > MAX_BLOCK_SIZE div 60 then (zero, [], t)
      else if length (vHash t) > unat (nTransactions t) then (zero, [], t)
      else if length (vBits t) < length (vHash t) then (zero, [], t)
      else
        (case TraverseAndExtract C t (tree_height (nTransactions t) 0) 0
                \<lparr>nBitsUsed = 0, nHashUsed = 0, xMatch = [], xBad = fBad t\<rparr> of (hashMerkleRoot, st) \<Rightarrow>
           let t = t\<lparr>fBad := xBad st\<rparr>; vMatch = xMatch st
           in if xBad st then (zero, vMatch, t)
              else if (nBitsUsed st + 7) div 8 \<noteq> (length (vBits t) + 7) div 8 then (zero, vMatch, t)
              else if nHashUsed st \<noteq> length (vHash t) then (zero, vMatch, t)
              else (hashMerkleRoot, vMatch, t)))"

text \<open>The bits packed eight in a byte.\<close>

definition pack_bits :: "bool list \<Rightarrow> byte list" where
  "pack_bits bits =
     foldl (\<lambda>vBytes p. vBytes[p div 8 := vBytes ! (p div 8) OR push_bit (p mod 8) (if bits ! p then 1 else 0)])
       (replicate ((length bits + 7) div 8) 0) [0..<length bits]"

definition unpack_bits :: "byte list \<Rightarrow> bool list" where
  "unpack_bits vBytes = map (\<lambda>p. vBytes ! (p div 8) AND push_bit (p mod 8) 1 \<noteq> 0) [0..<length vBytes * 8]"

definition ser_hash :: "uint256 \<Rightarrow> byte list" where "ser_hash h = ser_flat (bu_bytes h)"

definition unser_hash :: "uint256 reader" where
  "unser_hash = rbind (unser_flat 32) (\<lambda>b. rreturn (bu_of_bytes WIDTH256 b))"

definition ser_pmt :: "CPartialMerkleTree \<Rightarrow> byte list" where
  "ser_pmt t = ser_int (nTransactions t) @ ser_vector ser_hash (vHash t) @ ser_vch (pack_bits (vBits t))"

definition unser_pmt :: "CPartialMerkleTree reader" where
  "unser_pmt =
     rbind unser_int (\<lambda>n. rbind (unser_vector 32 unser_hash) (\<lambda>hs. rbind unser_vch (\<lambda>vBytes.
       rreturn \<lparr>nTransactions = n, vBits = unpack_bits vBytes, vHash = hs, fBad = False\<rparr>)))"

section \<open>The levels by their height\<close>

definition level :: "('k, 'x) crypto_scheme \<Rightarrow> uint256 list \<Rightarrow> nat \<Rightarrow> uint256 list" where
  "level C l h = (pair_up C ^^ h) l"

lemma level_simps [simp]: "level C l 0 = l" "level C l (Suc h) = pair_up C (level C l h)"
  by (simp_all add: level_def)

lemma length_level: "length (level C l h) = (length l + 2 ^ h - 1) div 2 ^ h"
proof (induction h)
  case (Suc h)
  obtain m where m: "(2 :: nat) ^ h = Suc m" by (metis not0_implies_Suc power_not_zero zero_neq_numeral)
  have "(length l + 2 ^ h - 1) div 2 ^ h + 1 = (length l + 2 ^ h - 1 + 2 ^ h) div 2 ^ h"
    using div_add_self2 [of "2 ^ h" "length l + 2 ^ h - 1"] by simp
  then have "((length l + 2 ^ h - 1) div 2 ^ h + 1) div 2 = (length l + 2 ^ h - 1 + 2 ^ h) div (2 ^ h * 2)"
    by (simp only: div_mult2_eq)
  also have "length l + 2 ^ h - 1 + 2 ^ h = length l + 2 ^ Suc h - 1" by (simp add: m)
  finally show ?case using Suc by (simp add: mult.commute)
qed simp

lemma leaves_of: "pos < length (level C l h) \<longleftrightarrow> pos * 2 ^ h < length l"
proof -
  obtain m where m: "(2 :: nat) ^ h = Suc m" by (metis not0_implies_Suc power_not_zero zero_neq_numeral)
  have "pos < (length l + 2 ^ h - 1) div 2 ^ h \<longleftrightarrow> Suc pos * 2 ^ h \<le> length l + 2 ^ h - 1"
    by (simp add: Suc_le_eq [symmetric] less_eq_div_iff_mult_less_eq)
  also have "\<dots> \<longleftrightarrow> pos * 2 ^ h < length l" by (auto simp: m)
  finally show ?thesis unfolding length_level .
qed

text \<open>The machine computes the width while nothing wraps.\<close>
definition height_ok :: "uint256 list \<Rightarrow> nat \<Rightarrow> bool" where
  "height_ok l h \<longleftrightarrow> length l < 2 ^ 30 \<and> h \<le> 30"

lemma height_ok_Suc: "height_ok l (Suc h) \<Longrightarrow> height_ok l h"
  by (simp add: height_ok_def)

lemma width_level:
  assumes "height_ok l h"
  shows "unat (CalcTreeWidth (word_of_nat (length l)) h) = length (level C l h)"
proof -
  have h: "(2 :: nat) ^ h \<le> 2 ^ 30" using assms by (intro power_increasing) (auto simp: height_ok_def)
  then have "unat (word_of_nat (length l) + push_bit h 1 - 1 :: u32) = length l + 2 ^ h - 1"
  proof -
    have "word_of_nat (length l) + push_bit h 1 - 1 = (word_of_nat (length l + 2 ^ h - 1) :: u32)"
    proof -
      have "1 \<le> length l + 2 ^ h" by (simp add: trans_le_add2)
      from of_nat_diff [OF this, where 'a = "32 word"] show ?thesis by (simp add: push_bit_of_1)
    qed
    moreover have "length l + 2 ^ h - 1 < 2 ^ 32" using h assms by (auto simp: height_ok_def)
    ultimately show ?thesis by (simp only: unat_of_nat) simp
  qed
  then show ?thesis
    by (simp only: CalcTreeWidth_def unat_drop_bit_eq) (simp only: drop_bit_eq_div length_level)
qed

lemma CalcHash_level:
  "height_ok l h \<Longrightarrow> pos < length (level C l h) \<Longrightarrow>
   CalcHash C (word_of_nat (length l)) h pos l = level C l h ! pos"
proof (induction h arbitrary: pos)
  case (Suc h)
  note ok = height_ok_Suc [OF Suc.prems(1)]
  have p: "2 * pos < length (level C l h)" using Suc.prems(2) by simp
  have pos: "pos < (length (level C l h) + 1) div 2" using Suc.prems(2) by simp
  let ?L = "level C l h"
  have r: "(if pos * 2 + 1 < length ?L then CalcHash C (word_of_nat (length l)) h (pos * 2 + 1) l
      else CalcHash C (word_of_nat (length l)) h (pos * 2) l) = ?L ! min (2 * pos + 1) (length ?L - 1)"
  proof (cases "pos * 2 + 1 < length ?L")
    case True
    then have "min (2 * pos + 1) (length ?L - 1) = pos * 2 + 1" by linarith
    then show ?thesis using Suc.IH [OF ok, of "pos * 2 + 1"] True by (simp add: mult.commute)
  next
    case False
    then have "min (2 * pos + 1) (length ?L - 1) = pos * 2" using p by linarith
    then show ?thesis using Suc.IH [OF ok, of "pos * 2"] p False by (simp add: mult.commute)
  qed
  show ?case
    using r Suc.IH [OF ok, of "pos * 2"] p
    unfolding level_simps(2) nth_pair_up [OF pos] CalcHash.simps Let_def width_level [OF ok, of C]
    by (simp add: mult.commute)
qed simp

section \<open>What a partial tree holds\<close>

fun partial ::
  "('k, 'x) crypto_scheme \<Rightarrow> uint256 list \<Rightarrow> bool list \<Rightarrow> nat \<Rightarrow> nat \<Rightarrow> bool list \<times> uint256 list" where
  "partial C l vMatch 0 pos = ([parent_of_match (word_of_nat (length l)) 0 pos vMatch], [level C l 0 ! pos])"
| "partial C l vMatch (Suc h) pos =
     (if \<not> parent_of_match (word_of_nat (length l)) (Suc h) pos vMatch then ([False], [level C l (Suc h) ! pos])
      else case partial C l vMatch h (pos * 2) of (b1, h1) \<Rightarrow>
        if pos * 2 + 1 < length (level C l h)
        then (case partial C l vMatch h (pos * 2 + 1) of (b2, h2) \<Rightarrow> (True # b1 @ b2, h1 @ h2))
        else (True # b1, h1))"

lemma Build_partial:
  "height_ok l h \<Longrightarrow> pos < length (level C l h) \<Longrightarrow> nTransactions t = word_of_nat (length l) \<Longrightarrow>
   TraverseAndBuild C h pos l vMatch t =
     t\<lparr>vBits := vBits t @ fst (partial C l vMatch h pos), vHash := vHash t @ snd (partial C l vMatch h pos)\<rparr>"
proof (induction h arbitrary: pos t)
  case 0
  then show ?case by (simp add: CalcHash_level)
next
  case (Suc h)
  note ok = height_ok_Suc [OF Suc.prems(1)]
  have p: "pos * 2 < length (level C l h)" using Suc.prems(2) by simp
  note w = width_level [OF ok, of C]
  show ?case
    using Suc.prems(3) Suc.IH [OF ok p] Suc.IH [OF ok, of "pos * 2 + 1"] CalcHash_level [OF Suc.prems(1,2)]
    by (auto simp: Let_def w split: prod.split)
qed

text \<open>The leaves below a node that are matched.\<close>
definition matched :: "uint256 list \<Rightarrow> bool list \<Rightarrow> nat \<Rightarrow> nat \<Rightarrow> uint256 list" where
  "matched l vMatch h pos = map (\<lambda>p. l ! p) (filter (\<lambda>p. vMatch ! p) [pos * 2 ^ h..<min ((pos + 1) * 2 ^ h) (length l)])"

lemma parent_matched:
  "length l < 2 ^ 30 \<Longrightarrow> parent_of_match (word_of_nat (length l)) h pos vMatch \<longleftrightarrow> matched l vMatch h pos \<noteq> []"
  by (simp add: parent_of_match_def matched_def list_ex_iff filter_empty_conv push_bit_eq_mult unat_of_nat)

lemma matched_split:
  "pos * 2 < length (level C l h) \<Longrightarrow>
   matched l vMatch (Suc h) pos = matched l vMatch h (pos * 2) @
     (if pos * 2 + 1 < length (level C l h) then matched l vMatch h (pos * 2 + 1) else [])"
proof -
  assume p: "pos * 2 < length (level C l h)"
  have e: "pos * 2 ^ Suc h = pos * 2 * 2 ^ h" "(pos + 1) * 2 ^ Suc h = (pos * 2 + 1 + 1) * 2 ^ h" by simp_all
  let ?a = "pos * 2 * 2 ^ h" and ?b = "(pos * 2 + 1) * 2 ^ h" and ?c = "(pos * 2 + 1 + 1) * 2 ^ h"
  have ab: "?a \<le> ?b" "?b \<le> ?c" by simp_all
  show ?thesis
  proof (cases "pos * 2 + 1 < length (level C l h)")
    case True
    then have "?b < length l" by (simp only: leaves_of)
    then have "[?a..<min ?c (length l)] = [?a..<min ?b (length l)] @ [?b..<min ?c (length l)]"
      using ab upt_add_eq_append [of ?a ?b "min ?c (length l) - ?b"] by simp
    then show ?thesis using True unfolding matched_def e by simp
  next
    case False
    then have "length l \<le> ?b" by (simp only: leaves_of not_less)
    then have "min ?b (length l) = length l" "min ?c (length l) = length l" using ab by simp_all
    then show ?thesis using False unfolding matched_def e by simp
  qed
qed

lemma partial_sizes:
  assumes "pos < length (level C l h)"
  shows "length (snd (partial C l vMatch h pos)) \<le> min ((pos + 1) * 2 ^ h) (length l) - pos * 2 ^ h
    \<and> length (snd (partial C l vMatch h pos)) \<le> length (fst (partial C l vMatch h pos))"
  using assms
proof (induction h arbitrary: pos)
  case 0
  then show ?case by simp
next
  case (Suc h)
  have p: "pos * 2 < length (level C l h)" using Suc.prems by simp
  let ?a = "pos * 2 * 2 ^ h" and ?b = "(pos * 2 + 1) * 2 ^ h" and ?c = "(pos * 2 + 1 + 1) * 2 ^ h"
  have e: "pos * 2 ^ Suc h = ?a" "(pos + 1) * 2 ^ Suc h = ?c" by simp_all
  have ab: "?a < ?b" "?b < ?c" by simp_all
  have a: "?a < length l" using p by (simp only: leaves_of)
  then have one: "1 \<le> min ?c (length l) - ?a" using ab by linarith
  note 1 = Suc.IH [OF p]
  show ?case
  proof (cases "pos * 2 + 1 < length (level C l h)")
    case True
    have b: "?b < length l" using True by (simp only: leaves_of)
    note 2 = Suc.IH [OF True]
    have "length (snd (partial C l vMatch h (pos * 2))) + length (snd (partial C l vMatch h (pos * 2 + 1)))
        \<le> min ?c (length l) - ?a"
      using 1 2 a b ab by linarith
    then show ?thesis unfolding e using 1 2 True one by (auto split: prod.split)
  next
    case False
    have "length (snd (partial C l vMatch h (pos * 2))) \<le> min ?c (length l) - ?a"
      using 1 ab by linarith
    then show ?thesis unfolding e using 1 False one by (auto split: prod.split)
  qed
qed

section \<open>Extraction\<close>

lemma Extract_partial:
  assumes "height_ok l h" and "pos < length (level C l h)" and "nTransactions t = word_of_nat (length l)"
    and "vBits t = b0 @ fst (partial C l vMatch h pos) @ b1" and "vHash t = h0 @ snd (partial C l vMatch h pos) @ h1"
    and "nBitsUsed st = length b0" and "nHashUsed st = length h0"
  shows "TraverseAndExtract C t h pos st =
    (level C l h ! pos,
     st\<lparr>nBitsUsed := length b0 + length (fst (partial C l vMatch h pos)),
        nHashUsed := length h0 + length (snd (partial C l vMatch h pos)), xMatch := xMatch st @ matched l vMatch h pos\<rparr>)"
  using assms
proof (induction h arbitrary: pos st b0 b1 h0 h1)
  case 0
  have l: "length l < 2 ^ 30" using 0(1) by (simp add: height_ok_def)
  have "matched l vMatch 0 pos = (if vMatch ! pos then [l ! pos] else [])"
    using 0(2) by (simp add: matched_def)
  then show ?case
    using 0 parent_matched [OF l, of 0 pos vMatch] by (auto simp: nth_append Let_def)
next
  case (Suc h)
  have l: "length l < 2 ^ 30" using Suc.prems(1) by (simp add: height_ok_def)
  note ok = height_ok_Suc [OF Suc.prems(1)]
  have p: "pos * 2 < length (level C l h)" using Suc.prems(2) by simp
  note w = width_level [OF ok, of C]
  obtain b2 h2 where 2: "partial C l vMatch h (pos * 2) = (b2, h2)" by fastforce
  obtain b3 h3 where 3: "partial C l vMatch h (pos * 2 + 1) = (b3, h3)" by fastforce
  have above: "level C l (Suc h) ! pos = merkle_node C (level C l h ! (pos * 2))
      (if pos * 2 + 1 < length (level C l h) then level C l h ! (pos * 2 + 1) else level C l h ! (pos * 2))"
  proof -
    have "pos < (length (level C l h) + 1) div 2" using Suc.prems(2) by simp
    note n = nth_pair_up [OF this, of C]
    have "min (2 * pos + 1) (length (level C l h) - 1) = (if pos * 2 + 1 < length (level C l h) then pos * 2 + 1 else pos * 2)"
      using p by auto
    then show ?thesis unfolding level_simps(2) n by (simp add: mult.commute)
  qed
  show ?case
  proof (cases "matched l vMatch (Suc h) pos = []")
    case True
    then have "partial C l vMatch (Suc h) pos = ([False], [level C l (Suc h) ! pos])"
      by (simp add: parent_matched [OF l])
    then show ?thesis using Suc.prems(4-7) True by (simp add: nth_append Let_def)
  next
    case False
    note f = False parent_matched [OF l, of "Suc h" pos vMatch]
    let ?st = "st\<lparr>nBitsUsed := Suc (length b0)\<rparr>"
    let ?m = "matched l vMatch h (pos * 2)"
    show ?thesis
    proof (cases "pos * 2 + 1 < length (level C l h)")
      case False
      have q: "partial C l vMatch (Suc h) pos = (True # b2, h2)" using f False 2 by simp
      have "TraverseAndExtract C t h (pos * 2) ?st = (level C l h ! (pos * 2), ?st\<lparr>nBitsUsed := Suc (length b0) + length b2,
          nHashUsed := length h0 + length h2, xMatch := xMatch st @ ?m\<rparr>)"
        using Suc.IH [OF ok p Suc.prems(3), of "b0 @ [True]" b1 h0 h1 ?st] Suc.prems(4-7) q 2 by simp
      then show ?thesis
        using Suc.prems(3-7) False above matched_split [OF p, of vMatch]
        unfolding q by (simp add: nth_append Let_def w)
    next
      case True
      have q: "partial C l vMatch (Suc h) pos = (True # b2 @ b3, h2 @ h3)" using f True 2 3 by simp
      let ?st' = "?st\<lparr>nBitsUsed := Suc (length b0) + length b2, nHashUsed := length h0 + length h2, xMatch := xMatch st @ ?m\<rparr>"
      have "TraverseAndExtract C t h (pos * 2) ?st = (level C l h ! (pos * 2), ?st')"
        using Suc.IH [OF ok p Suc.prems(3), of "b0 @ [True]" "b3 @ b1" h0 "h3 @ h1" ?st] Suc.prems(4-7) q 2 by simp
      moreover have "TraverseAndExtract C t h (pos * 2 + 1) ?st' = (level C l h ! (pos * 2 + 1),
          ?st'\<lparr>nBitsUsed := Suc (length b0) + length b2 + length b3, nHashUsed := length h0 + length h2 + length h3,
               xMatch := xMatch st @ ?m @ matched l vMatch h (pos * 2 + 1)\<rparr>)"
        using Suc.IH [OF ok True Suc.prems(3), of "b0 @ [True] @ b2" b1 "h0 @ h2" h1 ?st'] Suc.prems(4-7) q 3 by simp
      ultimately show ?thesis
        using Suc.prems(3-7) True above matched_split [OF p, of vMatch]
        unfolding q by (simp add: nth_append Let_def w)
    qed
  qed
qed

section \<open>The height\<close>

lemma tree_height_le: "h \<le> k \<Longrightarrow> CalcTreeWidth n k \<le> 1 \<Longrightarrow> tree_height n h \<le> k"
proof (induction n h rule: tree_height.induct)
  case (1 n h)
  show ?case
  proof (cases "CalcTreeWidth n h > 1")
    case True
    then have "h \<noteq> k" using 1(3) by (meson leD)
    then show ?thesis using True 1 by (subst tree_height.simps) simp
  next
    case False
    then show ?thesis using 1(2) by (subst tree_height.simps) simp
  qed
qed

lemma tree_height_least: "h \<le> j \<Longrightarrow> j < tree_height n h \<Longrightarrow> CalcTreeWidth n j > 1"
proof (induction n h rule: tree_height.induct)
  case (1 n h)
  have "tree_height n h = (if CalcTreeWidth n h > 1 then tree_height n (h + 1) else h)"
    by (subst tree_height.simps) simp
  then show ?case using 1 by (cases "h = j") (auto split: if_splits)
qed

lemma tree_height_width: "CalcTreeWidth n (tree_height n h) \<le> 1"
proof (induction n h rule: tree_height.induct)
  case (1 n h)
  then show ?case by (subst tree_height.simps) (auto simp: not_less)
qed

lemma root_level: "(\<And>j. j < H \<Longrightarrow> length (level C l j) > 1) \<Longrightarrow> merkle_root C l = merkle_root C (level C l H)"
proof (induction H)
  case (Suc H)
  then have "merkle_root C l = merkle_root C (level C l H)" by simp
  also have "\<dots> = merkle_root C (pair_up C (level C l H))" using Suc.prems [of H] by (subst merkle_root.simps) simp
  finally show ?case by simp
qed simp

lemma tree_height_root:
  assumes "l \<noteq> []" and "length l \<le> 16666"
  defines "H \<equiv> tree_height (word_of_nat (length l)) 0"
  shows "H \<le> 15 \<and> height_ok l H \<and> length (level C l H) = 1 \<and> merkle_root C l = level C l H ! 0 \<and> (\<forall>j<H. length (level C l j) > 1)"
proof -
  have ok: "height_ok l j" if "j \<le> 15" for j using assms(2) that by (simp add: height_ok_def)
  note w = width_level [OF ok]
  have "length (level C l 15) \<le> 1" using assms(2) unfolding length_level by simp
  then have "CalcTreeWidth (word_of_nat (length l)) 15 \<le> 1" using w [of 15 C] by (simp add: word_le_nat_alt)
  then have H: "H \<le> 15" unfolding H_def by (rule tree_height_le [rotated]) simp
  have "length (level C l H) \<le> 1"
    using tree_height_width [of "word_of_nat (length l)" 0] w [OF H, of C] by (simp add: H_def word_le_nat_alt)
  moreover have "0 < length (level C l H)" using assms(1) by (simp only: leaves_of) simp
  ultimately have one: "length (level C l H) = 1" by linarith
  have big: "length (level C l j) > 1" if "j < H" for j
    using tree_height_least [of 0 j "word_of_nat (length l)"] w [of j C] that H by (simp add: H_def word_less_nat_alt)
  then have "merkle_root C l = merkle_root C (level C l H)" by (rule root_level)
  also have "\<dots> = level C l H ! 0" using one by (subst merkle_root.simps) (cases "level C l H"; simp)
  finally show ?thesis using ok [OF H] H one big by simp
qed

section \<open>Extraction that leads to the root\<close>

lemma Extract_bad: "xBad st \<Longrightarrow> xBad (snd (TraverseAndExtract C t h pos st))"
proof (induction h arbitrary: pos st)
  case (Suc h)
  have "xBad (snd (case TraverseAndExtract C t h p s of (left, st) \<Rightarrow>
      case (if b then TraverseAndExtract C t h q st else (left, st)) of (right, st) \<Rightarrow> (f left right, st)))"
    if "xBad s" for p q s b and f :: "uint256 \<Rightarrow> uint256 \<Rightarrow> uint256"
    using Suc.IH [of s p] Suc.IH [of "snd (TraverseAndExtract C t h p s)" q] that by (auto split: prod.split)
  then show ?case using Suc.prems by (simp add: Let_def)
qed (auto simp: Let_def)

text \<open>The pairs a traversal hashes.\<close>

fun extract_pairs ::
  "('k, 'x) crypto_scheme \<Rightarrow> CPartialMerkleTree \<Rightarrow> nat \<Rightarrow> nat \<Rightarrow> extract_state \<Rightarrow> (uint256 \<times> uint256) list" where
  "extract_pairs C t 0 pos st = []"
| "extract_pairs C t (Suc height) pos st =
     (if nBitsUsed st \<ge> length (vBits t) \<or> \<not> vBits t ! nBitsUsed st then []
      else
        let st = st\<lparr>nBitsUsed := nBitsUsed st + 1\<rparr>; two = (pos * 2 + 1 < unat (CalcTreeWidth (nTransactions t) height))
        in case TraverseAndExtract C t height (pos * 2) st of (left, st1) \<Rightarrow>
             (left, fst (if two then TraverseAndExtract C t height (pos * 2 + 1) st1 else (left, st1)))
             # extract_pairs C t height (pos * 2) st @ (if two then extract_pairs C t height (pos * 2 + 1) st1 else []))"

lemma pairs_level:
  "(\<And>j. j \<le> h \<Longrightarrow> length (level C l j) > 1) \<Longrightarrow> set (tree_pairs C (level C l h)) \<subseteq> set (tree_pairs C l)"
proof (induction h)
  case (Suc h)
  have "length (level C l h) > 1" using Suc.prems [of h] by simp
  moreover have "set (tree_pairs C (level C l h)) \<subseteq> set (tree_pairs C l)" using Suc by simp
  ultimately show ?case unfolding level_simps(2) by (meson order_trans tree_pairs_above)
qed simp

lemma node_pair:
  assumes "\<And>j. j \<le> h \<Longrightarrow> length (level C l j) > 1" and "pos < length (level C l (Suc h))"
  defines "r \<equiv> if pos * 2 + 1 < length (level C l h) then level C l h ! (pos * 2 + 1) else level C l h ! (pos * 2)"
  shows "level C l (Suc h) ! pos = merkle_node C (level C l h ! (pos * 2)) r"
    and "(level C l h ! (pos * 2), r) \<in> set (tree_pairs C l)"
proof -
  have p: "pos < (length (level C l h) + 1) div 2" using assms(2) by simp
  have m: "min (2 * pos + 1) (length (level C l h) - 1) = (if pos * 2 + 1 < length (level C l h) then pos * 2 + 1 else pos * 2)"
    using p by auto
  show "level C l (Suc h) ! pos = merkle_node C (level C l h ! (pos * 2)) r"
    unfolding level_simps(2) nth_pair_up [OF p] r_def m by (simp add: mult.commute)
  have "(level C l h ! (2 * pos), level C l h ! min (2 * pos + 1) (length (level C l h) - 1)) \<in> set (tree_pairs C (level C l h))"
    using assms(1) [of h] p by (intro pair_in_tree) auto
  then show "(level C l h ! (pos * 2), r) \<in> set (tree_pairs C l)"
    unfolding r_def m using pairs_level [of h C l] assms(1) by (auto simp: mult.commute split: if_splits)
qed

text \<open>The positions below a node.\<close>
definition positions :: "uint256 list \<Rightarrow> nat \<Rightarrow> nat \<Rightarrow> nat list \<Rightarrow> bool" where
  "positions l h pos ps \<longleftrightarrow> sorted_wrt (<) ps \<and> (\<forall>p\<in>set ps. pos * 2 ^ h \<le> p \<and> p < (pos + 1) * 2 ^ h \<and> p < length l)"

lemma range_join:
  assumes "a \<le> b" and "b \<le> c" and "sorted_wrt (<) ps \<and> (\<forall>p\<in>set ps. a \<le> p \<and> p < b \<and> p < (n :: nat))"
    and "sorted_wrt (<) qs \<and> (\<forall>p\<in>set qs. b \<le> p \<and> p < c \<and> p < n)"
  shows "sorted_wrt (<) (ps @ qs) \<and> (\<forall>p\<in>set (ps @ qs). a \<le> p \<and> p < c \<and> p < n)"
  using assms by (force simp: sorted_wrt_append)

lemma positions_join:
  "positions l h (pos * 2) ps \<Longrightarrow> positions l h (pos * 2 + 1) qs \<Longrightarrow> positions l (Suc h) pos (ps @ qs)"
proof -
  have e: "pos * 2 ^ Suc h = pos * 2 * 2 ^ h" "(pos + 1) * 2 ^ Suc h = (pos * 2 + 1 + 1) * 2 ^ h" by simp_all
  have "pos * 2 * 2 ^ h \<le> (pos * 2 + 1) * 2 ^ h" "(pos * 2 + 1) * 2 ^ h \<le> (pos * 2 + 1 + 1) * 2 ^ h" by simp_all
  then show "positions l h (pos * 2) ps \<Longrightarrow> positions l h (pos * 2 + 1) qs \<Longrightarrow> ?thesis"
    unfolding positions_def e by (rule range_join)
qed

lemma positions_left: "positions l h (pos * 2) ps \<Longrightarrow> positions l (Suc h) pos ps"
  using positions_join [of l h pos ps "[]"] by (simp add: positions_def)

lemma Extract_sound:
  assumes "height_ok l h" and "pos < length (level C l h)" and "nTransactions t = word_of_nat (length l)"
    and "\<And>j. j < h \<Longrightarrow> length (level C l j) > 1"
    and "TraverseAndExtract C t h pos st = (level C l h ! pos, st')" and "\<not> xBad st'"
  shows "(\<exists>ps. positions l h pos ps \<and> xMatch st' = xMatch st @ map (\<lambda>p. l ! p) ps)
    \<or> collision_between C (extract_pairs C t h pos st) (tree_pairs C l)"
  using assms
proof (induction h arbitrary: pos st st')
  case 0
  then have "xMatch st' = xMatch st \<or> xMatch st' = xMatch st @ [l ! pos]"
    by (auto simp: Let_def split: if_splits)
  then have "\<exists>ps. positions l 0 pos ps \<and> xMatch st' = xMatch st @ map (\<lambda>p. l ! p) ps"
  proof
    assume "xMatch st' = xMatch st"
    then show ?thesis by (intro exI [of _ "[]"]) (simp add: positions_def)
  next
    assume "xMatch st' = xMatch st @ [l ! pos]"
    then show ?thesis using 0(2) by (intro exI [of _ "[pos]"]) (simp add: positions_def)
  qed
  then show ?case ..
next
  case (Suc h)
  note ok = height_ok_Suc [OF Suc.prems(1)]
  have w: "unat (CalcTreeWidth (nTransactions t) h) = length (level C l h)"
    using width_level [OF ok, of C] Suc.prems(3) by simp
  have p: "pos * 2 < length (level C l h)" using Suc.prems(2) by simp
  have big: "length (level C l j) > 1" if "j \<le> h" for j using Suc.prems(4) that by simp
  let ?two = "pos * 2 + 1 < length (level C l h)"
  let ?s = "st\<lparr>nBitsUsed := nBitsUsed st + 1\<rparr>"
  show ?case
  proof (cases "nBitsUsed st \<ge> length (vBits t) \<or> \<not> vBits t ! nBitsUsed st")
    case True
    then have "xMatch st' = xMatch st" using Suc.prems(5,6) by (auto simp: Let_def split: if_splits)
    then have "\<exists>ps. positions l (Suc h) pos ps \<and> xMatch st' = xMatch st @ map (\<lambda>p. l ! p) ps"
      by (intro exI [of _ "[]"]) (simp add: positions_def)
    then show ?thesis ..
  next
    case go: False
    obtain left st1 where 1: "TraverseAndExtract C t h (pos * 2) ?s = (left, st1)" by fastforce
    obtain right st2 where 2: "(if ?two then TraverseAndExtract C t h (pos * 2 + 1) st1 else (left, st1)) = (right, st2)"
      by fastforce
    have r: "merkle_node C left right = level C l (Suc h) ! pos" "st2 = st'"
      using Suc.prems(5) go 1 2 by (simp_all add: Let_def w)
    have bad: "\<not> xBad st1" "\<not> xBad st2"
      using Suc.prems(6) Extract_bad [of st1 C t h "pos * 2 + 1"] 2 r(2) by (auto split: if_splits)
    let ?e1 = "extract_pairs C t h (pos * 2) ?s"
    let ?e2 = "if ?two then extract_pairs C t h (pos * 2 + 1) st1 else []"
    have pairs: "extract_pairs C t (Suc h) pos st = (left, right) # ?e1 @ ?e2"
      using go 1 2 by (simp add: Let_def w)
    let ?rt = "if ?two then level C l h ! (pos * 2 + 1) else level C l h ! (pos * 2)"
    note node = node_pair [of h C l pos, OF big Suc.prems(2)]
    show ?thesis
    proof (cases "(left, right) = (level C l h ! (pos * 2), ?rt)")
      case False
      have "collision_between C (extract_pairs C t (Suc h) pos st) (tree_pairs C l)"
        using False node r(1) by (intro collisionI [of "(left, right)" _ "(level C l h ! (pos * 2), ?rt)"]) (simp_all only: pairs fst_conv snd_conv, auto)
      then show ?thesis ..
    next
      case True
      have left: "(\<exists>ps. positions l h (pos * 2) ps \<and> xMatch st1 = xMatch st @ map (\<lambda>p. l ! p) ps) \<or>
          collision_between C ?e1 (tree_pairs C l)"
        using Suc.IH [OF ok p Suc.prems(3) big, of ?s st1] 1 True bad(1) by simp
      have right: "(\<exists>qs. positions l h (pos * 2 + 1) qs \<and> xMatch st2 = xMatch st1 @ map (\<lambda>p. l ! p) qs) \<or>
          collision_between C ?e2 (tree_pairs C l)" if ?two
        using Suc.IH [OF ok that Suc.prems(3) big, of st1 st2] 2 True bad(2) that by simp
      have up: "collision_between C (extract_pairs C t (Suc h) pos st) (tree_pairs C l)"
        if "collision_between C ?e1 (tree_pairs C l) \<or> collision_between C ?e2 (tree_pairs C l)"
      proof -
        have "set ?e1 \<subseteq> set (extract_pairs C t (Suc h) pos st)" "set ?e2 \<subseteq> set (extract_pairs C t (Suc h) pos st)"
          unfolding pairs by auto
        then show ?thesis using that collision_mono by (metis order_refl)
      qed
      show ?thesis
      proof (cases "collision_between C ?e1 (tree_pairs C l) \<or> collision_between C ?e2 (tree_pairs C l)")
        case True
        then show ?thesis using up by blast
      next
        case False
        then obtain ps where ps: "positions l h (pos * 2) ps" "xMatch st1 = xMatch st @ map (\<lambda>p. l ! p) ps" using left by blast
        show ?thesis
        proof (cases ?two)
          case True
          then obtain qs where "positions l h (pos * 2 + 1) qs" "xMatch st2 = xMatch st1 @ map (\<lambda>p. l ! p) qs"
            using right False by blast
          then have "positions l (Suc h) pos (ps @ qs) \<and> xMatch st' = xMatch st @ map (\<lambda>p. l ! p) (ps @ qs)"
            using ps r(2) positions_join by simp
          then show ?thesis by blast
        next
          case False
          then have "positions l (Suc h) pos ps \<and> xMatch st' = xMatch st @ map (\<lambda>p. l ! p) ps"
            using ps 2 r(2) positions_left by simp
          then show ?thesis by blast
        qed
      qed
    qed
  qed
qed

text \<open>For any number of transactions: below a node of the tree of the block, extraction meets nodes of that tree.\<close>

lemma Extract_nodes:
  assumes "pos' < length (level C l (k + h))" and "\<And>j. j < k + h \<Longrightarrow> length (level C l j) > 1"
    and "TraverseAndExtract C t h pos st = (level C l (k + h) ! pos', st')" and "\<not> xBad st'"
  shows "(\<exists>ns. set ns \<subseteq> set (level C l k) \<and> xMatch st' = xMatch st @ ns)
    \<or> collision_between C (extract_pairs C t h pos st) (tree_pairs C l)"
  using assms
proof (induction h arbitrary: pos pos' st st')
  case 0
  then have "xMatch st' = xMatch st \<or> xMatch st' = xMatch st @ [level C l k ! pos']"
    by (auto simp: Let_def split: if_splits)
  then show ?case using 0(1) by (metis add_0_right append_Nil2 empty_set empty_subsetI insert_subset list.set(2) nth_mem)
next
  case (Suc h)
  have big: "length (level C l j) > 1" if "j \<le> k + h" for j using Suc.prems(2) that by simp
  let ?go = "nBitsUsed st < length (vBits t) \<and> vBits t ! nBitsUsed st"
  let ?two = "pos * 2 + 1 < unat (CalcTreeWidth (nTransactions t) h)"
  let ?s = "st\<lparr>nBitsUsed := nBitsUsed st + 1\<rparr>"
  show ?case
  proof (cases ?go)
    case False
    then have "xMatch st' = xMatch st" using Suc.prems(3,4) by (auto simp: Let_def split: if_splits)
    then show ?thesis by (intro disjI1 exI [of _ "[]"]) simp
  next
    case go: True
    obtain left st1 where 1: "TraverseAndExtract C t h (pos * 2) ?s = (left, st1)" by fastforce
    obtain right st2 where 2: "(if ?two then TraverseAndExtract C t h (pos * 2 + 1) st1 else (left, st1)) = (right, st2)"
      by fastforce
    have r: "merkle_node C left right = level C l (Suc (k + h)) ! pos'" "st2 = st'"
      using Suc.prems(3) go 1 2 by (simp_all add: Let_def)
    have bad: "\<not> xBad st1" "\<not> xBad st2"
      using Suc.prems(4) Extract_bad [of st1 C t h "pos * 2 + 1"] 2 r(2) by (auto split: if_splits)
    let ?e1 = "extract_pairs C t h (pos * 2) ?s"
    let ?e2 = "if ?two then extract_pairs C t h (pos * 2 + 1) st1 else []"
    have pairs: "extract_pairs C t (Suc h) pos st = (left, right) # ?e1 @ ?e2"
      using go 1 2 by (simp add: Let_def)
    let ?w = "length (level C l (k + h))"
    let ?q = "if pos' * 2 + 1 < ?w then pos' * 2 + 1 else pos' * 2"
    have q: "pos' * 2 < ?w" "?q < ?w" using Suc.prems(1) by auto
    note node = node_pair [of "k + h" C l pos', OF big]
    have n: "level C l (Suc (k + h)) ! pos' = merkle_node C (level C l (k + h) ! (pos' * 2)) (level C l (k + h) ! ?q)"
      "(level C l (k + h) ! (pos' * 2), level C l (k + h) ! ?q) \<in> set (tree_pairs C l)"
      using node Suc.prems(1) by (simp_all split: if_splits)
    show ?thesis
    proof (cases "(left, right) = (level C l (k + h) ! (pos' * 2), level C l (k + h) ! ?q)")
      case False
      have "collision_between C (extract_pairs C t (Suc h) pos st) (tree_pairs C l)"
        using False n r(1)
        by (intro collisionI [of "(left, right)" _ "(level C l (k + h) ! (pos' * 2), level C l (k + h) ! ?q)"])
           (simp_all only: pairs fst_conv snd_conv, auto)
      then show ?thesis ..
    next
      case True
      have left: "(\<exists>ns. set ns \<subseteq> set (level C l k) \<and> xMatch st1 = xMatch st @ ns) \<or> collision_between C ?e1 (tree_pairs C l)"
        using Suc.IH [OF q(1) big, of "pos * 2" ?s st1] 1 True bad(1) by simp
      have right: "(\<exists>ns. set ns \<subseteq> set (level C l k) \<and> xMatch st2 = xMatch st1 @ ns) \<or> collision_between C ?e2 (tree_pairs C l)"
        if ?two
        using Suc.IH [OF q(2) big, of "pos * 2 + 1" st1 st2] 2 True bad(2) that by simp
      have stay: "st2 = st1" if "\<not> ?two" using 2 that by simp
      have sub: "set ?e1 \<subseteq> set (extract_pairs C t (Suc h) pos st)" "set ?e2 \<subseteq> set (extract_pairs C t (Suc h) pos st)"
        unfolding pairs by auto
      show ?thesis
      proof (cases "collision_between C ?e1 (tree_pairs C l) \<or> collision_between C ?e2 (tree_pairs C l)")
        case True
        then show ?thesis using sub collision_mono by (metis order_refl)
      next
        case False
        then obtain ns where ns: "set ns \<subseteq> set (level C l k)" "xMatch st1 = xMatch st @ ns" using left by blast
        obtain ms where ms: "set ms \<subseteq> set (level C l k)" "xMatch st2 = xMatch st1 @ ms"
        proof (cases ?two)
          case True
          then show thesis using that right False by blast
        next
          case no: False
          show thesis by (rule that [of "[]"]) (simp_all add: stay [OF no])
        qed
        show ?thesis using ns ms r(2) by (intro disjI1 exI [of _ "ns @ ms"]) simp
      qed
    qed
  qed
qed

section \<open>Packed bits\<close>

lemma bit_pack:
  assumes "m \<le> length bits"
  defines "step \<equiv> \<lambda>vBytes p. vBytes[p div 8 := vBytes ! (p div 8) OR push_bit (p mod 8) (if bits ! p then 1 else 0)] :: byte list"
  defines "z \<equiv> replicate ((length bits + 7) div 8) (0 :: byte)"
  shows "length (foldl step z [0..<m]) = (length bits + 7) div 8
    \<and> (\<forall>k j. k < (length bits + 7) div 8 \<and> j < 8 \<longrightarrow>
         bit (foldl step z [0..<m] ! k) j = (k * 8 + j < m \<and> bits ! (k * 8 + j)))"
  using assms(1)
proof (induction m)
  case 0
  then show ?case by (simp add: z_def)
next
  case (Suc m)
  let ?f = "foldl step z [0..<m]"
  have IH: "length ?f = (length bits + 7) div 8"
    "\<And>k j. k < (length bits + 7) div 8 \<Longrightarrow> j < 8 \<Longrightarrow> bit (?f ! k) j = (k * 8 + j < m \<and> bits ! (k * 8 + j))"
    using Suc by simp_all
  have f: "foldl step z [0..<Suc m] = ?f[m div 8 := ?f ! (m div 8) OR push_bit (m mod 8) (if bits ! m then 1 else 0)]"
    by (simp add: step_def)
  have m8: "m div 8 < (length bits + 7) div 8"
    using Suc.prems div_le_mono [of "m + 8" "length bits + 7" 8] by (simp add: Suc_le_eq [symmetric])
  have "bit (foldl step z [0..<Suc m] ! k) j = (k * 8 + j < Suc m \<and> bits ! (k * 8 + j))"
    if k: "k < (length bits + 7) div 8" and j: "j < 8" for k j
  proof (cases "k = m div 8")
    case False
    then have "k * 8 + j \<noteq> m" using j by auto
    then show ?thesis using IH(2) [OF k j] False unfolding f by (auto simp: less_Suc_eq)
  next
    case True
    have "bit (push_bit (m mod 8) (if bits ! m then 1 else 0) :: byte) j = (j = m mod 8 \<and> bits ! m)"
      using j by (auto simp: bit_push_bit_iff bit_1_iff possible_bit_def simp del: push_bit_of_1)
    moreover have "j = m mod 8 \<longleftrightarrow> k * 8 + j = m" using True j by presburger
    ultimately show ?thesis
      using IH(2) [OF k j] IH(1) m8 unfolding f True by (auto simp: bit_or_iff less_Suc_eq)
  qed
  moreover have "length (foldl step z [0..<Suc m]) = (length bits + 7) div 8" unfolding f using IH(1) by simp
  ultimately show ?case by blast
qed

lemma length_pack_bits: "length (pack_bits bits) = (length bits + 7) div 8"
  using bit_pack [of "length bits" bits] unfolding pack_bits_def by simp

lemma unpack_pack: "\<exists>n < 8. unpack_bits (pack_bits bits) = bits @ replicate n False \<and> (length bits + n) mod 8 = 0"
proof -
  let ?B = "(length bits + 7) div 8"
  note p = bit_pack [of "length bits" bits, folded pack_bits_def, simplified]
  have len: "length (pack_bits bits) = ?B" using p by blast
  have n: "length bits \<le> ?B * 8" "?B * 8 < length bits + 8" by linarith+
  have "unpack_bits (pack_bits bits) = bits @ replicate (?B * 8 - length bits) False"
  proof (rule nth_equalityI)
    show "length (unpack_bits (pack_bits bits)) = length (bits @ replicate (?B * 8 - length bits) False)"
      using n by (simp add: unpack_bits_def len)
    fix q assume "q < length (unpack_bits (pack_bits bits))"
    then have q: "q < ?B * 8" by (simp add: unpack_bits_def len)
    then have "q div 8 < ?B" "q mod 8 < 8" by (simp_all add: less_mult_imp_div_less)
    then have "bit (pack_bits bits ! (q div 8)) (q mod 8) = (q < length bits \<and> bits ! q)"
      using p by simp
    then show "unpack_bits (pack_bits bits) ! q = (bits @ replicate (?B * 8 - length bits) False) ! q"
      using q by (simp add: unpack_bits_def len nth_append bit_iff_and_push_bit_not_eq_0 [symmetric] del: push_bit_of_1)
  qed
  then show ?thesis using n by (intro exI [of _ "?B * 8 - length bits"]) auto
qed

section \<open>Codes\<close>

interpretation hash: codec unser_hash ser_hash "\<lambda>h. length h = WIDTH256"
proof (intro codec.intro codec_axioms.intro)
  show "stream_reader unser_hash"
    unfolding unser_hash_def unser_flat_def by (intro reader_bind) auto
  show "length h = WIDTH256 \<Longrightarrow> unser_hash (ser_hash h @ rest) = Inr (h, rest)" for h rest
    by (simp add: unser_hash_def unser_flat_def ser_hash_def ser_flat_def rbind_def rreturn_def read_bytes_def bu_of_bytes_8)
qed

lemma unser_ser_pmt:
  assumes "list_all (\<lambda>h. length h = WIDTH256) (vHash t)" and "fits_size (vHash t)" and "fits_size (pack_bits (vBits t))"
  shows "unser_pmt (ser_pmt t @ rest) = Inr (t\<lparr>vBits := unpack_bits (pack_bits (vBits t)), fBad := False\<rparr>, rest)"
  using assms codec.get_ser [OF hash.vector_codec [of 32], of "vHash t"]
  by (simp add: unser_pmt_def ser_pmt_def rbind_def rreturn_def unser_ser_int unser_ser_vch)

lemma length_tx_GetHash [simp]: "length (tx_GetHash C tx) = WIDTH256"
  by (simp add: tx_GetHash_def SerializeHash_def hw_GetHash_def Let_def)

lemma length_merkle_node [simp]: "length (merkle_node C a b) = WIDTH256"
  by (simp add: merkle_node_def Hash2_def Let_def)

lemma pair_up_hashes: "list_all (\<lambda>h. length h = WIDTH256) (pair_up C l)"
  by (induction C l rule: pair_up.induct) auto

lemma level_hashes: "list_all (\<lambda>h. length h = WIDTH256) l \<Longrightarrow> list_all (\<lambda>h. length h = WIDTH256) (level C l h)"
  by (cases h) (simp_all add: pair_up_hashes)

lemma partial_hashes:
  "list_all (\<lambda>h. length h = WIDTH256) l \<Longrightarrow> pos < length (level C l h) \<Longrightarrow>
   list_all (\<lambda>h. length h = WIDTH256) (snd (partial C l vMatch h pos))"
proof (induction h arbitrary: pos)
  case 0
  then show ?case by (simp add: list_all_length)
next
  case (Suc h)
  have "length (level C l (Suc h) ! pos) = WIDTH256"
    using level_hashes [OF Suc.prems(1), of C "Suc h"] Suc.prems(2) by (simp only: list_all_length)
  moreover have "pos * 2 < length (level C l h)" using Suc.prems(2) by simp
  ultimately show ?case
    using Suc.IH [OF Suc.prems(1), of "pos * 2"] Suc.IH [OF Suc.prems(1), of "pos * 2 + 1"] by (auto split: prod.split)
qed

section \<open>What branches and partial trees prove\<close>

text \<open>C30: The branch of a transaction that \<open>GetMerkleBranch\<close> reads off the tree leads \<open>CheckMerkleBranch\<close> from the hash of the
  transaction to the Merkle root.  Conversely, whatever leads to the root at that index by a branch of that length
  is the hash of that transaction, or the check and the tree have hashed two different pairs to one value.\<close>

theorem merkle_branch_exact:
  assumes "n < length vtx"
  shows "\<exists>branch. GetMerkleBranch C vtx (snd (BuildMerkleTree C vtx)) (int n) = Some branch
    \<and> CheckMerkleBranch C (tx_GetHash C (vtx ! n)) branch (int n) = fst (BuildMerkleTree C vtx)
    \<and> (\<forall>h b. length b = length branch \<and> CheckMerkleBranch C h b (int n) = fst (BuildMerkleTree C vtx) \<longrightarrow>
         h = tx_GetHash C (vtx ! n) \<or>
         collision_between C (check_pairs C h b (int n)) (tree_pairs C (map (tx_GetHash C) vtx)))"
proof -
  let ?l = "map (tx_GetHash C) vtx"
  have n: "n < length ?l" and ne: "vtx \<noteq> []" using assms by auto
  note root = BuildMerkleTree_root [OF ne, of C]
  have t: "snd (BuildMerkleTree C vtx) = concat (merkle_levels C ?l)"
    by (simp add: BuildMerkleTree_def Let_def merkle_tree_eq)
  have "GetMerkleBranch C vtx (snd (BuildMerkleTree C vtx)) (int n) = Some (siblings C ?l n)"
    using branch_loop_eq [OF n, of "[]" C "[]"] by (simp add: GetMerkleBranch_def Let_def t)
  moreover have "CheckMerkleBranch C (tx_GetHash C (vtx ! n)) (siblings C ?l n) (int n) = fst (BuildMerkleTree C vtx)"
    using check_siblings [OF n, of C] assms by (simp add: CheckMerkleBranch_def root)
  moreover have "h = tx_GetHash C (vtx ! n) \<or> collision_between C (check_pairs C h b (int n)) (tree_pairs C ?l)"
    if "length b = length (siblings C ?l n)" and "CheckMerkleBranch C h b (int n) = fst (BuildMerkleTree C vtx)" for h b
    using check_sound [OF n that(1), of h] that(2) assms by (simp add: CheckMerkleBranch_def root)
  ultimately show ?thesis by blast
qed

text \<open>What a fresh traversal starts from.\<close>
definition extract_start :: extract_state where
  "extract_start = \<lparr>nBitsUsed = 0, nHashUsed = 0, xMatch = [], xBad = False\<rparr>"

lemma partial_bits: "length (fst (partial C l vMatch h pos)) < 2 ^ Suc h"
proof (induction h arbitrary: pos)
  case (Suc h)
  show ?case using Suc [of "pos * 2"] Suc [of "pos * 2 + 1"] by (auto split: prod.split)
qed simp

lemma pmt_of_partial:
  assumes "l \<noteq> []" and "length l \<le> 16666"
  defines "H \<equiv> tree_height (word_of_nat (length l)) 0"
  shows "pmt_of C l vMatch = \<lparr>nTransactions = word_of_nat (length l), vBits = fst (partial C l vMatch H 0),
    vHash = snd (partial C l vMatch H 0), fBad = False\<rparr>"
proof -
  have H: "height_ok l H" "0 < length (level C l H)" using tree_height_root [OF assms(1,2), of C] by (simp_all add: H_def)
  show ?thesis
    unfolding pmt_of_def Let_def CPartialMerkleTree.select_convs H_def [symmetric]
    by (subst Build_partial [OF H]) simp_all
qed

lemma small_n: "length l \<le> 16666 \<Longrightarrow> unat (word_of_nat (length l) :: u32) = length l"
  by (simp add: unat_of_nat)

lemma matched_root:
  fixes C :: "('k, 'x) crypto_scheme"
  assumes "l \<noteq> []" and "length l \<le> 16666" and "length vMatch = length l"
  defines "H \<equiv> tree_height (word_of_nat (length l)) 0"
  shows "matched l vMatch H 0 = map fst (filter snd (zip l vMatch))"
proof -
  have "length (level C l H) = 1" using tree_height_root [OF assms(1,2), of C] by (simp add: H_def)
  then have "\<not> 1 < length (level C l H)" by simp
  then have "length l \<le> 2 ^ H" unfolding leaves_of by simp
  then have "matched l vMatch H 0 = map (\<lambda>p. l ! p) (filter (\<lambda>p. vMatch ! p) [0..<length l])"
    by (simp add: matched_def min_absorb2)
  also have "\<dots> = map fst (filter snd (map (\<lambda>p. (l ! p, vMatch ! p)) [0..<length l]))"
    by (simp add: filter_map comp_def)
  also have "map (\<lambda>p. (l ! p, vMatch ! p)) [0..<length l] = zip l vMatch"
    using assms(3) by (intro nth_equalityI) auto
  finally show ?thesis .
qed

lemma Extract_built:
  assumes l: "l \<noteq> []" "length l \<le> 16666" "length vMatch = length l" and z: "z < 8"
    "(length (vBits (pmt_of C l vMatch)) + z) mod 8 = 0"
  defines "t \<equiv> (pmt_of C l vMatch)\<lparr>vBits := vBits (pmt_of C l vMatch) @ replicate z False, fBad := False\<rparr>"
  shows "ExtractMatches C t = (merkle_root C l, map fst (filter snd (zip l vMatch)), t)"
proof -
  define H where "H = tree_height (word_of_nat (length l)) 0"
  obtain bits hs where p: "partial C l vMatch H 0 = (bits, hs)" by fastforce
  have t: "t = \<lparr>nTransactions = word_of_nat (length l), vBits = bits @ replicate z False, vHash = hs, fBad = False\<rparr>"
    and zb: "(length bits + z) mod 8 = 0"
    using z(2) by (simp_all add: t_def pmt_of_partial [OF l(1,2)] H_def [symmetric] p)
  have top: "height_ok l H" "0 < length (level C l H)" "merkle_root C l = level C l H ! 0"
    using tree_height_root [OF l(1,2), of C] by (simp_all add: H_def)
  have sizes: "length hs \<le> length l" "length hs \<le> length bits"
    using partial_sizes [OF top(2), of vMatch] p by auto
  have x: "TraverseAndExtract C t H 0 extract_start = (merkle_root C l,
      extract_start\<lparr>nBitsUsed := length bits, nHashUsed := length hs, xMatch := map fst (filter snd (zip l vMatch))\<rparr>)"
  proof -
    have n: "nTransactions t = word_of_nat (length l)" and b: "vBits t = [] @ fst (partial C l vMatch H 0) @ replicate z False"
      and h: "vHash t = [] @ snd (partial C l vMatch H 0) @ []"
      by (simp_all add: t p)
    have s: "nBitsUsed extract_start = length ([] :: bool list)" "nHashUsed extract_start = length ([] :: uint256 list)"
      "xMatch extract_start = []" by (simp_all add: extract_start_def)
    show ?thesis
      unfolding Extract_partial [OF top(1,2) n b h s(1,2)] top(3) p s(3) matched_root [OF l, folded H_def] by simp
  qed
  have e: "(length bits + 7) div 8 = (length bits + z + 7) div 8"
  proof -
    obtain q where q: "length bits + z = 8 * q" using zb by (auto simp: mod_eq_0_iff_dvd elim: dvdE)
    then have "length bits + 7 = 8 * q + (7 - z)" "length bits + z + 7 = 8 * q + 7" using z(1) by linarith+
    then show ?thesis by (simp only: div_mult_self4 [of 8])
  qed
  have big: "\<not> nTransactions t > MAX_BLOCK_SIZE div 60"
    using l(2) small_n [OF l(2)] by (simp add: t MAX_BLOCK_SIZE_def word_less_nat_alt)
  have nz: "nTransactions t \<noteq> 0" using small_n [OF l(2)] l(1) by (auto simp: t simp flip: unat_eq_0)
  have th: "tree_height (nTransactions t) 0 = H" by (simp add: t H_def)
  show ?thesis
  proof -
    have st: "\<lparr>nBitsUsed = 0, nHashUsed = 0, xMatch = [], xBad = fBad t\<rparr> = extract_start" by (simp add: t extract_start_def)
    have v: "length (vHash t) = length hs" "length (vBits t) = length bits + z" "fBad t = False"
      "unat (nTransactions t) = length l"
      using small_n [OF l(2)] by (simp_all add: t)
    show ?thesis
      unfolding ExtractMatches_def Let_def st th x
      using nz big sizes e by (simp add: v extract_start_def)
  qed
qed

text \<open>C29: A partial tree built for some of the transactions of a block, sent and read back, gives the Merkle
  root of the block and exactly the hashes of those transactions, in their order.\<close>

theorem partial_tree_roundtrip:
  assumes "vtx \<noteq> []" and "length vtx \<le> 16666" and "length vMatch = length vtx"
  shows "\<exists>t. unser_pmt (ser_pmt (pmt_of C (map (tx_GetHash C) vtx) vMatch) @ rest) = Inr (t, rest)
    \<and> ExtractMatches C t = (fst (BuildMerkleTree C vtx), map (\<lambda>e. tx_GetHash C (fst e)) (filter snd (zip vtx vMatch)), t)"
proof -
  define l where "l = map (tx_GetHash C) vtx"
  have l: "l \<noteq> []" "length l \<le> 16666" "length vMatch = length l" using assms by (simp_all add: l_def)
  define t where "t = pmt_of C l vMatch"
  define H where "H = tree_height (word_of_nat (length l)) 0"
  have top: "H \<le> 15" "0 < length (level C l H)" using tree_height_root [OF l(1,2), of C] by (simp_all add: H_def)
  have t: "vBits t = fst (partial C l vMatch H 0)" "vHash t = snd (partial C l vMatch H 0)"
    by (simp_all add: t_def pmt_of_partial [OF l(1,2)] H_def)
  obtain z where z: "z < 8" "unpack_bits (pack_bits (vBits t)) = vBits t @ replicate z False" "(length (vBits t) + z) mod 8 = 0"
    using unpack_pack [of "vBits t"] by (elim exE conjE)
  have "length (vBits t) < 2 ^ Suc H" unfolding t by (rule partial_bits)
  also have "(2 :: nat) ^ Suc H \<le> 2 ^ 16" using top(1) by (intro power_increasing) auto
  finally have vb: "length (vBits t) < 2 ^ 16" .
  have "length (pack_bits (vBits t)) = (length (vBits t) + 7) div 8" by (rule length_pack_bits)
  also have "\<dots> \<le> 2 ^ 16" using vb by simp
  finally have "fits_size (pack_bits (vBits t))" by (simp add: MAX_SIZE_def)
  moreover have "length (vHash t) \<le> 16666"
    using partial_sizes [OF top(2), of vMatch] l(2) unfolding t by linarith
  then have "fits_size (vHash t)" by (simp add: MAX_SIZE_def)
  moreover have "list_all (\<lambda>h. length h = WIDTH256) (vHash t)"
    unfolding t by (rule partial_hashes [OF _ top(2)]) (simp add: l_def list_all_iff)
  ultimately have "unser_pmt (ser_pmt t @ rest) = Inr (t\<lparr>vBits := vBits t @ replicate z False, fBad := False\<rparr>, rest)"
    unfolding z(2) [symmetric] by (intro unser_ser_pmt)
  moreover have "ExtractMatches C (t\<lparr>vBits := vBits t @ replicate z False, fBad := False\<rparr>) =
      (merkle_root C l, map fst (filter snd (zip l vMatch)), t\<lparr>vBits := vBits t @ replicate z False, fBad := False\<rparr>)"
    using Extract_built [OF l z(1) z(3) [unfolded t_def]] unfolding t_def .
  moreover have "map fst (filter snd (zip l vMatch)) = map (\<lambda>e. tx_GetHash C (fst e)) (filter snd (zip vtx vMatch))"
    by (simp add: l_def zip_map1 filter_map comp_def case_prod_beta)
  ultimately show ?thesis
    unfolding BuildMerkleTree_root [OF assms(1)] l_def [symmetric] t_def by metis
qed

text \<open>C15: A partial tree that gives the Merkle root of a block (other than 0) as the root and claims the number of
  transactions of the block yields hashes of transactions of the block, at increasing positions.  Extraction does not check
  the number: if the tree claims another one, with a tree of at most the height of that of the block, it yields nodes of the
  tree of the block at the level that far above the transactions; so with a number of the same height it still yields hashes of
  transactions only, but with a smaller height it passes inner nodes off as transactions.  Or the extraction and the tree
  of the block have hashed two different pairs to one value.\<close>

theorem partial_tree_sound:
  assumes "vtx \<noteq> []" and "length vtx < 2 ^ 32" and "\<not> fBad t"
    and "ExtractMatches C t = (fst (BuildMerkleTree C vtx), vMatch, t')"
    and "fst (BuildMerkleTree C vtx) \<noteq> bu_of64 WIDTH256 0"
  shows "(nTransactions t = word_of_nat (length vtx) \<longrightarrow>
          (\<exists>ps. sorted_wrt (<) ps \<and> (\<forall>p\<in>set ps. p < length vtx) \<and> vMatch = map (\<lambda>p. tx_GetHash C (vtx ! p)) ps))
      \<and> (length vtx \<le> 16666 \<and> tree_height (nTransactions t) 0 \<le> tree_height (word_of_nat (length vtx)) 0 \<longrightarrow>
          set vMatch \<subseteq> set (level C (map (tx_GetHash C) vtx)
            (tree_height (word_of_nat (length vtx)) 0 - tree_height (nTransactions t) 0)))
    \<or> collision_between C (extract_pairs C t (tree_height (nTransactions t) 0) 0 extract_start)
        (tree_pairs C (map (tx_GetHash C) vtx))"
proof -
  define l where "l = map (tx_GetHash C) vtx"
  define h where "h = tree_height (nTransactions t) 0"
  define H where "H = tree_height (word_of_nat (length vtx)) 0"
  have root: "fst (BuildMerkleTree C vtx) = merkle_root C l" using BuildMerkleTree_root [OF assms(1)] by (simp add: l_def)
  have len: "length l = length vtx" "l \<noteq> []" using assms(1) by (simp_all add: l_def)
  have max: "\<not> nTransactions t > MAX_BLOCK_SIZE div 60"
    using assms(4,5) unfolding ExtractMatches_def Let_def by (auto split: if_splits)
  have x: "\<exists>st. TraverseAndExtract C t h 0 extract_start = (merkle_root C l, st) \<and> \<not> xBad st \<and> xMatch st = vMatch"
  proof -
    obtain r st where x: "TraverseAndExtract C t h 0 extract_start = (r, st)" by fastforce
    have "\<lparr>nBitsUsed = 0, nHashUsed = 0, xMatch = [], xBad = fBad t\<rparr> = extract_start"
      using assms(3) by (simp add: extract_start_def)
    then have "\<not> xBad st \<and> r = merkle_root C l \<and> xMatch st = vMatch"
      using assms(4,5) x unfolding ExtractMatches_def Let_def h_def root by (auto split: if_splits)
    then show ?thesis using x by auto
  qed
  then obtain st where st: "TraverseAndExtract C t h 0 extract_start = (merkle_root C l, st)" "\<not> xBad st" "xMatch st = vMatch"
    by blast
  let ?col = "collision_between C (extract_pairs C t h 0 extract_start) (tree_pairs C l)"
  have exact: "(\<exists>ps. sorted_wrt (<) ps \<and> (\<forall>p\<in>set ps. p < length vtx) \<and> vMatch = map (\<lambda>p. tx_GetHash C (vtx ! p)) ps) \<or> ?col"
    if n: "nTransactions t = word_of_nat (length vtx)"
  proof -
    have "unat (nTransactions t) = length vtx" using assms(2) n by (simp add: unat_of_nat)
    then have "length l \<le> 16666" using max len by (simp add: MAX_BLOCK_SIZE_def word_less_nat_alt)
    note top = tree_height_root [OF len(2) this, of C]
    have hH: "h = tree_height (word_of_nat (length l)) 0" using n by (simp add: h_def len)
    have ne: "0 < length (level C l h)" using top by (simp add: hH)
    have "(\<exists>ps. positions l h 0 ps \<and> xMatch st = xMatch extract_start @ map (\<lambda>p. l ! p) ps) \<or> ?col"
      by (rule Extract_sound [OF _ ne]) (use top st n in \<open>simp_all add: hH len\<close>)
    then have "(\<exists>ps. positions l h 0 ps \<and> vMatch = map (\<lambda>p. l ! p) ps) \<or> ?col" using st(3) by (simp add: extract_start_def)
    moreover have "map (\<lambda>p. l ! p) ps = map (\<lambda>p. tx_GetHash C (vtx ! p)) ps" if "positions l h 0 ps" for ps
      using that by (auto simp: positions_def l_def)
    ultimately show ?thesis by (force simp: positions_def len)
  qed
  have nodes: "set vMatch \<subseteq> set (level C l (H - h)) \<or> ?col" if "length vtx \<le> 16666" "h \<le> H"
  proof -
    have top: "length (level C l H) = 1" "merkle_root C l = level C l H ! 0" "\<forall>j<H. length (level C l j) > 1"
      using tree_height_root [OF len(2), of C] that(1) by (simp_all add: len H_def)
    have "(\<exists>ns. set ns \<subseteq> set (level C l (H - h)) \<and> xMatch st = xMatch extract_start @ ns) \<or> ?col"
      by (rule Extract_nodes [of 0]) (use top st that(2) in simp_all)
    then show ?thesis using st(3) by (auto simp: extract_start_def)
  qed
  show ?thesis using exact nodes by (auto simp: h_def H_def l_def)
qed

text \<open>The number is not checked: a tree that claims one transaction passes any root off as the hash of a transaction.\<close>

lemma one_leaf: "ExtractMatches C \<lparr>nTransactions = 1, vBits = [True], vHash = [root], fBad = False\<rparr> =
    (root, [root], \<lparr>nTransactions = 1, vBits = [True], vHash = [root], fBad = False\<rparr>)"
proof -
  have "tree_height 1 0 = 0" by (subst tree_height.simps) (simp add: CalcTreeWidth_def)
  then show ?thesis by (simp add: ExtractMatches_def MAX_BLOCK_SIZE_def Let_def)
qed

section \<open>Three transactions\<close>

definition three :: "CTransaction list" where
  "three = [example_tx [1], example_tx [2], example_tx [1, 2]]"

lemma length_three: "length three = 3" "three \<noteq> []" by (simp_all add: three_def)

theorem merkle_branch_exact_witness:
  "\<exists>branch. GetMerkleBranch example_crypto three (snd (BuildMerkleTree example_crypto three)) (int 2) = Some branch \<and>
     CheckMerkleBranch example_crypto (tx_GetHash example_crypto (three ! 2)) branch (int 2) =
       fst (BuildMerkleTree example_crypto three)"
proof -
  have "2 < length three" by (simp add: length_three)
  from merkle_branch_exact [OF this, of example_crypto] show ?thesis by (elim exE conjE) (intro exI conjI)
qed

theorem partial_tree_roundtrip_witness:
  "\<exists>t. unser_pmt (ser_pmt (pmt_of example_crypto (map (tx_GetHash example_crypto) three) [False, False, True])) = Inr (t, [])
    \<and> fst (snd (ExtractMatches example_crypto t)) = [tx_GetHash example_crypto (example_tx [1, 2])]"
proof -
  have "length three \<le> 16666" "length [False, False, True] = length three" by (simp_all add: length_three)
  then obtain t where t: "unser_pmt (ser_pmt (pmt_of example_crypto (map (tx_GetHash example_crypto) three) [False, False, True]) @ []) = Inr (t, [])"
    "ExtractMatches example_crypto t = (fst (BuildMerkleTree example_crypto three),
       map (\<lambda>e. tx_GetHash example_crypto (fst e)) (filter snd (zip three [False, False, True])), t)"
    using partial_tree_roundtrip [OF length_three(2), of "[False, False, True]" example_crypto "[]"] by blast
  have "map (\<lambda>e. tx_GetHash example_crypto (fst e)) (filter snd (zip three [False, False, True])) =
      [tx_GetHash example_crypto (example_tx [1, 2])]"
    by (simp add: three_def)
  then show ?thesis using t by (intro exI [of _ t]) simp
qed

text \<open>A block of one transaction and its partial tree.\<close>

abbreviation (input) one_hash :: uint256 where
  "one_hash \<equiv> tx_GetHash example_crypto (example_tx [1])"

abbreviation (input) one_tree :: CPartialMerkleTree where
  "one_tree \<equiv> \<lparr>nTransactions = 1, vBits = [True], vHash = [one_hash], fBad = False\<rparr>"

lemma one_hash_not_zero: "one_hash \<noteq> bu_of64 WIDTH256 0"
proof -
  have "hd (bu_of_bytes 8 bs) = word_of_nat (le_val (take 4 bs))" for bs
    using bu_of_bytes.simps(2) [of 7 bs] by simp
  then have "hd one_hash = 2"
    by (simp add: le_val_le_bytes tx_GetHash_def SerializeHash_def hw_GetHash_def hw_write_def hw_init_def Let_def example_crypto_def ser_tx_def ser_int_def)
  then show ?thesis by (auto simp: bu_of64_def lo32_def)
qed

lemma one_root: "fst (BuildMerkleTree example_crypto [example_tx [1]]) = one_hash"
  by (subst BuildMerkleTree_root) (simp_all add: merkle_root.simps)

theorem partial_tree_sound_witness:
  "(\<exists>ps. sorted_wrt (<) ps \<and> (\<forall>p. p \<notin> set ps \<or> p < 1) \<and>
       [one_hash] = map (\<lambda>p. tx_GetHash example_crypto ([example_tx [1]] ! p)) ps) \<and>
   set [one_hash] \<subseteq> set (level example_crypto [one_hash] 0)"
proof -
  have x: "ExtractMatches example_crypto one_tree = (fst (BuildMerkleTree example_crypto [example_tx [1]]), [one_hash], one_tree)"
    unfolding one_root by (rule one_leaf)
  have z: "fst (BuildMerkleTree example_crypto [example_tx [1]]) \<noteq> bu_of64 WIDTH256 0"
    unfolding one_root by (rule one_hash_not_zero)
  have "tree_height 1 0 = 0" by (subst tree_height.simps) (simp add: CalcTreeWidth_def)
  then have "\<not> collision_between example_crypto (extract_pairs example_crypto one_tree (tree_height 1 0) 0 extract_start) qs" for qs
    by (simp add: collision_between_def)
  then show ?thesis using partial_tree_sound [OF _ _ _ x z] by auto
qed

end
