(* ===== verification/Block.thy ===== *)
theory Block
  imports Merkle
begin

text \<open>
  Blocks (\<open>CBlockHeader\<close>, \<open>CBlock\<close> in \<open>main.h\<close>): their codes and hash, and the checks that need no chain
  (\<open>CheckBlock\<close>, \<open>CheckTxs\<close>, \<open>CheckTime\<close>, \<open>CheckSig\<close> in \<open>main.cpp\<close>).  A check that charges a peer returns the
  validation state with its result; \<open>CheckBlock\<close> also returns the block, whose Merkle tree it fills.
\<close>

section \<open>Headers\<close>

record CBlockHeader =
  blk_nVersion :: u32
  hashPrevBlock :: uint256
  hashMerkleRoot :: uint256
  nTime :: u32

abbreviation (input) BLOCK_VERSION :: u32 where "BLOCK_VERSION \<equiv> 3"

definition header_SetNull :: "'a CBlockHeader_scheme \<Rightarrow> 'a CBlockHeader_scheme" where
  "header_SetNull b =
     b\<lparr>blk_nVersion := BLOCK_VERSION, hashPrevBlock := bu_of64 WIDTH256 0, hashMerkleRoot := bu_of64 WIDTH256 0, nTime := 0\<rparr>"

definition header_IsNull :: "'a CBlockHeader_scheme \<Rightarrow> bool" where
  "header_IsNull b = False"

text \<open>\<open>Hash(BEGIN(nVersion), END(nTime))\<close>: the members lie next to each other in memory, 72 bytes.\<close>
definition header_bytes :: "'a CBlockHeader_scheme \<Rightarrow> byte list" where
  "header_bytes b =
     ser_int (blk_nVersion b) @ bu_bytes (hashPrevBlock b) @ bu_bytes (hashMerkleRoot b) @ ser_int (nTime b)"

definition blk_GetHash :: "('k, 'x) crypto_scheme \<Rightarrow> 'a CBlockHeader_scheme \<Rightarrow> uint256" where
  "blk_GetHash C b = Hash C (header_bytes b)"

definition GetBlockTime :: "'a CBlockHeader_scheme \<Rightarrow> int" where
  "GetBlockTime b = uint (nTime b)"

definition ser_header :: "'a CBlockHeader_scheme \<Rightarrow> byte list" where
  "ser_header b =
     ser_int (blk_nVersion b) @ ser_hash (hashPrevBlock b) @ ser_hash (hashMerkleRoot b) @ ser_int (nTime b)"

definition unser_header :: "'a CBlockHeader_scheme \<Rightarrow> 'a CBlockHeader_scheme reader" where
  "unser_header this =
     rbind unser_int (\<lambda>v. rbind unser_hash (\<lambda>p. rbind unser_hash (\<lambda>m. rbind unser_int (\<lambda>t.
       rreturn (this\<lparr>blk_nVersion := v, hashPrevBlock := p, hashMerkleRoot := m, nTime := t\<rparr>)))))"

definition size_header :: "'a CBlockHeader_scheme \<Rightarrow> u32" where
  "size_header b =
     size_int (blk_nVersion b) + of_nat (4 * WIDTH256) + of_nat (4 * WIDTH256) + size_int (nTime b)"

section \<open>Blocks\<close>

record CBlock = CBlockHeader +
  vtx :: "CTransaction list"
  cpbk :: CPubKey
  blk_vchSig :: "byte list"
  vMerkleTree :: "uint256 list"

text \<open>The key and the signature stay as they are.\<close>
definition blk_SetNull :: "CBlock \<Rightarrow> CBlock" where
  "blk_SetNull b = (header_SetNull b)\<lparr>vtx := [], vMerkleTree := []\<rparr>"

definition blk_init :: CBlock where
  "blk_init =
     blk_SetNull \<lparr>blk_nVersion = 0, hashPrevBlock = [], hashMerkleRoot = [], nTime = 0,
       vtx = [], cpbk = pk_invalid, blk_vchSig = [], vMerkleTree = []\<rparr>"

definition GetBlockHeader :: "CBlock \<Rightarrow> CBlockHeader" where
  "GetBlockHeader b =
     \<lparr>blk_nVersion = blk_nVersion b, hashPrevBlock = hashPrevBlock b, hashMerkleRoot = hashMerkleRoot b, nTime = nTime b\<rparr>"

definition blk_of_header :: "CBlockHeader \<Rightarrow> CBlock" where
  "blk_of_header h =
     blk_init\<lparr>blk_nVersion := blk_nVersion h, hashPrevBlock := hashPrevBlock h,
       hashMerkleRoot := hashMerkleRoot h, nTime := nTime h\<rparr>"

definition ser_block :: "CBlock \<Rightarrow> byte list" where
  "ser_block b = ser_header b @ ser_vector ser_tx (vtx b) @ ser_pubkey (cpbk b) @ ser_vch (blk_vchSig b)"

text \<open>The object read into keeps what the stream does not set; a transaction object has 88 bytes.\<close>
definition unser_block :: "CBlock \<Rightarrow> CBlock reader" where
  "unser_block this =
     rbind (unser_header this) (\<lambda>this. rbind (unser_vector 88 unser_tx) (\<lambda>v. rbind (unser_pubkey (cpbk this)) (\<lambda>k.
     rbind unser_vch (\<lambda>s. rreturn (this\<lparr>vtx := v, cpbk := k, blk_vchSig := s\<rparr>)))))"

definition size_block :: "CBlock \<Rightarrow> u32" where
  "size_block b =
     size_header b + size_vector size_tx (vtx b) + pk_GetSerializeSize (cpbk b) + size_vch (blk_vchSig b)"

section \<open>Context-free checks\<close>

abbreviation (input) MAX_BLOCK_SIGOPS :: u32 where "MAX_BLOCK_SIGOPS \<equiv> MAX_BLOCK_SIZE div 50"

fun check_txs :: "CTransaction list \<Rightarrow> CValidationState \<Rightarrow> bool \<times> CValidationState" where
  "check_txs [] st = (True, st)"
| "check_txs (tx # r) st =
     (case CheckTransaction tx st of (ok, st) \<Rightarrow> if \<not> ok then (False, st) else check_txs r st)"

text \<open>The set of hashes that \<open>GetTxHash\<close> gives; \<open>None\<close>: its assertion fails.\<close>
fun unique_txs :: "uint256 list \<Rightarrow> CTransaction list \<Rightarrow> nat \<Rightarrow> uint256 set \<Rightarrow> uint256 set option" where
  "unique_txs tree v 0 s = Some s"
| "unique_txs tree v (Suc n) s =
     (case blk_GetTxHash tree v (length v - Suc n) of None \<Rightarrow> None
      | Some h \<Rightarrow> unique_txs tree v n (insert h s))"

text \<open>\<open>adjustedTime\<close> is \<open>GetAdjustedTime()\<close>.  \<open>None\<close>: an assertion fails.\<close>
definition CheckBlock ::
  "('k, 'x) crypto_scheme \<Rightarrow> int \<Rightarrow> bool \<Rightarrow> bool \<Rightarrow> CBlock \<Rightarrow> CValidationState \<Rightarrow>
   ((bool \<times> CValidationState) \<times> CBlock) option" where
  "CheckBlock C adjustedTime fCheckPOW fCheckMerkleRoot b st =
     (if vtx b = [] \<or> length (vtx b) > unat MAX_BLOCK_SIZE \<or> size_block b > MAX_BLOCK_SIZE
      then Some (vs_DoS st 100 False False, b)
      else if GetBlockTime b > adjustedTime + 2 * 60 * 60 then Some (vs_Invalid st False, b)
      else if vtx b = [] \<or> \<not> tx_IsCoinBase (vtx b ! 0) then Some (vs_DoS st 100 False False, b)
      else if list_ex tx_IsCoinBase (drop 1 (vtx b)) then Some (vs_DoS st 100 False False, b)
      else case check_txs (vtx b) st of (ok, st) \<Rightarrow>
        if \<not> ok then Some ((False, st), b)
        else
          let b = b\<lparr>vMerkleTree := snd (BuildMerkleTree C (vtx b))\<rparr>
          in case unique_txs (vMerkleTree b) (vtx b) (length (vtx b)) {} of None \<Rightarrow> None
          | Some uniqueTx \<Rightarrow>
            if card uniqueTx \<noteq> length (vtx b) then Some (vs_DoS st 100 False True, b)
            else
              let nSigOps = fold (\<lambda>tx n. n + tx_GetLegacySigOpCount tx) (vtx b) 0
              in if nSigOps > MAX_BLOCK_SIGOPS then Some (vs_DoS st 100 False False, b)
                 else if fCheckMerkleRoot \<and> bu_neq (hashMerkleRoot b) (fst (BuildMerkleTree C (vtx b)))
                 then Some (vs_DoS st 100 False False, b)
                 else Some ((True, st), b))"

definition CheckTxs :: "int \<Rightarrow> CBlock \<Rightarrow> bool" where
  "CheckTxs nBestHeight b =
     (if nBestHeight + 1 < 2 \<or> length (vtx b) \<ge> 2 then True else False)"

text \<open>\<open>mapBlockIndex\<close> is the lookup of an index entry, \<open>ReadFromDisk\<close> the block that the read leaves behind.\<close>
definition CheckTime ::
  "(uint256 \<Rightarrow> 'i option) \<Rightarrow> ('i \<Rightarrow> CBlock) \<Rightarrow> CBlock \<Rightarrow> CValidationState \<Rightarrow> bool \<times> CValidationState" where
  "CheckTime mapBlockIndex ReadFromDisk b st =
     (if bu_gt (hashPrevBlock b) (bu_of64 WIDTH256 0) then
        (case mapBlockIndex (hashPrevBlock b) of
           None \<Rightarrow> vs_DoS st 100 False False
         | Some i \<Rightarrow> if GetBlockTime b - GetBlockTime (ReadFromDisk i) \<ge> 60 then (True, st) else (False, st))
      else (False, st))"

definition blk_CheckSig :: "('k, 'x) crypto_scheme \<Rightarrow> CBlock \<Rightarrow> bool" where
  "blk_CheckSig C b = (if \<not> pk_Verify C (cpbk b) (blk_GetHash C b) (blk_vchSig b) then False else True)"

section \<open>Codes\<close>

definition block_ok :: "CBlock \<Rightarrow> bool" where
  "block_ok b \<longleftrightarrow> length (hashPrevBlock b) = WIDTH256 \<and> length (hashMerkleRoot b) = WIDTH256 \<and>
     fits_size (vtx b) \<and> list_all tx_ok (vtx b) \<and> pk_ok (cpbk b) \<and> fits_size (blk_vchSig b)"

lemma header_bytes_ser: "header_bytes b = ser_header b"
  by (simp add: header_bytes_def ser_header_def ser_hash_def ser_flat_def)

lemma length_ser_hash: "length h = WIDTH256 \<Longrightarrow> length (ser_hash h) = 32"
  by (simp add: ser_hash_def ser_flat_def)

lemma unser_ser_header:
  "length (hashPrevBlock b) = WIDTH256 \<Longrightarrow> length (hashMerkleRoot b) = WIDTH256 \<Longrightarrow>
   unser_header this (ser_header b @ rest) =
     Inr (this\<lparr>blk_nVersion := blk_nVersion b, hashPrevBlock := hashPrevBlock b,
       hashMerkleRoot := hashMerkleRoot b, nTime := nTime b\<rparr>, rest)"
  by (simp add: unser_header_def ser_header_def rbind_def rreturn_def unser_ser_int hash.get_ser)

lemma reader_header: "stream_reader (unser_header this)"
  unfolding unser_header_def by (intro reader_bind hash.stream_reader_axioms) auto

lemma size_block_ser:
  assumes "block_ok b"
  shows "size_block b = word_of_nat (length (ser_block b))"
proof -
  have "size_vector size_tx (vtx b) = word_of_nat (length (ser_vector ser_tx (vtx b)))"
    using assms by (intro size_vector_ok [of tx_ok] size_tx_ser) (simp_all add: block_ok_def)
  moreover have "size_header b = word_of_nat (length (ser_header b))"
    using assms by (simp add: size_header_def ser_header_def block_ok_def length_ser_hash int_sized.size_ser)
  moreover have "pk_GetSerializeSize (cpbk b) = word_of_nat (length (ser_pubkey (cpbk b)))"
    using assms by (intro pk_sized) (simp add: block_ok_def)
  ultimately show ?thesis
    by (simp add: size_block_def ser_block_def vch_sized.size_ser)
qed

lemma reader_block: "stream_reader (unser_block this)"
  unfolding unser_block_def
  by (intro reader_bind reader_header reader_vector reader_pubkey tx.stream_reader_axioms) auto

lemma unser_ser_block:
  assumes "block_ok b" and "pk_IsValid (cpbk b)" and "pk_ok (cpbk this)"
  shows "\<exists>q. unser_block this (ser_block b @ rest) = Inr (b\<lparr>cpbk := q, vMerkleTree := vMerkleTree this\<rparr>, rest)
    \<and> pk_bytes q = pk_bytes (cpbk b) \<and> pk_ok q"
proof -
  have ok: "pk_ok (cpbk b)" using assms(1) by (simp add: block_ok_def)
  obtain q where q: "\<And>rest. unser_pubkey (cpbk this) (ser_pubkey (cpbk b) @ rest) = Inr (q, rest)"
    "pk_bytes q = pk_bytes (cpbk b)" "pk_ok q"
    using unser_ser_valid_pubkey [OF ok assms(3,2)] unser_ser_pubkey [OF ok, of "cpbk this"] by auto
  have "unser_block this (ser_block b @ rest) = Inr (b\<lparr>cpbk := q, vMerkleTree := vMerkleTree this\<rparr>, rest)"
    using assms(1) q(1) codec.get_ser [OF tx.vector_codec [of 88], of "vtx b"]
    by (simp add: unser_block_def ser_block_def rbind_def rreturn_def unser_ser_header unser_ser_vch block_ok_def)
  with q(2,3) show ?thesis by blast
qed

lemma block_truncated:
  assumes "block_ok b" and "k < length (ser_block b)"
  shows "\<exists>e. unser_block this (take k (ser_block b)) = Inl e"
proof (cases "unser_block this (take k (ser_block b))")
  case (Inr a)
  then obtain y r where "unser_block this (take k (ser_block b)) = Inr (y, r)" by (cases a) auto
  from stream_reader.extend [OF reader_block this, of "drop k (ser_block b)"]
  have *: "unser_block this (ser_block b) = Inr (y, r @ drop k (ser_block b))" by simp
  obtain q where q: "\<And>rest. unser_pubkey (cpbk this) (ser_pubkey (cpbk b) @ rest) = Inr (q, rest)"
    using unser_ser_pubkey [of "cpbk b" "cpbk this"] assms(1) by (auto simp: block_ok_def)
  have "unser_block this (ser_block b @ []) = Inr (b\<lparr>cpbk := q, vMerkleTree := vMerkleTree this\<rparr>, [])"
    using assms(1) q codec.get_ser [OF tx.vector_codec [of 88], of "vtx b"]
    by (simp add: unser_block_def ser_block_def rbind_def rreturn_def unser_ser_header unser_ser_vch block_ok_def
        del: append_Nil2)
  with * have "r @ drop k (ser_block b) = []" by simp
  then show ?thesis using assms(2) by simp
qed blast

section \<open>The checks\<close>

lemma fold_counts:
  assumes "\<And>x. x \<in> set l \<Longrightarrow> f x = (word_of_nat (g x) :: 'a::len word)"
  shows "fold (\<lambda>x n. n + f x) l (word_of_nat n) = word_of_nat (n + sum_list (map g l))"
  using assms by (induction l arbitrary: n) (simp_all add: add.assoc flip: of_nat_add)

text \<open>The signature operations of a script, and of a transaction.\<close>
definition script_sigops :: "script \<Rightarrow> nat" where
  "script_sigops s = sigops_sum False OP_INVALIDOPCODE (fst (parse s))"

definition tx_sigops :: "CTransaction \<Rightarrow> nat" where
  "tx_sigops tx = (\<Sum>i\<leftarrow>vin tx. script_sigops (scriptSig i)) + (\<Sum>out\<leftarrow>vout tx. script_sigops (scriptPubKey out))"

lemma script_sigops_word:
  "length s < 2 ^ 27 \<Longrightarrow> GetSigOpCount s False = word_of_nat (script_sigops s)"
  using GetSigOpCount_value [of s False] unfolding script_sigops_def by (metis of_nat_unat ucast_id)

lemma script_sigops_le: "script_sigops s \<le> 20 * length s"
  using sigops_sum_le [of OP_INVALIDOPCODE "fst (parse s)"] length_parse [of s] by (auto simp: script_sigops_def)

lemma length_ser_vch: "length s \<le> length (ser_vch s)"
  by (simp add: ser_vch_def)

lemma sum_lengths_le:
  assumes "\<And>x. x \<in> set l \<Longrightarrow> f x \<le> 20 * length (ser x)"
  shows "sum_list (map f l) \<le> 20 * length (ser_vector ser l)"
proof -
  have "sum_list (map f l) \<le> 20 * length (concat (map ser l))"
    using assms by (induction l) (auto simp: add_mono)
  then show ?thesis by (simp add: ser_vector_def)
qed

lemma element_length: "x \<in> set l \<Longrightarrow> length (ser x) \<le> length (ser_vector ser l)"
proof -
  have "x \<in> set l \<Longrightarrow> length (ser x) \<le> length (concat (map ser l))" by (induction l) auto
  then show "x \<in> set l \<Longrightarrow> length (ser x) \<le> length (ser_vector ser l)" by (simp add: ser_vector_def)
qed

lemma tx_sigops_le: "tx_sigops tx \<le> 20 * length (ser_tx tx)"
proof -
  have "script_sigops (scriptSig i) \<le> 20 * length (ser_txin i)" for i
    using script_sigops_le [of "scriptSig i"] length_ser_vch [of "scriptSig i"] by (simp add: ser_txin_def)
  moreover have "script_sigops (scriptPubKey i) \<le> 20 * length (ser_txout i)" for i
    using script_sigops_le [of "scriptPubKey i"] length_ser_vch [of "scriptPubKey i"] by (simp add: ser_txout_def)
  ultimately have "(\<Sum>i\<leftarrow>vin tx. script_sigops (scriptSig i)) \<le> 20 * length (ser_vector ser_txin (vin tx))"
    "(\<Sum>i\<leftarrow>vout tx. script_sigops (scriptPubKey i)) \<le> 20 * length (ser_vector ser_txout (vout tx))"
    by (intro sum_lengths_le; simp)+
  then show ?thesis by (simp add: tx_sigops_def ser_tx_def)
qed

lemma legacy_sigops_word:
  assumes "length (ser_tx tx) < 2 ^ 27"
  shows "tx_GetLegacySigOpCount tx = word_of_nat (tx_sigops tx)"
proof -
  have "length (scriptSig i) < 2 ^ 27" if "i \<in> set (vin tx)" for i
    using length_ser_vch [of "scriptSig i"] element_length [OF that, of ser_txin] assms by (simp add: ser_txin_def ser_tx_def)
  moreover have "length (scriptPubKey i) < 2 ^ 27" if "i \<in> set (vout tx)" for i
    using length_ser_vch [of "scriptPubKey i"] element_length [OF that, of ser_txout] assms
    by (simp add: ser_txout_def ser_tx_def)
  ultimately show ?thesis
    using fold_counts [of "vin tx" "\<lambda>i. GetSigOpCount (scriptSig i) False" "\<lambda>i. script_sigops (scriptSig i)" 0]
      fold_counts [of "vout tx" "\<lambda>i. GetSigOpCount (scriptPubKey i) False" "\<lambda>i. script_sigops (scriptPubKey i)"]
    by (simp add: tx_GetLegacySigOpCount_def tx_sigops_def script_sigops_word)
qed

lemma block_sigops:
  assumes "length (ser_block b) \<le> 1000000"
  shows "fold (\<lambda>tx n. n + tx_GetLegacySigOpCount tx) (vtx b) 0 > MAX_BLOCK_SIZE div 50 \<longleftrightarrow>
    (\<Sum>tx\<leftarrow>vtx b. tx_sigops tx) > 20000"
proof -
  have le: "length (ser_vector ser_tx (vtx b)) \<le> 1000000" using assms by (simp add: ser_block_def)
  then have "tx_GetLegacySigOpCount tx = word_of_nat (tx_sigops tx)" if "tx \<in> set (vtx b)" for tx
    using element_length [OF that, of ser_tx] by (intro legacy_sigops_word) simp
  then have "fold (\<lambda>tx n. n + tx_GetLegacySigOpCount tx) (vtx b) 0 = word_of_nat (\<Sum>tx\<leftarrow>vtx b. tx_sigops tx)"
    using fold_counts [of "vtx b" tx_GetLegacySigOpCount tx_sigops 0] by simp
  moreover have "(\<Sum>tx\<leftarrow>vtx b. tx_sigops tx) \<le> 20 * 1000000"
    using sum_lengths_le [of "vtx b" tx_sigops ser_tx] tx_sigops_le le by (meson le_trans mult_le_mono2)
  ultimately show ?thesis
    by (simp add: MAX_BLOCK_SIZE_def word_less_nat_alt unat_of_nat)
qed

text \<open>The rules of one transaction.\<close>
definition tx_rules :: "CTransaction \<Rightarrow> bool" where
  "tx_rules tx \<longleftrightarrow> vin tx \<noteq> [] \<and> vout tx \<noteq> [] \<and> tx_in_bounds tx \<and>
     (if map prevout (vin tx) = [op_SetNull] then length (scriptSig (hd (vin tx))) \<in> {2..100}
      else op_SetNull \<notin> set (map prevout (vin tx)))"

lemma CheckTransaction_rules:
  assumes "tx_ok tx"
  shows "if tx_rules tx then CheckTransaction tx st = (True, st)
    else \<exists>level\<in>{10, 100}. CheckTransaction tx st = vs_DoS st level False False"
  unfolding CheckTransaction_cases [OF assms] tx_rules_def by auto

lemma check_txs_rules:
  assumes "list_all tx_ok l"
  shows "if list_all tx_rules l then check_txs l st = (True, st)
    else \<exists>level\<in>{10, 100}. check_txs l st = vs_DoS st level False False"
  using assms
proof (induction l)
  case (Cons tx l)
  have no: "(case vs_DoS st level False False of (ok, st) \<Rightarrow> if \<not> ok then (False, st) else check_txs l st) =
      vs_DoS st level False False" for level by (simp add: vs_DoS_def)
  show ?case
    using Cons CheckTransaction_rules [of tx st]
    by (cases "tx_rules tx") (auto simp: no)
qed simp

lemma unique_txs_eq:
  assumes "v \<noteq> []" and "n \<le> length v" and "take (length v) tree = map h v"
  shows "unique_txs tree v n s = Some (s \<union> h ` set (drop (length v - n) v))"
  using assms(2)
proof (induction n arbitrary: s)
  case (Suc n)
  let ?i = "length v - Suc n"
  have i: "?i < length v" and d: "drop ?i v = v ! ?i # drop (length v - n) v"
    using Suc(2) assms(1) Cons_nth_drop_Suc [of ?i v] by (auto simp: Suc_diff_Suc)
  have "length v \<le> length tree" using arg_cong [OF assms(3), of length] by simp
  moreover have "tree ! ?i = h (v ! ?i)"
    using arg_cong [OF assms(3), of "\<lambda>l. l ! ?i"] i by simp
  ultimately have "blk_GetTxHash tree v ?i = Some (h (v ! ?i))"
    using i assms(1) by (auto simp: blk_GetTxHash_def)
  then show ?case using Suc d by (simp add: Un_insert_left Un_insert_right)
qed simp

lemma unique_txs_tree:
  assumes "v \<noteq> []"
  shows "unique_txs (snd (BuildMerkleTree C v)) v (length v) {} = Some (set (map (tx_GetHash C) v))"
proof -
  have "take (length l) (concat (merkle_levels C l)) = l" for l
    by (subst merkle_levels.simps) simp
  from this [of "map (tx_GetHash C) v"] show ?thesis
    using unique_txs_eq [OF assms order_refl, of "snd (BuildMerkleTree C v)" "tx_GetHash C" "{}"]
    by (simp add: BuildMerkleTree_def Let_def merkle_tree_eq)
qed

section \<open>What passes\<close>

text \<open>The rules of a block without its chain.\<close>

definition block_fits :: "CBlock \<Rightarrow> bool" where
  "block_fits b \<longleftrightarrow> vtx b \<noteq> [] \<and> length (ser_block b) \<le> 1000000"

definition coinbase_first :: "CBlock \<Rightarrow> bool" where
  "coinbase_first b \<longleftrightarrow> map prevout (vin (hd (vtx b))) = [op_SetNull] \<and>
     (\<forall>tx\<in>set (tl (vtx b)). map prevout (vin tx) \<noteq> [op_SetNull])"

definition txids :: "('k, 'x) crypto_scheme \<Rightarrow> CBlock \<Rightarrow> uint256 list" where
  "txids C b = map (tx_GetHash C) (vtx b)"

definition block_rules :: "('k, 'x) crypto_scheme \<Rightarrow> int \<Rightarrow> bool \<Rightarrow> CBlock \<Rightarrow> bool" where
  "block_rules C now fCheckMerkleRoot b \<longleftrightarrow>
     block_fits b \<and> GetBlockTime b \<le> now + 7200 \<and> coinbase_first b \<and> (\<forall>tx\<in>set (vtx b). tx_rules tx) \<and>
     distinct (txids C b) \<and> (\<Sum>tx\<leftarrow>vtx b. tx_sigops tx) \<le> 20000 \<and>
     (fCheckMerkleRoot \<longrightarrow> hashMerkleRoot b = merkle_root C (txids C b))"

lemma block_size_check:
  assumes "block_ok b" and "length (ser_block b) < 2 ^ 32"
  shows "vtx b = [] \<or> length (vtx b) > unat MAX_BLOCK_SIZE \<or> size_block b > MAX_BLOCK_SIZE \<longleftrightarrow> \<not> block_fits b"
proof -
  have "size_block b > MAX_BLOCK_SIZE \<longleftrightarrow> length (ser_block b) > 1000000"
    using assms(2) by (simp add: size_block_ser [OF assms(1)] MAX_BLOCK_SIZE_def word_less_nat_alt unat_of_nat)
  moreover have "length (vtx b) \<le> length (ser_block b)"
  proof -
    have "1 \<le> length (ser_tx tx)" for tx by (simp add: ser_tx_def)
    then have "length l \<le> length (concat (map ser_tx l))" for l
      by (induction l) (simp_all add: add_mono [of 1 _ "length l" for l, simplified])
    from this [of "vtx b"] show ?thesis by (simp add: ser_block_def ser_vector_def)
  qed
  ultimately show ?thesis by (auto simp: block_fits_def MAX_BLOCK_SIZE_def)
qed

lemma coinbase_check:
  assumes "vtx b \<noteq> []" and "list_all tx_ok (vtx b)"
  shows "tx_IsCoinBase (vtx b ! 0) \<and> \<not> list_ex tx_IsCoinBase (drop 1 (vtx b)) \<longleftrightarrow> coinbase_first b"
proof -
  have "tx_IsCoinBase tx \<longleftrightarrow> map prevout (vin tx) = [op_SetNull]" if "tx \<in> set (vtx b)" for tx
  proof -
    have "op_IsNull (prevout i) \<longleftrightarrow> prevout i = op_SetNull" if "i \<in> set (vin tx)" for i
      using that \<open>tx \<in> set (vtx b)\<close> assms(2)
      by (intro op_IsNull_iff) (auto simp: tx_ok_def txin_ok_def list_all_iff)
    then show ?thesis by (cases "vin tx") (auto simp: tx_IsCoinBase_def)
  qed
  then show ?thesis
    using assms(1) by (cases "vtx b") (auto simp: coinbase_first_def list_ex_iff)
qed

lemma bu_neq_hash: "length a = WIDTH256 \<Longrightarrow> length b = WIDTH256 \<Longrightarrow> bu_neq a b \<longleftrightarrow> a \<noteq> b"
  by (simp add: bu_neq_def bu_eq_iff)

lemma length_merkle_root:
  "l \<noteq> [] \<Longrightarrow> list_all (\<lambda>h. length h = WIDTH256) l \<Longrightarrow> length (merkle_root C l) = WIDTH256"
proof (induction C l rule: merkle_root.induct)
  case (1 C l)
  have "length (merkle_root C (pair_up C l)) = WIDTH256" if "length l > 1"
    using 1(1) [OF that] pair_up_hashes [of C l] that by (cases "pair_up C l") (auto dest: arg_cong [of _ _ length])
  then show ?case using 1(2,3) by (subst merkle_root.simps) (auto simp: list_all_iff)
qed

lemma CheckBlock_cases:
  assumes "block_ok b" and "length (ser_block b) < 2 ^ 32"
  shows "CheckBlock C now fCheckPOW fCheckMerkleRoot b st =
    (let b' = b\<lparr>vMerkleTree := snd (BuildMerkleTree C (vtx b))\<rparr>;
         reject = (\<lambda>level corrupt b. Some (vs_DoS st level False corrupt, b))
     in if \<not> block_fits b then reject 100 False b
        else if GetBlockTime b > now + 7200 then reject 0 False b
        else if \<not> coinbase_first b then reject 100 False b
        else if \<not> list_all tx_rules (vtx b) then Some (check_txs (vtx b) st, b)
        else if \<not> distinct (txids C b) then reject 100 True b'
        else if (\<Sum>tx\<leftarrow>vtx b. tx_sigops tx) > 20000 then reject 100 False b'
        else if fCheckMerkleRoot \<and> hashMerkleRoot b \<noteq> merkle_root C (txids C b) then reject 100 False b'
        else Some ((True, st), b'))"
proof -
  have ok: "list_all tx_ok (vtx b)" "length (hashMerkleRoot b) = WIDTH256" using assms(1) by (simp_all add: block_ok_def)
  note size = block_size_check [OF assms]
  show ?thesis
  proof (cases "block_fits b \<and> GetBlockTime b \<le> now + 7200 \<and> coinbase_first b")
    case False
    then show ?thesis
      using coinbase_check [OF _ ok(1)] unfolding CheckBlock_def size
      by (auto simp: block_fits_def vs_Invalid_def Let_def)
  next
    case True
    then have ne: "vtx b \<noteq> []" and len: "length (ser_block b) \<le> 1000000" by (simp_all add: block_fits_def)
    have cb: "tx_IsCoinBase (vtx b ! 0)" "\<not> list_ex tx_IsCoinBase (drop 1 (vtx b))"
      using coinbase_check [OF ne ok(1)] True by simp_all
    have card: "card (set (txids C b)) \<noteq> length (vtx b) \<longleftrightarrow> \<not> distinct (txids C b)"
      using card_distinct [of "txids C b"] distinct_card [of "txids C b"] by (auto simp: txids_def)
    have root: "fst (BuildMerkleTree C (vtx b)) = merkle_root C (txids C b)"
      using BuildMerkleTree_root [OF ne] by (simp add: txids_def)
    have "length (merkle_root C (txids C b)) = WIDTH256"
      using ne by (intro length_merkle_root) (simp_all add: txids_def list_all_iff)
    then have neq: "bu_neq (hashMerkleRoot b) (merkle_root C (txids C b)) \<longleftrightarrow> hashMerkleRoot b \<noteq> merkle_root C (txids C b)"
      using ok(2) by (intro bu_neq_hash)
    note uniq = unique_txs_tree [OF ne, of C, folded txids_def]
    note sig = block_sigops [OF len]
    show ?thesis
    proof (cases "list_all tx_rules (vtx b)")
      case False
      then have "fst (check_txs (vtx b) st) = False"
        using check_txs_rules [OF ok(1), of st] by (auto simp: vs_DoS_def split: if_splits)
      then show ?thesis
        using True False cb ne size unfolding CheckBlock_def by (cases "check_txs (vtx b) st") (auto simp: Let_def)
    next
      case pass: True
      then have "check_txs (vtx b) st = (True, st)" using check_txs_rules [OF ok(1), of st] by simp
      then show ?thesis
        using True pass cb ne size unfolding CheckBlock_def Let_def
        by (simp add: uniq card sig root neq)
    qed
  qed
qed

lemma CheckBlock_rules:
  assumes "block_ok b" and "length (ser_block b) < 2 ^ 32"
    and "CheckBlock C now fCheckPOW fCheckMerkleRoot b st = Some ((True, st'), b')"
  shows "block_rules C now fCheckMerkleRoot b"
proof -
  have "list_all tx_ok (vtx b)" using assms(1) by (simp add: block_ok_def)
  then have "list_all tx_rules (vtx b) \<or> fst (check_txs (vtx b) st) = False"
    using check_txs_rules [of "vtx b" st] by (auto simp: vs_DoS_def split: if_splits)
  then show ?thesis
    using assms(3) unfolding CheckBlock_cases [OF assms(1,2)] Let_def
    by (auto simp: block_rules_def list_all_iff vs_DoS_def split: if_splits)
qed

section \<open>Properties\<close>

text \<open>C28: A block with a valid key reads back as written, whatever object it is read into and whatever follows, except that
  the Merkle tree of that object stays and that the bytes of the key after its length are that object's; its hash, its
  signature check and its announced size are those of the block written.  A block cut short is an error.\<close>

theorem block_roundtrip:
  assumes "block_ok b" and "pk_IsValid (cpbk b)" and "pk_ok (cpbk this)"
  shows "\<exists>b'. unser_block this (ser_block b @ rest) = Inr (b', rest)
    \<and> GetBlockHeader b' = GetBlockHeader b \<and> vtx b' = vtx b \<and> blk_vchSig b' = blk_vchSig b
    \<and> pk_bytes (cpbk b') = pk_bytes (cpbk b) \<and> vMerkleTree b' = vMerkleTree this
    \<and> blk_GetHash C b' = blk_GetHash C b \<and> blk_CheckSig C b' = blk_CheckSig C b
    \<and> size_block b = word_of_nat (length (ser_block b))
    \<and> (k < length (ser_block b) \<longrightarrow> (\<exists>e. unser_block this (take k (ser_block b)) = Inl e))"
proof -
  obtain q where q: "unser_block this (ser_block b @ rest) = Inr (b\<lparr>cpbk := q, vMerkleTree := vMerkleTree this\<rparr>, rest)"
    "pk_bytes q = pk_bytes (cpbk b)" "pk_ok q"
    using unser_ser_block [OF assms] by blast
  have "pk_ok (cpbk b)" using assms(1) by (simp add: block_ok_def)
  then have "pk_size q = pk_size (cpbk b)" using q(2,3) by (metis length_pk_bytes)
  then have "pk_Verify C q = pk_Verify C (cpbk b)"
    using q(2) by (intro ext) (simp add: pk_Verify_def pk_IsValid_def ec_SetPubKey_def pk_bytes_def)
  then show ?thesis
    using q size_block_ser [OF assms(1)] block_truncated [OF assms(1), of k this]
    by (simp add: GetBlockHeader_def blk_GetHash_def header_bytes_def blk_CheckSig_def)
qed


section \<open>What the Merkle root of a block commits to\<close>

text \<open>The byte strings that are hashed for a tree: the codes of the transactions and the pairs of its nodes.\<close>

definition node_input :: "uint256 \<times> uint256 \<Rightarrow> byte list" where
  "node_input p = bu_bytes (fst p) @ bu_bytes (snd p)"

definition hash_inputs :: "('k, 'x) crypto_scheme \<Rightarrow> CTransaction list \<Rightarrow> byte list list" where
  "hash_inputs C v = map ser_tx v @ map node_input (tree_pairs C (map (tx_GetHash C) v))"

definition hash_collision :: "('k, 'x) crypto_scheme \<Rightarrow> byte list list \<Rightarrow> bool" where
  "hash_collision C l \<longleftrightarrow> (\<exists>x\<in>set l. \<exists>y\<in>set l. x \<noteq> y \<and> Hash C x = Hash C y)"

lemma node_hash: "merkle_node C a b = Hash C (node_input (a, b))"
  by (simp add: merkle_node_def Hash2_def Hash_def node_input_def)

lemma tx_hash: "tx_GetHash C tx = Hash C (ser_tx tx)"
  by (simp add: tx_GetHash_def SerializeHash_def hw_GetHash_def hw_write_def hw_init_def Hash_def Let_def)

lemma node_input_inject:
  assumes "length a = WIDTH256" "length b = WIDTH256" "length c = WIDTH256" "length d = WIDTH256"
    and "node_input (a, b) = node_input (c, d)"
  shows "a = c \<and> b = d"
proof -
  have "bu_bytes a = bu_bytes c" "bu_bytes b = bu_bytes d" using assms by (simp_all add: node_input_def)
  then show ?thesis using bu_of_bytes_bu_bytes assms(1-4) by metis
qed

text \<open>The pairs of one level.\<close>

fun row_pairs :: "uint256 list \<Rightarrow> (uint256 \<times> uint256) list" where
  "row_pairs [] = []"
| "row_pairs [a] = [(a, a)]"
| "row_pairs (a # b # l) = (a, b) # row_pairs l"

lemma pair_up_row: "pair_up C l = map (\<lambda>p. merkle_node C (fst p) (snd p)) (row_pairs l)"
  by (induction C l rule: pair_up.induct) simp_all

lemma row_pairs_nth:
  "row_pairs l = map (\<lambda>k. (l ! (2 * k), l ! min (2 * k + 1) (length l - 1))) [0..<(length l + 1) div 2]"
proof (induction l rule: row_pairs.induct)
  case (3 a b l)
  have "[0..<(length (a # b # l) + 1) div 2] = 0 # map Suc [0..<(length l + 1) div 2]"
    by (simp add: upt_conv_Cons map_Suc_upt del: upt_Suc)
  then show ?case using 3 by (auto simp: min_def nth_Cons')
qed simp_all

lemma tree_pairs_row: "length l > 1 \<Longrightarrow> tree_pairs C l = row_pairs l @ tree_pairs C (pair_up C l)"
  by (subst tree_pairs.simps) (simp add: row_pairs_nth)

lemma row_pairs_elements: "p \<in> set (row_pairs l) \<Longrightarrow> fst p \<in> set l \<and> snd p \<in> set l"
  by (induction l rule: row_pairs.induct) auto

lemma distinct_row_pairs: "distinct l \<Longrightarrow> distinct (row_pairs l)"
  by (induction l rule: row_pairs.induct) (auto dest: row_pairs_elements)

text \<open>Two rows without repetitions have the same pairs only if they are the same: a row that repeats its last element
  to make it a pair differs from the row it imitates.\<close>

lemma row_pairs_inject: "distinct l \<Longrightarrow> distinct m \<Longrightarrow> row_pairs l = row_pairs m \<Longrightarrow> l = m"
proof (induction l arbitrary: m rule: row_pairs.induct)
  case 1
  then show ?case by (cases m rule: row_pairs.cases) auto
next
  case (2 a)
  then show ?case by (cases m rule: row_pairs.cases) auto
next
  case (3 a b l)
  then show ?case by (cases m rule: row_pairs.cases) auto
qed

abbreviation hashes :: "uint256 list \<Rightarrow> bool" where
  "hashes l \<equiv> list_all (\<lambda>h. length h = WIDTH256) l"

text \<open>Trees whose inputs are in a list without a collision.\<close>

definition covered :: "('k, 'x) crypto_scheme \<Rightarrow> byte list list \<Rightarrow> uint256 list \<Rightarrow> bool" where
  "covered C ins l \<longleftrightarrow> hashes l \<and> node_input ` set (tree_pairs C l) \<subseteq> set ins"

abbreviation node_of :: "('k, 'x) crypto_scheme \<Rightarrow> byte list list \<Rightarrow> uint256 \<Rightarrow> bool" where
  "node_of C ins h \<equiv> \<exists>p. node_input p \<in> set ins \<and> length (node_input p) = 64 \<and> h = merkle_node C (fst p) (snd p)"

lemma covered_up: "covered C ins l \<Longrightarrow> length l > 1 \<Longrightarrow> covered C ins (pair_up C l)"
  using pair_up_hashes [of C l] by (auto simp: tree_pairs_row covered_def)

lemma row_input:
  "covered C ins l \<Longrightarrow> length l > 1 \<Longrightarrow> p \<in> set (row_pairs l) \<Longrightarrow>
   node_input p \<in> set ins \<and> length (fst p) = WIDTH256 \<and> length (snd p) = WIDTH256"
  using row_pairs_elements [of p l] by (auto simp: tree_pairs_row covered_def list_all_iff)

lemma node_inject:
  assumes "\<not> hash_collision C ins" "covered C ins l" "covered C ins m" "length l > 1" "length m > 1"
  shows "inj_on (\<lambda>p. merkle_node C (fst p) (snd p)) (set (row_pairs l) \<union> set (row_pairs m))"
proof (rule inj_onI)
  fix p q
  assume *: "p \<in> set (row_pairs l) \<union> set (row_pairs m)" "q \<in> set (row_pairs l) \<union> set (row_pairs m)"
    "merkle_node C (fst p) (snd p) = merkle_node C (fst q) (snd q)"
  then have in_ins: "node_input p \<in> set ins" "length (fst p) = WIDTH256" "length (snd p) = WIDTH256"
    "node_input q \<in> set ins" "length (fst q) = WIDTH256" "length (snd q) = WIDTH256"
    using row_input [OF assms(2,4)] row_input [OF assms(3,5)] by blast+
  then have "node_input p = node_input q"
    using assms(1) *(3) by (auto simp: hash_collision_def node_hash)
  then show "p = q"
    using in_ins node_input_inject [of "fst p" "snd p" "fst q" "snd q"] by (simp add: prod_eq_iff)
qed

lemma distinct_up:
  assumes "\<not> hash_collision C ins" "covered C ins l" "length l > 1" "distinct l"
  shows "distinct (pair_up C l)"
  using node_inject [OF assms(1,2,2,3,3)] distinct_row_pairs [OF assms(4)] by (simp add: pair_up_row distinct_map)

lemma pair_up_inject:
  assumes "\<not> hash_collision C ins" "covered C ins l" "covered C ins m" "length l > 1" "length m > 1" "distinct l" "distinct m"
    and "pair_up C l = pair_up C m"
  shows "l = m"
proof -
  have "row_pairs l = row_pairs m"
    using assms(8) node_inject [OF assms(1-5)] unfolding pair_up_row by (simp add: inj_on_map_eq_map)
  then show ?thesis by (rule row_pairs_inject [OF assms(6,7)])
qed

definition depth :: "('k, 'x) crypto_scheme \<Rightarrow> uint256 list \<Rightarrow> nat" where
  "depth C l = length (merkle_levels C l)"

lemma depth_up: "length l > 1 \<Longrightarrow> depth C l = Suc (depth C (pair_up C l))"
  unfolding depth_def by (subst merkle_levels.simps) simp

lemma depth_one: "\<not> length l > 1 \<Longrightarrow> depth C l = 1"
  unfolding depth_def by (subst merkle_levels.simps) simp

lemma depth_pos: "0 < depth C l"
  using depth_up [of l C] depth_one [of l C] by (cases "length l > 1") simp_all

lemma depth_more: "depth C l > 1 \<longleftrightarrow> length l > 1"
  using depth_up [of l C] depth_one [of l C] depth_pos [of C "pair_up C l"] by (cases "length l > 1") simp_all

lemma merkle_root_up: "length l > 1 \<Longrightarrow> merkle_root C (pair_up C l) = merkle_root C l"
  by (subst (2) merkle_root.simps) simp

lemma pair_up_Nil: "pair_up C l = [] \<longleftrightarrow> l = []"
  by (cases "(C, l)" rule: pair_up.cases) auto

lemma same_depth:
  assumes "\<not> hash_collision C ins"
  shows "covered C ins l \<Longrightarrow> covered C ins m \<Longrightarrow> distinct l \<Longrightarrow> distinct m \<Longrightarrow> l \<noteq> [] \<Longrightarrow> m \<noteq> [] \<Longrightarrow>
    depth C l = depth C m \<Longrightarrow> merkle_root C l = merkle_root C m \<Longrightarrow> l = m"
proof (induction "depth C l" arbitrary: l m rule: less_induct)
  case less
  show ?case
  proof (cases "length l > 1")
    case True
    then have m: "length m > 1" using less(8) depth_more [of C l] depth_more [of C m] by simp
    note up = depth_up [OF True, of C] depth_up [OF m, of C]
    have "pair_up C l = pair_up C m"
    proof (rule less(1))
      show "depth C (pair_up C l) < depth C l" "depth C (pair_up C l) = depth C (pair_up C m)" using up less(8) by simp_all
      show "covered C ins (pair_up C l)" by (rule covered_up [OF less(2) True])
      show "covered C ins (pair_up C m)" by (rule covered_up [OF less(3) m])
      show "distinct (pair_up C l)" by (rule distinct_up [OF assms less(2) True less(4)])
      show "distinct (pair_up C m)" by (rule distinct_up [OF assms less(3) m less(5)])
      show "pair_up C l \<noteq> []" "pair_up C m \<noteq> []" using less(6,7) by (simp_all add: pair_up_Nil)
      show "merkle_root C (pair_up C l) = merkle_root C (pair_up C m)"
        using less(9) by (simp only: merkle_root_up [OF True] merkle_root_up [OF m])
    qed
    then show ?thesis by (rule pair_up_inject [OF assms less(2,3) True m less(4,5)])
  next
    case False
    then have "\<not> length m > 1" using less(8) depth_more [of C l] depth_more [of C m] by simp
    then show ?thesis
      using False less(6,7,9) by (cases l; cases m) (simp_all add: merkle_root.simps)
  qed
qed

lemma deeper:
  assumes "\<not> hash_collision C ins" and "covered C ins l" and "distinct l" and "l \<noteq> []"
  shows "covered C ins m \<Longrightarrow> distinct m \<Longrightarrow> m \<noteq> [] \<Longrightarrow> depth C l < depth C m \<Longrightarrow>
    merkle_root C l = merkle_root C m \<Longrightarrow> node_of C ins (hd l)"
proof (induction "depth C m" arbitrary: m rule: less_induct)
  case less
  have m: "length m > 1" using less(5) depth_pos [of C l] depth_more [of C m] by simp
  note up = depth_up [OF m, of C] and cov = covered_up [OF less(2) m] and dist = distinct_up [OF assms(1) less(2) m less(3)]
  have ne: "pair_up C m \<noteq> []" using less(4) by (simp add: pair_up_Nil)
  have root: "merkle_root C l = merkle_root C (pair_up C m)" using less(6) by (simp only: merkle_root_up [OF m])
  show ?case
  proof (cases "depth C l = depth C (pair_up C m)")
    case True
    then have l: "l = pair_up C m" by (intro same_depth [OF assms(1,2) cov assms(3) dist assms(4) ne] root)
    obtain p r where p: "row_pairs m = p # r" using m by (cases m rule: row_pairs.cases) auto
    then have "node_input p \<in> set ins" "length (node_input p) = 64"
      using row_input [OF less(2) m, of p] by (simp_all add: node_input_def)
    moreover have "hd l = merkle_node C (fst p) (snd p)" by (simp add: l pair_up_row p)
    ultimately show ?thesis by blast
  next
    case False
    show ?thesis by (rule less(1) [OF _ cov dist ne _ root]) (use False up less(5) in simp_all)
  qed
qed

lemma same_root:
  assumes "\<not> hash_collision C ins" and "covered C ins l" "covered C ins m" and "distinct l" "distinct m" "l \<noteq> []" "m \<noteq> []"
    and "merkle_root C l = merkle_root C m"
  shows "l = m \<or> node_of C ins (hd l) \<or> node_of C ins (hd m)"
proof (cases "depth C l" "depth C m" rule: linorder_cases)
  case less
  then show ?thesis using deeper [OF assms(1,2,4,6,3,5,7) _ assms(8)] by blast
next
  case equal
  then show ?thesis using same_depth [OF assms(1-7) _ assms(8)] by blast
next
  case greater
  then show ?thesis using deeper [OF assms(1,3,5,7,2,4,6) _ assms(8) [symmetric]] by blast
qed

text \<open>C8: Two blocks that \<open>CheckBlock\<close> accepts and that name the same Merkle root hold the same transactions; or
  two different byte strings hashed for them have one hash; or a transaction of one of them has a code of 64 bytes, which
  can be read as a pair of nodes.\<close>

theorem checked_blocks_same_root:
  assumes "block_ok b" and "length (ser_block b) < 2 ^ 32" and "block_ok b'" and "length (ser_block b') < 2 ^ 32"
    and "CheckBlock C now pow True b st = Some ((True, st1), b1)"
    and "CheckBlock C now' pow' True b' st' = Some ((True, st2), b2)"
    and "hashMerkleRoot b = hashMerkleRoot b'"
  shows "vtx b = vtx b' \<or> hash_collision C (hash_inputs C (vtx b) @ hash_inputs C (vtx b'))
    \<or> (\<exists>tx\<in>set (vtx b) \<union> set (vtx b'). length (ser_tx tx) = 64)"
proof (rule disjCI)
  let ?ins = "hash_inputs C (vtx b) @ hash_inputs C (vtx b')"
  assume *: "\<not> (hash_collision C ?ins \<or> (\<exists>tx\<in>set (vtx b) \<union> set (vtx b'). length (ser_tx tx) = 64))"
  then have free: "\<not> hash_collision C ?ins" by blast
  have r: "block_rules C now True b" "block_rules C now' True b'"
    using CheckBlock_rules [OF assms(1,2,5)] CheckBlock_rules [OF assms(3,4,6)] by simp_all
  have ne: "vtx b \<noteq> []" "vtx b' \<noteq> []" using r by (simp_all add: block_rules_def block_fits_def)
  have cov: "covered C ?ins (txids C b)" "covered C ?ins (txids C b')"
    by (auto simp: covered_def list_all_iff txids_def hash_inputs_def)
  have node: "\<not> node_of C ?ins (tx_GetHash C tx)" if "tx \<in> set (vtx b) \<union> set (vtx b')" for tx
  proof
    assume "node_of C ?ins (tx_GetHash C tx)"
    then obtain p where p: "node_input p \<in> set ?ins" "length (node_input p) = 64" "Hash C (ser_tx tx) = Hash C (node_input p)"
      by (auto simp: tx_hash node_hash)
    moreover have "ser_tx tx \<in> set ?ins" using that by (auto simp: hash_inputs_def)
    ultimately have "ser_tx tx = node_input p" using free by (auto simp: hash_collision_def)
    then have "length (ser_tx tx) = 64" using p(2) by simp
    then show False using * that by blast
  qed
  have "txids C b = txids C b' \<or> node_of C ?ins (hd (txids C b)) \<or> node_of C ?ins (hd (txids C b'))"
    using r assms(7) ne by (intro same_root [OF free cov]) (simp_all add: block_rules_def txids_def)
  moreover have "\<not> node_of C ?ins (hd (txids C b))" "\<not> node_of C ?ins (hd (txids C b'))"
    using ne node [of "hd (vtx b)"] node [of "hd (vtx b')"] by (simp_all add: txids_def hd_map)
  ultimately have "txids C b = txids C b'" by blast
  then have "map (tx_GetHash C) (vtx b) = map (tx_GetHash C) (vtx b')" by (simp add: txids_def)
  moreover have "inj_on (tx_GetHash C) (set (vtx b) \<union> set (vtx b'))"
  proof (rule inj_onI)
    fix x y
    assume xy: "x \<in> set (vtx b) \<union> set (vtx b')" "y \<in> set (vtx b) \<union> set (vtx b')" "tx_GetHash C x = tx_GetHash C y"
    then have "ser_tx x \<in> set ?ins" "ser_tx y \<in> set ?ins" by (auto simp: hash_inputs_def)
    then have "ser_tx x = ser_tx y" using free xy(3) unfolding hash_collision_def tx_hash by blast
    moreover have "tx_ok x" "tx_ok y" using xy assms(1,3) by (auto simp: block_ok_def list_all_iff)
    ultimately show "x = y" using tx.ser_prefix_free [of x y "[]" "[]"] by simp
  qed
  ultimately show "vtx b = vtx b'" by (simp add: inj_on_map_eq_map)
qed

text \<open>A block of one coinbase.\<close>

definition coinbase_tx :: CTransaction where
  "coinbase_tx =
     \<lparr>nVersion = 2, vin = [\<lparr>prevout = op_SetNull, scriptSig = [0x51, 0x51], nSequence = 0xFFFFFFFF\<rparr>],
      vout = [\<lparr>nValue = \<lparr>local_map = [(''TET'', 7)], fixed = 0\<rparr>, scriptPubKey = [0x76, 0xA9]\<rparr>],
      nLockTime = 0, Attachments = []\<rparr>"

definition coinbase_block :: "u32 \<Rightarrow> CBlock" where
  "coinbase_block t =
     \<lparr>blk_nVersion = 3, hashPrevBlock = bu_of64 WIDTH256 1, hashMerkleRoot = tx_GetHash example_crypto coinbase_tx, nTime = t,
      vtx = [coinbase_tx], cpbk = pk_of_vch (2 # replicate 32 7), blk_vchSig = [1], vMerkleTree = []\<rparr>"

lemma coinbase_tx_facts:
  "tx_ok coinbase_tx" "tx_rules coinbase_tx" "tx_sigops coinbase_tx = 0" "length (ser_tx coinbase_tx) = 70"
proof -
  have "length (ser_CashName ''TET'') = 4"
    by (simp add: ser_CashName_def bytes_of_string_def ser_string_def ser_vch_def WriteCompactSize_def)
  then show *: "length (ser_tx coinbase_tx) = 70"
    by (simp add: coinbase_tx_def ser_tx_def ser_vector_def ser_txin_def ser_outpoint_def ser_flat_def ser_txout_def ser_vch_def
        ser_cash_def ser_map_def ser_pair_def WriteCompactSize_def op_SetNull_def bu_of64_def)
  show ok: "tx_ok coinbase_tx"
    by (simp add: coinbase_tx_def op_SetNull_def tx_ok_def txin_ok_def outpoint_ok_def txout_ok_def cash_ok_def cash_wf_def bu_of64_def)
  have "size_tx coinbase_tx = 70" using size_tx_ser [OF ok] * by simp
  then show "tx_rules coinbase_tx"
    by (simp add: tx_rules_def tx_in_bounds_def) (simp add: coinbase_tx_def output_in_range_def total_in_range_def total_out_def cash_plus_assign_def getLocal_def cash_empty_def at_def)
  show "tx_sigops coinbase_tx = 0"
    by (simp add: tx_sigops_def script_sigops_def coinbase_tx_def) code_simp
qed

lemma coinbase_block_ok: "block_ok (coinbase_block t)" "length (ser_block (coinbase_block t)) = 179"
proof -
  show "block_ok (coinbase_block t)"
    by (simp add: block_ok_def coinbase_block_def coinbase_tx_facts bu_of64_def)
      (simp add: pk_ok_def pk_of_vch_def pk_Set_def pk_memory_def pk_GetLen_def)
  show "length (ser_block (coinbase_block t)) = 179"
    by (simp add: coinbase_block_def ser_block_def ser_header_def length_ser_hash ser_vector_def coinbase_tx_facts ser_vch_def
        WriteCompactSize_def bu_of64_def ser_pubkey_def pk_size_def pk_of_vch_def pk_Set_def pk_memory_def pk_GetLen_def)
qed

lemma coinbase_block_check:
  assumes "uint t \<le> 7200"
  shows "CheckBlock example_crypto 0 True True (coinbase_block t) vs_init =
     Some ((True, vs_init), (coinbase_block t)\<lparr>vMerkleTree := [tx_GetHash example_crypto coinbase_tx]\<rparr>)"
proof -
  have v: "vtx (coinbase_block t) = [coinbase_tx]" "hashMerkleRoot (coinbase_block t) = tx_GetHash example_crypto coinbase_tx"
    "nTime (coinbase_block t) = t" by (simp_all add: coinbase_block_def)
  have "merkle_levels example_crypto [h] = [[h]]" "merkle_root example_crypto [h] = h" for h
    by (simp_all add: merkle_levels.simps merkle_root.simps)
  moreover have "map prevout (vin coinbase_tx) = [op_SetNull]" by (simp add: coinbase_tx_def)
  ultimately show ?thesis
    using assms by (simp add: CheckBlock_cases coinbase_block_ok block_fits_def GetBlockTime_def coinbase_first_def txids_def v
        coinbase_tx_facts BuildMerkleTree_def merkle_tree_eq Let_def)
qed

lemma coinbase_block_valid: "pk_IsValid (cpbk (coinbase_block t))" "pk_ok pk_invalid"
  by (simp_all add: coinbase_block_def pk_IsValid_def pk_size_def pk_of_vch_def pk_Set_def pk_memory_def pk_GetLen_def
      pk_invalid_def pk_Invalidate_def pk_ok_def)

theorem block_roundtrip_witness:
  "\<exists>b'. unser_block blk_init (ser_block (coinbase_block 5) @ [1]) = Inr (b', [1]) \<and> vtx b' = [coinbase_tx] \<and>
     blk_GetHash example_crypto b' = blk_GetHash example_crypto (coinbase_block 5)"
proof -
  have "pk_ok (cpbk blk_init)" "vtx (coinbase_block 5) = [coinbase_tx]"
    by (simp_all add: blk_init_def blk_SetNull_def header_SetNull_def coinbase_block_valid coinbase_block_def)
  then show ?thesis
    using block_roundtrip [OF coinbase_block_ok(1) [of 5] coinbase_block_valid(1), of blk_init "[1]" example_crypto 0] by auto
qed


theorem checked_blocks_same_root_witness:
  "vtx (coinbase_block 5) = vtx (coinbase_block 6) \<or>
   hash_collision example_crypto (hash_inputs example_crypto [coinbase_tx] @ hash_inputs example_crypto [coinbase_tx]) \<or>
   length (ser_tx coinbase_tx) = 64"
proof -
  have len: "length (ser_block (coinbase_block t)) < 2 ^ 32" for t by (simp add: coinbase_block_ok)
  have v: "vtx (coinbase_block t) = [coinbase_tx]" for t by (simp add: coinbase_block_def)
  have r: "hashMerkleRoot (coinbase_block 5) = hashMerkleRoot (coinbase_block 6)" by (simp add: coinbase_block_def)
  have c: "uint (5 :: u32) \<le> 7200" "uint (6 :: u32) \<le> 7200" by simp_all
  show ?thesis
    using checked_blocks_same_root [OF coinbase_block_ok(1) len coinbase_block_ok(1) len
        coinbase_block_check [OF c(1)] coinbase_block_check [OF c(2)] r]
    by (simp add: v)
qed

end
