(* ===== verification/Chain.thy ===== *)
theory Chain
  imports Block "HOL-Library.Multiset"
begin

text \<open>
  The tree of block index entries (\<open>CBlockIndex\<close> in \<open>main.h\<close>) and the functions that walk it: the median time,
  locators (\<open>CBlockLocator\<close>), the search by height (\<open>FindBlockByHeight\<close> in \<open>main.cpp\<close>) and the order of candidates.
  Entries live in a heap, a function from addresses; a pointer is an optional address.  A walk whose end depends on
  the shape of the tree is a partial function: \<open>None\<close> is a walk that reads through a null pointer or never ends, and
  the lemmas show that it does not happen in a well-formed tree.
\<close>

section \<open>Entries\<close>

type_synonym bptr = "nat option"

record CBlockIndex =
  phashBlock :: uint256
  pprev :: bptr
  pnext :: bptr
  nHeight :: int
  nFile :: u32
  nDataPos :: u32
  nUndoPos :: u32
  nChainWork :: uint256
  nTx :: u32
  nChainTx :: u32
  nStatus :: u32
  bi_nVersion :: u32
  bi_hashMerkleRoot :: uint256
  bi_nTime :: u32
  nBits :: u32
  nNonce :: u32

type_synonym bheap = "nat \<Rightarrow> CBlockIndex"

text \<open>The hash that \<open>phashBlock\<close> points to stands for the pointer; the empty number is the null pointer.\<close>
definition bi_init :: CBlockIndex where
  "bi_init =
     \<lparr>phashBlock = [], pprev = None, pnext = None, nHeight = 0, nFile = 0, nDataPos = 0, nUndoPos = 0,
      nChainWork = bu_of64 WIDTH256 0, nTx = 0, nChainTx = 0, nStatus = 0, bi_nVersion = 0,
      bi_hashMerkleRoot = bu_of64 WIDTH256 0, bi_nTime = 0, nBits = 0, nNonce = 0\<rparr>"

definition bi_of_block :: "'a CBlockHeader_scheme \<Rightarrow> CBlockIndex" where
  "bi_of_block block =
     bi_init\<lparr>bi_nVersion := blk_nVersion block, bi_hashMerkleRoot := hashMerkleRoot block, bi_nTime := nTime block\<rparr>"

abbreviation (input) BLOCK_VALID_TRANSACTIONS :: u32 where "BLOCK_VALID_TRANSACTIONS \<equiv> 3"
abbreviation (input) BLOCK_HAVE_DATA :: u32 where "BLOCK_HAVE_DATA \<equiv> 8"
abbreviation (input) BLOCK_HAVE_UNDO :: u32 where "BLOCK_HAVE_UNDO \<equiv> 16"
abbreviation (input) BLOCK_FAILED_VALID :: u32 where "BLOCK_FAILED_VALID \<equiv> 32"
abbreviation (input) BLOCK_FAILED_CHILD :: u32 where "BLOCK_FAILED_CHILD \<equiv> 64"
abbreviation (input) BLOCK_FAILED_MASK :: u32 where "BLOCK_FAILED_MASK \<equiv> 96"

definition bi_GetBlockTime :: "CBlockIndex \<Rightarrow> int" where
  "bi_GetBlockTime b = uint (bi_nTime b)"

text \<open>The previous hash stays zero in front of a root.\<close>
definition bi_GetBlockHeader :: "bheap \<Rightarrow> CBlockIndex \<Rightarrow> CBlockHeader" where
  "bi_GetBlockHeader H b =
     \<lparr>blk_nVersion = bi_nVersion b,
      hashPrevBlock = (case pprev b of None \<Rightarrow> bu_of64 WIDTH256 0 | Some q \<Rightarrow> phashBlock (H q)),
      hashMerkleRoot = bi_hashMerkleRoot b, nTime = bi_nTime b\<rparr>"

definition IsInMainChain :: "bheap \<Rightarrow> bptr \<Rightarrow> nat \<Rightarrow> bool" where
  "IsInMainChain H pindexBest this = (pnext (H this) \<noteq> None \<or> Some this = pindexBest)"

section \<open>Median times\<close>

text \<open>\<open>n\<close> rounds of \<open>*(--pbegin) = pindex->GetBlockTime(); pindex = pindex->pprev\<close>.\<close>
fun times_back :: "bheap \<Rightarrow> nat \<Rightarrow> bptr \<Rightarrow> int list \<Rightarrow> int list" where
  "times_back H 0 pindex ts = ts"
| "times_back H (Suc n) None ts = ts"
| "times_back H (Suc n) (Some p) ts = times_back H n (pprev (H p)) (bi_GetBlockTime (H p) # ts)"

definition GetMedianTimePast :: "bheap \<Rightarrow> nat \<Rightarrow> int" where
  "GetMedianTimePast H this =
     (let ts = sort (times_back H 11 (Some this) []) in ts ! (length ts div 2))"

fun forward :: "bheap \<Rightarrow> nat \<Rightarrow> nat \<Rightarrow> nat option" where
  "forward H 0 p = Some p"
| "forward H (Suc n) p = (case pnext (H p) of None \<Rightarrow> None | Some q \<Rightarrow> forward H n q)"

definition GetMedianTime :: "bheap \<Rightarrow> nat \<Rightarrow> int" where
  "GetMedianTime H this =
     (case forward H (11 div 2) this of None \<Rightarrow> bi_GetBlockTime (H this) | Some p \<Rightarrow> GetMedianTimePast H p)"

section \<open>The order of candidates\<close>

definition WorkComparator :: "bheap \<Rightarrow> nat \<Rightarrow> nat \<Rightarrow> bool" where
  "WorkComparator H pa pb =
     (if nHeight (H pa) > nHeight (H pb) then False
      else if nHeight (H pa) < nHeight (H pb) then True
      else if bu_lt (phashBlock (H pa)) (phashBlock (H pb)) then False
      else if bu_gt (phashBlock (H pa)) (phashBlock (H pb)) then True
      else False)"

section \<open>Search by height\<close>

partial_function (option) walk_back :: "bheap \<Rightarrow> int \<Rightarrow> nat \<Rightarrow> nat option" where
  "walk_back H n p =
     (if nHeight (H p) > n then (case pprev (H p) of None \<Rightarrow> None | Some q \<Rightarrow> walk_back H n q) else Some p)"

partial_function (option) walk_forward :: "bheap \<Rightarrow> int \<Rightarrow> nat \<Rightarrow> nat option" where
  "walk_forward H n p =
     (if nHeight (H p) < n then (case pnext (H p) of None \<Rightarrow> None | Some q \<Rightarrow> walk_forward H n q) else Some p)"

text \<open>The entry found becomes the cached one.  The division truncates, as in the code.\<close>
definition FindBlockByHeight :: "bheap \<Rightarrow> bptr \<Rightarrow> bptr \<Rightarrow> int \<Rightarrow> bptr \<Rightarrow> int \<Rightarrow> nat option" where
  "FindBlockByHeight H pindexGenesisBlock pindexBest nBestHeight pblockindexFBBHLast n =
     (let half = (if nBestHeight < 0 then - (- nBestHeight div 2) else nBestHeight div 2) in
      case (if n < half then pindexGenesisBlock else pindexBest) of
        None \<Rightarrow> None
      | Some p \<Rightarrow>
          let p = (case pblockindexFBBHLast of
                     Some l \<Rightarrow> if \<bar>n - nHeight (H p)\<bar> > \<bar>n - nHeight (H l)\<bar> then l else p
                   | None \<Rightarrow> p)
          in case walk_back H n p of None \<Rightarrow> None | Some p \<Rightarrow> walk_forward H n p)"

section \<open>Locators\<close>

text \<open>\<open>for (int i = 0; pindex && i < nStep; i++) pindex = pindex->pprev\<close>.\<close>
fun steps_back :: "bheap \<Rightarrow> nat \<Rightarrow> bptr \<Rightarrow> bptr" where
  "steps_back H 0 pindex = pindex"
| "steps_back H (Suc n) None = None"
| "steps_back H (Suc n) (Some p) = steps_back H n (pprev (H p))"

partial_function (option) locator_loop :: "bheap \<Rightarrow> bptr \<Rightarrow> nat \<Rightarrow> uint256 list \<Rightarrow> uint256 list option" where
  "locator_loop H pindex nStep vHave =
     (case pindex of
        None \<Rightarrow> Some vHave
      | Some p \<Rightarrow>
          let vHave = vHave @ [phashBlock (H p)];
              pindex = steps_back H nStep (Some p);
              nStep = (if length vHave > 10 then nStep * 2 else nStep)
          in locator_loop H pindex nStep vHave)"

definition locator_Set :: "bheap \<Rightarrow> uint256 \<Rightarrow> bptr \<Rightarrow> uint256 list option" where
  "locator_Set H hashGenesisBlock pindex =
     (case locator_loop H pindex 1 [] of None \<Rightarrow> None | Some vHave \<Rightarrow> Some (vHave @ [hashGenesisBlock]))"

definition locator_of_hash :: "bheap \<Rightarrow> (uint256 \<Rightarrow> nat option) \<Rightarrow> uint256 \<Rightarrow> uint256 \<Rightarrow> uint256 list option" where
  "locator_of_hash H mapBlockIndex hashGenesisBlock hashBlock =
     (case mapBlockIndex hashBlock of Some p \<Rightarrow> locator_Set H hashGenesisBlock (Some p) | None \<Rightarrow> Some [])"

fun distance_loop :: "bheap \<Rightarrow> (uint256 \<Rightarrow> nat option) \<Rightarrow> bptr \<Rightarrow> uint256 list \<Rightarrow> int \<Rightarrow> int \<Rightarrow> int" where
  "distance_loop H mapBlockIndex pindexBest [] nDistance nStep = nDistance"
| "distance_loop H mapBlockIndex pindexBest (h # vHave) nDistance nStep =
     (case mapBlockIndex h of
        Some p \<Rightarrow>
          if IsInMainChain H pindexBest p then nDistance
          else let nDistance = nDistance + nStep
               in distance_loop H mapBlockIndex pindexBest vHave nDistance (if nDistance > 10 then nStep * 2 else nStep)
      | None \<Rightarrow>
          let nDistance = nDistance + nStep
          in distance_loop H mapBlockIndex pindexBest vHave nDistance (if nDistance > 10 then nStep * 2 else nStep))"

definition GetDistanceBack :: "bheap \<Rightarrow> (uint256 \<Rightarrow> nat option) \<Rightarrow> bptr \<Rightarrow> uint256 list \<Rightarrow> int" where
  "GetDistanceBack H mapBlockIndex pindexBest vHave = distance_loop H mapBlockIndex pindexBest vHave 0 1"

fun locator_GetBlockIndex :: "bheap \<Rightarrow> (uint256 \<Rightarrow> nat option) \<Rightarrow> bptr \<Rightarrow> bptr \<Rightarrow> uint256 list \<Rightarrow> bptr" where
  "locator_GetBlockIndex H mapBlockIndex pindexBest pindexGenesisBlock [] = pindexGenesisBlock"
| "locator_GetBlockIndex H mapBlockIndex pindexBest pindexGenesisBlock (h # vHave) =
     (case mapBlockIndex h of
        Some p \<Rightarrow> if IsInMainChain H pindexBest p then Some p
                  else locator_GetBlockIndex H mapBlockIndex pindexBest pindexGenesisBlock vHave
      | None \<Rightarrow> locator_GetBlockIndex H mapBlockIndex pindexBest pindexGenesisBlock vHave)"

fun locator_GetBlockHash :: "bheap \<Rightarrow> (uint256 \<Rightarrow> nat option) \<Rightarrow> bptr \<Rightarrow> uint256 \<Rightarrow> uint256 list \<Rightarrow> uint256" where
  "locator_GetBlockHash H mapBlockIndex pindexBest hashGenesisBlock [] = hashGenesisBlock"
| "locator_GetBlockHash H mapBlockIndex pindexBest hashGenesisBlock (h # vHave) =
     (case mapBlockIndex h of
        Some p \<Rightarrow> if IsInMainChain H pindexBest p then h
                  else locator_GetBlockHash H mapBlockIndex pindexBest hashGenesisBlock vHave
      | None \<Rightarrow> locator_GetBlockHash H mapBlockIndex pindexBest hashGenesisBlock vHave)"

definition locator_GetHeight :: "bheap \<Rightarrow> (uint256 \<Rightarrow> nat option) \<Rightarrow> bptr \<Rightarrow> bptr \<Rightarrow> uint256 list \<Rightarrow> int" where
  "locator_GetHeight H mapBlockIndex pindexBest pindexGenesisBlock vHave =
     (case locator_GetBlockIndex H mapBlockIndex pindexBest pindexGenesisBlock vHave of
        None \<Rightarrow> 0 | Some p \<Rightarrow> nHeight (H p))"

section \<open>Well-formed trees\<close>

text \<open>The entries at the addresses \<open>D\<close>: a root has height 0, every other entry is one above its predecessor.\<close>

definition tree_ok :: "bheap \<Rightarrow> nat set \<Rightarrow> bool" where
  "tree_ok H D \<longleftrightarrow> (\<forall>p\<in>D. 0 \<le> nHeight (H p) \<and>
     (case pprev (H p) of None \<Rightarrow> nHeight (H p) = 0 | Some q \<Rightarrow> q \<in> D \<and> nHeight (H p) = nHeight (H q) + 1))"

fun branch_up :: "bheap \<Rightarrow> nat \<Rightarrow> nat \<Rightarrow> nat list" where
  "branch_up H 0 p = [p]"
| "branch_up H (Suc n) p = p # (case pprev (H p) of None \<Rightarrow> [] | Some q \<Rightarrow> branch_up H n q)"

text \<open>An entry and its ancestors, down to the root.\<close>
definition branch :: "bheap \<Rightarrow> nat \<Rightarrow> nat list" where
  "branch H p = branch_up H (nat (nHeight (H p))) p"

lemma tree_at:
  "tree_ok H D \<Longrightarrow> p \<in> D \<Longrightarrow> 0 \<le> nHeight (H p) \<and>
     (case pprev (H p) of None \<Rightarrow> nHeight (H p) = 0 | Some q \<Rightarrow> q \<in> D \<and> nHeight (H p) = nHeight (H q) + 1)"
  unfolding tree_ok_def by (rule bspec)

lemma tree_prev:
  assumes "tree_ok H D" and "p \<in> D" and "pprev (H p) = Some q"
  shows "q \<in> D \<and> nHeight (H p) = nHeight (H q) + 1 \<and> 0 \<le> nHeight (H q)"
  using tree_at [OF assms(1,2)] tree_at [OF assms(1), of q] assms(3) by simp

lemma tree_root: "tree_ok H D \<Longrightarrow> p \<in> D \<Longrightarrow> pprev (H p) = None \<Longrightarrow> nHeight (H p) = 0"
  using tree_at [of H D p] by simp

lemma tree_height: "tree_ok H D \<Longrightarrow> p \<in> D \<Longrightarrow> 0 \<le> nHeight (H p)"
  unfolding tree_ok_def by blast

lemma branch_rec:
  assumes "tree_ok H D" and "p \<in> D"
  shows "branch H p = p # (case pprev (H p) of None \<Rightarrow> [] | Some q \<Rightarrow> branch H q)"
proof (cases "pprev (H p)")
  case None
  then show ?thesis using tree_root [OF assms None] by (simp add: branch_def)
next
  case (Some q)
  then have "nat (nHeight (H p)) = Suc (nat (nHeight (H q)))" using tree_prev [OF assms Some] by (simp add: nat_add_distrib)
  then show ?thesis by (simp add: branch_def Some)
qed

text \<open>Induction along the predecessors.\<close>

lemma tree_induct [consumes 2, case_names root prev]:
  assumes "tree_ok H D" and "p \<in> D"
    and "\<And>p. p \<in> D \<Longrightarrow> pprev (H p) = None \<Longrightarrow> P p"
    and "\<And>p q. p \<in> D \<Longrightarrow> pprev (H p) = Some q \<Longrightarrow> q \<in> D \<Longrightarrow> nHeight (H p) = nHeight (H q) + 1 \<Longrightarrow> P q \<Longrightarrow> P p"
  shows "P p"
  using assms(2)
proof (induction "nat (nHeight (H p))" arbitrary: p rule: less_induct)
  case less
  show ?case
  proof (cases "pprev (H p)")
    case None
    then show ?thesis using assms(3) less(2) by blast
  next
    case (Some q)
    note q = tree_prev [OF assms(1) less(2) Some]
    then have "P q" by (intro less(1)) auto
    then show ?thesis using assms(4) [OF less(2) Some] q by blast
  qed
qed

lemma branch_facts:
  assumes "tree_ok H D" and "p \<in> D"
  shows "set (branch H p) \<subseteq> D \<and> length (branch H p) = Suc (nat (nHeight (H p))) \<and>
    (\<forall>k<length (branch H p). nHeight (H (branch H p ! k)) = nHeight (H p) - int k \<and>
       branch H (branch H p ! k) = drop k (branch H p))"
  using assms
proof (induction rule: tree_induct)
  case (root p)
  then show ?case using tree_root [OF assms(1) root] branch_rec [OF assms(1) root(1)] by simp
next
  case (prev p q)
  have b: "branch H p = p # branch H q" using branch_rec [OF assms(1) prev(1)] prev(2) by simp
  have "nHeight (H ((p # branch H q) ! k)) = nHeight (H p) - int k \<and>
      branch H ((p # branch H q) ! k) = drop k (p # branch H q)" if "k < Suc (length (branch H q))" for k
    using that prev(4,5) b by (cases k) auto
  then show ?case
    using prev tree_height [OF assms(1) prev(3)] unfolding b by auto
qed

lemmas branch_in = branch_facts [THEN conjunct1]
  and length_branch = branch_facts [THEN conjunct2, THEN conjunct1]
  and branch_height = branch_facts [THEN conjunct2, THEN conjunct2, rule_format, THEN conjunct1]
  and branch_of_nth = branch_facts [THEN conjunct2, THEN conjunct2, rule_format, THEN conjunct2]

lemma branch_not_Nil: "branch H p \<noteq> []" "hd (branch H p) = p"
  by (cases "nat (nHeight (H p))"; simp add: branch_def)+

lemma branch_nth_0: "branch H p ! 0 = p"
  using branch_not_Nil [of H p] by (simp add: hd_conv_nth)

lemma distinct_branch:
  assumes "tree_ok H D" and "p \<in> D"
  shows "distinct (branch H p)"
  unfolding distinct_conv_nth using branch_height [OF assms] by (metis diff_left_imp_eq of_nat_eq_iff)

lemma nth_unique_height:
  assumes "tree_ok H D" and "p \<in> D" and "q \<in> set (branch H p)"
  shows "q = branch H p ! nat (nHeight (H p) - nHeight (H q)) \<and> nHeight (H q) \<le> nHeight (H p)
    \<and> nat (nHeight (H p) - nHeight (H q)) < length (branch H p)"
proof -
  obtain k where k: "k < length (branch H p)" "q = branch H p ! k" using assms(3) by (auto simp: in_set_conv_nth)
  then show ?thesis using branch_height [OF assms(1,2) k(1)] by simp
qed

lemma pprev_nth:
  assumes "tree_ok H D" and "p \<in> D" and "k < length (branch H p)"
  shows "pprev (H (branch H p ! k)) = (if Suc k < length (branch H p) then Some (branch H p ! Suc k) else None)"
proof -
  let ?q = "branch H p ! k"
  have q: "?q \<in> D" using branch_in [OF assms(1,2)] assms(3) by (meson nth_mem subsetD)
  have "drop k (branch H p) = ?q # (case pprev (H ?q) of None \<Rightarrow> [] | Some r \<Rightarrow> branch H r)"
    using branch_rec [OF assms(1) q] branch_of_nth [OF assms] by simp
  moreover have "drop k (branch H p) = ?q # drop (Suc k) (branch H p)" using assms(3) by (simp add: Cons_nth_drop_Suc)
  ultimately have d: "drop (Suc k) (branch H p) = (case pprev (H ?q) of None \<Rightarrow> [] | Some r \<Rightarrow> branch H r)" by simp
  show ?thesis
  proof (cases "Suc k < length (branch H p)")
    case True
    then have "drop (Suc k) (branch H p) = branch H p ! Suc k # drop (Suc (Suc k)) (branch H p)"
      by (simp add: Cons_nth_drop_Suc)
    with d True show ?thesis
      by (auto split: option.splits) (metis branch_not_Nil(2) list.sel(1))
  next
    case False
    with d have "(case pprev (H ?q) of None \<Rightarrow> [] | Some r \<Rightarrow> branch H r) = []" by simp
    then show ?thesis using False branch_not_Nil(1) [of H] by (cases "pprev (H ?q)") simp_all
  qed
qed

lemma steps_back_branch:
  assumes "tree_ok H D" and "p \<in> D"
  shows "steps_back H k (Some p) = (if k < length (branch H p) then Some (branch H p ! k) else None)"
  using assms(2)
proof (induction k arbitrary: p)
  case 0
  then show ?case by (simp add: branch_nth_0 branch_not_Nil)
next
  case (Suc k)
  show ?case
  proof (cases "pprev (H p)")
    case None
    then show ?thesis using branch_rec [OF assms(1) Suc(2)] by (cases k) simp_all
  next
    case (Some q)
    then show ?thesis
      using branch_rec [OF assms(1) Suc(2)] tree_prev [OF assms(1) Suc(2) Some] Suc(1) [of q] by simp
  qed
qed

section \<open>Median times\<close>

lemma times_back_branch:
  assumes "tree_ok H D" and "p \<in> D"
  shows "times_back H n (Some p) ts = rev (map (\<lambda>q. bi_GetBlockTime (H q)) (take n (branch H p))) @ ts"
  using assms(2)
proof (induction n arbitrary: p ts)
  case (Suc n)
  show ?case
  proof (cases "pprev (H p)")
    case None
    then show ?thesis using branch_rec [OF assms(1) Suc(2)] by (cases n) simp_all
  next
    case (Some q)
    then show ?thesis
      using branch_rec [OF assms(1) Suc(2)] tree_prev [OF assms(1) Suc(2) Some] Suc(1) [of q] by simp
  qed
qed simp

definition median :: "int list \<Rightarrow> int" where
  "median xs = sort xs ! (length xs div 2)"

lemma count_sort: "length (filter P (sort xs)) = length (filter P xs)" for xs :: "int list"
  by (metis filter_sort length_sort)

lemma median_count: "xs \<noteq> [] \<Longrightarrow> length xs - length xs div 2 \<le> length (filter (\<lambda>x. median xs \<le> x) xs)"
proof -
  assume ne: "xs \<noteq> []"
  let ?s = "sort xs" and ?k = "length xs div 2"
  have k: "?k < length ?s" using ne by (simp add: div_less_dividend)
  have fd: "filter (\<lambda>x. ?s ! ?k \<le> x) (drop ?k ?s) = drop ?k ?s"
    using sorted_nth_mono [of ?s ?k] by (auto simp: filter_id_conv in_set_conv_nth)
  have "length xs - ?k \<le> length (filter (\<lambda>x. ?s ! ?k \<le> x) (drop ?k ?s))"
    by (simp only: fd length_drop length_sort order_refl)
  also have "\<dots> \<le> length (filter (\<lambda>x. ?s ! ?k \<le> x) (take ?k ?s @ drop ?k ?s))"
    by (simp only: filter_append length_append le_add2)
  finally show ?thesis unfolding append_take_drop_id count_sort by (simp add: median_def)
qed

lemma median_least:
  assumes "xs \<noteq> []" and "length xs - length xs div 2 \<le> length (filter (\<lambda>x. v \<le> x) xs)"
  shows "v \<le> median xs"
proof (rule ccontr)
  assume *: "\<not> v \<le> median xs"
  let ?s = "sort xs" and ?k = "length xs div 2"
  have k: "?k < length ?s" using assms(1) by (simp add: div_less_dividend)
  have "filter (\<lambda>x. v \<le> x) (take (Suc ?k) ?s) = []"
  proof -
    have "?s ! i < v" if "i \<le> ?k" for i
      using sorted_nth_mono [of ?s i ?k] that k * by (simp add: median_def)
    then show ?thesis by (force simp: filter_empty_conv in_set_conv_nth less_Suc_eq_le not_le)
  qed
  then have "length (filter (\<lambda>x. v \<le> x) (take (Suc ?k) ?s @ drop (Suc ?k) ?s)) \<le> length xs - Suc ?k"
    using length_filter_le [of "\<lambda>x. v \<le> x" "drop (Suc ?k) ?s"] unfolding filter_append length_append by simp
  then have "length (filter (\<lambda>x. v \<le> x) xs) \<le> length xs - Suc ?k" by (simp only: append_take_drop_id count_sort)
  then show False using assms(2) k by (simp only: length_sort)
qed

lemma GetMedianTimePast_median:
  assumes "tree_ok H D" and "p \<in> D"
  shows "GetMedianTimePast H p = median (map (\<lambda>q. bi_GetBlockTime (H q)) (take 11 (branch H p)))"
proof -
  have "sort (rev xs) = sort xs" for xs :: "int list" by (rule properties_for_sort) simp_all
  then show ?thesis
    unfolding GetMedianTimePast_def Let_def times_back_branch [OF assms] median_def by simp
qed

lemma median_push:
  assumes "b \<noteq> []" and "median (take 11 b) < t"
  shows "median (take 11 b) \<le> median (take 11 (t # b))"
proof (rule median_least)
  let ?m = "median (take 11 b)"
  have c: "length (take 11 b) - length (take 11 b) div 2 \<le> length (filter (\<lambda>x. ?m \<le> x) (take 11 b))"
    using assms(1) by (intro median_count) simp
  show "length (take 11 (t # b)) - length (take 11 (t # b)) div 2 \<le> length (filter (\<lambda>x. ?m \<le> x) (take 11 (t # b)))"
  proof (cases "length b \<le> 10")
    case True
    then show ?thesis using c assms(2) by simp
  next
    case False
    then have "take 11 b = take 10 b @ [b ! 10]" by (simp add: take_Suc_conv_app_nth numeral_eq_Suc)
    then have "length (filter (\<lambda>x. ?m \<le> x) (take 11 b)) \<le> Suc (length (filter (\<lambda>x. ?m \<le> x) (take 10 b)))" by simp
    then show ?thesis using c False assms(2) by simp
  qed
qed simp

text \<open>C31: Along a branch in which every entry's time is later than the median time of its predecessor, as \<open>AcceptBlock\<close>
  demands, the median time past never decreases; it is the median of the last eleven times.\<close>

theorem median_time_grows:
  assumes "tree_ok H D" and "p \<in> D"
    and "\<And>r q. r \<in> set (branch H p) \<Longrightarrow> pprev (H r) = Some q \<Longrightarrow> bi_GetBlockTime (H r) > GetMedianTimePast H q"
  shows "GetMedianTimePast H p = median (map (\<lambda>q. bi_GetBlockTime (H q)) (take 11 (branch H p)))
    \<and> sorted_wrt (\<lambda>a b. GetMedianTimePast H b \<le> GetMedianTimePast H a) (branch H p)"
proof
  show "GetMedianTimePast H p = median (map (\<lambda>q. bi_GetBlockTime (H q)) (take 11 (branch H p)))"
    by (rule GetMedianTimePast_median [OF assms(1,2)])
  show "sorted_wrt (\<lambda>a b. GetMedianTimePast H b \<le> GetMedianTimePast H a) (branch H p)"
    using assms
  proof (induction rule: tree_induct)
    case (root p)
    then show ?case using branch_rec [OF assms(1) root(1)] by simp
  next
    case (prev p q)
    have b: "branch H p = p # branch H q" using branch_rec [OF assms(1) prev(1)] prev(2) by simp
    let ?t = "\<lambda>q. bi_GetBlockTime (H q)"
    have "bi_GetBlockTime (H p) > GetMedianTimePast H q" using prev.prems [OF _ prev(2)] b by simp
    then have "GetMedianTimePast H q \<le> GetMedianTimePast H p"
      using median_push [of "map ?t (branch H q)" "?t p"] b branch_not_Nil(1) [of H q]
      by (simp add: GetMedianTimePast_median [OF assms(1) prev(1)] GetMedianTimePast_median [OF assms(1) prev(3)] take_map)
    moreover have s: "sorted_wrt (\<lambda>a b. GetMedianTimePast H b \<le> GetMedianTimePast H a) (branch H q)"
      using b by (intro prev.IH prev.prems) auto
    moreover have "GetMedianTimePast H r \<le> GetMedianTimePast H q" if "r \<in> set (branch H q)" for r
      using s that branch_not_Nil [of H q] by (cases "branch H q") auto
    ultimately show ?case unfolding b by (auto intro: order_trans)
  qed
qed

section \<open>The main chain\<close>

text \<open>The pointers forward are those of the branch of the best entry.\<close>

definition main_ok :: "bheap \<Rightarrow> nat set \<Rightarrow> bptr \<Rightarrow> bool" where
  "main_ok H D pindexBest \<longleftrightarrow>
     (case pindexBest of
        None \<Rightarrow> \<forall>p\<in>D. pnext (H p) = None
      | Some b \<Rightarrow> b \<in> D \<and> (\<forall>p\<in>D. \<forall>q. pnext (H p) = Some q \<longleftrightarrow> q \<in> set (branch H b) \<and> pprev (H q) = Some p))"

lemma main_chain:
  assumes "tree_ok H D" and "main_ok H D (Some b)" and "p \<in> D"
  shows "IsInMainChain H (Some b) p \<longleftrightarrow> p \<in> set (branch H b)"
proof -
  have b: "b \<in> D" and n: "\<And>q. pnext (H p) = Some q \<longleftrightarrow> q \<in> set (branch H b) \<and> pprev (H q) = Some p"
    using assms(2,3) by (simp_all add: main_ok_def)
  show ?thesis
  proof
    assume "IsInMainChain H (Some b) p"
    then consider "p = b" | q where "pnext (H p) = Some q" by (auto simp: IsInMainChain_def)
    then show "p \<in> set (branch H b)"
    proof cases
      case 1
      then show ?thesis using branch_not_Nil [of H b] by (metis hd_in_set)
    next
      case (2 q)
      then have q: "q \<in> set (branch H b)" "pprev (H q) = Some p" using n by simp_all
      then obtain k where k: "k < length (branch H b)" "q = branch H b ! k" by (auto simp: in_set_conv_nth)
      then show ?thesis using pprev_nth [OF assms(1) b k(1)] q(2) by (auto split: if_splits)
    qed
  next
    assume "p \<in> set (branch H b)"
    then obtain k where k: "k < length (branch H b)" "p = branch H b ! k" by (auto simp: in_set_conv_nth)
    show "IsInMainChain H (Some b) p"
    proof (cases k)
      case 0
      then show ?thesis using k branch_nth_0 [of H b] by (simp add: IsInMainChain_def)
    next
      case (Suc j)
      then have "pprev (H (branch H b ! j)) = Some p" using pprev_nth [OF assms(1) b, of j] k by simp
      then have "pnext (H p) = Some (branch H b ! j)" using n Suc k(1) by simp
      then show ?thesis by (simp add: IsInMainChain_def)
    qed
  qed
qed

lemma pnext_nth:
  assumes "tree_ok H D" and "main_ok H D (Some b)" and "Suc k < length (branch H b)"
  shows "pnext (H (branch H b ! Suc k)) = Some (branch H b ! k)"
proof -
  have b: "b \<in> D" using assms(2) by (simp add: main_ok_def)
  have "branch H b ! Suc k \<in> D" using branch_in [OF assms(1) b] assms(3) by (meson nth_mem subsetD)
  moreover have "pprev (H (branch H b ! k)) = Some (branch H b ! Suc k)" using pprev_nth [OF assms(1) b, of k] assms(3) by simp
  ultimately show ?thesis using assms(2,3) by (simp add: main_ok_def)
qed

section \<open>Search by height\<close>

lemma walk_back_branch:
  assumes "tree_ok H D" and "p \<in> D" and "0 \<le> n"
  shows "walk_back H n p = Some (branch H p ! nat (nHeight (H p) - n))"
  using assms(1,2)
proof (induction rule: tree_induct)
  case (root p)
  then show ?case using assms(3) tree_root [OF assms(1) root] by (subst walk_back.simps) (simp add: branch_nth_0)
next
  case (prev p q)
  show ?case
  proof (cases "nHeight (H p) > n")
    case True
    then have "nat (nHeight (H p) - n) = Suc (nat (nHeight (H q) - n))" using prev(4) by simp
    moreover have "branch H p = p # branch H q" using branch_rec [OF assms(1) prev(1)] prev(2) by simp
    ultimately show ?thesis using True prev by (subst walk_back.simps) simp
  next
    case False
    then show ?thesis by (subst walk_back.simps) (simp add: branch_nth_0)
  qed
qed

lemma walk_forward_branch:
  assumes "tree_ok H D" and "main_ok H D (Some b)" and "k < length (branch H b)" and "n \<le> nHeight (H b)"
    and "nHeight (H (branch H b ! k)) \<le> n"
  shows "walk_forward H n (branch H b ! k) = Some (branch H b ! nat (nHeight (H b) - n))"
  using assms(3,5)
proof (induction k)
  case 0
  then show ?case using assms(4) by (subst walk_forward.simps) (simp add: branch_nth_0)
next
  case (Suc k)
  have b: "b \<in> D" using assms(2) by (simp add: main_ok_def)
  note h = branch_height [OF assms(1) b Suc(2)]
  show ?case
  proof (cases "nHeight (H (branch H b ! Suc k)) < n")
    case True
    then have "nHeight (H (branch H b ! k)) \<le> n" using h branch_height [OF assms(1) b, of k] Suc(2) by simp
    then show ?thesis
      using Suc True pnext_nth [OF assms(1,2) Suc(2)] by (subst walk_forward.simps) simp
  next
    case False
    then have "nat (nHeight (H b) - n) = Suc k" using h Suc(3) by simp
    then show ?thesis using False by (subst walk_forward.simps) simp
  qed
qed

text \<open>In a well-formed tree, with a cached entry on the main chain or none, the search for a height up to the best one
  returns, with the entry of the main chain at that height.\<close>

theorem FindBlockByHeight_finds:
  assumes "tree_ok H D" and "main_ok H D (Some b)" and "0 \<le> n" and "n \<le> nHeight (H b)"
    and "\<And>l. last_found = Some l \<Longrightarrow> l \<in> set (branch H b)"
  shows "\<exists>p. FindBlockByHeight H (Some (last (branch H b))) (Some b) (nHeight (H b)) last_found n = Some p
    \<and> p \<in> set (branch H b) \<and> nHeight (H p) = n \<and> IsInMainChain H (Some b) p"
proof -
  have b: "b \<in> D" using assms(2) by (simp add: main_ok_def)
  note len = length_branch [OF assms(1) b]
  define r where "r = branch H b ! nat (nHeight (H b) - n)"
  have i: "nat (nHeight (H b) - n) < length (branch H b)" using assms(3,4) len by simp
  have r: "r \<in> set (branch H b)" "nHeight (H r) = n"
    using i branch_height [OF assms(1) b i] assms(4) by (simp_all add: r_def)
  have search: "(case walk_back H n p of None \<Rightarrow> None | Some p \<Rightarrow> walk_forward H n p) = Some r" if p: "p \<in> set (branch H b)" for p
  proof -
    obtain k where k: "k < length (branch H b)" "p = branch H b ! k" using p by (auto simp: in_set_conv_nth)
    have pD: "p \<in> D" using p branch_in [OF assms(1) b] by blast
    note h = branch_height [OF assms(1) b k(1), folded k(2)]
    have w: "walk_back H n p = Some (branch H p ! nat (nHeight (H p) - n))" by (rule walk_back_branch [OF assms(1) pD assms(3)])
    define j where "j = k + nat (nHeight (H p) - n)"
    have lp: "length (branch H p) = length (branch H b) - k" using branch_of_nth [OF assms(1) b k(1)] k(2) by simp
    have j: "j < length (branch H b)" using h len assms(3) k(1) by (simp add: j_def)
    have "branch H p ! nat (nHeight (H p) - n) = branch H b ! j"
      using branch_of_nth [OF assms(1) b k(1)] k by (simp add: j_def)
    moreover have "nHeight (H (branch H b ! j)) \<le> n"
      using branch_height [OF assms(1) b j] h by (simp add: j_def)
    ultimately show ?thesis
      using walk_forward_branch [OF assms(1,2) j assms(4)] w by (simp add: r_def)
  qed
  have in_b: "b \<in> set (branch H b)" "last (branch H b) \<in> set (branch H b)" using branch_not_Nil [of H b] by (metis hd_in_set) (simp add: branch_not_Nil)
  have "FindBlockByHeight H (Some (last (branch H b))) (Some b) (nHeight (H b)) last_found n = Some r"
    unfolding FindBlockByHeight_def Let_def using search in_b assms(5)
    by (auto split: option.splits if_splits)
  moreover have "IsInMainChain H (Some b) r"
    using r(1) branch_in [OF assms(1) b] by (subst main_chain [OF assms(1,2)]) auto
  ultimately show ?thesis using r by blast
qed

section \<open>Locators\<close>

text \<open>How far back the entries of a locator lie, and the steps between them.\<close>

definition loc_pos :: "nat \<Rightarrow> nat" where
  "loc_pos i = (if i \<le> 10 then i else 9 + 2 ^ (i - 10))"

definition loc_step :: "nat \<Rightarrow> nat" where
  "loc_step i = (if i \<le> 10 then 1 else 2 ^ (i - 10))"

lemma loc_pos_Suc: "loc_pos (Suc i) = loc_pos i + loc_step i"
proof (cases "i \<le> 10")
  case True
  then consider "i < 10" | "i = 10" by linarith
  then show ?thesis by cases (simp_all add: loc_pos_def loc_step_def)
next
  case False
  then have "Suc i - 10 = Suc (i - 10)" by simp
  then show ?thesis using False by (simp add: loc_pos_def loc_step_def)
qed

lemma loc_step_Suc: "loc_step (Suc i) = (if Suc i > 10 then loc_step i * 2 else loc_step i)"
proof (cases "i \<le> 10")
  case True
  then consider "i < 10" | "i = 10" by linarith
  then show ?thesis by cases (simp_all add: loc_step_def)
next
  case False
  then have "Suc i - 10 = Suc (i - 10)" by simp
  then show ?thesis using False by (simp add: loc_step_def)
qed

lemma loc_step_pos: "0 < loc_step i" by (simp add: loc_step_def)

lemma loc_pos_double: "loc_pos (Suc i) \<le> 2 * loc_pos i + 1"
  unfolding loc_pos_Suc by (simp add: loc_pos_def loc_step_def)

lemma loc_pos_mono: "i \<le> j \<Longrightarrow> loc_pos i \<le> loc_pos j"
  using lift_Suc_mono_le [of loc_pos] by (simp add: loc_pos_Suc)

lemma steps_back_from:
  assumes "tree_ok H D" and "p \<in> D" and "j < length (branch H p)"
  shows "steps_back H k (Some (branch H p ! j)) = (if j + k < length (branch H p) then Some (branch H p ! (j + k)) else None)"
proof -
  have "branch H p ! j \<in> D" using branch_in [OF assms(1,2)] assms(3) by (meson nth_mem subsetD)
  from steps_back_branch [OF assms(1) this, of k] show ?thesis
    using branch_of_nth [OF assms] assms(3) by (simp add: less_diff_conv add.commute)
qed

lemma locator_loop_branch:
  assumes "tree_ok H D" and "p \<in> D" and "\<forall>k<i. loc_pos k < length (branch H p)"
  shows "\<exists>n. (\<forall>k<n. loc_pos k < length (branch H p)) \<and> length (branch H p) \<le> loc_pos n \<and>
    locator_loop H (if loc_pos i < length (branch H p) then Some (branch H p ! loc_pos i) else None) (loc_step i)
      (map (\<lambda>k. phashBlock (H (branch H p ! loc_pos k))) [0..<i]) =
    Some (map (\<lambda>k. phashBlock (H (branch H p ! loc_pos k))) [0..<n])"
  using assms(3)
proof (induction "length (branch H p) - loc_pos i" arbitrary: i rule: less_induct)
  case less
  let ?L = "length (branch H p)" and ?h = "\<lambda>k. phashBlock (H (branch H p ! loc_pos k))"
  show ?case
  proof (cases "loc_pos i < ?L")
    case False
    then show ?thesis using less(2) by (intro exI [of _ i]) (simp add: locator_loop.simps)
  next
    case True
    have "?L - loc_pos (Suc i) < ?L - loc_pos i" using True loc_step_pos [of i] by (simp add: loc_pos_Suc)
    moreover have "\<forall>k<Suc i. loc_pos k < ?L" using less(2) True by (simp add: less_Suc_eq)
    ultimately obtain n where n: "\<forall>k<n. loc_pos k < ?L" "?L \<le> loc_pos n"
      "locator_loop H (if loc_pos (Suc i) < ?L then Some (branch H p ! loc_pos (Suc i)) else None) (loc_step (Suc i))
         (map ?h [0..<Suc i]) = Some (map ?h [0..<n])"
      using less(1) by blast
    have "locator_loop H (Some (branch H p ! loc_pos i)) (loc_step i) (map ?h [0..<i]) =
        locator_loop H (if loc_pos (Suc i) < ?L then Some (branch H p ! loc_pos (Suc i)) else None) (loc_step (Suc i)) (map ?h [0..<Suc i])"
      by (subst locator_loop.simps)
        (simp add: steps_back_from [OF assms(1,2) True] loc_pos_Suc loc_step_Suc Let_def)
    then show ?thesis using n True by (intro exI [of _ n]) simp
  qed
qed

lemma locator_Set_branch:
  assumes "tree_ok H D" and "p \<in> D"
  obtains n where "\<forall>k<n. loc_pos k < length (branch H p)" and "length (branch H p) \<le> loc_pos n" and "0 < n"
    and "locator_Set H g (Some p) = Some (map (\<lambda>k. phashBlock (H (branch H p ! loc_pos k))) [0..<n] @ [g])"
proof -
  have "0 < length (branch H p)" using branch_not_Nil [of H p] by simp
  then have p: "(if loc_pos 0 < length (branch H p) then Some (branch H p ! loc_pos 0) else None) = Some p" "loc_step 0 = 1"
    by (simp_all add: loc_pos_def loc_step_def branch_nth_0)
  obtain n where n: "\<forall>k<n. loc_pos k < length (branch H p)" "length (branch H p) \<le> loc_pos n"
    "locator_loop H (Some p) 1 [] = Some (map (\<lambda>k. phashBlock (H (branch H p ! loc_pos k))) [0..<n])"
    using locator_loop_branch [OF assms, of 0] unfolding p by auto
  moreover have "n \<noteq> 0" using n(2) branch_not_Nil [of H p] by (intro notI) (simp add: loc_pos_def)
  ultimately show thesis using that by (simp add: locator_Set_def)
qed

text \<open>The receiver takes the first entry that is on its main chain.\<close>

lemma GetBlockIndex_find:
  assumes "\<And>q. q \<in> set qs \<Longrightarrow> mapBlockIndex (phashBlock (H q)) = Some q"
  shows "locator_GetBlockIndex H mapBlockIndex best gen (map (\<lambda>q. phashBlock (H q)) qs) =
    (case find (IsInMainChain H best) qs of Some q \<Rightarrow> Some q | None \<Rightarrow> gen)"
  using assms by (induction qs) auto

lemma find_first:
  assumes "k < length xs" and "P (xs ! k)" and "\<And>j. j < k \<Longrightarrow> \<not> P (xs ! j)"
  shows "find P xs = Some (xs ! k)"
  using assms
proof (induction xs arbitrary: k)
  case (Cons x xs)
  then show ?case
  proof (cases k)
    case (Suc j)
    then have "\<not> P x" "find P xs = Some (xs ! j)"
      using Cons(4) [of 0] Cons(1) [of j] Cons(2,3) Cons(4) [of "Suc i" for i] by auto
    then show ?thesis using Suc by simp
  qed simp
qed simp

text \<open>C19: Building a locator ends, with at most twelve entries and one for each doubling of the height beyond; a node with the
  same tree finds from it an ancestor on its own main chain, at most twice as far back as the last entry that the two share.\<close>

theorem locator_finds_fork:
  assumes "tree_ok H D" and "main_ok H D (Some b)" and "p \<in> D"
    and "\<And>q. q \<in> D \<Longrightarrow> mapBlockIndex (phashBlock (H q)) = Some q"
    and "genesis = last (branch H p)" and "d < length (branch H p)" and "branch H p ! d \<in> set (branch H b)"
    and "\<And>k. k < d \<Longrightarrow> branch H p ! k \<notin> set (branch H b)"
  shows "\<exists>vHave e. locator_Set H (phashBlock (H genesis)) (Some p) = Some vHave
    \<and> (12 < length vHave \<longrightarrow> 2 ^ (length vHave - 12) \<le> nHeight (H p))
    \<and> locator_GetBlockIndex H mapBlockIndex (Some b) (Some genesis) vHave = Some (branch H p ! e)
    \<and> IsInMainChain H (Some b) (branch H p ! e) \<and> d \<le> e \<and> e \<le> 2 * d \<and> e < length (branch H p)"
proof -
  let ?br = "branch H p"
  let ?L = "length ?br"
  have b: "b \<in> D" using assms(2) by (simp add: main_ok_def)
  have inD: "?br ! k \<in> D" if "k < ?L" for k using branch_in [OF assms(1,3)] that by (meson nth_mem subsetD)
  have main: "IsInMainChain H (Some b) (?br ! k) \<longleftrightarrow> d \<le> k" if "k < ?L" for k
  proof -
    have "?br ! k \<in> set (branch H b)" if "d \<le> k"
    proof -
      have "?br ! k \<in> set (branch H (?br ! d))"
        using branch_of_nth [OF assms(1,3,6)] that \<open>k < ?L\<close> by (auto simp: in_set_conv_nth intro!: exI [of _ "k - d"])
      moreover obtain i where i: "i < length (branch H b)" "?br ! d = branch H b ! i"
        using assms(7) by (metis in_set_conv_nth)
      then have "set (branch H (?br ! d)) \<subseteq> set (branch H b)"
        using branch_of_nth [OF assms(1) b i(1)] set_drop_subset by (metis i(2))
      ultimately show ?thesis by blast
    qed
    then show ?thesis using main_chain [OF assms(1,2) inD [OF that]] assms(8) [of k] by (metis not_le)
  qed
  obtain n where n: "\<forall>k<n. loc_pos k < ?L" "?L \<le> loc_pos n" "0 < n"
    "locator_Set H (phashBlock (H genesis)) (Some p) =
       Some (map (\<lambda>k. phashBlock (H (?br ! loc_pos k))) [0..<n] @ [phashBlock (H genesis)])"
    by (rule locator_Set_branch [OF assms(1,3)])
  define qs where "qs = map (\<lambda>k. ?br ! loc_pos k) [0..<n] @ [genesis]"
  have L: "0 < ?L" using assms(6) by linarith
  have g: "genesis = ?br ! (?L - 1)" using assms(5) branch_not_Nil [of H p] by (simp add: last_conv_nth)
  have vHave: "map (\<lambda>k. phashBlock (H (?br ! loc_pos k))) [0..<n] @ [phashBlock (H genesis)] = map (\<lambda>q. phashBlock (H q)) qs"
    by (simp add: qs_def)
  have "q \<in> D" if "q \<in> set qs" for q
    using that n(1) inD g L by (auto simp: qs_def)
  then have find: "locator_GetBlockIndex H mapBlockIndex (Some b) (Some genesis) (map (\<lambda>q. phashBlock (H q)) qs) =
      (case find (IsInMainChain H (Some b)) qs of Some q \<Rightarrow> Some q | None \<Rightarrow> Some genesis)"
    using assms(4) by (intro GetBlockIndex_find) blast
  have "\<exists>e. find (IsInMainChain H (Some b)) qs = Some (?br ! e) \<and> d \<le> e \<and> e \<le> 2 * d \<and> e < ?L"
  proof (cases "\<exists>i<n. d \<le> loc_pos i")
    case True
    define i where "i = (LEAST i. i < n \<and> d \<le> loc_pos i)"
    have i: "i < n" "d \<le> loc_pos i" using True LeastI_ex [of "\<lambda>i. i < n \<and> d \<le> loc_pos i"] by (auto simp: i_def)
    have below: "\<not> d \<le> loc_pos j" if "j < i" for j
      using not_less_Least [of j "\<lambda>i. i < n \<and> d \<le> loc_pos i"] that i(1) by (auto simp: i_def)
    have "find (IsInMainChain H (Some b)) qs = Some (qs ! i)"
      using i below n(1) main by (intro find_first) (auto simp: qs_def nth_append)
    moreover have "loc_pos i \<le> 2 * d"
    proof (cases i)
      case (Suc j)
      then show ?thesis using below [of j] loc_pos_double [of j] by simp
    qed (simp add: loc_pos_def)
    ultimately show ?thesis using i n(1) by (intro exI [of _ "loc_pos i"]) (simp add: qs_def nth_append)
  next
    case False
    have below: "\<not> d \<le> loc_pos j" if "j < n" for j using False that by blast
    have "find (IsInMainChain H (Some b)) qs = Some (qs ! n)"
      using below n(1) main g L assms(6) by (intro find_first) (auto simp: qs_def nth_append)
    moreover have "?L - 1 \<le> 2 * d"
      using below [of "n - 1"] loc_pos_double [of "n - 1"] n(2,3) by simp
    ultimately show ?thesis using g assms(6) L by (intro exI [of _ "?L - 1"]) (simp add: qs_def nth_append)
  qed
  then obtain e where e: "find (IsInMainChain H (Some b)) qs = Some (?br ! e)" "d \<le> e" "e \<le> 2 * d" "e < ?L" by blast
  have "2 ^ (length qs - 12) \<le> nHeight (H p)" if "12 < length qs"
  proof -
    have n12: "11 < n" using that by (simp add: qs_def)
    then have "9 + 2 ^ (n - 11) < ?L" using n(1) [rule_format, of "n - 1"] by (simp add: loc_pos_def split: if_splits)
    then have "2 ^ (n - 11) \<le> nat (nHeight (H p))" unfolding length_branch [OF assms(1,3)] by linarith
    then have "int (2 ^ (n - 11)) \<le> nHeight (H p)"
      using le_nat_iff [OF tree_height [OF assms(1,3)]] by blast
    then show ?thesis using n12 by (simp add: qs_def)
  qed
  then show ?thesis
    using n(4) find e main [OF e(4)] unfolding vHave by (intro exI [of _ "map (\<lambda>q. phashBlock (H q)) qs"] exI [of _ e]) simp
qed

section \<open>Switching the main chain\<close>

text \<open>\<open>SetBestChain\<close>: the fork of the best branch and the new one, the entries to disconnect and to connect, and the
  pointers forward.  \<open>None\<close>: an assertion fails.  The inner loop of the search for the fork is \<open>walk_back\<close>.\<close>

partial_function (option) find_fork :: "bheap \<Rightarrow> bptr \<Rightarrow> nat \<Rightarrow> bptr option" where
  "find_fork H pfork plonger =
     (case pfork of
        None \<Rightarrow> Some None
      | Some f \<Rightarrow>
          if f = plonger then Some (Some f)
          else (case walk_back H (nHeight (H f)) plonger of
                  None \<Rightarrow> None
                | Some l \<Rightarrow>
                    if f = l then Some (Some f)
                    else (case pprev (H f) of None \<Rightarrow> None | Some f' \<Rightarrow> find_fork H (Some f') l)))"

partial_function (option) list_until :: "bheap \<Rightarrow> bptr \<Rightarrow> bptr \<Rightarrow> nat list option" where
  "list_until H pindex pfork =
     (if pindex = pfork then Some []
      else case pindex of
        None \<Rightarrow> None
      | Some p \<Rightarrow> Option.bind (list_until H (pprev (H p)) pfork) (\<lambda>l. Some (p # l)))"

definition disconnect_ptrs :: "nat list \<Rightarrow> bheap \<Rightarrow> bheap" where
  "disconnect_ptrs vDisconnect H =
     fold (\<lambda>p H. case pprev (H p) of None \<Rightarrow> H | Some q \<Rightarrow> H(q := (H q)\<lparr>pnext := None\<rparr>)) vDisconnect H"

definition connect_ptrs :: "nat list \<Rightarrow> bheap \<Rightarrow> bheap" where
  "connect_ptrs vConnect H =
     fold (\<lambda>p H. case pprev (H p) of None \<Rightarrow> H | Some q \<Rightarrow> H(q := (H q)\<lparr>pnext := Some p\<rparr>)) vConnect H"

definition fork_lists :: "bheap \<Rightarrow> bptr \<Rightarrow> nat \<Rightarrow> (nat list \<times> nat list) option" where
  "fork_lists H best pindexNew =
     (case find_fork H best pindexNew of
        None \<Rightarrow> None
      | Some pfork \<Rightarrow>
          (case list_until H best pfork of
             None \<Rightarrow> None
           | Some vDisconnect \<Rightarrow>
               (case list_until H (Some pindexNew) pfork of
                  None \<Rightarrow> None
                | Some l \<Rightarrow> Some (vDisconnect, rev l))))"

definition switch_chain :: "bheap \<Rightarrow> bptr \<Rightarrow> nat \<Rightarrow> bheap option" where
  "switch_chain H best pindexNew =
     (case fork_lists H best pindexNew of
        None \<Rightarrow> None
      | Some (vDisconnect, vConnect) \<Rightarrow> Some (connect_ptrs vConnect (disconnect_ptrs vDisconnect H)))"

text \<open>\<open>AddToBlockIndex\<close>: the new entry, at the address \<open>n\<close>, and the map with it.\<close>

definition new_index ::
  "('k, 'x) crypto_scheme \<Rightarrow> bheap \<Rightarrow> (uint256 \<Rightarrow> nat option) \<Rightarrow> CBlock \<Rightarrow> u32 \<Rightarrow> u32 \<Rightarrow> nat \<Rightarrow> bheap \<times> (uint256 \<Rightarrow> nat option)" where
  "new_index C H mapBlockIndex b file pos n =
     (let hash = blk_GetHash C b;
          mapBlockIndex = mapBlockIndex(hash := Some n);
          e = (bi_of_block b)\<lparr>phashBlock := hash\<rparr>;
          e = (case mapBlockIndex (hashPrevBlock b) of
                 Some q \<Rightarrow> e\<lparr>pprev := Some q, nHeight := nHeight ((H(n := e\<lparr>pprev := Some q\<rparr>)) q) + 1\<rparr>
               | None \<Rightarrow> e);
          e = e\<lparr>nTx := word_of_nat (length (vtx b))\<rparr>;
          e = e\<lparr>nChainTx := (case pprev e of Some q \<Rightarrow> nChainTx ((H(n := e)) q) | None \<Rightarrow> 0) + nTx e,
                nFile := file, nDataPos := pos, nUndoPos := 0,
                nStatus := BLOCK_VALID_TRANSACTIONS OR BLOCK_HAVE_DATA\<rparr>
      in (H(n := e), mapBlockIndex))"

section \<open>The fork\<close>

lemma branch_suffix:
  assumes "tree_ok H D" and "p \<in> D" and "q \<in> set (branch H p)"
  shows "branch H q = drop (nat (nHeight (H p) - nHeight (H q))) (branch H p)"
  using nth_unique_height [OF assms] branch_of_nth [OF assms(1,2)] by metis

lemma branch_subset: "tree_ok H D \<Longrightarrow> p \<in> D \<Longrightarrow> q \<in> set (branch H p) \<Longrightarrow> set (branch H q) \<subseteq> set (branch H p)"
  by (simp add: branch_suffix set_drop_subset)

lemma last_branch: "tree_ok H D \<Longrightarrow> p \<in> D \<Longrightarrow> q \<in> set (branch H p) \<Longrightarrow> last (branch H q) = last (branch H p)"
  using nth_unique_height [of H D p q] by (simp add: branch_suffix)

text \<open>On two branches, an entry of the first not above the second's tip is on the second if it is on a higher one.\<close>

lemma branch_lower:
  assumes "tree_ok H D" and "l \<in> D" and "l' \<in> set (branch H l)" and "x \<in> set (branch H l)" and "nHeight (H x) \<le> nHeight (H l')"
  shows "x \<in> set (branch H l')"
proof -
  note x = nth_unique_height [OF assms(1,2,4)] and l' = nth_unique_height [OF assms(1,2,3)]
  let ?i = "nat (nHeight (H l) - nHeight (H x))" and ?k = "nat (nHeight (H l) - nHeight (H l'))"
  have "?k \<le> ?i" using assms(5) by simp
  then have "drop ?k (branch H l) ! (?i - ?k) = x" "?i - ?k < length (drop ?k (branch H l))" using x by auto
  then show ?thesis unfolding branch_suffix [OF assms(1,2,3)] by (metis nth_mem)
qed

lemma find_fork_branches:
  assumes "tree_ok H D" and "f \<in> D" and "l \<in> D" and "last (branch H f) = last (branch H l)"
  shows "\<exists>g. find_fork H (Some f) l = Some (Some g) \<and> g \<in> set (branch H f) \<and> g \<in> set (branch H l)
    \<and> set (branch H f) \<inter> set (branch H l) \<subseteq> set (branch H g)"
  using assms
proof (induction arbitrary: l rule: tree_induct)
  case (root f)
  have f: "branch H f = [f]" using branch_rec [OF assms(1) root(1)] root(2) by simp
  have "walk_back H 0 l = Some (branch H l ! nat (nHeight (H l)))"
    using walk_back_branch [OF assms(1) root(3), of 0] by simp
  moreover have "branch H l ! nat (nHeight (H l)) = f"
    using root(4) f length_branch [OF assms(1) root(3)] branch_not_Nil(1) [of H l] by (simp add: last_conv_nth)
  ultimately have "find_fork H (Some f) l = Some (Some f)"
    using tree_root [OF assms(1) root(1,2)] by (subst find_fork.simps) simp
  moreover have "f \<in> set (branch H l)" using root(4) f branch_not_Nil(1) [of H l] by (metis last_in_set last_ConsL)
  ultimately show ?case using f by simp
next
  case (prev f f')
  have bf: "branch H f = f # branch H f'" using branch_rec [OF assms(1) prev(1)] prev(2) by simp
  have hf: "0 \<le> nHeight (H f)" by (rule tree_height [OF assms(1) prev(1)])
  define l' where "l' = branch H l ! nat (nHeight (H l) - nHeight (H f))"
  have w: "walk_back H (nHeight (H f)) l = Some l'"
    using walk_back_branch [OF assms(1) prev.prems(1) hf] by (simp add: l'_def)
  have i: "nat (nHeight (H l) - nHeight (H f)) < length (branch H l)"
    using length_branch [OF assms(1) prev.prems(1)] hf tree_height [OF assms(1) prev.prems(1)] by simp
  then have l': "l' \<in> set (branch H l)" by (simp add: l'_def)
  then have l'D: "l' \<in> D" using branch_in [OF assms(1) prev.prems(1)] by blast
  show ?case
  proof (cases "f \<in> set (branch H l)")
    case True
    then have "f = l'" using nth_unique_height [OF assms(1) prev.prems(1) True] by (simp add: l'_def)
    then have "find_fork H (Some f) l = Some (Some f)" using w by (subst find_fork.simps) simp
    then show ?thesis using True bf by auto
  next
    case False
    have "l \<in> set (branch H l)" using branch_not_Nil [of H l] by (metis hd_in_set)
    then have ne: "f \<noteq> l'" "f \<noteq> l" using l' False by auto
    have "last (branch H f') = last (branch H l')"
      using prev.prems(2) last_branch [OF assms(1) prev.prems(1) l'] bf branch_not_Nil(1) [of H f'] by simp
    then obtain g where g: "find_fork H (Some f') l' = Some (Some g)" "g \<in> set (branch H f')" "g \<in> set (branch H l')"
      "set (branch H f') \<inter> set (branch H l') \<subseteq> set (branch H g)"
      using prev.IH [OF l'D] by blast
    have "find_fork H (Some f) l = Some (Some g)"
      using ne w prev(2) g(1) by (subst find_fork.simps) simp
    moreover have "x \<in> set (branch H g)" if x: "x \<in> set (branch H f)" "x \<in> set (branch H l)" for x
    proof -
      have x': "x \<in> set (branch H f')" using x False bf by auto
      then have "nHeight (H x) \<le> nHeight (H f')" using nth_unique_height [OF assms(1) prev(3)] by blast
      moreover have "nHeight (H l') = min (nHeight (H l)) (nHeight (H f))"
        using branch_height [OF assms(1) prev.prems(1) i] hf by (simp add: l'_def)
      moreover have "nHeight (H x) \<le> nHeight (H l)" using nth_unique_height [OF assms(1) prev.prems(1) x(2)] by blast
      ultimately have "x \<in> set (branch H l')"
        using branch_lower [OF assms(1) prev.prems(1) l' x(2)] prev(4) by simp
      then show ?thesis using g(4) x' by blast
    qed
    ultimately show ?thesis
      using g(2,3) bf branch_subset [OF assms(1) prev.prems(1) l'] by (intro exI [of _ g]) auto
  qed
qed

lemma list_until_branch:
  assumes "tree_ok H D" and "p \<in> D" and "i < length (branch H p)"
  shows "list_until H (Some p) (Some (branch H p ! i)) = Some (take i (branch H p))"
  using assms
proof (induction arbitrary: i rule: tree_induct)
  case (root p)
  then show ?case using branch_rec [OF assms(1) root(1)] by (subst list_until.simps) simp
next
  case (prev p q)
  have b: "branch H p = p # branch H q" using branch_rec [OF assms(1) prev(1)] prev(2) by simp
  show ?case
  proof (cases i)
    case 0
    then show ?thesis by (subst list_until.simps) (simp add: branch_nth_0)
  next
    case (Suc j)
    then have "branch H q ! j \<noteq> p" using distinct_branch [OF assms(1) prev(1)] b prev.prems by (auto simp: in_set_conv_nth)
    moreover have "list_until H (Some q) (Some (branch H q ! j)) = Some (take j (branch H q))"
      using prev.prems Suc b by (intro prev.IH) simp
    ultimately show ?thesis using Suc b prev(2) by (subst list_until.simps) simp
  qed
qed

lemma list_until_None:
  assumes "tree_ok H D" and "p \<in> D"
  shows "list_until H (Some p) None = Some (branch H p)"
  using assms
proof (induction rule: tree_induct)
  case (root p)
  then show ?case using branch_rec [OF assms(1) root(1)] by (simp add: list_until.simps)
next
  case (prev p q)
  then show ?case using branch_rec [OF assms(1) prev(1)] by (subst list_until.simps) simp
qed

section \<open>The pointers forward\<close>

text \<open>Whatever changes only other members leaves the branches.\<close>

lemma branch_cong:
  assumes "\<And>p. pprev (H' p) = pprev (H p)" and "\<And>p. nHeight (H' p) = nHeight (H p)"
  shows "branch H' p = branch H p" "tree_ok H' D = tree_ok H D"
proof -
  have "branch_up H' n p = branch_up H n p" for n p
    using assms(1) by (induction n arbitrary: p) (auto split: option.splits)
  then show "branch H' p = branch H p" by (simp add: branch_def assms(2))
  show "tree_ok H' D = tree_ok H D" unfolding tree_ok_def assms ..
qed

lemma connect_ptrs_shape:
  "pprev (connect_ptrs l H p) = pprev (H p)" "nHeight (connect_ptrs l H p) = nHeight (H p)"
  "phashBlock (connect_ptrs l H p) = phashBlock (H p)"
proof -
  have "pprev (connect_ptrs l H p) = pprev (H p) \<and> nHeight (connect_ptrs l H p) = nHeight (H p) \<and>
      phashBlock (connect_ptrs l H p) = phashBlock (H p)"
    unfolding connect_ptrs_def by (induction l arbitrary: H) (simp_all split: option.split)
  then show "pprev (connect_ptrs l H p) = pprev (H p)" "nHeight (connect_ptrs l H p) = nHeight (H p)"
    "phashBlock (connect_ptrs l H p) = phashBlock (H p)" by simp_all
qed

lemma disconnect_ptrs_shape:
  "pprev (disconnect_ptrs l H p) = pprev (H p)" "nHeight (disconnect_ptrs l H p) = nHeight (H p)"
  "phashBlock (disconnect_ptrs l H p) = phashBlock (H p)"
proof -
  have "pprev (disconnect_ptrs l H p) = pprev (H p) \<and> nHeight (disconnect_ptrs l H p) = nHeight (H p) \<and>
      phashBlock (disconnect_ptrs l H p) = phashBlock (H p)"
    unfolding disconnect_ptrs_def by (induction l arbitrary: H) (simp_all split: option.split)
  then show "pprev (disconnect_ptrs l H p) = pprev (H p)" "nHeight (disconnect_ptrs l H p) = nHeight (H p)"
    "phashBlock (disconnect_ptrs l H p) = phashBlock (H p)" by simp_all
qed

lemma disconnect_pnext:
  "pnext (disconnect_ptrs l H q) = (if \<exists>p\<in>set l. pprev (H p) = Some q then None else pnext (H q))"
proof (induction l rule: rev_induct)
  case (snoc p l)
  have "disconnect_ptrs (l @ [p]) H =
      (case pprev (H p) of None \<Rightarrow> disconnect_ptrs l H
       | Some q \<Rightarrow> (disconnect_ptrs l H)(q := (disconnect_ptrs l H q)\<lparr>pnext := None\<rparr>))"
    using disconnect_ptrs_shape(1) [of l H p] by (cases "pprev (H p)") (simp_all add: disconnect_ptrs_def)
  then show ?case using snoc by (auto split: option.split)
qed (simp add: disconnect_ptrs_def)

lemma connect_pnext:
  assumes "inj_on (\<lambda>p. pprev (H p)) (set l)"
  shows "(p \<in> set l \<longrightarrow> pprev (H p) = Some q \<longrightarrow> pnext (connect_ptrs l H q) = Some p) \<and>
    ((\<forall>p\<in>set l. pprev (H p) \<noteq> Some q) \<longrightarrow> pnext (connect_ptrs l H q) = pnext (H q))"
  using assms
proof (induction l arbitrary: p rule: rev_induct)
  case (snoc x l)
  have "connect_ptrs (l @ [x]) H =
      (case pprev (H x) of None \<Rightarrow> connect_ptrs l H
       | Some q \<Rightarrow> (connect_ptrs l H)(q := (connect_ptrs l H q)\<lparr>pnext := Some x\<rparr>))"
    using connect_ptrs_shape(1) [of l H x] by (cases "pprev (H x)") (simp_all add: connect_ptrs_def)
  moreover have "inj_on (\<lambda>p. pprev (H p)) (set l)" using snoc(2) by (simp add: inj_on_def)
  moreover have "p = x" if "p \<in> set l" "pprev (H p) = pprev (H x)" for p using snoc(2) that by (simp add: inj_on_def)
  ultimately show ?case using snoc(1) by (cases "pprev (H x)") auto
qed (simp add: connect_ptrs_def)

lemma branch_pprev_inj:
  assumes "tree_ok H D" and "p \<in> D"
  shows "inj_on (\<lambda>p. pprev (H p)) (set (branch H p))"
proof (rule inj_onI)
  fix x y
  assume xy: "x \<in> set (branch H p)" "y \<in> set (branch H p)" "pprev (H x) = pprev (H y)"
  have D: "x \<in> D" "y \<in> D" using xy branch_in [OF assms] by auto
  have "nHeight (H x) = nHeight (H y)"
    using xy(3) tree_at [OF assms(1) D(1)] tree_at [OF assms(1) D(2)] by (cases "pprev (H y)") simp_all
  then show "x = y" using nth_unique_height [OF assms xy(1)] nth_unique_height [OF assms xy(2)] by metis
qed

text \<open>The branch of the old best entry, empty when there is none.\<close>
definition best_branch :: "bheap \<Rightarrow> bptr \<Rightarrow> nat list" where
  "best_branch H best = (case best of None \<Rightarrow> [] | Some b \<Rightarrow> branch H b)"

lemma fork_lists_branches:
  assumes "tree_ok H D" and "main_ok H D best" and "new \<in> D"
    and "\<And>b. best = Some b \<Longrightarrow> last (branch H b) = last (branch H new)"
  obtains vDisconnect vConnect common where "fork_lists H best new = Some (vDisconnect, vConnect)"
    and "best_branch H best = vDisconnect @ common" and "branch H new = rev vConnect @ common"
    and "set vDisconnect \<inter> set vConnect = {}"
proof (cases best)
  case None
  then have "fork_lists H best new = Some ([], rev (branch H new))"
    by (simp add: fork_lists_def find_fork.simps list_until.simps [of H None] list_until_None [OF assms(1,3)])
  then show thesis by (intro that [of "[]" "rev (branch H new)" "[]"]) (simp_all add: best_branch_def None)
next
  case (Some b)
  have b: "b \<in> D" using assms(2) Some by (simp add: main_ok_def)
  obtain g where g: "find_fork H (Some b) new = Some (Some g)" "g \<in> set (branch H b)" "g \<in> set (branch H new)"
    "set (branch H b) \<inter> set (branch H new) \<subseteq> set (branch H g)"
    using find_fork_branches [OF assms(1) b assms(3) assms(4) [OF Some]] by blast
  define i where "i = nat (nHeight (H b) - nHeight (H g))"
  define j where "j = nat (nHeight (H new) - nHeight (H g))"
  have i: "g = branch H b ! i" "i < length (branch H b)" "branch H g = drop i (branch H b)"
    using nth_unique_height [OF assms(1) b g(2)] branch_suffix [OF assms(1) b g(2)] by (simp_all add: i_def)
  have j: "g = branch H new ! j" "j < length (branch H new)" "branch H g = drop j (branch H new)"
    using nth_unique_height [OF assms(1,3) g(3)] branch_suffix [OF assms(1,3) g(3)] by (simp_all add: j_def)
  have "fork_lists H best new = Some (take i (branch H b), rev (take j (branch H new)))"
    using list_until_branch [OF assms(1) b i(2)] list_until_branch [OF assms(1,3) j(2)] i(1) j(1) g(1) Some
    by (simp add: fork_lists_def)
  moreover have "best_branch H best = take i (branch H b) @ branch H g" using Some i(3) by (simp add: best_branch_def)
  moreover have "branch H new = rev (rev (take j (branch H new))) @ branch H g" using j(3) by simp
  moreover have "set (take i (branch H b)) \<inter> set (rev (take j (branch H new))) = {}"
  proof -
    have "x \<in> set (branch H g)" if "x \<in> set (take i (branch H b))" "x \<in> set (take j (branch H new))" for x
      using g(4) that by (meson Int_iff in_set_takeD subsetD)
    moreover have "set (take i (branch H b)) \<inter> set (branch H g) = {}"
      using distinct_branch [OF assms(1) b] unfolding i(3) by (metis append_take_drop_id distinct_append)
    ultimately show ?thesis by auto
  qed
  ultimately show thesis by (rule that)
qed

lemma switch_main:
  assumes "tree_ok H D" and "main_ok H D best" and "new \<in> D"
    and "best_branch H best = vD @ common" and "branch H new = rev vC @ common" and "set vD \<inter> set vC = {}"
  shows "main_ok (connect_ptrs vC (disconnect_ptrs vD H)) D (Some new)"
proof -
  let ?H = "connect_ptrs vC (disconnect_ptrs vD H)"
  have shape: "pprev (?H p) = pprev (H p)" "nHeight (?H p) = nHeight (H p)" for p
    by (simp_all add: connect_ptrs_shape disconnect_ptrs_shape)
  have br: "branch ?H p = branch H p" for p by (rule branch_cong(1)) (simp_all add: shape)
  have old: "pnext (H p) = Some q \<longleftrightarrow> q \<in> set (vD @ common) \<and> pprev (H q) = Some p" if "p \<in> D" for p q
    using assms(2,4) that by (auto simp: main_ok_def best_branch_def split: option.splits)
  have b: "inj_on (\<lambda>p. pprev (H p)) (set (best_branch H best)) \<and> distinct (best_branch H best)"
  proof (cases best)
    case (Some b)
    then have "b \<in> D" using assms(2) by (simp add: main_ok_def)
    then show ?thesis using Some branch_pprev_inj [OF assms(1)] distinct_branch [OF assms(1)] by (simp add: best_branch_def)
  qed (simp add: best_branch_def)
  have inj: "inj_on (\<lambda>p. pprev (H p)) (set (rev vC @ common))" "inj_on (\<lambda>p. pprev (H p)) (set (vD @ common))"
    using branch_pprev_inj [OF assms(1,3)] b by (simp_all only: assms(4,5))
  have dist: "distinct (vD @ common)" using b by (simp only: assms(4))
  have injC: "inj_on (\<lambda>p. pprev (disconnect_ptrs vD H p)) (set vC)"
    using inj(1) by (auto simp: inj_on_def disconnect_ptrs_shape)
  have "pnext (?H p) = Some q \<longleftrightarrow> q \<in> set (rev vC @ common) \<and> pprev (H q) = Some p" if "p \<in> D" for p q
  proof (cases "\<exists>c\<in>set vC. pprev (H c) = Some p")
    case True
    then obtain c where c: "c \<in> set vC" "pprev (H c) = Some p" by blast
    then have "pnext (?H p) = Some c" using connect_pnext [OF injC, of c p] by (simp add: disconnect_ptrs_shape)
    then show ?thesis using c inj(1) by (auto simp: inj_on_def)
  next
    case noC: False
    then have n: "pnext (?H p) = (if \<exists>d\<in>set vD. pprev (H d) = Some p then None else pnext (H p))"
      using connect_pnext [OF injC, of p p] by (simp add: disconnect_ptrs_shape disconnect_pnext)
    show ?thesis
    proof (cases "\<exists>d\<in>set vD. pprev (H d) = Some p")
      case True
      then obtain d where d: "d \<in> set vD" "pprev (H d) = Some p" by blast
      have "\<not> (q \<in> set common \<and> pprev (H q) = Some p)"
      proof
        assume q: "q \<in> set common \<and> pprev (H q) = Some p"
        then have "q = d" using inj(2) d by (auto simp: inj_on_def)
        then show False using dist d q by auto
      qed
      then show ?thesis using n True noC by auto
    next
      case False
      then show ?thesis using n noC old [OF that] by auto
    qed
  qed
  then show ?thesis using assms(3,5) by (simp add: main_ok_def br shape)
qed

section \<open>The block index as a state machine\<close>

record block_index =
  ix_heap :: bheap
  ix_used :: "nat set"
  ix_map :: "uint256 \<Rightarrow> nat option"
  ix_best :: bptr

text \<open>Adding a block to the index, at a fresh address, and making an entry the best one.\<close>

inductive ix_step :: "('k, 'x) crypto_scheme \<Rightarrow> block_index \<Rightarrow> block_index \<Rightarrow> bool" for C where
  add: "ix_map s (blk_GetHash C b) = None \<Longrightarrow> hashPrevBlock b \<noteq> blk_GetHash C b \<Longrightarrow> n \<notin> ix_used s \<Longrightarrow>
    new_index C (ix_heap s) (ix_map s) b file pos n = (H', m') \<Longrightarrow>
    ix_step C s (s\<lparr>ix_heap := H', ix_used := insert n (ix_used s), ix_map := m'\<rparr>)"
| switch: "new \<in> ix_used s \<Longrightarrow> switch_chain (ix_heap s) (ix_best s) new = Some H' \<Longrightarrow>
    ix_step C s (s\<lparr>ix_heap := H', ix_best := Some new\<rparr>)"

definition ix_init :: block_index where
  "ix_init = \<lparr>ix_heap = (\<lambda>_. bi_init), ix_used = {}, ix_map = (\<lambda>_. None), ix_best = None\<rparr>"

definition ix_ok :: "block_index \<Rightarrow> bool" where
  "ix_ok s \<longleftrightarrow> tree_ok (ix_heap s) (ix_used s) \<and> main_ok (ix_heap s) (ix_used s) (ix_best s) \<and>
     (\<forall>h p. ix_map s h = Some p \<longleftrightarrow> p \<in> ix_used s \<and> phashBlock (ix_heap s p) = h)"

lemma new_index_ok:
  assumes "ix_ok s" and "ix_map s (blk_GetHash C b) = None" and "hashPrevBlock b \<noteq> blk_GetHash C b" and "n \<notin> ix_used s"
    and "new_index C (ix_heap s) (ix_map s) b file pos n = (H', m')"
  shows "ix_ok (s\<lparr>ix_heap := H', ix_used := insert n (ix_used s), ix_map := m'\<rparr>)"
proof -
  let ?H = "ix_heap s" and ?D = "ix_used s"
  define h where "h = blk_GetHash C b"
  have ok: "tree_ok ?H ?D" "main_ok ?H ?D (ix_best s)" "\<And>h p. ix_map s h = Some p \<longleftrightarrow> p \<in> ?D \<and> phashBlock (?H p) = h"
    using assms(1) by (auto simp: ix_ok_def)
  define q where "q = ix_map s (hashPrevBlock b)"
  have qD: "q = Some r \<Longrightarrow> r \<in> ?D \<and> r \<noteq> n" for r using ok(3) assms(4) by (auto simp: q_def)
  obtain e where H': "H' = ?H(n := e)" and m': "m' = (ix_map s)(h := Some n)"
    and e: "phashBlock e = h" "pprev e = q" "pnext e = None" "nHeight e = (case q of None \<Rightarrow> 0 | Some r \<Rightarrow> nHeight (?H r) + 1)"
    using assms(5,3) qD unfolding new_index_def Let_def h_def [symmetric] q_def
    by (cases "ix_map s (hashPrevBlock b)") (auto simp: bi_of_block_def bi_init_def)
  have out: "H' p = ?H p" if "p \<in> ?D" for p using that assms(4) H' by auto
  have tree: "tree_ok H' (insert n ?D)"
    unfolding tree_ok_def
  proof
    fix p assume "p \<in> insert n ?D"
    then show "0 \<le> nHeight (H' p) \<and> (case pprev (H' p) of None \<Rightarrow> nHeight (H' p) = 0
        | Some q \<Rightarrow> q \<in> insert n ?D \<and> nHeight (H' p) = nHeight (H' q) + 1)"
    proof
      assume "p = n"
      then show ?thesis using e qD tree_height [OF ok(1)] out H' by (cases q) (auto simp: add_nonneg_nonneg)
    next
      assume "p \<in> ?D"
      then show ?thesis using tree_at [OF ok(1), of p] out by (auto split: option.splits)
    qed
  qed
  have br: "branch H' p = branch ?H p" if "p \<in> ?D" for p
    using ok(1) that
  proof (induction rule: tree_induct)
    case (root p)
    then show ?case using branch_rec [OF tree, of p] branch_rec [OF ok(1) root(1)] out by simp
  next
    case (prev p q)
    then show ?case using branch_rec [OF tree, of p] branch_rec [OF ok(1) prev(1)] out by simp
  qed
  have "main_ok H' (insert n ?D) (ix_best s)"
  proof (cases "ix_best s")
    case None
    then show ?thesis using ok(2) e(3) H' by (auto simp: main_ok_def)
  next
    case (Some x)
    then have x: "x \<in> ?D" "\<And>p q. p \<in> ?D \<Longrightarrow> pnext (?H p) = Some q \<longleftrightarrow> q \<in> set (branch ?H x) \<and> pprev (?H q) = Some p"
      using ok(2) by (simp_all add: main_ok_def)
    have bD: "q \<in> ?D" if "q \<in> set (branch ?H x)" for q using branch_in [OF ok(1) x(1)] that by blast
    have "pprev (?H q) \<noteq> Some n" if "q \<in> set (branch ?H x)" for q
      using tree_prev [OF ok(1) bD [OF that], of n] assms(4) by auto
    moreover have "H' n = e" by (simp add: H')
    moreover have "H' q = ?H q" if "q \<in> set (branch ?H x)" for q using out bD [OF that] by blast
    ultimately show ?thesis
      using Some x(1) e(3) x(2) out unfolding main_ok_def by (auto simp: br)
  qed
  moreover have "m' h' = Some p \<longleftrightarrow> p \<in> insert n ?D \<and> phashBlock (H' p) = h'" for h' p
    using ok(3) [of h' p] ok(3) [of h p] assms(2) e(1) out assms(4) by (auto simp: m' H' h_def)
  ultimately show ?thesis using tree by (simp add: ix_ok_def)
qed

lemma switch_ok:
  assumes "ix_ok s" and "new \<in> ix_used s"
    and "\<And>b. ix_best s = Some b \<Longrightarrow> last (branch (ix_heap s) b) = last (branch (ix_heap s) new)"
  shows "\<exists>H'. switch_chain (ix_heap s) (ix_best s) new = Some H' \<and> ix_ok (s\<lparr>ix_heap := H', ix_best := Some new\<rparr>)"
proof -
  have ok: "tree_ok (ix_heap s) (ix_used s)" "main_ok (ix_heap s) (ix_used s) (ix_best s)" using assms(1) by (simp_all add: ix_ok_def)
  obtain vD vC common where f: "fork_lists (ix_heap s) (ix_best s) new = Some (vD, vC)"
    "best_branch (ix_heap s) (ix_best s) = vD @ common" "branch (ix_heap s) new = rev vC @ common" "set vD \<inter> set vC = {}"
    using fork_lists_branches [OF ok assms(2,3)] by blast
  let ?H = "connect_ptrs vC (disconnect_ptrs vD (ix_heap s))"
  have "tree_ok ?H (ix_used s)" using ok(1) branch_cong(2) [of ?H "ix_heap s"] by (simp add: connect_ptrs_shape disconnect_ptrs_shape)
  then have "ix_ok (s\<lparr>ix_heap := ?H, ix_best := Some new\<rparr>)"
    using assms(1) switch_main [OF ok assms(2) f(2-4)] by (simp add: ix_ok_def connect_ptrs_shape disconnect_ptrs_shape)
  then show ?thesis using f(1) by (simp add: switch_chain_def)
qed

lemma find_fork_roots:
  assumes "tree_ok H D" and "f \<in> D" and "l \<in> D" and "last (branch H f) \<noteq> last (branch H l)"
  shows "find_fork H (Some f) l = None"
  using assms
proof (induction arbitrary: l rule: tree_induct)
  case (root f)
  have f: "branch H f = [f]" "nHeight (H f) = 0"
    using branch_rec [OF assms(1) root(1)] root(2) tree_root [OF assms(1) root(1,2)] by simp_all
  have "branch H l ! nat (nHeight (H l)) = last (branch H l)"
    using length_branch [OF assms(1) root(3)] branch_not_Nil(1) [of H l] by (simp add: last_conv_nth)
  then have "walk_back H 0 l = Some (last (branch H l))"
    using walk_back_branch [OF assms(1) root(3), of 0] by simp
  moreover have "f \<noteq> l" using root(4) by blast
  ultimately show ?case using root(2,4) f by (subst find_fork.simps) simp
next
  case (prev f f')
  have bf: "branch H f = f # branch H f'" using branch_rec [OF assms(1) prev(1)] prev(2) by simp
  have hf: "0 \<le> nHeight (H f)" by (rule tree_height [OF assms(1) prev(1)])
  define l' where "l' = branch H l ! nat (nHeight (H l) - nHeight (H f))"
  have w: "walk_back H (nHeight (H f)) l = Some l'"
    using walk_back_branch [OF assms(1) prev.prems(1) hf] by (simp add: l'_def)
  have "nat (nHeight (H l) - nHeight (H f)) < length (branch H l)"
    using length_branch [OF assms(1) prev.prems(1)] hf tree_height [OF assms(1) prev.prems(1)] by simp
  then have l': "l' \<in> set (branch H l)" by (simp add: l'_def)
  have last: "last (branch H l') = last (branch H l)" by (rule last_branch [OF assms(1) prev.prems(1) l'])
  then have "f \<noteq> l'" "f \<noteq> l" using prev.prems(2) by auto
  moreover have "find_fork H (Some f') l' = None"
    using prev.prems(2) last bf branch_not_Nil(1) [of H f'] branch_in [OF assms(1) prev.prems(1)] l' by (intro prev.IH) auto
  ultimately show ?case using w prev(2) by (subst find_fork.simps) simp
qed

lemma switch_roots:
  assumes "ix_ok s" and "new \<in> ix_used s"
  shows "switch_chain (ix_heap s) (ix_best s) new \<noteq> None \<longleftrightarrow>
    (\<forall>b. ix_best s = Some b \<longrightarrow> last (branch (ix_heap s) b) = last (branch (ix_heap s) new))"
proof
  assume "switch_chain (ix_heap s) (ix_best s) new \<noteq> None"
  then have ff: "find_fork (ix_heap s) (ix_best s) new \<noteq> None"
    by (cases "find_fork (ix_heap s) (ix_best s) new") (simp_all add: switch_chain_def fork_lists_def)
  show "\<forall>b. ix_best s = Some b \<longrightarrow> last (branch (ix_heap s) b) = last (branch (ix_heap s) new)"
  proof (intro allI impI)
    fix b assume b: "ix_best s = Some b"
    have "tree_ok (ix_heap s) (ix_used s)" "b \<in> ix_used s" using assms(1) b by (auto simp: ix_ok_def main_ok_def)
    then show "last (branch (ix_heap s) b) = last (branch (ix_heap s) new)"
      using find_fork_roots [OF _ _ assms(2)] ff b by metis
  qed
next
  assume "\<forall>b. ix_best s = Some b \<longrightarrow> last (branch (ix_heap s) b) = last (branch (ix_heap s) new)"
  then show "switch_chain (ix_heap s) (ix_best s) new \<noteq> None" using switch_ok [OF assms] by auto
qed

lemma reachable_ok:
  assumes "rtranclp (ix_step C) ix_init s"
  shows "ix_ok s"
  using assms
proof (induction rule: rtranclp_induct)
  case base
  show ?case by (simp add: ix_ok_def ix_init_def tree_ok_def main_ok_def)
next
  case (step s s')
  from step(2) show ?case
  proof cases
    case (add b n f pos H' m')
    then show ?thesis using new_index_ok [OF step(3)] by simp
  next
    case (switch new H')
    then have "\<And>b. ix_best s = Some b \<Longrightarrow> last (branch (ix_heap s) b) = last (branch (ix_heap s) new)"
      using switch_roots [OF step(3) switch(2)] by simp
    then show ?thesis using switch_ok [OF step(3) switch(2)] switch by auto
  qed
qed

text \<open>C4: In every block index reached from the empty one by adding blocks and switching the main chain: a root has height 0 and
  every other entry is one above its predecessor; an entry is on the main chain exactly if it is the best entry or one
  of its ancestors, and the pointers forward are those of that branch; the map finds exactly the entries, by their hash.
  Switching to an entry fails an assertion exactly if it descends from another root than the best one.\<close>

theorem block_index_invariant:
  assumes "rtranclp (ix_step C) ix_init s"
  shows "tree_ok (ix_heap s) (ix_used s)
    \<and> (\<forall>b. ix_best s = Some b \<longrightarrow> b \<in> ix_used s \<and> (\<forall>p\<in>ix_used s.
          (IsInMainChain (ix_heap s) (Some b) p \<longleftrightarrow> p \<in> set (branch (ix_heap s) b)) \<and>
          (\<forall>q. pnext (ix_heap s p) = Some q \<longleftrightarrow> q \<in> set (branch (ix_heap s) b) \<and> pprev (ix_heap s q) = Some p)))
    \<and> (\<forall>h p. ix_map s h = Some p \<longleftrightarrow> p \<in> ix_used s \<and> phashBlock (ix_heap s p) = h)
    \<and> (\<forall>new\<in>ix_used s. switch_chain (ix_heap s) (ix_best s) new = None \<longleftrightarrow>
          (\<exists>b. ix_best s = Some b \<and> last (branch (ix_heap s) b) \<noteq> last (branch (ix_heap s) new)))"
proof -
  note ok = reachable_ok [OF assms]
  have t: "tree_ok (ix_heap s) (ix_used s)" and m: "main_ok (ix_heap s) (ix_used s) (ix_best s)" using ok by (simp_all add: ix_ok_def)
  have "b \<in> ix_used s \<and> (\<forall>p\<in>ix_used s.
      (IsInMainChain (ix_heap s) (Some b) p \<longleftrightarrow> p \<in> set (branch (ix_heap s) b)) \<and>
      (\<forall>q. pnext (ix_heap s p) = Some q \<longleftrightarrow> q \<in> set (branch (ix_heap s) b) \<and> pprev (ix_heap s q) = Some p))"
    if b: "ix_best s = Some b" for b
    using m main_chain [OF t m [unfolded b]] unfolding b by (simp add: main_ok_def)
  then have 1: "\<forall>b. ix_best s = Some b \<longrightarrow> b \<in> ix_used s \<and> (\<forall>p\<in>ix_used s.
      (IsInMainChain (ix_heap s) (Some b) p \<longleftrightarrow> p \<in> set (branch (ix_heap s) b)) \<and>
      (\<forall>q. pnext (ix_heap s p) = Some q \<longleftrightarrow> q \<in> set (branch (ix_heap s) b) \<and> pprev (ix_heap s q) = Some p))"
    by (intro allI impI)
  have 2: "\<forall>h p. ix_map s h = Some p \<longleftrightarrow> p \<in> ix_used s \<and> phashBlock (ix_heap s p) = h" using ok by (simp add: ix_ok_def)
  have 3: "\<forall>new\<in>ix_used s. switch_chain (ix_heap s) (ix_best s) new = None \<longleftrightarrow>
      (\<exists>b. ix_best s = Some b \<and> last (branch (ix_heap s) b) \<noteq> last (branch (ix_heap s) new))"
    using switch_roots [OF ok] by blast
  show ?thesis using t 1 2 3 by (intro conjI)
qed

section \<open>The order of candidates\<close>

text \<open>Higher entries come later, and of two at one height the one with the smaller hash.\<close>

lemma WorkComparator_iff:
  assumes "length (phashBlock (H p)) = length (phashBlock (H q))"
  shows "WorkComparator H p q \<longleftrightarrow> nHeight (H p) < nHeight (H q) \<or>
    (nHeight (H p) = nHeight (H q) \<and> uval (phashBlock (H q)) < uval (phashBlock (H p)))"
  using assms by (auto simp: WorkComparator_def bu_lt_iff bu_gt_iff)

lemma WorkComparator_total:
  assumes "\<And>p. p \<in> D \<Longrightarrow> length (phashBlock (H p)) = WIDTH256" and "inj_on (\<lambda>p. phashBlock (H p)) D"
    and "p \<in> D" and "q \<in> D" and "p \<noteq> q"
  shows "WorkComparator H p q \<noteq> WorkComparator H q p"
proof -
  have "uval (phashBlock (H p)) \<noteq> uval (phashBlock (H q))"
    using assms uval_inject [of "phashBlock (H p)" "phashBlock (H q)"] by (auto simp: inj_on_def)
  then show ?thesis using assms(1) [OF assms(3)] assms(1) [OF assms(4)] by (auto simp: WorkComparator_iff)
qed

section \<open>Concrete chains\<close>

text \<open>Three entries in a row, with times 1, 2 and 3, the last one best.\<close>

definition row_heap :: bheap where
  "row_heap p = bi_init\<lparr>phashBlock := bu_of64 WIDTH256 (word_of_nat p),
     pprev := (if p = 0 then None else Some (p - 1)), pnext := (if p < 2 then Some (p + 1) else None),
     nHeight := int p, bi_nTime := word_of_nat (p + 1)\<rparr>"

lemma row_tree: "tree_ok row_heap {0, 1, 2}"
  by (simp add: tree_ok_def row_heap_def)

lemma row_branch: "branch row_heap 2 = [2, 1, 0]" "branch row_heap 1 = [1, 0]" "branch row_heap 0 = [0]"
proof -
  show 0: "branch row_heap 0 = [0]" using branch_rec [OF row_tree, of 0] by (simp add: row_heap_def)
  show 1: "branch row_heap 1 = [1, 0]" using branch_rec [OF row_tree, of 1] 0 by (simp add: row_heap_def)
  show "branch row_heap 2 = [2, 1, 0]" using branch_rec [OF row_tree, of 2] 1 by (simp add: row_heap_def)
qed

lemma row_main: "main_ok row_heap {0, 1, 2} (Some 2)"
  by (auto simp: main_ok_def row_branch) (auto simp: row_heap_def split: if_splits)

lemma row_median: "GetMedianTimePast row_heap 0 = 1" "GetMedianTimePast row_heap 1 = 2"
  by (simp_all add: GetMedianTimePast_median [OF row_tree] row_branch row_branch [simplified] median_def) (simp_all add: row_heap_def bi_GetBlockTime_def)

theorem median_time_grows_witness:
  "sorted_wrt (\<lambda>a b. GetMedianTimePast row_heap b \<le> GetMedianTimePast row_heap a) [2, 1, 0]"
proof -
  have "bi_GetBlockTime (row_heap r) > GetMedianTimePast row_heap q"
    if "r \<in> set (branch row_heap 2)" "pprev (row_heap r) = Some q" for r q
    using that row_median by (auto simp: row_branch) (auto simp: row_heap_def bi_GetBlockTime_def)
  then show ?thesis using median_time_grows [OF row_tree, of 2] row_branch(1) by auto
qed

theorem FindBlockByHeight_finds_witness:
  "\<exists>p. FindBlockByHeight row_heap (Some 0) (Some 2) 2 None 1 = Some p \<and> nHeight (row_heap p) = 1"
proof -
  have "nHeight (row_heap 2) = 2" by (simp add: row_heap_def)
  then show ?thesis
    using FindBlockByHeight_finds [OF row_tree row_main, of 1 None] row_branch(1) by auto
qed

theorem locator_finds_fork_witness:
  "\<exists>vHave e. locator_Set row_heap (phashBlock (row_heap 0)) (Some 2) = Some vHave
    \<and> locator_GetBlockIndex row_heap (\<lambda>h. if length h = 8 \<and> uint (h ! 0) < 3 then Some (unat (h ! 0)) else None) (Some 2) (Some 0) vHave =
        Some ([2, 1, 0] ! e) \<and> e = 0"
proof -
  have m: "(\<lambda>h. if length h = 8 \<and> uint (h ! 0) < 3 then Some (unat (h ! 0)) else None) (phashBlock (row_heap q)) = Some q"
    if "q \<in> {0, 1, 2}" for q
    using that by (auto simp: row_heap_def bu_of64_def lo32_def)
  show ?thesis
    using locator_finds_fork [OF row_tree row_main _ m, of 2 0 0] row_branch(1) by auto
qed

theorem block_index_invariant_witness:
  "\<exists>s. rtranclp (ix_step example_crypto) ix_init s \<and> ix_best s = Some 0 \<and> tree_ok (ix_heap s) (ix_used s) \<and>
     pprev (ix_heap s 0) = None"
proof -
  let ?b = "coinbase_block 5" and ?C = example_crypto
  obtain H m where n: "new_index ?C (\<lambda>_. bi_init) (\<lambda>_. None) ?b 0 0 0 = (H, m)" by fastforce
  have "hd (bu_of_bytes 8 bs) = word_of_nat (le_val (take 4 bs))" for bs
    using bu_of_bytes.simps(2) [of 7 bs] by simp
  then have "hd (blk_GetHash ?C ?b) = 3"
    by (simp add: le_val_le_bytes blk_GetHash_def header_bytes_def Hash_def Let_def example_crypto_def coinbase_block_def ser_int_def)
  moreover have "hd (hashPrevBlock ?b) = 1" by (simp add: coinbase_block_def bu_of64_def lo32_def)
  ultimately have ne: "hashPrevBlock ?b \<noteq> blk_GetHash ?C ?b" by auto
  let ?s = "ix_init\<lparr>ix_heap := H, ix_used := {0}, ix_map := m\<rparr>"
  have 1: "ix_step ?C ix_init ?s"
    using ix_step.add [of ix_init ?C ?b 0 0 0 H m] n ne by (simp add: ix_init_def)
  then have "rtranclp (ix_step ?C) ix_init ?s" by blast
  moreover have best: "ix_best ?s = None" by (simp add: ix_init_def)
  ultimately have inv: "tree_ok H {0}" "switch_chain H None 0 \<noteq> None"
    using block_index_invariant [of ?C ?s] by auto
  then obtain H' where H': "switch_chain H None 0 = Some H'" by blast
  have "ix_step ?C ?s (?s\<lparr>ix_heap := H', ix_best := Some 0\<rparr>)"
    by (rule ix_step.switch) (simp_all add: H' best)
  then have r: "rtranclp (ix_step ?C) ix_init (?s\<lparr>ix_heap := H', ix_best := Some 0\<rparr>)"
    using 1 by (meson converse_rtranclp_into_rtranclp r_into_rtranclp)
  then have t: "tree_ok H' {0}" using block_index_invariant [OF r] by simp
  have "pprev (H' 0) = None" using tree_at [OF t, of 0] by (cases "pprev (H' 0)") auto
  then show ?thesis using r t by (intro exI [of _ "?s\<lparr>ix_heap := H', ix_best := Some 0\<rparr>"]) simp
qed

end
