(* ===== verification/Inputs.thy ===== *)
theory Inputs
  imports Utxo Chain ScriptEval Fees
begin

text \<open>
  The checks of the inputs of a transaction (\<open>CScriptCheck\<close>, \<open>VerifySignature\<close>, \<open>CTransaction::CheckInputs\<close> of \<open>main.h\<close> and
  \<open>main.cpp\<close>), and that they keep money from being created: in every circuit a transaction pays out at most what its
  inputs hold.
\<close>

section \<open>Ways to fail\<close>

text \<open>A failed assertion, an exception, reading through a null pointer, and reading past the end of a vector.\<close>
datatype failure = Assertion | Thrown string | NullPointer | OutOfRange

definition ebind :: "failure + 'a \<Rightarrow> ('a \<Rightarrow> failure + 'b) \<Rightarrow> failure + 'b" where
  "ebind m f = (case m of Inl e \<Rightarrow> Inl e | Inr x \<Rightarrow> f x)"

definition asserted :: "'a option \<Rightarrow> failure + 'a" where
  "asserted r = (case r of None \<Rightarrow> Inl Assertion | Some x \<Rightarrow> Inr x)"

definition thrown :: "string + 'a \<Rightarrow> failure + 'a" where
  "thrown r = (case r of Inl e \<Rightarrow> Inl (Thrown e) | Inr x \<Rightarrow> Inr x)"

definition deref :: "'a option \<Rightarrow> failure + 'a" where
  "deref p = (case p of None \<Rightarrow> Inl NullPointer | Some x \<Rightarrow> Inr x)"

definition element :: "'a list \<Rightarrow> nat \<Rightarrow> failure + 'a" where
  "element v n = (if n < length v then Inr (v ! n) else Inl OutOfRange)"

lemma ebind_Inr [simp]: "ebind (Inr x) f = f x" and ebind_Inl [simp]: "ebind (Inl e) f = Inl e"
  by (simp_all add: ebind_def)

lemma ebind_eq_Inr: "ebind m f = Inr y \<longleftrightarrow> (\<exists>x. m = Inr x \<and> f x = Inr y)"
  by (cases m) auto

lemma asserted_simps [simp]: "asserted None = Inl Assertion" "asserted (Some x) = Inr x"
  by (simp_all add: asserted_def)

lemma asserted_eq_Inr: "asserted r = Inr x \<longleftrightarrow> r = Some x"
  by (cases r) simp_all

lemma thrown_eq_Inr: "thrown r = Inr x \<longleftrightarrow> r = Inr x"
  by (cases r) (simp_all add: thrown_def)

section \<open>Script checks\<close>

record CScriptCheck =
  sc_scriptPubKey :: script
  ptxTo :: CTransaction
  sc_nIn :: nat
  nFlags :: u32
  sc_nHashType :: u32

definition CScriptCheck_of :: "CCoins \<Rightarrow> CTransaction \<Rightarrow> nat \<Rightarrow> u32 \<Rightarrow> u32 \<Rightarrow> failure + CScriptCheck" where
  "CScriptCheck_of txFromIn txToIn nInIn nFlagsIn nHashTypeIn =
     ebind (element (vin txToIn) nInIn) (\<lambda>txin.
     ebind (element (c_vout txFromIn) (unat (op_n (prevout txin)))) (\<lambda>out.
       Inr \<lparr>sc_scriptPubKey = scriptPubKey out, ptxTo = txToIn, sc_nIn = nInIn, nFlags = nFlagsIn, sc_nHashType = nHashTypeIn\<rparr>))"

definition run_check ::
  "('k, 'x) crypto_scheme \<Rightarrow> 'l bn_lib \<Rightarrow> sig_env \<Rightarrow> CScriptCheck \<Rightarrow> CSignatureCache \<Rightarrow> failure + (bool \<times> CSignatureCache)" where
  "run_check C L E check cache =
     ebind (element (vin (ptxTo check)) (sc_nIn check)) (\<lambda>txin.
       asserted (VerifyScript C L E (scriptSig txin) (sc_scriptPubKey check) (ptxTo check) (sc_nIn check) (nFlags check)
         (sc_nHashType check) cache))"

definition VerifySignature ::
  "('k, 'x) crypto_scheme \<Rightarrow> 'l bn_lib \<Rightarrow> sig_env \<Rightarrow> CCoins \<Rightarrow> CTransaction \<Rightarrow> nat \<Rightarrow> u32 \<Rightarrow> u32 \<Rightarrow> CSignatureCache \<Rightarrow>
   failure + (bool \<times> CSignatureCache)" where
  "VerifySignature C L E txFrom txTo nIn flags nHashType cache =
     ebind (CScriptCheck_of txFrom txTo nIn flags nHashType) (\<lambda>check. run_check C L E check cache)"

section \<open>CheckInputs\<close>

definition COINBASE_MATURITY :: int where "COINBASE_MATURITY = 0"

text \<open>The result of \<open>int\<close> arithmetic.\<close>
definition i32 :: "int \<Rightarrow> int" where "i32 x = sint (word_of_int x :: u32)"

text \<open>The values of the inputs, or the answer of an early return.\<close>
fun inputs_loop ::
  "'b CCoinsView \<Rightarrow> int \<Rightarrow> CTxIn list \<Rightarrow> cash \<Rightarrow> CValidationState \<Rightarrow> 'b CCoinsViewCache \<Rightarrow>
   failure + (((bool \<times> CValidationState) + cash) \<times> 'b CCoinsViewCache)" where
  "inputs_loop V nSpendHeight [] nValueIn st inputs = Inr (Inr nValueIn, inputs)"
| "inputs_loop V nSpendHeight (txin # v) nValueIn st inputs =
     ebind (asserted (cache_GetRef V inputs (COutPoint.op_hash (prevout txin)))) (\<lambda>(coins, inputs).
       if coins_IsCoinBase coins \<and> i32 (nSpendHeight - sint (c_nHeight coins)) < COINBASE_MATURITY
       then Inr (Inl (vs_Invalid st False), inputs)
       else ebind (element (c_vout coins) (unat (op_n (prevout txin)))) (\<lambda>out.
         let nValueIn = cash_plus_assign nValueIn (nValue out)
         in if \<not> MoneyRange (nValue out) \<or> \<not> MoneyRange nValueIn
            then Inr (Inl (vs_DoS st 100 False False), inputs)
            else inputs_loop V nSpendHeight v nValueIn st inputs))"

text \<open>The signature checks: queued when there is a queue, otherwise run.  A failure that does not happen without the strict
  encodings is not charged.\<close>
fun script_loop ::
  "('k, 'x) crypto_scheme \<Rightarrow> 'l bn_lib \<Rightarrow> sig_env \<Rightarrow> 'b CCoinsView \<Rightarrow> CTransaction \<Rightarrow> u32 \<Rightarrow> nat list \<Rightarrow>
   CValidationState \<Rightarrow> 'b CCoinsViewCache \<Rightarrow> CScriptCheck list option \<Rightarrow> CSignatureCache \<Rightarrow>
   failure + ((bool \<times> CValidationState) \<times> 'b CCoinsViewCache \<times> CScriptCheck list option \<times> CSignatureCache)" where
  "script_loop C L E V tx flags [] st inputs pvChecks cache = Inr ((True, st), inputs, pvChecks, cache)"
| "script_loop C L E V tx flags (i # is) st inputs pvChecks cache =
     ebind (element (vin tx) i) (\<lambda>txin.
     ebind (asserted (cache_GetRef V inputs (COutPoint.op_hash (prevout txin)))) (\<lambda>(coins, inputs).
     ebind (CScriptCheck_of coins tx i flags 0) (\<lambda>check.
       case pvChecks of
         Some checks \<Rightarrow> script_loop C L E V tx flags is st inputs (Some (checks @ [check])) cache
       | None \<Rightarrow>
           ebind (run_check C L E check cache) (\<lambda>(ok, cache).
             if ok then script_loop C L E V tx flags is st inputs pvChecks cache
             else if flags AND SCRIPT_VERIFY_STRICTENC \<noteq> 0
             then ebind (CScriptCheck_of coins tx i (flags AND NOT SCRIPT_VERIFY_STRICTENC) 0) (\<lambda>check.
                  ebind (run_check C L E check cache) (\<lambda>(ok, cache).
                    Inr (if ok then vs_Invalid st False else vs_DoS st 100 False False, inputs, pvChecks, cache)))
             else Inr (vs_DoS st 100 False False, inputs, pvChecks, cache)))))"

definition CheckInputs ::
  "('k, 'x) crypto_scheme \<Rightarrow> 'l bn_lib \<Rightarrow> sig_env \<Rightarrow> 'b CCoinsView \<Rightarrow> bheap \<Rightarrow> CTransaction \<Rightarrow> CValidationState \<Rightarrow>
   'b CCoinsViewCache \<Rightarrow> bool \<Rightarrow> u32 \<Rightarrow> CScriptCheck list option \<Rightarrow> CSignatureCache \<Rightarrow>
   failure + ((bool \<times> CValidationState) \<times> 'b CCoinsViewCache \<times> CScriptCheck list option \<times> CSignatureCache)" where
  "CheckInputs C L E V H tx st inputs fScriptChecks flags pvChecks cache =
     (if tx_IsCoinBase tx then Inr ((True, st), inputs, pvChecks, cache)
      else ebind (asserted (tx_HaveInputs V tx inputs)) (\<lambda>(f, inputs).
        if \<not> f then Inr (vs_Invalid st False, inputs, pvChecks, cache)
        else ebind (asserted (cache_GetBestBlock V inputs)) (\<lambda>(best, inputs).
          ebind (deref best) (\<lambda>p.
          ebind (inputs_loop V (i32 (nHeight (H p) + 1)) (vin tx) cash_empty st inputs) (\<lambda>(r, inputs).
            case r of
              Inl answer \<Rightarrow> Inr (answer, inputs, pvChecks, cache)
            | Inr nValueIn \<Rightarrow>
                ebind (thrown (tx_GetValueOut tx)) (\<lambda>nValueOut.
                  let reject = Inr (vs_DoS st 100 False False, inputs, pvChecks, cache)
                  in if cash_lt nValueIn nValueOut then reject
                     else let nTxFee = cash_minus nValueIn nValueOut
                       in if cash_lt_int nTxFee 0 then reject
                          else if \<not> MoneyRange (cash_plus_assign cash_empty nTxFee) then reject
                          else if fScriptChecks
                          then script_loop C L E V tx flags [0..<length (vin tx)] st inputs pvChecks cache
                          else Inr ((True, st), inputs, pvChecks, cache)))))))"


section \<open>Sums of amounts\<close>

definition credit :: "CTxOut list \<Rightarrow> CashName \<Rightarrow> int" where
  "credit outs k = (\<Sum>out\<leftarrow>outs. sint (amount (nValue out) k))"

text \<open>An amount as \<open>CheckTransaction\<close> admits it in an output.\<close>
definition sane_value :: "cash \<Rightarrow> bool" where
  "sane_value c \<longleftrightarrow> cash_wf c \<and> fixed c = 0 \<and> output_in_range c"

lemma output_in_range_amount: "cash_wf c \<Longrightarrow> output_in_range c \<longleftrightarrow> (\<forall>k. 0 \<le> sint (amount c k) \<and> sint (amount c k) \<le> 1840000000000)"
proof
  assume "cash_wf c" "output_in_range c"
  then show "\<forall>k. 0 \<le> sint (amount c k) \<and> sint (amount c k) \<le> 1840000000000"
    by (auto simp: output_in_range_def amount_def at_def om_find_map_of dest!: map_of_SomeD split: option.split)
next
  assume "cash_wf c" and r: "\<forall>k. 0 \<le> sint (amount c k) \<and> sint (amount c k) \<le> 1840000000000"
  then have "amount c k = v" if "(k, v) \<in> set (local_map c)" for k v
    using that by (simp add: amount_def at_def om_find_map_of cash_wf_def om_wf_distinct)
  then show "output_in_range c" unfolding output_in_range_def using r by fastforce
qed

lemma amount_plus_assign:
  "cash_wf c \<Longrightarrow> cash_wf y \<Longrightarrow> amount (cash_plus_assign c y) k = amount c k + amount y k"
  using plus_assign_simps(2) [of c y k] by (auto simp: amount_def at_def split: if_splits)

lemma cash_sums:
  assumes "cash_wf c" and "fixed c = 0" and "\<forall>v\<in>set vs. cash_wf v \<and> fixed v = 0"
  shows "cash_wf (foldl cash_plus_assign c vs) \<and> fixed (foldl cash_plus_assign c vs) = 0 \<and>
    amount (foldl cash_plus_assign c vs) k = amount c k + (\<Sum>v\<leftarrow>vs. amount v k)"
  using assms
proof (induction vs arbitrary: c)
  case (Cons v vs)
  have "cash_wf (cash_plus_assign c v)" "fixed (cash_plus_assign c v) = 0"
    using Cons.prems by (simp_all add: fixed_plus_assign)
  from Cons.IH [OF this] Cons.prems show ?case by (simp add: amount_plus_assign)
qed simp

lemma sint_add: "- (2 ^ 63) \<le> sint a + sint b \<Longrightarrow> sint a + sint b < 2 ^ 63 \<Longrightarrow> sint (a + b) = sint a + sint b" for a b :: i64
  by (simp add: sint_word_ariths signed_take_bit_int_eq_self)

lemma sint_sub: "- (2 ^ 63) \<le> sint a - sint b \<Longrightarrow> sint a - sint b < 2 ^ 63 \<Longrightarrow> sint (a - b) = sint a - sint b" for a b :: i64
  by (simp add: sint_word_ariths signed_take_bit_int_eq_self)

lemma sint_sum:
  fixes xs :: "i64 list"
  assumes "\<forall>x\<in>set xs. 0 \<le> sint x \<and> sint x \<le> B" and "int (length xs) * B < 2 ^ 63"
  shows "sint (sum_list xs) = (\<Sum>x\<leftarrow>xs. sint x) \<and> 0 \<le> (\<Sum>x\<leftarrow>xs. sint x) \<and> (\<Sum>x\<leftarrow>xs. sint x) \<le> int (length xs) * B"
  using assms
proof (induction xs)
  case (Cons x xs)
  have x: "0 \<le> sint x" "sint x \<le> B" using Cons.prems(1) by simp_all
  have len: "int (length (x # xs)) * B = B + int (length xs) * B" by (simp add: algebra_simps)
  then have "int (length xs) * B < 2 ^ 63" using Cons.prems(2) x by linarith
  then have IH: "sint (sum_list xs) = (\<Sum>x\<leftarrow>xs. sint x)" "0 \<le> (\<Sum>x\<leftarrow>xs. sint x)" "(\<Sum>x\<leftarrow>xs. sint x) \<le> int (length xs) * B"
    using Cons.IH Cons.prems(1) by auto
  have "sint (x + sum_list xs) = sint x + sint (sum_list xs)"
    using IH x Cons.prems(2) unfolding len by (intro sint_add) linarith+
  then show ?case using IH x unfolding len by simp
qed simp

lemma credit_sum:
  assumes "\<forall>out\<in>set outs. sane_value (nValue out)" and "length outs \<le> 1000000"
  shows "sint (amount (total_out outs cash_empty) k) = credit outs k"
    and "0 \<le> credit outs k" and "credit outs k \<le> int (length outs) * 1840000000000"
    and "cash_wf (total_out outs cash_empty)" and "fixed (total_out outs cash_empty) = 0"
proof -
  let ?xs = "map (\<lambda>out. amount (nValue out) k) outs"
  have v: "\<forall>v\<in>set (map nValue outs). cash_wf v \<and> fixed v = 0" using assms(1) by (auto simp: sane_value_def)
  have t: "cash_wf (total_out outs cash_empty)" "fixed (total_out outs cash_empty) = 0"
    "amount (total_out outs cash_empty) k = sum_list ?xs"
    using cash_sums [OF _ _ v, of cash_empty k] by (simp_all add: total_out_def comp_def)
  have r: "\<forall>x\<in>set ?xs. 0 \<le> sint x \<and> sint x \<le> 1840000000000"
    using assms(1) output_in_range_amount by (auto simp: sane_value_def)
  have "int (length ?xs) * 1840000000000 < 2 ^ 63" using assms(2) by simp
  note s = sint_sum [OF r this]
  show "cash_wf (total_out outs cash_empty)" "fixed (total_out outs cash_empty) = 0" using t by simp_all
  show "sint (amount (total_out outs cash_empty) k) = credit outs k" "0 \<le> credit outs k"
    "credit outs k \<le> int (length outs) * 1840000000000"
    using s t(3) by (simp_all add: credit_def comp_def)
qed

text \<open>The least amount is not negative when the difference passes the check.\<close>

lemma not_lt_0:
  assumes "cash_wf c" and "fixed c = 0" and "\<not> cash_lt_int c 0"
  shows "0 \<le> sint (amount c k)"
proof -
  have "0 \<le> sint v" if mem: "(k, v) \<in> set (local_map c)" for k v
  proof (cases "local_map c")
    case Nil
    then show ?thesis using mem by simp
  next
    case (Cons e es)
    obtain a w where e: "e = (a, w)" by (cases e)
    have m: "0 \<le> sint (min_loop es w)"
      using assms(2,3) Cons e by (cases es) (auto simp: cash_lt_int_def Cash_Min_def i64_less_def Let_def)
    have "v = w \<or> v \<in> snd ` set es" using mem Cons e by force
    then have "sint (min_loop es w) \<le> sint v" unfolding sint_min_loop by (intro Min_le) auto
    then show ?thesis using m by linarith
  qed
  then show ?thesis by (auto simp: amount_def at_def om_find_map_of dest!: map_of_SomeD split: option.split)
qed

section \<open>What CheckInputs guarantees\<close>

text \<open>The output an input refers to.\<close>
definition prev_out :: "utxo_map \<Rightarrow> CTxIn \<Rightarrow> CTxOut option" where
  "prev_out U i = (case U (in_hash i) of None \<Rightarrow> None | Some (cb, h, v, outs) \<Rightarrow> outs (in_n i))"

abbreviation spent_outs :: "utxo_map \<Rightarrow> CTxIn list \<Rightarrow> CTxOut list" where
  "spent_outs U v \<equiv> map (\<lambda>i. the (prev_out U i)) v"

text \<open>All the unspent outputs hold amounts that \<open>CheckTransaction\<close> admits.\<close>
definition all_sane :: "utxo_map \<Rightarrow> bool" where
  "all_sane U \<longleftrightarrow> (\<forall>h cb ht v outs n out. U h = Some (cb, ht, v, outs) \<and> outs n = Some out \<longrightarrow> sane_value (nValue out))"

lemma live_prev_out: "live_input U i \<longleftrightarrow> prev_out U i \<noteq> None"
  by (auto simp: live_input_def prev_out_def split: option.split)

text \<open>The check of the scripts of an input, and what it comes to when the cache of signatures is sound.\<close>
definition check_for :: "utxo_map \<Rightarrow> CTransaction \<Rightarrow> u32 \<Rightarrow> nat \<Rightarrow> CScriptCheck" where
  "check_for U tx flags i = \<lparr>sc_scriptPubKey = scriptPubKey (the (prev_out U (vin tx ! i))), ptxTo = tx, sc_nIn = i,
     nFlags = flags, sc_nHashType = 0\<rparr>"

definition check_spec :: "('k, 'x) crypto_scheme \<Rightarrow> 'l bn_lib \<Rightarrow> CScriptCheck \<Rightarrow> bool" where
  "check_spec C L check \<longleftrightarrow>
     verify_spec C L (nFlags check AND SCRIPT_VERIFY_STRICTENC \<noteq> 0) (nFlags check AND SCRIPT_VERIFY_P2SH \<noteq> 0)
       (\<lambda>s k code. sig_valid C s k code (ptxTo check) (sc_nIn check) (sc_nHashType check))
       (scriptSig (vin (ptxTo check) ! sc_nIn check)) (sc_scriptPubKey check)"

lemma run_check_verdict:
  assumes "cache_sound C cache" and "sc_nIn check < length (vin (ptxTo check))"
  shows "\<exists>cache'. cache_sound C cache' \<and> run_check C L E check cache = Inr (check_spec C L check, cache')"
  using VerifyScript_verdict [OF assms(1), of L E "scriptSig (vin (ptxTo check) ! sc_nIn check)" "sc_scriptPubKey check"
      "ptxTo check" "sc_nIn check" "nFlags check" "sc_nHashType check"] assms(2)
  by (auto simp: run_check_def element_def check_spec_def)

lemma vs_failing [simp]: "\<not> fst (vs_DoS st n False b)" "\<not> fst (vs_Invalid st False)" "\<not> fst (vs_Error st)"
  by (simp_all add: vs_DoS_def vs_Invalid_def vs_Error_def)

context coins_view begin

text \<open>The reference to the entry of an input that is live.\<close>
lemma live_ref:
  assumes "cache_wf good c" and "length (in_hash i) = WIDTH256" and "prev_out (cache_utxo utxo c) i = Some out"
  shows "\<exists>coins c'. cache_GetRef V c (in_hash i) = Some (coins, c') \<and> cache_wf good c' \<and> cache_utxo utxo c' = cache_utxo utxo c
    \<and> element (c_vout coins) (in_n i) = Inr out"
proof -
  have "cache_utxo utxo c (in_hash i) \<noteq> None" using assms(3) by (auto simp: prev_out_def split: option.splits)
  from ref [OF assms(1,2) this] obtain coins c' where r: "cache_GetRef V c (in_hash i) = Some (coins, c')" "cache_wf good c'"
    "cache_utxo utxo c' = cache_utxo utxo c" "info_of coins = cache_utxo utxo c (in_hash i)" by blast
  then have "live_outs (c_vout coins) (in_n i) = Some out"
    using assms(3) by (auto simp: prev_out_def info_of_Some split: option.splits)
  then have "element (c_vout coins) (in_n i) = Inr out"
    by (auto simp: live_outs_def is_avail_def element_def split: if_splits)
  with r show ?thesis by blast
qed

lemma inputs_loop_ok:
  assumes "cache_wf good c" and "list_all (\<lambda>i. length (in_hash i) = WIDTH256) v"
    and "list_all (live_input (cache_utxo utxo c)) v"
  shows "\<exists>r c'. inputs_loop V n v nValueIn st c = Inr (r, c') \<and> cache_wf good c' \<and> cache_utxo utxo c' = cache_utxo utxo c
    \<and> (case r of Inl answer \<Rightarrow> \<not> fst answer
       | Inr s \<Rightarrow> s = foldl cash_plus_assign nValueIn (map nValue (spent_outs (cache_utxo utxo c) v)))"
  using assms
proof (induction v arbitrary: c nValueIn)
  case (Cons i v)
  obtain out where out: "prev_out (cache_utxo utxo c) i = Some out" using Cons.prems(3) by (auto simp: live_prev_out)
  obtain coins c1 where c1: "cache_GetRef V c (in_hash i) = Some (coins, c1)" "cache_wf good c1"
    "cache_utxo utxo c1 = cache_utxo utxo c" "element (c_vout coins) (in_n i) = Inr out"
    using live_ref [OF Cons.prems(1) _ out] Cons.prems(2) by auto
  have v: "list_all (\<lambda>i. length (in_hash i) = WIDTH256) v" "list_all (live_input (cache_utxo utxo c)) v"
    using Cons.prems(2,3) by simp_all
  let ?early = "coins_IsCoinBase coins \<and> i32 (n - sint (c_nHeight coins)) < COINBASE_MATURITY"
  let ?val_eq = "cash_plus_assign nValueIn (nValue out)"
  let ?bad = "\<not> MoneyRange (nValue out) \<or> \<not> MoneyRange ?val_eq"
  obtain r c' where r: "inputs_loop V n v ?val_eq st c1 = Inr (r, c')" "cache_wf good c'"
    "cache_utxo utxo c' = cache_utxo utxo c"
    "case r of Inl answer \<Rightarrow> \<not> fst answer
       | Inr s \<Rightarrow> s = foldl cash_plus_assign ?val_eq (map nValue (spent_outs (cache_utxo utxo c) v))"
    using Cons.IH [OF c1(2), unfolded c1(3), OF v(1,2), of ?val_eq] by blast
  have e: "inputs_loop V n (i # v) nValueIn st c =
      (if ?early then Inr (Inl (vs_Invalid st False), c1)
       else if ?bad then Inr (Inl (vs_DoS st 100 False False), c1) else Inr (r, c'))"
    using c1(1,4) r(1) by (simp add: Let_def)
  have s: "foldl cash_plus_assign nValueIn (map nValue (spent_outs (cache_utxo utxo c) (i # v))) =
      foldl cash_plus_assign ?val_eq (map nValue (spent_outs (cache_utxo utxo c) v))"
    using out by simp
  show ?case unfolding e s
    using r(2-4) c1(2,3) by (cases ?early; cases ?bad) simp_all
qed simp

lemma script_loop_ok:
  assumes "cache_wf good c" and "list_all (\<lambda>i. length (in_hash i) = WIDTH256) (vin tx)"
    and "list_all (live_input (cache_utxo utxo c)) (vin tx)" and "cache_sound C cache" and "\<forall>i\<in>set is. i < length (vin tx)"
  shows "\<exists>ok st' c' pv' cache'. script_loop C L E V tx flags is st c pv cache = Inr ((ok, st'), c', pv', cache')
    \<and> cache_wf good c' \<and> cache_utxo utxo c' = cache_utxo utxo c \<and> cache_sound C cache' \<and> (ok \<longrightarrow> st' = st)
    \<and> (case pv of
         None \<Rightarrow> pv' = None \<and> ok = (\<forall>i\<in>set is. check_spec C L (check_for (cache_utxo utxo c) tx flags i))
       | Some q \<Rightarrow> ok \<and> pv' = Some (q @ map (check_for (cache_utxo utxo c) tx flags) is))"
  using assms
proof (induction "is" arbitrary: c pv cache)
  case Nil
  then show ?case by (cases pv) auto
next
  case (Cons i "is")
  let ?U = "cache_utxo utxo c" and ?txin = "vin tx ! i"
  have i: "i < length (vin tx)" using Cons.prems(5) by simp
  then have w: "length (in_hash ?txin) = WIDTH256" "live_input ?U ?txin"
    using Cons.prems(2,3) by (simp_all add: list_all_length)
  obtain out where out: "prev_out ?U ?txin = Some out" using w(2) by (auto simp: live_prev_out)
  obtain coins c1 where c1: "cache_GetRef V c (in_hash ?txin) = Some (coins, c1)" "cache_wf good c1"
    "cache_utxo utxo c1 = ?U" "element (c_vout coins) (in_n ?txin) = Inr out"
    using live_ref [OF Cons.prems(1) w(1) out] by blast
  have mk: "CScriptCheck_of coins tx i fl 0 = Inr (check_for ?U tx fl i)" for fl
    using c1(4) out i by (simp add: CScriptCheck_of_def check_for_def element_def [of "vin tx"])
  have in1: "sc_nIn (check_for ?U tx fl i) < length (vin (ptxTo (check_for ?U tx fl i)))" for fl
    using i by (simp add: check_for_def)
  note IH = Cons.IH [OF c1(2) Cons.prems(2), unfolded c1(3), OF Cons.prems(3)]
  show ?case
  proof (cases pv)
    case (Some q)
    have "\<forall>i\<in>set is. i < length (vin tx)" using Cons.prems(5) by simp
    from IH [OF Cons.prems(4) this, of "Some (q @ [check_for ?U tx flags i])"] Some show ?thesis
      using i c1 mk by (simp add: element_def)
  next
    case None
    obtain cache1 where r: "cache_sound C cache1"
      "run_check C L E (check_for ?U tx flags i) cache = Inr (check_spec C L (check_for ?U tx flags i), cache1)"
      using run_check_verdict [OF Cons.prems(4) in1] by blast
    obtain ok2 cache2 where r2: "cache_sound C cache2"
      "run_check C L E (check_for ?U tx (flags AND NOT SCRIPT_VERIFY_STRICTENC) i) cache1 = Inr (ok2, cache2)"
      using run_check_verdict [OF r(1) in1] by blast
    have "\<forall>i\<in>set is. i < length (vin tx)" using Cons.prems(5) by simp
    from IH [OF r(1) this, of None] None show ?thesis
      using i c1 mk r r2 by (auto simp: element_def vs_DoS_def vs_Invalid_def)
  qed
qed

lemma HaveInputs_live:
  assumes "cache_wf good c" and "tx_ok tx" and "\<not> tx_IsCoinBase tx" and "tx_HaveInputs V tx c = Some (f, c')"
  shows "cache_wf good c'" "cache_utxo utxo c' = cache_utxo utxo c"
    "f \<Longrightarrow> list_all (live_input (cache_utxo utxo c)) (vin tx)"
    "list_all (\<lambda>i. length (in_hash i) = WIDTH256) (vin tx)"
proof -
  show w: "list_all (\<lambda>i. length (in_hash i) = WIDTH256) (vin tx)"
    using assms(2) by (simp add: tx_ok_def txin_ok_def outpoint_ok_def list_all_iff)
  from HaveInputs_ok [OF assms(1) w assms(3,4)]
  show "cache_wf good c'" "cache_utxo utxo c' = cache_utxo utxo c" "f \<Longrightarrow> list_all (live_input (cache_utxo utxo c)) (vin tx)"
    by blast+
qed

lemma cache_best_ok:
  assumes "cache_wf good c" and "cache_GetBestBlock V c = Some (t, c')"
  shows "cache_wf good c' \<and> cache_utxo utxo c' = cache_utxo utxo c"
  using coins_view.best [OF cache_contract assms(1)] assms(2) by (simp add: cache_view_def)

end

text \<open>Every output of a transaction that \<open>CheckTransaction\<close> accepts is sane, and there are at most a million of them.\<close>

lemma nonempty: "Suc 0 \<le> length (WriteCompactSize n)"
  by (simp add: WriteCompactSize_def Let_def)

lemma vch_nonempty: "Suc 0 \<le> length (ser_vch s)"
  using nonempty by (auto simp: ser_vch_def ser_vector_def intro: trans_le_add1)

lemma length_elements: "(\<And>x. 1 \<le> length (f x)) \<Longrightarrow> length v \<le> length (ser_vector f v)" for f :: "'a \<Rightarrow> byte list"
proof -
  assume f: "\<And>x. 1 \<le> length (f x)"
  have "length v \<le> length (concat (map f v))"
  proof (induction v)
    case (Cons x v)
    then show ?case using f [of x] by simp
  qed simp
  then show ?thesis by (simp add: ser_vector_def)
qed

definition tx_sane :: "CTransaction \<Rightarrow> bool" where
  "tx_sane tx \<longleftrightarrow> tx_ok tx \<and> (\<forall>out\<in>set (vout tx). sane_value (nValue out)) \<and>
     length (vin tx) \<le> 1000000 \<and> length (vout tx) \<le> 1000000 \<and> distinct (map prevout (vin tx))"

lemma checked_tx_sane:
  assumes "tx_ok tx" and "length (ser_tx tx) < 2 ^ 32" and "fst (CheckTransaction tx st)"
  shows "tx_sane tx"
proof -
  have "tx_rules tx"
    using CheckTransaction_rules [OF assms(1), of st] assms(3) by (auto split: if_splits)
  then have b: "tx_in_bounds tx" by (simp add: tx_rules_def)
  have "size_tx tx = word_of_nat (length (ser_tx tx))" using size_tx_ser [OF assms(1)] by simp
  then have "length (ser_tx tx) \<le> 1000000"
    using b assms(2) by (simp add: tx_in_bounds_def word_le_nat_alt unat_of_nat)
  moreover have "length (vin tx) \<le> length (ser_vector ser_txin (vin tx))"
    "length (vout tx) \<le> length (ser_vector ser_txout (vout tx))"
    by (intro length_elements; simp add: ser_txin_def ser_txout_def vch_nonempty trans_le_add1 trans_le_add2)+
  ultimately have "length (vin tx) \<le> 1000000" "length (vout tx) \<le> 1000000" by (simp_all add: ser_tx_def)
  moreover have "sane_value (nValue out)" if "out \<in> set (vout tx)" for out
    using that b assms(1) by (auto simp: sane_value_def tx_in_bounds_def tx_ok_def txout_ok_def cash_ok_def list_all_iff)
  ultimately show ?thesis using assms(1) b by (simp add: tx_sane_def tx_in_bounds_def)
qed

text \<open>The two comparisons of the amounts: what goes out is covered in every circuit.\<close>

lemma fee_covers:
  assumes "\<forall>out\<in>set ins. sane_value (nValue out)" and "length ins \<le> 1000000"
    and "\<forall>out\<in>set outs. sane_value (nValue out)" and "length outs \<le> 1000000"
    and "\<not> cash_lt_int (cash_minus (total_out ins cash_empty) (total_out outs cash_empty)) 0"
  shows "credit outs k \<le> credit ins k"
proof -
  note i = credit_sum(1-3) [OF assms(1,2), of k] credit_sum(4,5) [OF assms(1,2)]
    and out = credit_sum(1-3) [OF assms(3,4), of k] credit_sum(4,5) [OF assms(3,4)]
  let ?fee = "cash_minus (total_out ins cash_empty) (total_out outs cash_empty)"
  have "cash_wf ?fee" "fixed ?fee = 0"
    using i(4,5) out(4,5) by (simp_all add: cash_minus_simps(1))
  from not_lt_0 [OF this assms(5), of k]
  have "0 \<le> sint (amount (total_out ins cash_empty) k - amount (total_out outs cash_empty) k)"
    using i(4) out(4) by (simp add: amount_minus)
  moreover have "sint (amount (total_out ins cash_empty) k - amount (total_out outs cash_empty) k) = credit ins k - credit outs k"
    using sint_sub [of "amount (total_out ins cash_empty) k" "amount (total_out outs cash_empty) k"] i(1-3) out(1-3) assms(2,4)
    by simp
  ultimately show ?thesis by simp
qed

lemma sane_prev_out: "all_sane U \<Longrightarrow> prev_out U i = Some out \<Longrightarrow> sane_value (nValue out)"
  by (auto simp: all_sane_def prev_out_def split: option.splits)

context coins_view begin

lemma CheckInputs_ok:
  assumes "cache_wf good c" and "cache_sound C cache" and "tx_sane tx" and "\<not> tx_IsCoinBase tx"
    and "all_sane (cache_utxo utxo c)"
    and "CheckInputs C L E V H tx st c fScriptChecks flags pv cache = Inr ((ok, st'), c', pv', cache')"
  shows "cache_wf good c' \<and> cache_utxo utxo c' = cache_utxo utxo c \<and> cache_sound C cache' \<and>
    (ok \<longrightarrow> st' = st \<and> list_all (live_input (cache_utxo utxo c)) (vin tx)
      \<and> (\<forall>k. credit (vout tx) k \<le> credit (spent_outs (cache_utxo utxo c) (vin tx)) k)
      \<and> (let checks = map (check_for (cache_utxo utxo c) tx flags) [0..<length (vin tx)]
         in pv' = (if fScriptChecks then map_option (\<lambda>q. q @ checks) pv else pv)
          \<and> (fScriptChecks \<and> pv = None \<longrightarrow> list_all (check_spec C L) checks)))"
proof -
  let ?U = "cache_utxo utxo c"
  have tx: "tx_ok tx" using assms(3) by (simp add: tx_sane_def)
  obtain f c1 where h: "tx_HaveInputs V tx c = Some (f, c1)"
    using assms(4,6) by (auto simp: CheckInputs_def ebind_eq_Inr asserted_eq_Inr)
  note live = HaveInputs_live [OF assms(1) tx assms(4) h]
  show ?thesis
  proof (cases f)
    case False
    then have "c' = c1" "cache' = cache" "\<not> ok"
      using assms(4,6) h vs_failing(2) [of st] by (auto simp: CheckInputs_def)
    then show ?thesis using live assms(2) by simp
  next
    case True
    obtain best c2 p where b: "cache_GetBestBlock V c1 = Some (best, c2)" "best = Some p"
      using assms(4,6) h True
      by (auto simp: CheckInputs_def ebind_eq_Inr asserted_eq_Inr deref_def split: option.splits)
    note c2 = cache_best_ok [OF live(1) b(1)]
    have U2: "cache_utxo utxo c2 = ?U" and wf2: "cache_wf good c2" using c2 live(2) by simp_all
    obtain r c3 where r: "inputs_loop V (i32 (nHeight (H p) + 1)) (vin tx) cash_empty st c2 = Inr (r, c3)"
      "cache_wf good c3" "cache_utxo utxo c3 = ?U"
      "case r of Inl answer \<Rightarrow> \<not> fst answer
         | Inr s \<Rightarrow> s = foldl cash_plus_assign cash_empty (map nValue (spent_outs ?U (vin tx)))"
      using inputs_loop_ok [OF wf2 live(4), unfolded U2, OF live(3) [OF True]] by blast
    show ?thesis
    proof (cases r)
      case (Inl answer)
      then have "c' = c3" "cache' = cache" "\<not> ok"
        using assms(4,6) h True b r by (auto simp: CheckInputs_def deref_def)
      then show ?thesis using r assms(2) by simp
    next
      case (Inr s)
      let ?ins = "spent_outs ?U (vin tx)"
      have s: "s = total_out ?ins cash_empty" using Inr r(4) by (simp add: total_out_def)
      obtain vo where vo: "tx_GetValueOut tx = Inr vo"
        using assms(4,6) h True b r Inr
        by (auto simp: CheckInputs_def deref_def ebind_eq_Inr thrown_eq_Inr)
      then have vo': "vo = total_out (vout tx) cash_empty"
        using GetValueOut_exact [OF tx] by (auto split: if_splits)
      let ?fee = "cash_minus s vo"
      let ?bad = "cash_lt s vo \<or> cash_lt_int ?fee 0 \<or> \<not> MoneyRange (cash_plus_assign cash_empty ?fee)"
      have e: "CheckInputs C L E V H tx st c fScriptChecks flags pv cache =
          (if ?bad then Inr (vs_DoS st 100 False False, c3, pv, cache)
           else if fScriptChecks then script_loop C L E V tx flags [0..<length (vin tx)] st c3 pv cache
           else Inr ((True, st), c3, pv, cache))"
        using assms(4) h True b r(1) Inr vo by (simp add: CheckInputs_def deref_def thrown_def Let_def)
      show ?thesis
      proof (cases ?bad)
        case True
        then have "vs_DoS st 100 False False = (ok, st')" "c' = c3" "cache' = cache" using assms(6) unfolding e by simp_all
        moreover from this(1) have "\<not> ok" using vs_failing(1) [of st 100 False] by simp
        ultimately show ?thesis using r assms(2) by simp
      next
        case False
        have "\<forall>out\<in>set ?ins. sane_value (nValue out)"
          using live(3) [OF \<open>f\<close>] sane_prev_out [OF assms(5)] by (auto simp: list_all_iff live_prev_out)
        then have cover: "credit (vout tx) k \<le> credit ?ins k" for k
          using False assms(3) unfolding s vo' by (intro fee_covers) (simp_all add: tx_sane_def)
        show ?thesis
        proof (cases fScriptChecks)
          case True
          have "\<forall>i\<in>set [0..<length (vin tx)]. i < length (vin tx)" by simp
          from script_loop_ok [OF r(2) live(4), unfolded r(3), OF live(3) [OF \<open>f\<close>] assms(2) this, of L E flags st pv]
          obtain ok2 st2 c4 pv4 cache4 where sl:
            "script_loop C L E V tx flags [0..<length (vin tx)] st c3 pv cache = Inr ((ok2, st2), c4, pv4, cache4)"
            "cache_wf good c4" "cache_utxo utxo c4 = ?U" "cache_sound C cache4" "ok2 \<longrightarrow> st2 = st"
            "case pv of
               None \<Rightarrow> pv4 = None \<and> ok2 = (\<forall>i\<in>set [0..<length (vin tx)]. check_spec C L (check_for ?U tx flags i))
             | Some q \<Rightarrow> ok2 \<and> pv4 = Some (q @ map (check_for ?U tx flags) [0..<length (vin tx)])"
            by blast
          have eq: "ok = ok2" "st' = st2" "c' = c4" "pv' = pv4" "cache' = cache4"
            using assms(6) sl(1) False True unfolding e by auto
          show ?thesis
            using sl(2-6) True cover live(3) [OF \<open>f\<close>] unfolding eq
            by (cases pv) (auto simp: Let_def list_all_iff)
        next
          case False
          then have "ok" "st' = st" "c' = c3" "pv' = pv" "cache' = cache"
            using assms(6) \<open>\<not> ?bad\<close> unfolding e by auto
          then show ?thesis using r cover live(3) [OF \<open>f\<close>] False assms(2) by (simp add: Let_def)
        qed
      qed
    qed
  qed
qed

end

text \<open>C3: A transaction that is not a coinbase and that \<open>CheckTransaction\<close> and \<open>CheckInputs\<close> accept, over any view with the
  contract, a sane ledger and a sound signature cache, only refers to unspent outputs and pays out in every circuit at most what they hold; every script of its inputs verifies, or
  is queued to be verified, unless scripts are not to be checked; and whatever the answer, the unspent outputs and the
  soundness of the cache are as before.\<close>

theorem CheckInputs_conserves:
  assumes "coins_view V utxo good" and "cache_wf good c" and "cache_sound C cache" and "all_sane (cache_utxo utxo c)"
    and "tx_ok tx" and "length (ser_tx tx) < 2 ^ 32" and "fst (CheckTransaction tx st0)" and "\<not> tx_IsCoinBase tx"
    and "CheckInputs C L E V H tx st c fScriptChecks flags pv cache = Inr ((ok, st'), c', pv', cache')"
  shows "cache_wf good c' \<and> cache_utxo utxo c' = cache_utxo utxo c \<and> cache_sound C cache' \<and>
    (ok \<longrightarrow> st' = st \<and> list_all (live_input (cache_utxo utxo c)) (vin tx)
      \<and> (\<forall>k. credit (vout tx) k \<le> credit (spent_outs (cache_utxo utxo c) (vin tx)) k)
      \<and> (let checks = map (check_for (cache_utxo utxo c) tx flags) [0..<length (vin tx)]
         in pv' = (if fScriptChecks then map_option (\<lambda>q. q @ checks) pv else pv)
          \<and> (fScriptChecks \<and> pv = None \<longrightarrow> list_all (check_spec C L) checks)))"
  by (rule coins_view.CheckInputs_ok [OF assms(1-3) checked_tx_sane [OF assms(5-7)] assms(8,4,9)])

text \<open>The example transaction on top of a block of height 5, with its script check queued.\<close>

abbreviation (input) paying_cache :: "unit CCoinsViewCache" where
  "paying_cache \<equiv> spend_cache\<lparr>pindexTip := Some 0\<rparr>"

abbreviation (input) paying_index :: bheap where "paying_index \<equiv> \<lambda>_. bi_init\<lparr>nHeight := 5\<rparr>"

lemma paying_CheckInputs:
  "CheckInputs example_curve L example_env null_view paying_index spend_example vs_init paying_cache True 0 (Some []) sigcache_init
   = Inr ((True, vs_init), paying_cache, Some [\<lparr>sc_scriptPubKey = [OP_TRUE], ptxTo = spend_example, sc_nIn = 0,
       nFlags = 0, sc_nHashType = 0\<rparr>], sigcache_init)"
proof -
  have ref: "cache_GetRef null_view paying_cache (replicate 8 1) = Some (example_coins, paying_cache)"
    by (simp add: cache_GetRef_def cache_FetchCoins_def)
  have have_in: "tx_HaveInputs null_view spend_example paying_cache = Some (True, paying_cache)"
    by (simp add: tx_HaveInputs_def tx_IsCoinBase_def op_IsNull_def cache_HaveCoins_def cache_GetRef_def
        cache_FetchCoins_def coins_IsAvailable_def example_coins_def txout_IsNull_def cash_size_def)
  have range: "MoneyRange \<lparr>local_map = [(''TET'', 7)], fixed = 0\<rparr>" "MoneyRange \<lparr>local_map = [(''TET'', 0)], fixed = 0\<rparr>"
    by (simp_all add: MoneyRange_def cash_ge_int_def cash_le_int_def Cash_Max_def Cash_Min_def i64_less_def i64_le_def MAX_MONEY_def COIN_def)
  have sum: "cash_plus_assign cash_empty \<lparr>local_map = [(''TET'', v)], fixed = 0\<rparr> = \<lparr>local_map = [(''TET'', v)], fixed = 0\<rparr>" for v
    by (simp add: cash_plus_assign_def cash_empty_def getLocal_def at_def)
  have diff: "cash_minus \<lparr>local_map = [(''TET'', 7)], fixed = 0\<rparr> \<lparr>local_map = [(''TET'', 7)], fixed = 0\<rparr> =
      \<lparr>local_map = [(''TET'', 0)], fixed = 0\<rparr>"
    by (simp add: cash_minus_def sum cash_minus_assign_def getLocal_def at_def)
  have lt: "\<not> cash_lt \<lparr>local_map = [(''TET'', 7)], fixed = 0\<rparr> \<lparr>local_map = [(''TET'', 7)], fixed = 0\<rparr>"
    "\<not> cash_lt_int \<lparr>local_map = [(''TET'', 0)], fixed = 0\<rparr> 0"
    by (simp_all add: cash_lt_def cash_size_def getLocal_def cash_lt_int_def Cash_Min_def i64_less_def)
  have gets: "inputs_loop null_view (i32 6) [\<lparr>prevout = \<lparr>COutPoint.op_hash = replicate 8 1, op_n = 1\<rparr>, scriptSig = [], nSequence = 0\<rparr>]
      cash_empty vs_init paying_cache =
      Inr (Inr \<lparr>local_map = [(''TET'', 7)], fixed = 0\<rparr>, paying_cache)"
    by (simp add: ref) (simp add: example_coins_def coins_IsCoinBase_def COINBASE_MATURITY_def i32_def element_def sum range Let_def)
  have pays: "tx_GetValueOut spend_example = Inr \<lparr>local_map = [(''TET'', 7)], fixed = 0\<rparr>"
    by (simp add: tx_GetValueOut_def sum range)
  have scripts: "script_loop example_curve L example_env null_view spend_example 0 [0] vs_init
      paying_cache (Some []) sigcache_init = Inr ((True, vs_init), paying_cache, Some [\<lparr>sc_scriptPubKey = [OP_TRUE],
        ptxTo = spend_example, sc_nIn = 0, nFlags = 0, sc_nHashType = 0\<rparr>], sigcache_init)"
    by (simp add: ref element_def) (simp add: element_def CScriptCheck_of_def example_coins_def)
  have cb: "\<not> tx_IsCoinBase spend_example" by (simp add: tx_IsCoinBase_def op_IsNull_def)
  show ?thesis
    unfolding CheckInputs_def have_in
    using cb by (simp add: cache_GetBestBlock_def deref_def gets pays lt diff sum range scripts thrown_def Let_def del: inputs_loop.simps script_loop.simps)
qed

lemma paying_utxo:
  "cache_utxo (\<lambda>_ _. None) paying_cache = (\<lambda>h. if h = replicate 8 1 then
     Some (True, 5, 1, \<lambda>n. if n = 1 then Some (hd (vout spend_example)) else None) else None)"
  by (rule ext) (auto simp: cache_utxo_def cache_init_def info_of_def example_coins_def live_outs_def is_avail_def txout_IsNull_def
      coins_IsPruned_def cash_size_def txout_init_def txout_SetNull_def cash_assign_int_def cash_empty_def fun_eq_iff less_Suc_eq nth_Cons')

lemma paying_facts:
  "all_sane (cache_utxo (\<lambda>_ _. None) paying_cache)" "tx_ok spend_example" "length (ser_tx spend_example) = 67"
  "fst (CheckTransaction spend_example vs_init)"
proof -
  show "all_sane (cache_utxo (\<lambda>_ _. None) paying_cache)"
    unfolding paying_utxo by (simp add: all_sane_def sane_value_def cash_wf_def output_in_range_def)
  show ok: "tx_ok spend_example"
    by (simp add: tx_ok_def txin_ok_def outpoint_ok_def txout_ok_def cash_ok_def cash_wf_def)
  have "length (ser_CashName ''TET'') = 4"
    by (simp add: ser_CashName_def bytes_of_string_def ser_string_def ser_vch_def WriteCompactSize_def)
  then show *: "length (ser_tx spend_example) = 67"
    by (simp add: ser_tx_def ser_vector_def ser_txin_def ser_outpoint_def ser_flat_def ser_txout_def ser_vch_def
        ser_cash_def ser_map_def ser_pair_def WriteCompactSize_def)
  have "size_tx spend_example = 67" using size_tx_ser [OF ok] * by simp
  then have "tx_rules spend_example"
    by (simp add: tx_rules_def tx_in_bounds_def)
      (simp add: op_SetNull_def bu_of64_def output_in_range_def total_in_range_def total_out_def cash_plus_assign_def getLocal_def cash_empty_def at_def)
  then show "fst (CheckTransaction spend_example vs_init)"
    using CheckTransaction_rules [OF ok, of vs_init] by simp
qed

theorem CheckInputs_conserves_witness:
  "\<forall>L :: 'l bn_lib. \<exists>c' checks. CheckInputs example_curve L example_env null_view paying_index spend_example vs_init
       paying_cache True 0 (Some []) sigcache_init = Inr ((True, vs_init), c', Some checks, sigcache_init)
    \<and> length checks = 1 \<and> credit (vout spend_example) ''TET'' = 7
    \<and> (\<forall>k. credit (vout spend_example) k \<le> credit (spent_outs (cache_utxo (\<lambda>_ _. None) paying_cache) (vin spend_example)) k)"
proof
  fix L :: "'l bn_lib"
  have wf: "cache_wf (\<lambda>_. True) paying_cache"
    using example_coins_ok by (simp add: cache_wf_def cache_init_def storable_def)
  have cb: "\<not> tx_IsCoinBase spend_example" by (simp add: tx_IsCoinBase_def op_IsNull_def)
  have len: "length (ser_tx spend_example) < 2 ^ 32" by (simp add: paying_facts(3))
  have "credit (vout spend_example) ''TET'' = 7" by (simp add: credit_def amount_def at_def)
  then show "\<exists>c' checks. CheckInputs example_curve L example_env null_view paying_index spend_example vs_init
       paying_cache True 0 (Some []) sigcache_init = Inr ((True, vs_init), c', Some checks, sigcache_init)
    \<and> length checks = 1 \<and> credit (vout spend_example) ''TET'' = 7
    \<and> (\<forall>k. credit (vout spend_example) k \<le> credit (spent_outs (cache_utxo (\<lambda>_ _. None) paying_cache) (vin spend_example)) k)"
    using CheckInputs_conserves [OF null_view.coins_view_axioms wf cache_sound_init paying_facts(1,2) len paying_facts(4) cb paying_CheckInputs [of L]]
      paying_CheckInputs [of L] by simp
qed

end
