(* ===== verification/Files.thy ===== *)
theory Files
  imports Serialize
begin

text \<open>
  The files that hold blocks and undo data, as the operations of \<open>main.cpp\<close> and \<open>util.cpp\<close> change them: positions
  (\<open>CDiskBlockPos\<close> of \<open>main.h\<close>), opening (\<open>OpenDiskFile\<close>), writing and reading through \<open>CAutoFile\<close>
  (\<open>serialize.h\<close>), cutting and pre-allocating (\<open>TruncateFile\<close>, \<open>AllocateFileRange\<close>).  A file is a list of
  bytes.  Every call of the C library that can fail is answered by a record of outcomes, which is an argument of the operation.
\<close>

section \<open>Positions\<close>

text \<open>\<open>int\<close>: file numbers, -1 for none.\<close>
record CDiskBlockPos =
  pos_nFile :: u32
  pos_nPos :: u32

definition pos_SetNull :: CDiskBlockPos where "pos_SetNull = \<lparr>pos_nFile = -1, pos_nPos = 0\<rparr>"

definition pos_IsNull :: "'a CDiskBlockPos_scheme \<Rightarrow> bool" where "pos_IsNull p = (pos_nFile p = -1)"

definition pos_eq :: "CDiskBlockPos \<Rightarrow> CDiskBlockPos \<Rightarrow> bool" where
  "pos_eq a b = (pos_nFile a = pos_nFile b \<and> pos_nPos a = pos_nPos b)"

definition pos_neq :: "CDiskBlockPos \<Rightarrow> CDiskBlockPos \<Rightarrow> bool" where "pos_neq a b = (\<not> pos_eq a b)"

section \<open>Files and the outcomes of calls\<close>

text \<open>The prefix, \<open>blk\<close> (false) or \<open>rev\<close> (true), and the number of a file.\<close>
type_synonym file_name = "bool \<times> u32"
type_synonym disk = "file_name \<Rightarrow> byte list option"

text \<open>
  What becomes of the bytes given to \<open>fwrite\<close>: all are written; the call fails and the first ones have reached the
  file; or the call succeeds and only the first ones reach the file, as a later flush of the buffer fails.
\<close>
datatype write_outcome = Written | Failed nat | Lost nat

datatype platform = WIN32 | MAC_OSX | LINUX | FALLBACK

text \<open>
  The outcomes of the calls that one operation makes: whether \<open>fopen\<close> opens a file that exists for update, and opens it
  for writing anew; whether \<open>fseek\<close> and \<open>ftell\<close> succeed; whether a file is cut; how far its space can be allocated; what
  becomes of the writes, in their order; and after how many bytes reading fails.
\<close>
record file_io =
  io_update :: "file_name \<Rightarrow> bool"
  io_create :: "file_name \<Rightarrow> bool"
  io_seek :: bool
  io_tell :: bool
  io_truncate :: "file_name \<Rightarrow> bool"
  io_allocate :: "nat option"
  io_write :: "nat \<Rightarrow> write_outcome"
  io_read :: "nat option"
  io_platform :: platform

text \<open>Changing the length of a file; new bytes are zeros.\<close>
definition resize :: "byte list \<Rightarrow> nat \<Rightarrow> byte list" where
  "resize content n = take n content @ replicate (n - length content) 0"

text \<open>Writing at a position, which may lie beyond the end.\<close>
definition put_at :: "byte list \<Rightarrow> nat \<Rightarrow> byte list \<Rightarrow> byte list" where
  "put_at content off bytes =
     (if bytes = [] then content
      else take off content @ replicate (off - length content) 0 @ bytes @ drop (off + length bytes) content)"

definition file_write :: "disk \<Rightarrow> file_name \<Rightarrow> nat \<Rightarrow> byte list \<Rightarrow> disk" where
  "file_write fs name off bytes = fs(name := map_option (\<lambda>content. put_at content off bytes) (fs name))"

definition file_resize :: "disk \<Rightarrow> file_name \<Rightarrow> nat \<Rightarrow> disk" where
  "file_resize fs name n = fs(name := map_option (\<lambda>content. resize content n) (fs name))"

definition file_from :: "disk \<Rightarrow> file_name \<Rightarrow> nat \<Rightarrow> byte list" where
  "file_from fs name off = (case fs name of None \<Rightarrow> [] | Some content \<Rightarrow> drop off content)"

text \<open>The file and the position in it, or none, and the files afterwards: \<open>rb+\<close> needs a file that exists, \<open>wb+\<close> makes
  an empty one, whether or not there was one.\<close>
definition OpenDiskFile ::
  "file_io \<Rightarrow> disk \<Rightarrow> CDiskBlockPos \<Rightarrow> bool \<Rightarrow> bool \<Rightarrow> (file_name \<times> nat) option \<times> disk" where
  "OpenDiskFile io fs pos fUndo fReadOnly =
     (if pos_IsNull pos then (None, fs)
      else
        let name = (fUndo, pos_nFile pos);
            (open, fs) = (if fs name \<noteq> None \<and> io_update io name then (True, fs)
                          else if \<not> fReadOnly \<and> io_create io name then (True, fs(name := Some []))
                          else (False, fs))
        in if \<not> open then (None, fs)
           else if pos_nPos pos \<noteq> 0 \<and> \<not> io_seek io then (None, fs)
           else (Some (name, unat (pos_nPos pos)), fs))"

definition OpenBlockFile :: "file_io \<Rightarrow> disk \<Rightarrow> CDiskBlockPos \<Rightarrow> bool \<Rightarrow> (file_name \<times> nat) option \<times> disk" where
  "OpenBlockFile io fs pos fReadOnly = OpenDiskFile io fs pos False fReadOnly"

definition OpenUndoFile :: "file_io \<Rightarrow> disk \<Rightarrow> CDiskBlockPos \<Rightarrow> bool \<Rightarrow> (file_name \<times> nat) option \<times> disk" where
  "OpenUndoFile io fs pos fReadOnly = OpenDiskFile io fs pos True fReadOnly"

text \<open>\<open>CAutoFile::write\<close> throws when \<open>fwrite\<close> fails: false.\<close>
definition file_put :: "write_outcome \<Rightarrow> disk \<Rightarrow> file_name \<Rightarrow> nat \<Rightarrow> byte list \<Rightarrow> bool \<times> disk" where
  "file_put w fs name off bytes =
     (case w of
        Written \<Rightarrow> (True, file_write fs name off bytes)
      | Failed k \<Rightarrow> (False, file_write fs name off (take k bytes))
      | Lost k \<Rightarrow> (True, file_write fs name off (take k bytes)))"

text \<open>What \<open>CAutoFile::read\<close> gets before it throws.\<close>
definition file_get :: "file_io \<Rightarrow> disk \<Rightarrow> file_name \<Rightarrow> nat \<Rightarrow> byte list" where
  "file_get io fs name off =
     (case io_read io of None \<Rightarrow> file_from fs name off | Some k \<Rightarrow> take k (file_from fs name off))"

definition TruncateFile :: "file_io \<Rightarrow> disk \<Rightarrow> file_name \<Rightarrow> u32 \<Rightarrow> disk" where
  "TruncateFile io fs name len = (if io_truncate io name then file_resize fs name (unat len) else fs)"

text \<open>Only \<open>posix_fallocate\<close> never shortens a file; the fallback writes zeros.\<close>
definition AllocateFileRange :: "file_io \<Rightarrow> disk \<Rightarrow> file_name \<Rightarrow> u32 \<Rightarrow> u32 \<Rightarrow> disk" where
  "AllocateFileRange io fs name offset len =
     (case io_allocate io of None \<Rightarrow> fs
      | Some k \<Rightarrow>
          let nEndPos = unat offset + unat len
          in case io_platform io of
               WIN32 \<Rightarrow> file_resize fs name nEndPos
             | MAC_OSX \<Rightarrow> file_resize fs name nEndPos
             | LINUX \<Rightarrow> file_resize fs name (max (length (the (fs name))) (min k nEndPos))
             | FALLBACK \<Rightarrow> file_write fs name (unat offset) (replicate (min k (unat len)) 0))"

text \<open>Nothing fails.\<close>
definition good_io :: file_io where
  "good_io = \<lparr>io_update = (\<lambda>_. True), io_create = (\<lambda>_. True), io_seek = True, io_tell = True, io_truncate = (\<lambda>_. True),
     io_allocate = Some (2 ^ 32), io_write = (\<lambda>_. Written), io_read = None, io_platform = LINUX\<rparr>"

section \<open>Bytes in a file\<close>

definition holds :: "disk \<Rightarrow> file_name \<Rightarrow> nat \<Rightarrow> byte list \<Rightarrow> bool" where
  "holds fs name off bytes \<longleftrightarrow>
     (\<exists>before after. fs name = Some (before @ bytes @ after) \<and> length before = off)"

lemma holds_from: "holds fs name off bytes \<Longrightarrow> \<exists>after. file_from fs name off = bytes @ after"
  by (auto simp: holds_def file_from_def)

lemma put_at_holds:
  assumes "fs name \<noteq> None" and "bytes \<noteq> []"
  shows "holds (file_write fs name off bytes) name off bytes"
proof -
  obtain c where c: "fs name = Some c" using assms by auto
  show ?thesis unfolding holds_def
    by (rule exI [of _ "take off c @ replicate (off - length c) 0"], rule exI [of _ "drop (off + length bytes) c"])
      (simp add: c file_write_def put_at_def assms(2))
qed

lemma put_at_keeps:
  assumes "holds fs name' off' old" and "name \<noteq> name' \<or> off + length bytes \<le> off' \<or> off' + length old \<le> off"
  shows "holds (file_write fs name off bytes) name' off' old"
proof (cases "name = name' \<and> bytes \<noteq> []")
  case False
  then show ?thesis using assms(1) by (auto simp: holds_def file_write_def put_at_def)
next
  case True
  obtain b a where c: "fs name = Some (b @ old @ a)" "length b = off'"
    using assms(1) True by (auto simp: holds_def)
  have f: "file_write fs name off bytes name' = Some (put_at (b @ old @ a) off bytes)"
    using c True by (simp add: file_write_def)
  have "off + length bytes \<le> off' \<or> off' + length old \<le> off" using assms(2) True by simp
  then show ?thesis
  proof
    assume le: "off + length bytes \<le> off'"
    have "put_at (b @ old @ a) off bytes = (take off b @ bytes @ drop (off + length bytes) b) @ old @ a"
      using le c(2) True by (simp add: put_at_def)
    then show ?thesis unfolding holds_def f
      using le c(2) by (intro exI [of _ "take off b @ bytes @ drop (off + length bytes) b"] exI [of _ a]) simp
  next
    assume le: "off' + length old \<le> off"
    let ?r = "off - (off' + length old)"
    have "take off (b @ old @ a) = b @ old @ take ?r a" using le c(2) by (simp add: add.commute)
    then have "put_at (b @ old @ a) off bytes = b @ old @ (take ?r a @ replicate (off - length (b @ old @ a)) 0 @
        bytes @ drop (off + length bytes) (b @ old @ a))"
      using True unfolding put_at_def by (simp only: append_assoc if_False simp_thms)
    then show ?thesis unfolding holds_def f using c(2) by blast
  qed
qed

lemma resize_keeps:
  assumes "holds fs name' off old" and "name = name' \<longrightarrow> off + length old \<le> n"
  shows "holds (file_resize fs name n) name' off old"
proof (cases "name = name'")
  case True
  obtain b a where c: "fs name = Some (b @ old @ a)" "length b = off" using assms(1) True by (auto simp: holds_def)
  have "resize (b @ old @ a) n = b @ old @ (take (n - (off + length old)) a @ replicate (n - length (b @ old @ a)) 0)"
    using assms(2) True c(2) by (simp add: resize_def)
  then show ?thesis using True c by (auto simp: holds_def file_resize_def)
qed (use assms in \<open>simp add: holds_def file_resize_def\<close>)

text \<open>Where \<open>wb+\<close> succeeds although \<open>rb+\<close> fails, what the file held is lost.\<close>

definition clobbers :: "file_io \<Rightarrow> file_name set" where
  "clobbers io = {name. io_create io name \<and> \<not> io_update io name}"

lemma OpenDiskFile_truncates:
  assumes "name = (fUndo, pos_nFile pos)" and "name \<in> clobbers io" and "\<not> pos_IsNull pos"
  shows "snd (OpenDiskFile io fs pos fUndo False) name = Some []"
  using assms by (simp add: OpenDiskFile_def clobbers_def Let_def)

lemma open_facts:
  assumes "OpenDiskFile io fs pos fUndo fReadOnly = (r, fs')"
  shows "name \<notin> clobbers io \<Longrightarrow> holds fs name off old \<Longrightarrow> holds fs' name off old"
    and "r = Some (n, k) \<Longrightarrow> \<not> pos_IsNull pos \<and> n = (fUndo, pos_nFile pos) \<and> k = unat (pos_nPos pos) \<and> fs' n \<noteq> None"
proof -
  show "holds fs' name off old" if "name \<notin> clobbers io" "holds fs name off old"
  proof -
    have "fs name \<noteq> None" using that(2) by (auto simp: holds_def)
    then have "fs' name = fs name"
      using assms that(1) by (auto simp: OpenDiskFile_def Let_def clobbers_def split: if_splits)
    then show ?thesis using that(2) by (simp add: holds_def)
  qed
  show "\<not> pos_IsNull pos \<and> n = (fUndo, pos_nFile pos) \<and> k = unat (pos_nPos pos) \<and> fs' n \<noteq> None" if "r = Some (n, k)"
    using assms that by (auto simp: OpenDiskFile_def Let_def split: if_splits)
qed

text \<open>A file that can be read is opened as it is.\<close>

definition can_read :: "file_io \<Rightarrow> file_name \<Rightarrow> bool" where
  "can_read io name \<longleftrightarrow> io_update io name \<and> io_seek io \<and> io_read io = None"

lemma open_to_read:
  assumes "fs (fUndo, pos_nFile pos) \<noteq> None" and "\<not> pos_IsNull pos" and "can_read io (fUndo, pos_nFile pos)"
  shows "OpenDiskFile io fs pos fUndo True = (Some ((fUndo, pos_nFile pos), unat (pos_nPos pos)), fs)"
  using assms by (simp add: OpenDiskFile_def can_read_def Let_def)

lemma put_facts:
  assumes "file_put w fs name off bytes = (r, fs')"
  shows "holds fs name' off' old \<Longrightarrow> name \<noteq> name' \<or> off + length bytes \<le> off' \<or> off' + length old \<le> off \<Longrightarrow> holds fs' name' off' old"
    and "w = Written \<Longrightarrow> fs name \<noteq> None \<Longrightarrow> bytes \<noteq> [] \<Longrightarrow> holds fs' name off bytes"
    and "fs name \<noteq> None \<Longrightarrow> fs' name \<noteq> None"
proof -
  obtain xs where fs': "fs' = file_write fs name off xs" and len: "length xs \<le> length bytes" and all: "w = Written \<longrightarrow> xs = bytes"
    using assms by (auto simp: file_put_def split: write_outcome.splits)
  show "holds fs' name' off' old" if "holds fs name' off' old" "name \<noteq> name' \<or> off + length bytes \<le> off' \<or> off' + length old \<le> off"
    unfolding fs' by (rule put_at_keeps) (use that len in auto)
  show "holds fs' name off bytes" if "w = Written" "fs name \<noteq> None" "bytes \<noteq> []"
    unfolding fs' using put_at_holds that all by simp
  show "fs' name \<noteq> None" if "fs name \<noteq> None" using that by (auto simp: fs' file_write_def)
qed

lemma TruncateFile_keeps:
  "holds fs name' off old \<Longrightarrow> (name = name' \<longrightarrow> off + length old \<le> unat len) \<Longrightarrow> holds (TruncateFile io fs name len) name' off old"
  by (simp add: TruncateFile_def resize_keeps)

text \<open>The comment of the source: the range never contains live data.\<close>

lemma AllocateFileRange_keeps:
  assumes "holds fs name' off old" and "name = name' \<longrightarrow> off + length old \<le> unat offset"
  shows "holds (AllocateFileRange io fs name offset len) name' off old"
proof (cases "io_allocate io")
  case (Some k)
  have "holds (file_resize fs name (unat offset + unat len)) name' off old"
    by (rule resize_keeps) (use assms in auto)
  moreover have "holds (file_resize fs name (max (length (the (fs name))) n)) name' off old" for n
    by (rule resize_keeps [OF assms(1)]) (use assms(1) in \<open>auto simp: holds_def\<close>)
  moreover have "holds (file_write fs name (unat offset) bytes) name' off old" for bytes
    by (rule put_at_keeps) (use assms in auto)
  ultimately show ?thesis using Some by (simp add: AllocateFileRange_def Let_def split: platform.split)
qed (use assms in \<open>simp add: AllocateFileRange_def\<close>)

end
