(* ===== verification/BlockFiles.thy ===== *)
theory BlockFiles
  imports Chain Coins Files
begin

text \<open>
  Where blocks and undo data lie on disk: positions (\<open>CDiskBlockPos\<close>, \<open>CDiskTxPos\<close>), the record kept of each block
  file (\<open>CBlockFileInfo\<close>), the block index as it is stored (\<open>CDiskBlockIndex\<close>), all of \<open>main.h\<close>, and the allocation of
  space (\<open>FlushBlockFile\<close>, \<open>FindBlockPos\<close>, \<open>FindUndoPos\<close> of \<open>main.cpp\<close>) with what it does to the files: a file that is
  left is cut to what its record counts, and new space is allocated ahead.  Whether the disk has space, whether a write to the
  database succeeds and what becomes of each call on a file are arguments.
\<close>

section \<open>Positions on disk\<close>

definition ser_pos :: "'a CDiskBlockPos_scheme \<Rightarrow> byte list" where
  "ser_pos p = WriteVarInt_int (pos_nFile p) @ WriteVarInt (pos_nPos p)"

definition unser_pos :: "CDiskBlockPos reader" where
  "unser_pos = rbind ReadVarInt (\<lambda>f. rbind ReadVarInt (\<lambda>p. rreturn \<lparr>pos_nFile = f, pos_nPos = p\<rparr>))"

record CDiskTxPos = CDiskBlockPos +
  nTxOffset :: u32

definition txpos_of :: "CDiskBlockPos \<Rightarrow> u32 \<Rightarrow> CDiskTxPos" where
  "txpos_of blockIn nTxOffsetIn = \<lparr>pos_nFile = pos_nFile blockIn, pos_nPos = pos_nPos blockIn, nTxOffset = nTxOffsetIn\<rparr>"

definition txpos_SetNull :: CDiskTxPos where "txpos_SetNull = \<lparr>pos_nFile = -1, pos_nPos = 0, nTxOffset = 0\<rparr>"

definition ser_txpos :: "CDiskTxPos \<Rightarrow> byte list" where
  "ser_txpos p = ser_pos p @ WriteVarInt (nTxOffset p)"

definition unser_txpos :: "CDiskTxPos reader" where
  "unser_txpos = rbind unser_pos (\<lambda>p. rbind ReadVarInt (\<lambda>n. rreturn (txpos_of p n)))"

section \<open>Block files\<close>

record CBlockFileInfo =
  nBlocks :: u32
  nSize :: u32
  nUndoSize :: u32
  nHeightFirst :: u32
  nHeightLast :: u32
  nTimeFirst :: u64
  nTimeLast :: u64

definition info_SetNull :: CBlockFileInfo where
  "info_SetNull = \<lparr>nBlocks = 0, nSize = 0, nUndoSize = 0, nHeightFirst = 0, nHeightLast = 0, nTimeFirst = 0, nTimeLast = 0\<rparr>"

definition ser_info :: "CBlockFileInfo \<Rightarrow> byte list" where
  "ser_info i = WriteVarInt (nBlocks i) @ WriteVarInt (nSize i) @ WriteVarInt (nUndoSize i) @ WriteVarInt (nHeightFirst i) @
     WriteVarInt (nHeightLast i) @ WriteVarInt (nTimeFirst i) @ WriteVarInt (nTimeLast i)"

definition unser_info :: "CBlockFileInfo reader" where
  "unser_info = rbind ReadVarInt (\<lambda>a. rbind ReadVarInt (\<lambda>b. rbind ReadVarInt (\<lambda>c. rbind ReadVarInt (\<lambda>d.
     rbind ReadVarInt (\<lambda>e. rbind ReadVarInt (\<lambda>f. rbind ReadVarInt (\<lambda>g.
       rreturn \<lparr>nBlocks = a, nSize = b, nUndoSize = c, nHeightFirst = d, nHeightLast = e, nTimeFirst = f, nTimeLast = g\<rparr>)))))))"

text \<open>The last height is compared with the first one.\<close>
definition AddBlock :: "CBlockFileInfo \<Rightarrow> u32 \<Rightarrow> u64 \<Rightarrow> CBlockFileInfo" where
  "AddBlock i nHeightIn nTimeIn =
     (let i = (if nBlocks i = 0 \<or> nHeightFirst i > nHeightIn then i\<lparr>nHeightFirst := nHeightIn\<rparr> else i);
          i = (if nBlocks i = 0 \<or> nTimeFirst i > nTimeIn then i\<lparr>nTimeFirst := nTimeIn\<rparr> else i);
          i = i\<lparr>nBlocks := nBlocks i + 1\<rparr>;
          i = (if nHeightIn > nHeightFirst i then i\<lparr>nHeightLast := nHeightIn\<rparr> else i)
      in if nTimeIn > nTimeLast i then i\<lparr>nTimeLast := nTimeIn\<rparr> else i)"

section \<open>Entries of the block index on disk\<close>

definition GetBlockPos :: "CBlockIndex \<Rightarrow> CDiskBlockPos" where
  "GetBlockPos b = (if nStatus b AND BLOCK_HAVE_DATA \<noteq> 0 then \<lparr>pos_nFile = nFile b, pos_nPos = nDataPos b\<rparr> else pos_SetNull)"

definition GetUndoPos :: "CBlockIndex \<Rightarrow> CDiskBlockPos" where
  "GetUndoPos b = (if nStatus b AND BLOCK_HAVE_UNDO \<noteq> 0 then \<lparr>pos_nFile = nFile b, pos_nPos = nUndoPos b\<rparr> else pos_SetNull)"

record CDiskBlockIndex = CBlockIndex +
  hashPrev :: uint256

definition disk_of :: "bheap \<Rightarrow> CBlockIndex \<Rightarrow> CDiskBlockIndex" where
  "disk_of H b = CBlockIndex.extend b
     \<lparr>hashPrev = (case pprev b of Some q \<Rightarrow> phashBlock (H q) | None \<Rightarrow> bu_of64 WIDTH256 0)\<rparr>"

definition disk_init :: CDiskBlockIndex where
  "disk_init = CBlockIndex.extend bi_init \<lparr>hashPrev = bu_of64 WIDTH256 0\<rparr>"

text \<open>The version in front is the one of the stream.  The height is an \<open>int\<close>.\<close>
definition ser_disk :: "u32 \<Rightarrow> CDiskBlockIndex \<Rightarrow> byte list" where
  "ser_disk version b =
     WriteVarInt_int version @ WriteVarInt_int (word_of_int (nHeight b)) @ WriteVarInt (nStatus b) @ WriteVarInt (nTx b) @
     (if nStatus b AND (BLOCK_HAVE_DATA OR BLOCK_HAVE_UNDO) \<noteq> 0 then WriteVarInt_int (nFile b) else []) @
     (if nStatus b AND BLOCK_HAVE_DATA \<noteq> 0 then WriteVarInt (nDataPos b) else []) @
     (if nStatus b AND BLOCK_HAVE_UNDO \<noteq> 0 then WriteVarInt (nUndoPos b) else []) @
     ser_int (bi_nVersion b) @ ser_hash (hashPrev b) @ ser_hash (bi_hashMerkleRoot b) @ ser_int (bi_nTime b) @
     ser_int (nBits b) @ ser_int (nNonce b)"

definition unser_disk :: "CDiskBlockIndex \<Rightarrow> CDiskBlockIndex reader" where
  "unser_disk this =
     rbind (ReadVarInt :: u32 reader) (\<lambda>_. rbind ReadVarInt (\<lambda>h :: u32. rbind ReadVarInt (\<lambda>s. rbind ReadVarInt (\<lambda>n.
     rbind (if s AND (BLOCK_HAVE_DATA OR BLOCK_HAVE_UNDO) \<noteq> 0 then ReadVarInt else rreturn (nFile this)) (\<lambda>f.
     rbind (if s AND BLOCK_HAVE_DATA \<noteq> 0 then ReadVarInt else rreturn (nDataPos this)) (\<lambda>d.
     rbind (if s AND BLOCK_HAVE_UNDO \<noteq> 0 then ReadVarInt else rreturn (nUndoPos this)) (\<lambda>u.
     rbind unser_int (\<lambda>v. rbind unser_hash (\<lambda>p. rbind unser_hash (\<lambda>m. rbind unser_int (\<lambda>t. rbind unser_int (\<lambda>b. rbind unser_int (\<lambda>c.
       rreturn (this\<lparr>nHeight := sint h, nStatus := s, nTx := n, nFile := f, nDataPos := d, nUndoPos := u, bi_nVersion := v,
         hashPrev := p, bi_hashMerkleRoot := m, bi_nTime := t, nBits := b, nNonce := c\<rparr>))))))))))))))"

definition disk_GetBlockHash :: "('k, 'x) crypto_scheme \<Rightarrow> CDiskBlockIndex \<Rightarrow> uint256" where
  "disk_GetBlockHash C b = blk_GetHash C
     \<lparr>blk_nVersion = bi_nVersion b, hashPrevBlock = hashPrev b, hashMerkleRoot = bi_hashMerkleRoot b, nTime = bi_nTime b\<rparr>"

section \<open>Space for a block\<close>

definition MAX_BLOCKFILE_SIZE :: u32 where "MAX_BLOCKFILE_SIZE = 0x8000000"
definition BLOCKFILE_CHUNK_SIZE :: u32 where "BLOCKFILE_CHUNK_SIZE = 0x1000000"
definition UNDOFILE_CHUNK_SIZE :: u32 where "UNDOFILE_CHUNK_SIZE = 0x100000"

text \<open>The last file and its record, and the records in the database.\<close>
record block_files =
  nLastBlockFile :: u32
  infoLastBlockFile :: CBlockFileInfo
  db_infos :: "u32 \<Rightarrow> CBlockFileInfo option"
  db_last :: "u32 option"

text \<open>A record that cannot be read leaves the empty one.\<close>
definition load_info :: "block_files \<Rightarrow> u32 \<Rightarrow> CBlockFileInfo" where
  "load_info s n = (case db_infos s n of Some i \<Rightarrow> i | None \<Rightarrow> info_SetNull)"

text \<open>Flushing the buffers has no effect on what a file holds; opening the file may make it.\<close>
definition FlushBlockFile :: "file_io \<Rightarrow> bool \<Rightarrow> block_files \<Rightarrow> disk \<Rightarrow> disk" where
  "FlushBlockFile io fFinalize s fs =
     (let posOld = \<lparr>pos_nFile = nLastBlockFile s, pos_nPos = 0\<rparr>;
          fs = (case OpenBlockFile io fs posOld False of
                  (None, fs) \<Rightarrow> fs
                | (Some (fileOld, _), fs) \<Rightarrow>
                    if fFinalize then TruncateFile io fs fileOld (nSize (infoLastBlockFile s)) else fs)
      in case OpenUndoFile io fs posOld False of
           (None, fs) \<Rightarrow> fs
         | (Some (fileOld, _), fs) \<Rightarrow>
             if fFinalize then TruncateFile io fs fileOld (nUndoSize (infoLastBlockFile s)) else fs)"

partial_function (option) leave_full ::
  "file_io \<Rightarrow> u32 \<Rightarrow> block_files \<Rightarrow> disk \<Rightarrow> bool \<Rightarrow> (block_files \<times> disk \<times> bool) option" where
  "leave_full io nAddSize s fs fUpdatedLast =
     (if nSize (infoLastBlockFile s) + nAddSize \<ge> MAX_BLOCKFILE_SIZE
      then let fs = FlushBlockFile io True s fs;
               n = nLastBlockFile s + 1
           in leave_full io nAddSize (s\<lparr>nLastBlockFile := n, infoLastBlockFile := load_info s n\<rparr>) fs True
      else Some (s, fs, fUpdatedLast))"

definition chunks :: "u32 \<Rightarrow> u32 \<Rightarrow> u32" where "chunks c n = (n + c - 1) div c"

text \<open>Storing the record of a file: the flag is whether the write succeeds.\<close>
definition write_info :: "bool \<Rightarrow> u32 \<Rightarrow> CBlockFileInfo \<Rightarrow> block_files \<Rightarrow> block_files" where
  "write_info ok n i s = (if ok then s\<lparr>db_infos := (db_infos s)(n := Some i)\<rparr> else s)"

text \<open>Allocating space ahead, if the file opens.\<close>
definition pre_allocate :: "file_io \<Rightarrow> disk \<Rightarrow> bool \<Rightarrow> CDiskBlockPos \<Rightarrow> u32 \<Rightarrow> disk" where
  "pre_allocate io fs fUndo pos len =
     (case (if fUndo then OpenUndoFile io fs pos False else OpenBlockFile io fs pos False) of
        (None, fs) \<Rightarrow> fs
      | (Some (f, _), fs) \<Rightarrow> AllocateFileRange io fs f (pos_nPos pos) len)"

text \<open>The two flags are whether the record of the file and the number of the last file are stored; the code looks at the first
  only.\<close>
definition FindBlockPos ::
  "file_io \<Rightarrow> (u32 \<Rightarrow> bool) \<Rightarrow> bool \<Rightarrow> bool \<Rightarrow> CValidationState \<Rightarrow> CDiskBlockPos \<Rightarrow> u32 \<Rightarrow> u32 \<Rightarrow> u64 \<Rightarrow> bool \<Rightarrow>
   block_files \<Rightarrow> disk \<Rightarrow> ((bool \<times> CValidationState) \<times> CDiskBlockPos \<times> block_files \<times> disk) option" where
  "FindBlockPos io CheckDiskSpace info_written last_written st pos nAddSize height time fKnown s fs =
     (case (if fKnown
            then (if nLastBlockFile s \<noteq> pos_nFile pos
                  then Some (s\<lparr>nLastBlockFile := pos_nFile pos, infoLastBlockFile := load_info s (pos_nFile pos)\<rparr>, fs, True)
                  else Some (s, fs, False))
            else leave_full io nAddSize s fs False) of
        None \<Rightarrow> None
      | Some (s, fs, fUpdatedLast) \<Rightarrow>
          let pos = (if fKnown then pos else \<lparr>pos_nFile = nLastBlockFile s, pos_nPos = nSize (infoLastBlockFile s)\<rparr>);
              info = infoLastBlockFile s;
              info = AddBlock (info\<lparr>nSize := nSize info + nAddSize\<rparr>) height time;
              s = s\<lparr>infoLastBlockFile := info\<rparr>;
              nOldChunks = chunks BLOCKFILE_CHUNK_SIZE (pos_nPos pos);
              nNewChunks = chunks BLOCKFILE_CHUNK_SIZE (nSize info);
              more = (\<not> fKnown \<and> nNewChunks > nOldChunks);
              ahead = nNewChunks * BLOCKFILE_CHUNK_SIZE - pos_nPos pos
          in if more \<and> \<not> CheckDiskSpace ahead then Some (vs_Error st, pos, s, fs)
             else
               let fs = (if more then pre_allocate io fs False pos ahead else fs)
               in if \<not> info_written then Some (vs_Error st, pos, s, fs)
                  else
                    let s = write_info True (nLastBlockFile s) info s;
                        s = (if fUpdatedLast \<and> last_written then s\<lparr>db_last := Some (nLastBlockFile s)\<rparr> else s)
                    in Some ((True, st), pos, s, fs))"

definition FindUndoPos ::
  "file_io \<Rightarrow> (u32 \<Rightarrow> bool) \<Rightarrow> bool \<Rightarrow> CValidationState \<Rightarrow> u32 \<Rightarrow> u32 \<Rightarrow> block_files \<Rightarrow> disk \<Rightarrow>
   (bool \<times> CValidationState) \<times> CDiskBlockPos \<times> block_files \<times> disk" where
  "FindUndoPos io CheckDiskSpace info_written st n nAddSize s fs =
     (let last = (n = nLastBlockFile s);
          pos0 = \<lparr>pos_nFile = n, pos_nPos = 0\<rparr>
      in case (if last then Some (infoLastBlockFile s) else db_infos s n) of
           None \<Rightarrow> (vs_Error st, pos0, s, fs)
         | Some info \<Rightarrow>
             let pos = pos0\<lparr>pos_nPos := nUndoSize info\<rparr>;
                 nNewSize = nUndoSize info + nAddSize;
                 info = info\<lparr>nUndoSize := nNewSize\<rparr>;
                 s = (if last then s\<lparr>infoLastBlockFile := info\<rparr> else s)
             in if \<not> info_written then (vs_Error st, pos, s, fs)
                else
                  let s = write_info True n info s;
                      nOldChunks = chunks UNDOFILE_CHUNK_SIZE (pos_nPos pos);
                      nNewChunks = chunks UNDOFILE_CHUNK_SIZE nNewSize;
                      ahead = nNewChunks * UNDOFILE_CHUNK_SIZE - pos_nPos pos
                  in if nNewChunks > nOldChunks \<and> \<not> CheckDiskSpace ahead then (vs_Error st, pos, s, fs)
                     else
                       let fs = (if nNewChunks > nOldChunks then pre_allocate io fs True pos ahead else fs)
                       in ((True, st), pos, s, fs))"


section \<open>Codes\<close>

interpretation pos: codec unser_pos ser_pos "\<lambda>p. 0 \<le>s pos_nFile p"
  by (intro codec.intro codec_axioms.intro)
     (auto simp: unser_pos_def ser_pos_def rbind_def rreturn_def WriteVarInt_int_nonneg ReadWriteVarInt intro!: reader_bind)

interpretation txpos: codec unser_txpos ser_txpos "\<lambda>p. 0 \<le>s pos_nFile p"
  by (intro codec.intro codec_axioms.intro)
     (auto simp: unser_txpos_def ser_txpos_def unser_pos_def ser_pos_def txpos_of_def rbind_def rreturn_def
        WriteVarInt_int_nonneg ReadWriteVarInt intro!: reader_bind)

interpretation info: codec unser_info ser_info "\<lambda>i. True"
  by (intro codec.intro codec_axioms.intro)
     (auto simp: unser_info_def ser_info_def rbind_def rreturn_def ReadWriteVarInt intro!: reader_bind)

definition disk_ok :: "CDiskBlockIndex \<Rightarrow> bool" where
  "disk_ok b \<longleftrightarrow> 0 \<le> nHeight b \<and> nHeight b < 2 ^ 31 \<and> 0 \<le>s nFile b \<and> length (hashPrev b) = WIDTH256 \<and>
     length (bi_hashMerkleRoot b) = WIDTH256"

text \<open>What is stored of an entry, the positions only where the status says that there is something.\<close>
definition stored :: "CDiskBlockIndex \<Rightarrow> CDiskBlockIndex \<Rightarrow> CDiskBlockIndex" where
  "stored b this = this\<lparr>nHeight := nHeight b, nStatus := nStatus b, nTx := nTx b,
     nFile := (if nStatus b AND (BLOCK_HAVE_DATA OR BLOCK_HAVE_UNDO) \<noteq> 0 then nFile b else nFile this),
     nDataPos := (if nStatus b AND BLOCK_HAVE_DATA \<noteq> 0 then nDataPos b else nDataPos this),
     nUndoPos := (if nStatus b AND BLOCK_HAVE_UNDO \<noteq> 0 then nUndoPos b else nUndoPos this),
     bi_nVersion := bi_nVersion b, hashPrev := hashPrev b, bi_hashMerkleRoot := bi_hashMerkleRoot b,
     bi_nTime := bi_nTime b, nBits := nBits b, nNonce := nNonce b\<rparr>"

lemma unser_ser_disk:
  assumes "disk_ok b" and "0 \<le>s version"
  shows "unser_disk this (ser_disk version b @ rest) = Inr (stored b this, rest)"
proof -
  have s: "sint (word_of_int (nHeight b) :: u32) = nHeight b"
    using assms(1) by (simp add: disk_ok_def sint_sbintrunc' signed_take_bit_int_eq_self)
  then have h: "0 \<le>s (word_of_int (nHeight b) :: u32)" using assms(1) by (simp add: word_sle_eq disk_ok_def)
  have l: "length (hashPrev b) = WIDTH256" "length (bi_hashMerkleRoot b) = WIDTH256" "0 \<le>s nFile b"
    using assms(1) by (simp_all add: disk_ok_def)
  show ?thesis
    using h l assms(2) s
    by (simp add: unser_disk_def ser_disk_def rbind_def rreturn_def WriteVarInt_int_nonneg ReadWriteVarInt unser_ser_int
        hash.get_ser stored_def)
qed

lemma stored_GetBlockHash: "disk_GetBlockHash C (stored b this) = disk_GetBlockHash C b"
  by (simp add: disk_GetBlockHash_def stored_def blk_GetHash_def header_bytes_def)


section \<open>Allocation\<close>

type_synonym disk_range = "u32 \<times> nat \<times> nat"

definition apart :: "disk_range \<Rightarrow> disk_range \<Rightarrow> bool" where
  "apart a b \<longleftrightarrow> (case (a, b) of ((f, p, n), (f', p', n')) \<Rightarrow> f \<noteq> f' \<or> p + n \<le> p' \<or> p' + n' \<le> p)"

definition files_init :: block_files where
  "files_init = \<lparr>nLastBlockFile = 0, infoLastBlockFile = info_SetNull, db_infos = (\<lambda>_. None), db_last = None\<rparr>"

text \<open>Whether the size of the undo data of a file leaves the 32 bits it is counted in; the code does not check it.\<close>
definition undo_wraps :: "block_files \<Rightarrow> u32 \<Rightarrow> u32 \<Rightarrow> bool" where
  "undo_wraps s n nAddSize =
     (case (if n = nLastBlockFile s then Some (infoLastBlockFile s) else db_infos s n) of
        None \<Rightarrow> False | Some info \<Rightarrow> 2 ^ 32 \<le> unat (nUndoSize info) + unat nAddSize)"

text \<open>Space handed out for blocks and for undo data by any sequence of calls, failed ones included, whatever happens to the
  files; and the files whose undo size has wrapped around.  A block is smaller than a file and file numbers stay within an
  \<open>int\<close>.  Positions that are known, as while the files are read again, are not handed out here.\<close>
inductive alloc_run :: "block_files \<Rightarrow> disk_range list \<Rightarrow> disk_range list \<Rightarrow> u32 set \<Rightarrow> bool" where
  start: "alloc_run files_init [] [] {}"
| block: "alloc_run s bs us W \<Longrightarrow> nAddSize < MAX_BLOCKFILE_SIZE \<Longrightarrow> unat (nLastBlockFile s) + 1 < 2 ^ 31 \<Longrightarrow>
    FindBlockPos io space iw lw st pos0 nAddSize h t False s fs = Some ((ok, st'), pos, s', fs') \<Longrightarrow>
    alloc_run s' (if ok then (pos_nFile pos, unat (pos_nPos pos), unat nAddSize) # bs else bs) us W"
| undo: "alloc_run s bs us W \<Longrightarrow>
    FindUndoPos io space iw st n nAddSize s fs = ((ok, st'), pos, s', fs') \<Longrightarrow>
    alloc_run s' bs (if ok then (pos_nFile pos, unat (pos_nPos pos), unat nAddSize) # us else us)
      (if undo_wraps s n nAddSize then insert n W else W)"

definition alloc_ok :: "block_files \<Rightarrow> disk_range list \<Rightarrow> disk_range list \<Rightarrow> u32 set \<Rightarrow> bool" where
  "alloc_ok s bs us W \<longleftrightarrow>
     unat (nSize (infoLastBlockFile s)) < 2 ^ 27 \<and>
     (\<forall>f. nLastBlockFile s < f \<longrightarrow> db_infos s f = None) \<and>
     (\<forall>f p n. (f, p, n) \<in> set bs \<longrightarrow> f \<le> nLastBlockFile s \<and> p + n < 2 ^ 27 \<and>
        (f = nLastBlockFile s \<longrightarrow> p + n \<le> unat (nSize (infoLastBlockFile s)))) \<and>
     (\<forall>f p n. (f, p, n) \<in> set us \<longrightarrow> f \<le> nLastBlockFile s \<and> (f \<notin> W \<longrightarrow> p + n < 2 ^ 32 \<and>
        (f = nLastBlockFile s \<longrightarrow> p + n \<le> unat (nUndoSize (infoLastBlockFile s))) \<and>
        (\<forall>i. db_infos s f = Some i \<longrightarrow> p + n \<le> unat (nUndoSize i)))) \<and>
     sorted_wrt apart bs \<and> sorted_wrt (\<lambda>a b. fst a \<notin> W \<longrightarrow> apart a b) us"

lemma alloc_okI:
  assumes "unat (nSize (infoLastBlockFile s)) < 2 ^ 27"
    and "\<And>f. nLastBlockFile s < f \<Longrightarrow> db_infos s f = None"
    and "\<And>f p n. (f, p, n) \<in> set bs \<Longrightarrow> f \<le> nLastBlockFile s \<and> p + n < 2 ^ 27 \<and>
        (f = nLastBlockFile s \<longrightarrow> p + n \<le> unat (nSize (infoLastBlockFile s)))"
    and "\<And>f p n. (f, p, n) \<in> set us \<Longrightarrow> f \<le> nLastBlockFile s \<and> (f \<notin> W \<longrightarrow> p + n < 2 ^ 32 \<and>
        (f = nLastBlockFile s \<longrightarrow> p + n \<le> unat (nUndoSize (infoLastBlockFile s))) \<and>
        (\<forall>i. db_infos s f = Some i \<longrightarrow> p + n \<le> unat (nUndoSize i)))"
    and "sorted_wrt apart bs" and "sorted_wrt (\<lambda>a b. fst a \<notin> W \<longrightarrow> apart a b) us"
  shows "alloc_ok s bs us W"
  unfolding alloc_ok_def using assms by blast

lemma AddBlock_sizes [simp]:
  "nSize (AddBlock i h t) = nSize i" "nUndoSize (AddBlock i h t) = nUndoSize i"
  by (simp_all add: AddBlock_def Let_def)

lemma size_fits:
  assumes "unat (nSize i) < 2 ^ 27" and "nAddSize < MAX_BLOCKFILE_SIZE"
  shows "unat (nSize i + nAddSize) = unat (nSize i) + unat nAddSize"
    and "nSize i + nAddSize \<ge> MAX_BLOCKFILE_SIZE \<longleftrightarrow> 2 ^ 27 \<le> unat (nSize i) + unat nAddSize"
proof -
  have a: "unat nAddSize < 2 ^ 27" using assms(2) by (simp add: MAX_BLOCKFILE_SIZE_def word_less_nat_alt)
  then show e: "unat (nSize i + nAddSize) = unat (nSize i) + unat nAddSize"
    using assms(1) by (simp add: unat_word_ariths)
  show "nSize i + nAddSize \<ge> MAX_BLOCKFILE_SIZE \<longleftrightarrow> 2 ^ 27 \<le> unat (nSize i) + unat nAddSize"
    unfolding word_le_nat_alt e by (simp add: MAX_BLOCKFILE_SIZE_def)
qed

lemma next_file:
  assumes "unat (n :: u32) + 1 < 2 ^ 31"
  shows "unat (n + 1) = unat n + 1" and "f \<le> n \<Longrightarrow> f < n + 1" and "n + 1 < f \<Longrightarrow> n < f" and "n < n + 1"
proof -
  show u: "unat (n + 1) = unat n + 1" using assms by (simp add: unat_word_ariths)
  show "f \<le> n \<Longrightarrow> f < n + 1" "n + 1 < f \<Longrightarrow> n < f" "n < n + 1"
    by (simp_all add: word_le_nat_alt word_less_nat_alt u)
qed

lemma leave_full_cases:
  assumes ok: "alloc_ok s bs us W" and a: "nAddSize < MAX_BLOCKFILE_SIZE" and n: "unat (nLastBlockFile s) + 1 < 2 ^ 31"
  shows "\<exists>s' fs' u. leave_full io nAddSize s fs f = Some (s', fs', u) \<and> alloc_ok s' bs us W \<and>
    unat (nSize (infoLastBlockFile s')) + unat nAddSize < 2 ^ 27 \<and> (fs' = fs \<or> fs' = FlushBlockFile io True s fs)"
proof -
  have sz: "unat (nSize (infoLastBlockFile s)) < 2 ^ 27" using ok by (simp add: alloc_ok_def)
  show ?thesis
  proof (cases "2 ^ 27 \<le> unat (nSize (infoLastBlockFile s)) + unat nAddSize")
    case True
    let ?s = "s\<lparr>nLastBlockFile := nLastBlockFile s + 1, infoLastBlockFile := info_SetNull\<rparr>"
    let ?fs = "FlushBlockFile io True s fs"
    note nf = next_file [OF n]
    have l: "load_info s (nLastBlockFile s + 1) = info_SetNull"
      using ok nf(4) by (simp add: load_info_def alloc_ok_def)
    have small: "unat nAddSize < 2 ^ 27" using a by (simp add: MAX_BLOCKFILE_SIZE_def word_less_nat_alt)
    have "leave_full io nAddSize s fs f = leave_full io nAddSize ?s ?fs True"
      using True size_fits(2) [OF sz a] l by (subst leave_full.simps) (simp add: Let_def)
    also have "(MAX_BLOCKFILE_SIZE \<le> nAddSize) = False" using a by (simp add: not_le)
    then have "leave_full io nAddSize ?s ?fs True = Some (?s, ?fs, True)"
      by (subst leave_full.simps) (simp add: info_SetNull_def)
    finally have "leave_full io nAddSize s fs f = Some (?s, ?fs, True)" .
    moreover have "alloc_ok ?s bs us W"
    proof -
      have "f \<le> nLastBlockFile s \<Longrightarrow> f \<le> nLastBlockFile s + 1 \<and> f \<noteq> nLastBlockFile s + 1" for f
        using nf(2) [of f] by (auto simp: less_imp_le)
      then show ?thesis using ok nf(3) by (auto simp: alloc_ok_def info_SetNull_def)
    qed
    ultimately show ?thesis using small by (auto simp: info_SetNull_def)
  next
    case False
    then have "leave_full io nAddSize s fs f = Some (s, fs, f)"
      using size_fits(2) [OF sz a] by (subst leave_full.simps) simp
    then show ?thesis using ok False by auto
  qed
qed

lemma apart_new: "(f' = f \<longrightarrow> p' + n' \<le> p) \<Longrightarrow> apart (f, p, n) (f', p', n')"
  by (auto simp: apart_def)

lemma FindBlockPos_ok:
  assumes ok: "alloc_ok s bs us W" and a: "nAddSize < MAX_BLOCKFILE_SIZE" and n: "unat (nLastBlockFile s) + 1 < 2 ^ 31"
  shows "\<exists>r st' pos s' fs'. FindBlockPos io space iw lw st pos0 nAddSize h t False s fs = Some ((r, st'), pos, s', fs') \<and>
    alloc_ok s' (if r then (pos_nFile pos, unat (pos_nPos pos), unat nAddSize) # bs else bs) us W"
proof -
  obtain s1 fs1 u where l: "leave_full io nAddSize s fs False = Some (s1, fs1, u)" "alloc_ok s1 bs us W"
    "unat (nSize (infoLastBlockFile s1)) + unat nAddSize < 2 ^ 27"
    using leave_full_cases [OF ok a n] by blast
  let ?i = "infoLastBlockFile s1"
  let ?info = "AddBlock (?i\<lparr>nSize := nSize ?i + nAddSize\<rparr>) h t"
  let ?s = "s1\<lparr>infoLastBlockFile := ?info\<rparr>"
  have sz: "unat (nSize ?i + nAddSize) = unat (nSize ?i) + unat nAddSize"
    using size_fits(1) [of ?i nAddSize] l(3) a by simp
  let ?r = "(nLastBlockFile s1, unat (nSize ?i), unat nAddSize)"
  let ?p = "\<lparr>pos_nFile = nLastBlockFile s1, pos_nPos = nSize ?i\<rparr>"
  have b: "f \<le> nLastBlockFile s1 \<and> p + n < 2 ^ 27 \<and> (f = nLastBlockFile s1 \<longrightarrow> p + n \<le> unat (nSize ?i))"
    if "(f, p, n) \<in> set bs" for f p n using l(2) that unfolding alloc_ok_def by blast
  have v: "f \<le> nLastBlockFile s1 \<and> (f \<notin> W \<longrightarrow> p + n < 2 ^ 32 \<and> (f = nLastBlockFile s1 \<longrightarrow> p + n \<le> unat (nUndoSize ?i)) \<and>
      (\<forall>i. db_infos s1 f = Some i \<longrightarrow> p + n \<le> unat (nUndoSize i)))"
    if "(f, p, n) \<in> set us" for f p n using l(2) that unfolding alloc_ok_def by blast
  have w: "\<forall>f. nLastBlockFile s1 < f \<longrightarrow> db_infos s1 f = None" "sorted_wrt apart bs" "sorted_wrt (\<lambda>a b. fst a \<notin> W \<longrightarrow> apart a b) us"
    using l(2) by (simp_all add: alloc_ok_def)
  have old: "alloc_ok ?s bs us W"
  proof (rule alloc_okI)
    show "f \<le> nLastBlockFile ?s \<and> p + n < 2 ^ 27 \<and> (f = nLastBlockFile ?s \<longrightarrow> p + n \<le> unat (nSize (infoLastBlockFile ?s)))"
      if "(f, p, n) \<in> set bs" for f p n using b [OF that] sz by auto
    show "f \<le> nLastBlockFile ?s \<and> (f \<notin> W \<longrightarrow> p + n < 2 ^ 32 \<and>
        (f = nLastBlockFile ?s \<longrightarrow> p + n \<le> unat (nUndoSize (infoLastBlockFile ?s))) \<and>
        (\<forall>i. db_infos ?s f = Some i \<longrightarrow> p + n \<le> unat (nUndoSize i)))" if "(f, p, n) \<in> set us" for f p n
      using v [OF that] by auto
  qed (use w l(3) sz in simp_all)
  have new: "alloc_ok (?s\<lparr>db_infos := (db_infos s1)(nLastBlockFile s1 := Some ?info), db_last := d\<rparr>) (?r # bs) us W"
    (is "alloc_ok ?S _ _ _") for d
  proof (rule alloc_okI)
    show "f \<le> nLastBlockFile ?S \<and> p + n < 2 ^ 27 \<and> (f = nLastBlockFile ?S \<longrightarrow> p + n \<le> unat (nSize (infoLastBlockFile ?S)))"
      if "(f, p, n) \<in> set (?r # bs)" for f p n
    proof (cases "(f, p, n) = ?r")
      case True
      then show ?thesis using l(3) sz by simp
    next
      case False
      then have "(f, p, n) \<in> set bs" using that by auto
      then show ?thesis using b [of f p n] sz by auto
    qed
    show "f \<le> nLastBlockFile ?S \<and> (f \<notin> W \<longrightarrow> p + n < 2 ^ 32 \<and>
        (f = nLastBlockFile ?S \<longrightarrow> p + n \<le> unat (nUndoSize (infoLastBlockFile ?S))) \<and>
        (\<forall>i. db_infos ?S f = Some i \<longrightarrow> p + n \<le> unat (nUndoSize i)))" if "(f, p, n) \<in> set us" for f p n
      using v [OF that] by auto
    have "\<forall>r\<in>set bs. apart ?r r" using b by (auto intro!: apart_new)
    then show "sorted_wrt apart (?r # bs)" using w by simp
  qed (use w l(3) sz in simp_all)
  let ?p = "\<lparr>pos_nFile = nLastBlockFile s1, pos_nPos = nSize ?i\<rparr>"
  define more where "more \<longleftrightarrow> chunks BLOCKFILE_CHUNK_SIZE (nSize ?info) > chunks BLOCKFILE_CHUNK_SIZE (nSize ?i)"
  define ahead where "ahead = chunks BLOCKFILE_CHUNK_SIZE (nSize ?info) * BLOCKFILE_CHUNK_SIZE - nSize ?i"
  define fs2 where "fs2 = (if more then pre_allocate io fs1 False ?p ahead else fs1)"
  have e: "FindBlockPos io space iw lw st pos0 nAddSize h t False s fs = Some
      (if more \<and> \<not> space ahead then (vs_Error st, ?p, ?s, fs1)
       else if \<not> iw then (vs_Error st, ?p, ?s, fs2)
       else ((True, st), ?p, ?s\<lparr>db_infos := (db_infos s1)(nLastBlockFile s1 := Some ?info),
              db_last := (if u \<and> lw then Some (nLastBlockFile s1) else db_last s1)\<rparr>, fs2))"
    by (simp add: FindBlockPos_def l(1) Let_def write_info_def more_def ahead_def fs2_def)
  show ?thesis
  proof (cases "more \<and> \<not> space ahead \<or> \<not> iw")
    case True
    then show ?thesis using old unfolding e vs_Error_def by (auto split: if_splits)
  next
    case False
    let ?S = "?s\<lparr>db_infos := (db_infos s1)(nLastBlockFile s1 := Some ?info),
        db_last := (if u \<and> lw then Some (nLastBlockFile s1) else db_last s1)\<rparr>"
    have "FindBlockPos io space iw lw st pos0 nAddSize h t False s fs = Some ((True, st), ?p, ?S, fs2)"
    proof -
      have "(more \<and> \<not> space ahead) = False" "iw = True" using False by blast+
      then show ?thesis unfolding e by (simp only: if_False if_True simp_thms)
    qed
    then show ?thesis
      using new [of "if u \<and> lw then Some (nLastBlockFile s1) else db_last s1"] by (intro exI conjI) (assumption, simp)
  qed
qed

lemma FindUndoPos_ok:
  assumes ok: "alloc_ok s bs us W"
    and e: "FindUndoPos io space iw st n nAddSize s fs = ((r, st'), pos, s', fs')"
  shows "alloc_ok s' bs (if r then (pos_nFile pos, unat (pos_nPos pos), unat nAddSize) # us else us)
    (if undo_wraps s n nAddSize then insert n W else W)"
proof (cases "if n = nLastBlockFile s then Some (infoLastBlockFile s) else db_infos s n")
  case None
  then have "\<not> undo_wraps s n nAddSize" "s' = s" "\<not> r" using e by (auto simp: undo_wraps_def FindUndoPos_def vs_Error_def split: if_splits)
  then show ?thesis using ok by simp
next
  case (Some i)
  let ?W = "if undo_wraps s n nAddSize then insert n W else W"
  let ?i = "i\<lparr>nUndoSize := nUndoSize i + nAddSize\<rparr>"
  let ?s = "if n = nLastBlockFile s then s\<lparr>infoLastBlockFile := ?i\<rparr> else s"
  let ?S = "?s\<lparr>db_infos := (db_infos s)(n := Some ?i)\<rparr>"
  let ?r = "(n, unat (nUndoSize i), unat nAddSize)"
  have sub: "f \<notin> ?W \<Longrightarrow> f \<notin> W" for f by (simp split: if_splits)
  have sz: "unat (nUndoSize i + nAddSize) = unat (nUndoSize i) + unat nAddSize"
    "unat (nUndoSize i) + unat nAddSize < 2 ^ 32" if "n \<notin> ?W"
    using that Some by (simp_all add: undo_wraps_def unat_word_ariths split: if_splits)
  have w: "\<forall>f. nLastBlockFile s < f \<longrightarrow> db_infos s f = None" "sorted_wrt apart bs"
    "unat (nSize (infoLastBlockFile s)) < 2 ^ 27"
    using ok by (simp_all add: alloc_ok_def)
  have "sorted_wrt (\<lambda>a b. fst a \<notin> W \<longrightarrow> apart a b) us" using ok by (simp add: alloc_ok_def)
  then have us: "sorted_wrt (\<lambda>a b. fst a \<notin> ?W \<longrightarrow> apart a b) us" by (rule sorted_wrt_mono_rel [rotated]) auto
  have b: "f \<le> nLastBlockFile s \<and> p + n < 2 ^ 27 \<and> (f = nLastBlockFile s \<longrightarrow> p + n \<le> unat (nSize (infoLastBlockFile s)))"
    if "(f, p, n) \<in> set bs" for f p n using ok that unfolding alloc_ok_def by blast
  have v: "f \<le> nLastBlockFile s \<and> (f \<notin> W \<longrightarrow> p + m < 2 ^ 32 \<and>
      (f = nLastBlockFile s \<longrightarrow> p + m \<le> unat (nUndoSize (infoLastBlockFile s))) \<and>
      (\<forall>i. db_infos s f = Some i \<longrightarrow> p + m \<le> unat (nUndoSize i)))"
    if "(f, p, m) \<in> set us" for f p m using ok that unfolding alloc_ok_def by blast
  have vi: "p + m \<le> unat (nUndoSize i)" if "(n, p, m) \<in> set us" "n \<notin> W" for p m
    using v [OF that(1)] that(2) Some by (auto split: if_splits)
  have le: "n \<le> nLastBlockFile s"
    using Some w(1) by (cases "n = nLastBlockFile s") (auto simp: not_le [symmetric])
  have L: "nLastBlockFile ?s = nLastBlockFile s" "nSize (infoLastBlockFile ?s) = nSize (infoLastBlockFile s)"
    "db_infos ?s = db_infos s" using Some by auto
  have u: "f \<le> nLastBlockFile s \<and> (f \<notin> ?W \<longrightarrow> p + m < 2 ^ 32 \<and>
      (f = nLastBlockFile s \<longrightarrow> p + m \<le> unat (nUndoSize (infoLastBlockFile ?s))) \<and>
      (\<forall>j. db_infos s f = Some j \<longrightarrow> p + m \<le> unat (nUndoSize j)) \<and>
      (f = n \<longrightarrow> p + m \<le> unat (nUndoSize i + nAddSize)))"
    if "(f, p, m) \<in> set us" for f p m
    using v [OF that] vi [of p m] that sz(1) by (cases "f = n") (auto intro: trans_le_add1)
  have old: "alloc_ok ?s bs us ?W"
  proof (rule alloc_okI)
    show "f \<le> nLastBlockFile ?s \<and> (f \<notin> ?W \<longrightarrow> p + m < 2 ^ 32 \<and>
        (f = nLastBlockFile ?s \<longrightarrow> p + m \<le> unat (nUndoSize (infoLastBlockFile ?s))) \<and>
        (\<forall>i. db_infos ?s f = Some i \<longrightarrow> p + m \<le> unat (nUndoSize i)))" if "(f, p, m) \<in> set us" for f p m
      unfolding L using u [OF that] by blast
  qed (use w b us in \<open>simp_all add: L\<close>)
  have new: "alloc_ok ?S bs (?r # us) ?W"
  proof (rule alloc_okI)
    have "\<forall>b\<in>set us. fst ?r \<notin> ?W \<longrightarrow> apart ?r b" using vi sub by (auto intro!: apart_new)
    then show "sorted_wrt (\<lambda>a b. fst a \<notin> ?W \<longrightarrow> apart a b) (?r # us)" using us by simp
    show "nLastBlockFile ?S < f \<Longrightarrow> db_infos ?S f = None" for f using w(1) le by (auto simp: L)
    show "f \<le> nLastBlockFile ?S \<and> (f \<notin> ?W \<longrightarrow> p + m < 2 ^ 32 \<and>
        (f = nLastBlockFile ?S \<longrightarrow> p + m \<le> unat (nUndoSize (infoLastBlockFile ?S))) \<and>
        (\<forall>i. db_infos ?S f = Some i \<longrightarrow> p + m \<le> unat (nUndoSize i)))" if "(f, p, m) \<in> set (?r # us)" for f p m
    proof (cases "(f, p, m) = ?r")
      case True
      then show ?thesis using le sz by auto
    next
      case False
      then show ?thesis using u [of f p m] that by (cases "f = n") (auto split: if_splits)
    qed
  qed (use w b in \<open>simp_all add: L\<close>)
  have wr: "alloc_ok ?S bs us ?W" using new by (auto simp: alloc_ok_def)
  have "(r, pos, s') \<in> {(False, \<lparr>pos_nFile = n, pos_nPos = nUndoSize i\<rparr>, ?s),
      (False, \<lparr>pos_nFile = n, pos_nPos = nUndoSize i\<rparr>, ?S), (True, \<lparr>pos_nFile = n, pos_nPos = nUndoSize i\<rparr>, ?S)}"
    using e Some by (auto simp: FindUndoPos_def Let_def write_info_def vs_Error_def split: if_splits)
  then show ?thesis using old wr new by auto
qed

lemma alloc_run_ok: "alloc_run s bs us W \<Longrightarrow> alloc_ok s bs us W"
proof (induction rule: alloc_run.induct)
  case start
  show ?case by (simp add: alloc_ok_def files_init_def info_SetNull_def)
next
  case (block s bs us W nAddSize io space iw lw st pos0 h t fs ok st' pos s' fs')
  then show ?case using FindBlockPos_ok [OF block(5,2,3), of io space iw lw st pos0 h t fs] by auto
next
  case (undo s bs us W io space iw st n nAddSize fs ok st' pos s' fs')
  then show ?case using FindUndoPos_ok by blast
qed

section \<open>What the files keep\<close>

text \<open>The end of something stored: within space handed out, in the file of that space.\<close>
definition inside :: "disk_range list \<Rightarrow> disk_range list \<Rightarrow> u32 set \<Rightarrow> file_name \<Rightarrow> nat \<Rightarrow> bool" where
  "inside bs us W name lim \<longleftrightarrow>
     (\<exists>f p m. lim \<le> p + m \<and> (name = (False, f) \<and> (f, p, m) \<in> set bs \<or> name = (True, f) \<and> (f, p, m) \<in> set us \<and> f \<notin> W))"

lemma inside_limits:
  assumes "alloc_ok s bs us W"
  shows "inside bs us W (False, nLastBlockFile s) lim \<Longrightarrow> lim \<le> unat (nSize (infoLastBlockFile s))"
    and "inside bs us W (True, nLastBlockFile s) lim \<Longrightarrow> lim \<le> unat (nUndoSize (infoLastBlockFile s))"
    and "inside bs us W (True, f) lim \<Longrightarrow> db_infos s f = Some i \<Longrightarrow> lim \<le> unat (nUndoSize i)"
proof -
  have b: "p + m \<le> unat (nSize (infoLastBlockFile s))" if "(nLastBlockFile s, p, m) \<in> set bs" for p m
    using assms that unfolding alloc_ok_def by blast
  have u: "p + m \<le> unat (nUndoSize (infoLastBlockFile s))" if "(nLastBlockFile s, p, m) \<in> set us" "nLastBlockFile s \<notin> W" for p m
    using assms that unfolding alloc_ok_def by blast
  have d: "p + m \<le> unat (nUndoSize i)" if "(f, p, m) \<in> set us" "f \<notin> W" "db_infos s f = Some i" for p m
    using assms that unfolding alloc_ok_def by blast
  show "inside bs us W (False, nLastBlockFile s) lim \<Longrightarrow> lim \<le> unat (nSize (infoLastBlockFile s))"
    using b unfolding inside_def by (fastforce intro: order_trans)
  show "inside bs us W (True, nLastBlockFile s) lim \<Longrightarrow> lim \<le> unat (nUndoSize (infoLastBlockFile s))"
    using u unfolding inside_def by (fastforce intro: order_trans)
  show "inside bs us W (True, f) lim \<Longrightarrow> db_infos s f = Some i \<Longrightarrow> lim \<le> unat (nUndoSize i)"
    using d unfolding inside_def by (fastforce intro: order_trans)
qed

lemma FlushBlockFile_keeps:
  assumes ok: "alloc_ok s bs us W" and i: "inside bs us W name (off + length old)" and n: "name \<notin> clobbers io"
    and h: "holds fs name off old"
  shows "holds (FlushBlockFile io fFinalize s fs) name off old"
proof -
  let ?pos = "\<lparr>pos_nFile = nLastBlockFile s, pos_nPos = 0\<rparr> :: CDiskBlockPos"
  obtain r1 fs1 where 1: "OpenBlockFile io fs ?pos False = (r1, fs1)" by fastforce
  have h1: "holds fs1 name off old" using open_facts(1) [OF 1 [unfolded OpenBlockFile_def]] n h by blast
  define fs2 where "fs2 = (case r1 of None \<Rightarrow> fs1 | Some (f, k) \<Rightarrow>
      if fFinalize then TruncateFile io fs1 f (nSize (infoLastBlockFile s)) else fs1)"
  have h2: "holds fs2 name off old"
  proof (cases r1)
    case (Some fk)
    then have "fst fk = (False, nLastBlockFile s)"
      using open_facts(2) [OF 1 [unfolded OpenBlockFile_def], of "fst fk" "snd fk"] by simp
    then have "fst fk = name \<longrightarrow> off + length old \<le> unat (nSize (infoLastBlockFile s))"
      using inside_limits(1) [OF ok] i by auto
    from TruncateFile_keeps [OF h1 this] show ?thesis using Some h1 by (auto simp: fs2_def split: prod.split)
  qed (simp add: fs2_def h1)
  obtain r3 fs3 where 3: "OpenUndoFile io fs2 ?pos False = (r3, fs3)" by fastforce
  have h3: "holds fs3 name off old" using open_facts(1) [OF 3 [unfolded OpenUndoFile_def]] n h2 by blast
  have e: "FlushBlockFile io fFinalize s fs = (case r3 of None \<Rightarrow> fs3 | Some (f, k) \<Rightarrow>
      if fFinalize then TruncateFile io fs3 f (nUndoSize (infoLastBlockFile s)) else fs3)"
    unfolding FlushBlockFile_def Let_def 1 using 3 by (auto simp: fs2_def split: option.splits)
  show ?thesis
  proof (cases r3)
    case (Some fk)
    then have "fst fk = (True, nLastBlockFile s)"
      using open_facts(2) [OF 3 [unfolded OpenUndoFile_def], of "fst fk" "snd fk"] by simp
    then have "fst fk = name \<longrightarrow> off + length old \<le> unat (nUndoSize (infoLastBlockFile s))"
      using inside_limits(2) [OF ok] i by auto
    from TruncateFile_keeps [OF h3 this] show ?thesis using Some h3 unfolding e by (auto split: prod.split)
  qed (simp add: e h3)
qed

lemma pre_allocate_keeps:
  assumes "name \<notin> clobbers io" and "holds fs name off old"
    and "name = (fUndo, pos_nFile pos) \<longrightarrow> off + length old \<le> unat (pos_nPos pos)"
  shows "holds (pre_allocate io fs fUndo pos len) name off old"
proof -
  obtain r fs1 where 1: "OpenDiskFile io fs pos fUndo False = (r, fs1)" by fastforce
  have h: "holds fs1 name off old" using open_facts(1) [OF 1] assms by blast
  have e: "pre_allocate io fs fUndo pos len =
      (case r of None \<Rightarrow> fs1 | Some (f, k) \<Rightarrow> AllocateFileRange io fs1 f (pos_nPos pos) len)"
    using 1 by (auto simp: pre_allocate_def OpenUndoFile_def OpenBlockFile_def)
  show ?thesis
  proof (cases r)
    case (Some fk)
    then have "fst fk = (fUndo, pos_nFile pos)" using open_facts(2) [OF 1, of "fst fk" "snd fk"] by simp
    then show ?thesis using AllocateFileRange_keeps [OF h] assms(3) Some unfolding e by (auto split: prod.split)
  qed (simp add: e h)
qed

lemma FindBlockPos_keeps:
  assumes ok: "alloc_ok s bs us W" and a: "nAddSize < MAX_BLOCKFILE_SIZE" and b: "unat (nLastBlockFile s) + 1 < 2 ^ 31"
    and e: "FindBlockPos io space iw lw st pos0 nAddSize h t False s fs = Some (r, pos, s', fs')"
    and i: "inside bs us W name (off + length old)" and n: "name \<notin> clobbers io" and h: "holds fs name off old"
  shows "holds fs' name off old"
proof -
  obtain s1 fs1 u where l: "leave_full io nAddSize s fs False = Some (s1, fs1, u)" "alloc_ok s1 bs us W"
    "fs1 = fs \<or> fs1 = FlushBlockFile io True s fs"
    using leave_full_cases [OF ok a b] by blast
  have h1: "holds fs1 name off old" using l(3) h FlushBlockFile_keeps [OF ok i n h] by auto
  let ?p = "\<lparr>pos_nFile = nLastBlockFile s1, pos_nPos = nSize (infoLastBlockFile s1)\<rparr> :: CDiskBlockPos"
  have "name = (False, pos_nFile ?p) \<longrightarrow> off + length old \<le> unat (pos_nPos ?p)"
    using inside_limits(1) [OF l(2)] i by auto
  then have h2: "holds (pre_allocate io fs1 False ?p len) name off old" for len
    by (rule pre_allocate_keeps [OF n h1])
  have "fs' = fs1 \<or> (\<exists>len. fs' = pre_allocate io fs1 False ?p len)"
    using e l(1) by (auto simp: FindBlockPos_def Let_def split: if_splits)
  then show ?thesis using h1 h2 by auto
qed

lemma FindUndoPos_keeps:
  assumes ok: "alloc_ok s bs us W" and e: "FindUndoPos io space iw st k nAddSize s fs = (r, pos, s', fs')"
    and i: "inside bs us W name (off + length old)" and n: "name \<notin> clobbers io" and h: "holds fs name off old"
  shows "holds fs' name off old"
proof (cases "if k = nLastBlockFile s then Some (infoLastBlockFile s) else db_infos s k")
  case None
  then show ?thesis using e h by (auto simp: FindUndoPos_def split: if_splits)
next
  case (Some info)
  let ?p = "\<lparr>pos_nFile = k, pos_nPos = nUndoSize info\<rparr> :: CDiskBlockPos"
  have "name = (True, pos_nFile ?p) \<longrightarrow> off + length old \<le> unat (pos_nPos ?p)"
    using inside_limits(2,3) [OF ok] i Some by (auto split: if_splits)
  then have h2: "holds (pre_allocate io fs True ?p len) name off old" for len
    by (rule pre_allocate_keeps [OF n h])
  have "fs' = fs \<or> (\<exists>len. fs' = pre_allocate io fs True ?p len)"
    using e Some by (auto simp: FindUndoPos_def Let_def split: if_splits)
  then show ?thesis using h h2 by auto
qed

text \<open>C20: The space that \<open>FindBlockPos\<close> and \<open>FindUndoPos\<close> hand out never overlaps, in any sequence of calls, some of which
  fail for lack of space, because the database refuses a write or because a file does not open; every block ends within its file
  of 128 MiB and all undo data below 4 GiB, and the search for a file with room ends.  For the undo data this holds in the files in
  which the size counted in 32 bits has not wrapped around: the code does not check it.  Calls with a known position, while the
  files are read again, are not covered.\<close>

theorem allocation_disjoint:
  assumes "alloc_run s bs us W"
  shows "sorted_wrt apart bs \<and> list_all (\<lambda>(f, p, n). p + n < 2 ^ 27) bs
    \<and> sorted_wrt apart (filter (\<lambda>(f, p, n). f \<notin> W) us)
    \<and> list_all (\<lambda>(f, p, n). f \<in> W \<or> p + n < 2 ^ 32) us
    \<and> (\<forall>nAddSize < MAX_BLOCKFILE_SIZE. unat (nLastBlockFile s) + 1 < 2 ^ 31 \<longrightarrow>
         FindBlockPos io space iw lw st pos0 nAddSize h t False s fs \<noteq> None)"
proof (intro conjI allI impI)
  note ok = alloc_run_ok [OF assms]
  show "sorted_wrt apart bs" using ok by (simp add: alloc_ok_def)
  show "list_all (\<lambda>(f, p, n). p + n < 2 ^ 27) bs" using ok by (auto simp: alloc_ok_def list_all_iff)
  have "sorted_wrt (\<lambda>a b. fst a \<notin> W \<longrightarrow> apart a b) (filter (\<lambda>(f, p, n). f \<notin> W) us)"
    using ok by (intro sorted_wrt_filter) (simp add: alloc_ok_def)
  then show "sorted_wrt apart (filter (\<lambda>(f, p, n). f \<notin> W) us)" by (rule sorted_wrt_mono_rel [rotated]) auto
  have "f \<in> W \<or> p + n < 2 ^ 32" if "(f, p, n) \<in> set us" for f p n using ok that unfolding alloc_ok_def by blast
  then show "list_all (\<lambda>(f, p, n). f \<in> W \<or> p + n < 2 ^ 32) us" by (auto simp: list_all_iff)
  show "FindBlockPos io space iw lw st pos0 nAddSize h t False s fs \<noteq> None"
    if "nAddSize < MAX_BLOCKFILE_SIZE" "unat (nLastBlockFile s) + 1 < 2 ^ 31" for nAddSize
    using FindBlockPos_ok [OF ok that, of io space iw lw st pos0 h t fs] by auto
qed


lemma FindBlockPos_room:
  assumes "nSize (infoLastBlockFile s) + nAddSize < MAX_BLOCKFILE_SIZE"
  shows "\<exists>fs'. FindBlockPos io (\<lambda>_. True) True lw st pos0 nAddSize h t False s fs =
    (let info = AddBlock ((infoLastBlockFile s)\<lparr>nSize := nSize (infoLastBlockFile s) + nAddSize\<rparr>) h t
     in Some ((True, st), \<lparr>pos_nFile = nLastBlockFile s, pos_nPos = nSize (infoLastBlockFile s)\<rparr>,
          s\<lparr>infoLastBlockFile := info, db_infos := (db_infos s)(nLastBlockFile s := Some info)\<rparr>, fs'))"
proof -
  have "(MAX_BLOCKFILE_SIZE \<le> nSize (infoLastBlockFile s) + nAddSize) = False" using assms by (simp add: not_le)
  then have "leave_full io nAddSize s fs False = Some (s, fs, False)" by (subst leave_full.simps) simp
  then show ?thesis by (simp add: FindBlockPos_def write_info_def Let_def)
qed

theorem allocation_disjoint_witness:
  "\<exists>s. alloc_run s [(0, 300, 200), (0, 0, 300)] [] {} \<and> sorted_wrt apart [(0, 300, 200), (0, 0, 300)] \<and>
     FindBlockPos good_io (\<lambda>_. True) True True vs_init pos_SetNull 500 2 9 False s (\<lambda>_. None) \<noteq> None"
proof -
  let ?i1 = "AddBlock (info_SetNull\<lparr>nSize := 300\<rparr>) 0 7"
  let ?s1 = "files_init\<lparr>infoLastBlockFile := ?i1, db_infos := [0 \<mapsto> ?i1]\<rparr>"
  let ?i2 = "AddBlock (?i1\<lparr>nSize := 500\<rparr>) 1 8"
  let ?s2 = "?s1\<lparr>infoLastBlockFile := ?i2, db_infos := [0 \<mapsto> ?i2]\<rparr>"
  obtain fs1 where 1: "FindBlockPos good_io (\<lambda>_. True) True True vs_init pos_SetNull 300 0 7 False files_init (\<lambda>_. None) =
      Some ((True, vs_init), \<lparr>pos_nFile = 0, pos_nPos = 0\<rparr>, ?s1, fs1)"
    using FindBlockPos_room [of files_init 300 good_io True vs_init pos_SetNull 0 7 "\<lambda>_. None"]
    by (auto simp: files_init_def info_SetNull_def MAX_BLOCKFILE_SIZE_def Let_def)
  obtain fs2 where 2: "FindBlockPos good_io (\<lambda>_. True) True True vs_init pos_SetNull 200 1 8 False ?s1 fs1 =
      Some ((True, vs_init), \<lparr>pos_nFile = 0, pos_nPos = 300\<rparr>, ?s2, fs2)"
    using FindBlockPos_room [of ?s1 200 good_io True vs_init pos_SetNull 1 8 fs1]
    by (auto simp: files_init_def MAX_BLOCKFILE_SIZE_def Let_def)
  have r1: "alloc_run ?s1 [(0, 0, 300)] [] {}"
    using alloc_run.block [OF alloc_run.start _ _ 1] by (simp add: files_init_def MAX_BLOCKFILE_SIZE_def)
  have r2: "alloc_run ?s2 [(0, 300, 200), (0, 0, 300)] [] {}"
    using alloc_run.block [OF r1 _ _ 2] by (simp add: files_init_def MAX_BLOCKFILE_SIZE_def)
  have "(500 :: u32) < MAX_BLOCKFILE_SIZE" "unat (nLastBlockFile ?s2) + 1 < 2 ^ 31"
    by (simp_all add: MAX_BLOCKFILE_SIZE_def files_init_def)
  then show ?thesis using allocation_disjoint [OF r2] r2 by blast
qed

end
