(* ===== verification/DiskFiles.thy ===== *)
theory DiskFiles
  imports BlockFiles Block
begin

text \<open>
  Blocks and undo data in their files (\<open>WriteToDisk\<close> and \<open>ReadFromDisk\<close> of \<open>CBlock\<close> and \<open>CBlockUndo\<close> in
  \<open>main.h\<close>), and that together with the allocation of space, the cutting and the pre-allocating of the files nothing
  stored is lost.  Whether the node is downloading the first blocks decides only about \<open>FileCommit\<close>, which has no
  effect on what a file holds.
\<close>

section \<open>Blocks and undo data\<close>

definition pchMessageStart :: "byte list" where "pchMessageStart = [0x0a, 0x11, 0xc3, 0x23]"

text \<open>The answer and the position afterwards, or no answer when \<open>CAutoFile\<close> throws; and the files.  A flush that fails is
  ignored.\<close>
definition blk_WriteToDisk :: "file_io \<Rightarrow> CBlock \<Rightarrow> CDiskBlockPos \<Rightarrow> disk \<Rightarrow> (bool \<times> CDiskBlockPos) option \<times> disk" where
  "blk_WriteToDisk io b pos fs =
     (case OpenBlockFile io fs pos False of
        (None, fs) \<Rightarrow> (Some (False, pos), fs)
      | (Some (fileout, off), fs) \<Rightarrow>
          let start = ser_flat pchMessageStart @ ser_int (size_block b);
              (ok, fs) = file_put (io_write io 0) fs fileout off start
          in if \<not> ok then (None, fs)
             else if \<not> io_tell io then (Some (False, pos), fs)
             else
               let off = off + length start;
                   pos = pos\<lparr>pos_nPos := word_of_nat off\<rparr>;
                   (ok, fs) = file_put (io_write io 1) fs fileout off (ser_block b)
               in if \<not> ok then (None, fs) else (Some (True, pos), fs))"

definition blk_ReadFromDisk :: "file_io \<Rightarrow> disk \<Rightarrow> CDiskBlockPos \<Rightarrow> CBlock \<Rightarrow> CBlock option" where
  "blk_ReadFromDisk io fs pos this =
     (case OpenBlockFile io fs pos True of
        (None, fs) \<Rightarrow> None
      | (Some (filein, off), fs) \<Rightarrow>
          case unser_block (blk_SetNull this) (file_get io fs filein off) of Inl e \<Rightarrow> None | Inr (b, _) \<Rightarrow> Some b)"

definition undo_checksum :: "('k, 'x) crypto_scheme \<Rightarrow> uint256 \<Rightarrow> CBlockUndo \<Rightarrow> uint256" where
  "undo_checksum C hashBlock u = Hash C (ser_hash hashBlock @ ser_blockundo C u)"

definition undo_WriteToDisk ::
  "('k, 'x) crypto_scheme \<Rightarrow> file_io \<Rightarrow> CBlockUndo \<Rightarrow> CDiskBlockPos \<Rightarrow> uint256 \<Rightarrow> disk \<Rightarrow>
   (bool \<times> CDiskBlockPos) option \<times> disk" where
  "undo_WriteToDisk C io u pos hashBlock fs =
     (case OpenUndoFile io fs pos False of
        (None, fs) \<Rightarrow> (Some (False, pos), fs)
      | (Some (fileout, off), fs) \<Rightarrow>
          let start = ser_flat pchMessageStart @ ser_int (word_of_nat (length (ser_blockundo C u)) :: u32);
              (ok, fs) = file_put (io_write io 0) fs fileout off start
          in if \<not> ok then (None, fs)
             else if \<not> io_tell io then (Some (False, pos), fs)
             else
               let off = off + length start;
                   pos = pos\<lparr>pos_nPos := word_of_nat off\<rparr>;
                   (ok, fs) = file_put (io_write io 1) fs fileout off (ser_blockundo C u)
               in if \<not> ok then (None, fs)
                  else
                    let off = off + length (ser_blockundo C u);
                        (ok, fs) = file_put (io_write io 2) fs fileout off (ser_hash (undo_checksum C hashBlock u))
                    in if \<not> ok then (None, fs) else (Some (True, pos), fs))"

text \<open>The outer \<open>None\<close> is a failed assertion while reading, the inner one the answer \<open>false\<close>.\<close>
definition undo_ReadFromDisk ::
  "('k, 'x) crypto_scheme \<Rightarrow> file_io \<Rightarrow> disk \<Rightarrow> CDiskBlockPos \<Rightarrow> uint256 \<Rightarrow> CBlockUndo option option" where
  "undo_ReadFromDisk C io fs pos hashBlock =
     (case OpenUndoFile io fs pos True of
        (None, fs) \<Rightarrow> Some None
      | (Some (filein, off), fs) \<Rightarrow>
          case unser_blockundo C (file_get io fs filein off) of
            Inl e \<Rightarrow> Some None
          | Inr (None, _) \<Rightarrow> None
          | Inr (Some u, bs) \<Rightarrow>
              case unser_hash bs of
                Inl e \<Rightarrow> Some None
              | Inr (hashChecksum, _) \<Rightarrow>
                  if bu_neq hashChecksum (undo_checksum C hashBlock u) then Some None else Some (Some u))"

section \<open>One write\<close>

text \<open>No byte that was taken for written is lost later.\<close>
definition flushed :: "file_io \<Rightarrow> bool" where
  "flushed io \<longleftrightarrow> (\<forall>i k. io_write io i \<noteq> Lost k)"

lemma checksum_length [simp]: "length (undo_checksum C h u) = WIDTH256" "length (ser_hash (undo_checksum C h u)) = 32"
  by (simp_all add: undo_checksum_def Hash_def Let_def length_ser_hash)

lemma start_length [simp]: "length (ser_flat pchMessageStart) = 4"
  by (simp add: ser_flat_def pchMessageStart_def)

lemma holds_append: "holds fs name off xs \<Longrightarrow> holds fs name (off + length xs) ys \<Longrightarrow> holds fs name off (xs @ ys)"
proof -
  assume "holds fs name off xs" "holds fs name (off + length xs) ys"
  then obtain b a b' a' where g: "fs name = Some (b @ xs @ a)" "length b = off" "fs name = Some (b' @ ys @ a')"
    "length b' = off + length xs" unfolding holds_def by blast
  then have f: "fs name = Some (b @ xs @ a)" "length b = off" "b @ xs @ a = b' @ ys @ a'" "length b' = off + length xs"
    by simp_all
  have "(b @ xs) @ a = b' @ (ys @ a')" "length (b @ xs) = length b'" using f by simp_all
  then have "a = ys @ a'" by (metis append_eq_append_conv)
  then show "holds fs name off (xs @ ys)" unfolding holds_def
    using f(1,2) by (intro exI [of _ b] exI [of _ a']) simp
qed

lemma put_ok: "file_put w fs name off bytes = (True, fs') \<Longrightarrow> \<forall>k. w \<noteq> Lost k \<Longrightarrow> w = Written"
  by (cases w) (auto simp: file_put_def)

text \<open>Writing touches nothing outside of the space of the object, and what was written whole is there.\<close>

lemma blk_WriteToDisk_keeps:
  assumes e: "blk_WriteToDisk io b pos fs = (r, fs')" and n: "name \<notin> clobbers io" and h: "holds fs name off old"
    and apart: "name \<noteq> (False, pos_nFile pos) \<or> unat (pos_nPos pos) + (length (ser_block b) + 8) \<le> off \<or>
      off + length old \<le> unat (pos_nPos pos)"
  shows "holds fs' name off old"
proof -
  obtain o1 fs1 where 1: "OpenBlockFile io fs pos False = (o1, fs1)" by fastforce
  note op = open_facts [OF 1 [unfolded OpenBlockFile_def]]
  have h1: "holds fs1 name off old" using op(1) n h by blast
  show ?thesis
  proof (cases o1)
    case None
    then show ?thesis using e 1 h1 by (simp add: blk_WriteToDisk_def)
  next
    case (Some nk)
    let ?n = "(False, pos_nFile pos)" and ?k = "unat (pos_nPos pos)"
    have nk: "nk = (?n, ?k)" using op(2) [of "fst nk" "snd nk"] Some by (cases nk) simp
    obtain ok2 fs2 where 2: "file_put (io_write io 0) fs1 ?n ?k (ser_flat pchMessageStart @ ser_int (size_block b)) = (ok2, fs2)"
      by fastforce
    obtain ok3 fs3 where 3: "file_put (io_write io 1) fs2 ?n (?k + 8) (ser_block b) = (ok3, fs3)" by fastforce
    have h2: "holds fs2 name off old" by (rule put_facts(1) [OF 2 h1]) (use apart in auto)
    have h3: "holds fs3 name off old" by (rule put_facts(1) [OF 3 h2]) (use apart in auto)
    have "fs' = fs2 \<or> fs' = fs3" using e 1 Some nk 2 3 by (auto simp: blk_WriteToDisk_def Let_def split: if_splits)
    then show ?thesis using h2 h3 by auto
  qed
qed

lemma blk_WriteToDisk_done:
  assumes e: "blk_WriteToDisk io b pos fs = (Some (True, pos'), fs')" and f: "flushed io"
  shows "\<not> pos_IsNull pos \<and> pos' = pos\<lparr>pos_nPos := word_of_nat (unat (pos_nPos pos) + 8)\<rparr>
    \<and> holds fs' (False, pos_nFile pos) (unat (pos_nPos pos) + 8) (ser_block b)"
proof -
  let ?n = "(False, pos_nFile pos)" and ?k = "unat (pos_nPos pos)"
  obtain nk fs1 where 1: "OpenBlockFile io fs pos False = (Some nk, fs1)"
    using e by (auto simp: blk_WriteToDisk_def split: prod.splits option.splits)
  note op = open_facts(2) [OF 1 [unfolded OpenBlockFile_def], of "fst nk" "snd nk"]
  have nk: "nk = (?n, ?k)" "fs1 ?n \<noteq> None" "\<not> pos_IsNull pos" using op by (cases nk; simp)+
  obtain ok2 fs2 where 2: "file_put (io_write io 0) fs1 ?n ?k (ser_flat pchMessageStart @ ser_int (size_block b)) = (ok2, fs2)"
    by fastforce
  have n2: "fs2 ?n \<noteq> None" using put_facts(3) [OF 2] nk(2) by blast
  have r: "pos' = pos\<lparr>pos_nPos := word_of_nat (?k + 8)\<rparr>" and 3: "file_put (io_write io 1) fs2 ?n (?k + 8) (ser_block b) = (True, fs')"
    using e 1 nk(1) 2 by (auto simp: blk_WriteToDisk_def Let_def split: if_splits prod.splits)
  have "io_write io 1 = Written" using put_ok [OF 3] f by (simp add: flushed_def)
  moreover have "0 < length (ser_block b)" by (simp add: ser_block_def ser_header_def)
  then have "ser_block b \<noteq> []" by blast
  ultimately have "holds fs' ?n (?k + 8) (ser_block b)" using put_facts(2) [OF 3] n2 by blast
  then show ?thesis using r nk by simp
qed

lemma undo_WriteToDisk_keeps:
  assumes e: "undo_WriteToDisk C io u pos hash fs = (r, fs')" and n: "name \<notin> clobbers io" and h: "holds fs name off old"
    and apart: "name \<noteq> (True, pos_nFile pos) \<or> unat (pos_nPos pos) + (length (ser_blockundo C u) + 40) \<le> off \<or>
      off + length old \<le> unat (pos_nPos pos)"
  shows "holds fs' name off old"
proof -
  obtain o1 fs1 where 1: "OpenUndoFile io fs pos False = (o1, fs1)" by fastforce
  note op = open_facts [OF 1 [unfolded OpenUndoFile_def]]
  have h1: "holds fs1 name off old" using op(1) n h by blast
  show ?thesis
  proof (cases o1)
    case None
    then show ?thesis using e 1 h1 by (simp add: undo_WriteToDisk_def)
  next
    case (Some nk)
    let ?n = "(True, pos_nFile pos)" and ?k = "unat (pos_nPos pos)"
    have nk: "nk = (?n, ?k)" using op(2) [of "fst nk" "snd nk"] Some by (cases nk) simp
    obtain ok2 fs2 where 2: "file_put (io_write io 0) fs1 ?n ?k
        (ser_flat pchMessageStart @ ser_int (word_of_nat (length (ser_blockundo C u)) :: u32)) = (ok2, fs2)" by fastforce
    obtain ok3 fs3 where 3: "file_put (io_write io 1) fs2 ?n (?k + 8) (ser_blockundo C u) = (ok3, fs3)" by fastforce
    obtain ok4 fs4 where 4: "file_put (io_write io 2) fs3 ?n (?k + 8 + length (ser_blockundo C u))
        (ser_hash (undo_checksum C hash u)) = (ok4, fs4)" by fastforce
    have h2: "holds fs2 name off old" by (rule put_facts(1) [OF 2 h1]) (use apart in auto)
    have h3: "holds fs3 name off old" by (rule put_facts(1) [OF 3 h2]) (use apart in auto)
    have h4: "holds fs4 name off old" by (rule put_facts(1) [OF 4 h3]) (use apart in auto)
    have "fs' = fs2 \<or> fs' = fs3 \<or> fs' = fs4"
      using e 1 Some nk 2 3 4 by (auto simp: undo_WriteToDisk_def Let_def split: if_splits)
    then show ?thesis using h2 h3 h4 by auto
  qed
qed

lemma undo_WriteToDisk_done:
  assumes e: "undo_WriteToDisk C io u pos hash fs = (Some (True, pos'), fs')" and f: "flushed io"
  shows "\<not> pos_IsNull pos \<and> pos' = pos\<lparr>pos_nPos := word_of_nat (unat (pos_nPos pos) + 8)\<rparr>
    \<and> holds fs' (True, pos_nFile pos) (unat (pos_nPos pos) + 8) (ser_blockundo C u @ ser_hash (undo_checksum C hash u))"
proof -
  let ?n = "(True, pos_nFile pos)" and ?k = "unat (pos_nPos pos)"
  obtain nk fs1 where 1: "OpenUndoFile io fs pos False = (Some nk, fs1)"
    using e by (auto simp: undo_WriteToDisk_def split: prod.splits option.splits)
  note op = open_facts(2) [OF 1 [unfolded OpenUndoFile_def], of "fst nk" "snd nk"]
  have nk: "nk = (?n, ?k)" "fs1 ?n \<noteq> None" "\<not> pos_IsNull pos" using op by (cases nk; simp)+
  obtain ok2 fs2 where 2: "file_put (io_write io 0) fs1 ?n ?k
      (ser_flat pchMessageStart @ ser_int (word_of_nat (length (ser_blockundo C u)) :: u32)) = (ok2, fs2)" by fastforce
  have n2: "fs2 ?n \<noteq> None" using put_facts(3) [OF 2] nk(2) by blast
  obtain ok3 fs3 where 3: "file_put (io_write io 1) fs2 ?n (?k + 8) (ser_blockundo C u) = (ok3, fs3)" by fastforce
  have n3: "fs3 ?n \<noteq> None" using put_facts(3) [OF 3] n2 by blast
  have r: "pos' = pos\<lparr>pos_nPos := word_of_nat (?k + 8)\<rparr>" "ok3"
    and 4: "file_put (io_write io 2) fs3 ?n (?k + 8 + length (ser_blockundo C u)) (ser_hash (undo_checksum C hash u)) = (True, fs')"
    using e 1 nk(1) 2 3 by (auto simp: undo_WriteToDisk_def Let_def split: if_splits prod.splits)
  have w: "io_write io 1 = Written" "io_write io 2 = Written" using put_ok [of "io_write io 1"] 3 r(2) put_ok [OF 4] f
    by (auto simp: flushed_def)
  have "0 < length (ser_blockundo C u)"
    by (simp add: ser_blockundo_def ser_vector_def WriteCompactSize_def del: length_greater_0_conv)
  then have "ser_blockundo C u \<noteq> []" by blast
  then have "holds fs3 ?n (?k + 8) (ser_blockundo C u)" using put_facts(2) [OF 3 w(1) n2] by blast
  then have "holds fs' ?n (?k + 8) (ser_blockundo C u)" by (rule put_facts(1) [OF 4]) simp
  moreover have "ser_hash (undo_checksum C hash u) \<noteq> []" using checksum_length(2) [of C hash u] by fastforce
  then have "holds fs' ?n (?k + 8 + length (ser_blockundo C u)) (ser_hash (undo_checksum C hash u))"
    using put_facts(2) [OF 4 w(2) n3] by blast
  ultimately show ?thesis using r nk holds_append by blast
qed

section \<open>Nothing stored is lost\<close>

text \<open>
  Blocks and undo data stored one after the other, each in space allocated for it, and files flushed in between; every call may
  fail in its own way, and failed calls are part of the run.  The lists hold what was stored and where, and the space given out;
  a block is well-formed, has a valid key (it would not read back otherwise) and at most a million bytes, the limit of \<open>CheckBlock\<close>.  An object counts as stored when the call returned true and no flush that failed unnoticed lost any of its bytes.  The last
  two sets are the files whose undo size has wrapped around, and the files that \<open>wb+\<close> could have emptied because \<open>rb+\<close>
  failed on them.
\<close>
inductive store_run ::
  "('k, 'x) crypto_scheme \<Rightarrow> block_files \<Rightarrow> disk \<Rightarrow> (CDiskBlockPos \<times> CBlock) list \<Rightarrow>
   (CDiskBlockPos \<times> CBlockUndo \<times> uint256) list \<Rightarrow> disk_range list \<Rightarrow> disk_range list \<Rightarrow> u32 set \<Rightarrow> file_name set \<Rightarrow> bool"
  for C where
  start: "store_run C files_init (\<lambda>_. None) [] [] [] [] {} {}"
| block: "store_run C s fs B U bs us W D \<Longrightarrow> block_ok b \<Longrightarrow> pk_IsValid (cpbk b) \<Longrightarrow> length (ser_block b) \<le> 1000000 \<Longrightarrow>
    unat (nLastBlockFile s) + 1 < 2 ^ 31 \<Longrightarrow>
    FindBlockPos io space iw lw st pos0 (size_block b + 8) h t False s fs = Some ((ok, st'), pos, s', fs1) \<Longrightarrow>
    (if ok then blk_WriteToDisk io' b pos fs1 else (None, fs1)) = (r, fs2) \<Longrightarrow>
    store_run C s' fs2 (case r of Some (True, pos') \<Rightarrow> if flushed io' then (pos', b) # B else B | _ \<Rightarrow> B) U
      (if ok then (pos_nFile pos, unat (pos_nPos pos), unat (size_block b + 8)) # bs else bs) us
      W (D \<union> clobbers io \<union> clobbers io')"
| undo: "store_run C s fs B U bs us W D \<Longrightarrow> fits_size (vtxundo u) \<Longrightarrow> list_all txundo_ok (vtxundo u) \<Longrightarrow>
    length (ser_blockundo C u) + 40 < 2 ^ 32 \<Longrightarrow>
    FindUndoPos io space iw st n (word_of_nat (length (ser_blockundo C u)) + 40) s fs = ((ok, st'), pos, s', fs1) \<Longrightarrow>
    (if ok then undo_WriteToDisk C io' u pos hash fs1 else (None, fs1)) = (r, fs2) \<Longrightarrow>
    store_run C s' fs2 B (case r of Some (True, pos') \<Rightarrow> if flushed io' then (pos', u, hash) # U else U | _ \<Rightarrow> U)
      bs (if ok then (pos_nFile pos, unat (pos_nPos pos), length (ser_blockundo C u) + 40) # us else us)
      (if undo_wraps s n (word_of_nat (length (ser_blockundo C u)) + 40) then insert n W else W) (D \<union> clobbers io \<union> clobbers io')"
| flush: "store_run C s fs B U bs us W D \<Longrightarrow>
    store_run C s (FlushBlockFile io fFinalize s fs) B U bs us W (D \<union> clobbers io)"

text \<open>A stored object with the eight bytes in front of it lies within space given out.\<close>
definition stored_at :: "disk \<Rightarrow> disk_range list \<Rightarrow> bool \<Rightarrow> CDiskBlockPos \<Rightarrow> byte list \<Rightarrow> bool" where
  "stored_at fs ranges fUndo pos bytes \<longleftrightarrow> \<not> pos_IsNull pos \<and>
     (\<exists>p. unat (pos_nPos pos) = p + 8 \<and> (pos_nFile pos, p, length bytes + 8) \<in> set ranges
       \<and> holds fs (fUndo, pos_nFile pos) (p + 8) bytes)"

lemma store_run_alloc: "store_run C s fs B U bs us W D \<Longrightarrow> alloc_run s bs us W"
proof (induction rule: store_run.induct)
  case (block s fs B U bs us W D b io space iw lw st pos0 h t ok st' pos s' fs1 io' r fs2)
  have sz: "size_block b = word_of_nat (length (ser_block b))" using block.hyps(2) by (rule size_block_ser)
  have "size_block b + 8 < MAX_BLOCKFILE_SIZE"
    using block.hyps(4) by (simp add: sz MAX_BLOCKFILE_SIZE_def word_less_nat_alt unat_word_ariths unat_of_nat)
  from alloc_run.block [OF block.IH this block.hyps(5,6)] show ?case .
next
  case (undo s fs B U bs us W D u io space iw st n ok st' pos s' fs1 io' hash r fs2)
  have n: "unat (word_of_nat (length (ser_blockundo C u)) + 40 :: u32) = length (ser_blockundo C u) + 40"
    using undo.hyps(4) by (simp add: unat_word_ariths unat_of_nat)
  from alloc_run.undo [OF undo.IH undo.hyps(5)] show ?case unfolding n .
qed (auto intro: alloc_run.start)

definition store_ok ::
  "('k, 'x) crypto_scheme \<Rightarrow> disk \<Rightarrow> (CDiskBlockPos \<times> CBlock) list \<Rightarrow> (CDiskBlockPos \<times> CBlockUndo \<times> uint256) list \<Rightarrow>
   disk_range list \<Rightarrow> disk_range list \<Rightarrow> u32 set \<Rightarrow> file_name set \<Rightarrow> bool" where
  "store_ok C fs B U bs us W D \<longleftrightarrow>
     (\<forall>pos b. (pos, b) \<in> set B \<longrightarrow> block_ok b \<and> pk_IsValid (cpbk b) \<and>
        ((False, pos_nFile pos) \<notin> D \<longrightarrow> stored_at fs bs False pos (ser_block b))) \<and>
     (\<forall>pos u h. (pos, u, h) \<in> set U \<longrightarrow> fits_size (vtxundo u) \<and> list_all txundo_ok (vtxundo u) \<and>
        ((True, pos_nFile pos) \<notin> D \<and> pos_nFile pos \<notin> W \<longrightarrow>
         stored_at fs us True pos (ser_blockundo C u @ ser_hash (undo_checksum C h u))))"

text \<open>What was stored stays stored while the files keep what is inside of the space given out.\<close>

lemma stored_keeps:
  assumes s: "stored_at fs (if f then us else bs) f pos bytes" and "f \<longrightarrow> pos_nFile pos \<notin> W"
    and keep: "\<And>p. (pos_nFile pos, p, length bytes + 8) \<in> set (if f then us else bs) \<Longrightarrow>
      inside bs us W (f, pos_nFile pos) (p + 8 + length bytes) \<Longrightarrow>
      holds fs (f, pos_nFile pos) (p + 8) bytes \<Longrightarrow> holds fs' (f, pos_nFile pos) (p + 8) bytes"
    and sub: "set (if f then us else bs) \<subseteq> set ranges"
  shows "stored_at fs' ranges f pos bytes"
proof -
  obtain p where p: "\<not> pos_IsNull pos" "unat (pos_nPos pos) = p + 8" "(pos_nFile pos, p, length bytes + 8) \<in> set (if f then us else bs)"
    "holds fs (f, pos_nFile pos) (p + 8) bytes" using s by (auto simp: stored_at_def)
  have "inside bs us W (f, pos_nFile pos) (p + 8 + length bytes)"
    unfolding inside_def using p(3) assms(2)
    by (intro exI [of _ "pos_nFile pos"] exI [of _ p] exI [of _ "length bytes + 8"]) (cases f; simp)
  from keep [OF p(3) this p(4)] show ?thesis using p sub by (auto simp: stored_at_def)
qed

lemma stored_at_from:
  assumes "stored_at fs ranges f pos bytes"
  obtains rest where "file_from fs (f, pos_nFile pos) (unat (pos_nPos pos)) = bytes @ rest" "\<not> pos_IsNull pos"
    "fs (f, pos_nFile pos) \<noteq> None"
proof -
  obtain p where p: "\<not> pos_IsNull pos" "unat (pos_nPos pos) = p + 8" "holds fs (f, pos_nFile pos) (p + 8) bytes"
    using assms by (auto simp: stored_at_def)
  obtain rest where "file_from fs (f, pos_nFile pos) (p + 8) = bytes @ rest" using holds_from [OF p(3)] by blast
  moreover have "fs (f, pos_nFile pos) \<noteq> None" using p(3) by (auto simp: holds_def)
  ultimately show ?thesis using that p by simp
qed

text \<open>One step: a call that finds space keeps what is stored, and the write that follows stays within the new space.\<close>

lemma stored_step:
  assumes "alloc_ok s bs us W" and s: "stored_at fs (if f then us else bs) f pos bytes" and W: "f \<longrightarrow> pos_nFile pos \<notin> W"
    and find: "\<And>name off old. inside bs us W name (off + length old) \<Longrightarrow> name \<notin> clobbers io \<Longrightarrow> holds fs name off old \<Longrightarrow>
      holds fs1 name off old"
    and wr: "\<And>off. holds fs1 (f, pos_nFile pos) off bytes \<Longrightarrow>
      (w \<longrightarrow> (f, pos_nFile pos) \<noteq> (g, n) \<or> q + len \<le> off \<or> off + length bytes \<le> q) \<Longrightarrow> holds fs2 (f, pos_nFile pos) off bytes"
    and io: "(f, pos_nFile pos) \<notin> clobbers io"
    and new: "w \<and> f = g \<longrightarrow> (\<forall>r\<in>set (if f then us else bs). fst r = pos_nFile pos \<longrightarrow> apart (n, q, len) r)"
    and sub: "set (if f then us else bs) \<subseteq> set ranges"
  shows "stored_at fs2 ranges f pos bytes"
proof (rule stored_keeps [OF s W _ sub])
  fix p
  assume r: "(pos_nFile pos, p, length bytes + 8) \<in> set (if f then us else bs)"
    "inside bs us W (f, pos_nFile pos) (p + 8 + length bytes)" "holds fs (f, pos_nFile pos) (p + 8) bytes"
  have h: "holds fs1 (f, pos_nFile pos) (p + 8) bytes" by (rule find [OF r(2) io r(3)])
  have "w \<and> f = g \<longrightarrow> apart (n, q, len) (pos_nFile pos, p, length bytes + 8)" using new r(1) by auto
  then have "w \<longrightarrow> (f, pos_nFile pos) \<noteq> (g, n) \<or> q + len \<le> p + 8 \<or> p + 8 + length bytes \<le> q"
    by (auto simp: apart_def)
  then show "holds fs2 (f, pos_nFile pos) (p + 8) bytes" by (rule wr [OF h])
qed

lemma store_block_ok:
  assumes run: "store_run C s fs B U bs us W D" and b: "block_ok b" "pk_IsValid (cpbk b)" "length (ser_block b) \<le> 1000000"
    and n: "unat (nLastBlockFile s) + 1 < 2 ^ 31"
    and find: "FindBlockPos io space iw lw st pos0 (size_block b + 8) h t False s fs = Some ((ok, st'), pos, s', fs1)"
    and wr: "(if ok then blk_WriteToDisk io' b pos fs1 else (None, fs1)) = (r, fs2)"
    and IH: "store_ok C fs B U bs us W D"
  shows "store_ok C fs2 (case r of Some (True, pos') \<Rightarrow> if flushed io' then (pos', b) # B else B | _ \<Rightarrow> B) U
      (if ok then (pos_nFile pos, unat (pos_nPos pos), unat (size_block b + 8)) # bs else bs) us
      W (D \<union> clobbers io \<union> clobbers io')"
    (is "store_ok C fs2 ?B U ?bs us W ?D")
proof -
  note al0 = alloc_run_ok [OF store_run_alloc [OF run]]
  have al: "alloc_ok s' ?bs us W"
    by (rule alloc_run_ok [OF store_run_alloc [OF store_run.block [OF run b n find wr]]])
  have len: "unat (size_block b + 8) = length (ser_block b) + 8"
    using b(3) size_block_ser [OF b(1)] by (simp add: unat_word_ariths unat_of_nat)
  have small: "size_block b + 8 < MAX_BLOCKFILE_SIZE" using len b(3) by (simp add: MAX_BLOCKFILE_SIZE_def word_less_nat_alt)
  note f1 = FindBlockPos_keeps [OF al0 small n find]
  have w2: "holds fs2 name off old" if "holds fs1 name off old" "name \<notin> clobbers io'"
    "ok \<longrightarrow> name \<noteq> (False, pos_nFile pos) \<or> unat (pos_nPos pos) + unat (size_block b + 8) \<le> off \<or> off + length old \<le> unat (pos_nPos pos)"
    for name off old
    using wr that blk_WriteToDisk_keeps [of io' b pos fs1 r fs2 name off old] by (cases ok) (auto simp: len)
  have new: "\<forall>r\<in>set bs. apart (pos_nFile pos, unat (pos_nPos pos), unat (size_block b + 8)) r" if ok
    using al that by (simp add: alloc_ok_def)
  have old: "stored_at fs2 (if f then us else ?bs) f p c"
    if "stored_at fs (if f then us else bs) f p c" "(f, pos_nFile p) \<notin> ?D" "f \<longrightarrow> pos_nFile p \<notin> W" for f p c
  proof (rule stored_step [where w = ok and g = False, OF al0 that(1,3) f1])
    show "(f, pos_nFile p) \<notin> clobbers io" using that(2) by simp
    show "holds fs2 (f, pos_nFile p) off c" if "holds fs1 (f, pos_nFile p) off c"
      "ok \<longrightarrow> (f, pos_nFile p) \<noteq> (False, pos_nFile pos) \<or> unat (pos_nPos pos) + unat (size_block b + 8) \<le> off \<or>
        off + length c \<le> unat (pos_nPos pos)" for off
      by (rule w2 [OF that(1) _ that(2)]) (use \<open>(f, pos_nFile p) \<notin> ?D\<close> in simp)
    show "ok \<and> f = False \<longrightarrow> (\<forall>r\<in>set (if f then us else bs). fst r = pos_nFile p \<longrightarrow>
        apart (pos_nFile pos, unat (pos_nPos pos), unat (size_block b + 8)) r)" using new by auto
  qed auto
  note old_b = old [of False, simplified] and old_u = old [of True, simplified]
  have here: "stored_at fs2 ?bs False pos' (ser_block b)" if "r = Some (True, pos')" "flushed io'" for pos'
  proof -
    have ok: "ok" "blk_WriteToDisk io' b pos fs1 = (Some (True, pos'), fs2)" using wr that(1) by (auto split: if_splits)
    note d = blk_WriteToDisk_done [OF ok(2) that(2)]
    have "unat (pos_nPos pos) + unat (size_block b + 8) < 2 ^ 27"
      using al ok(1) unfolding alloc_ok_def by (auto dest!: spec [of _ "pos_nFile pos"])
    then have "unat (word_of_nat (unat (pos_nPos pos) + 8) :: u32) = unat (pos_nPos pos) + 8"
      unfolding unat_of_nat len by simp
    then show ?thesis using d ok(1) len by (auto simp: stored_at_def pos_IsNull_def)
  qed
  have mem: "(p, c) \<in> set ?B \<Longrightarrow> (p, c) \<in> set B \<or> (c = b \<and> r = Some (True, p) \<and> flushed io')" for p c
    by (auto split: option.splits prod.splits bool.splits if_splits)
  show ?thesis
    unfolding store_ok_def
  proof (intro conjI allI impI)
    fix p c
    assume m: "(p, c) \<in> set ?B"
    show "block_ok c" "pk_IsValid (cpbk c)" using mem [OF m] IH b by (auto simp: store_ok_def)
    show "stored_at fs2 ?bs False p (ser_block c)" if "(False, pos_nFile p) \<notin> ?D"
      using mem [OF m] IH old_b here that by (auto simp: store_ok_def)
  next
    fix p u h
    assume m: "(p, u, h) \<in> set U"
    show "fits_size (vtxundo u)" "list_all txundo_ok (vtxundo u)" using m IH by (auto simp: store_ok_def)
    show "stored_at fs2 us True p (ser_blockundo C u @ ser_hash (undo_checksum C h u))"
      if "(True, pos_nFile p) \<notin> ?D \<and> pos_nFile p \<notin> W"
      using m IH old_u that by (auto simp: store_ok_def)
  qed
qed

lemma store_undo_ok:
  assumes run: "store_run C s fs B U bs us W D" and u: "fits_size (vtxundo u)" "list_all txundo_ok (vtxundo u)"
    "length (ser_blockundo C u) + 40 < 2 ^ 32"
    and find: "FindUndoPos io space iw st n (word_of_nat (length (ser_blockundo C u)) + 40) s fs = ((ok, st'), pos, s', fs1)"
    and wr: "(if ok then undo_WriteToDisk C io' u pos hash fs1 else (None, fs1)) = (r, fs2)"
    and IH: "store_ok C fs B U bs us W D"
  shows "store_ok C fs2 B (case r of Some (True, pos') \<Rightarrow> if flushed io' then (pos', u, hash) # U else U | _ \<Rightarrow> U)
      bs (if ok then (pos_nFile pos, unat (pos_nPos pos), length (ser_blockundo C u) + 40) # us else us)
      (if undo_wraps s n (word_of_nat (length (ser_blockundo C u)) + 40) then insert n W else W) (D \<union> clobbers io \<union> clobbers io')"
    (is "store_ok C fs2 B ?U bs ?us ?W ?D")
proof -
  let ?len = "length (ser_blockundo C u) + 40"
  note al0 = alloc_run_ok [OF store_run_alloc [OF run]]
  have al: "alloc_ok s' bs ?us ?W"
    by (rule alloc_run_ok [OF store_run_alloc [OF store_run.undo [OF run u find wr]]])
  note f1 = FindUndoPos_keeps [OF al0 find]
  have w2: "holds fs2 name off old" if "holds fs1 name off old" "name \<notin> clobbers io'"
    "ok \<longrightarrow> name \<noteq> (True, pos_nFile pos) \<or> unat (pos_nPos pos) + ?len \<le> off \<or> off + length old \<le> unat (pos_nPos pos)"
    for name off old
    using wr that undo_WriteToDisk_keeps [of C io' u pos hash fs1 r fs2 name off old] by (cases ok) auto
  have new: "\<forall>r\<in>set us. pos_nFile pos \<notin> ?W \<longrightarrow> apart (pos_nFile pos, unat (pos_nPos pos), ?len) r" if ok
    using al that by (simp add: alloc_ok_def)
  have sub: "f \<notin> ?W \<Longrightarrow> f \<notin> W" for f by (simp split: if_splits)
  have old: "stored_at fs2 (if f then ?us else bs) f p c"
    if "stored_at fs (if f then us else bs) f p c" "(f, pos_nFile p) \<notin> ?D" "f \<longrightarrow> pos_nFile p \<notin> ?W" for f p c
  proof (rule stored_step [where w = ok and g = True, OF al0 that(1) _ f1])
    show "f \<longrightarrow> pos_nFile p \<notin> W" using that(3) sub by blast
    show "(f, pos_nFile p) \<notin> clobbers io" using that(2) by simp
    show "holds fs2 (f, pos_nFile p) off c" if "holds fs1 (f, pos_nFile p) off c"
      "ok \<longrightarrow> (f, pos_nFile p) \<noteq> (True, pos_nFile pos) \<or> unat (pos_nPos pos) + ?len \<le> off \<or>
        off + length c \<le> unat (pos_nPos pos)" for off
      by (rule w2 [OF that(1) _ that(2)]) (use \<open>(f, pos_nFile p) \<notin> ?D\<close> in simp)
    have "apart (pos_nFile pos, unat (pos_nPos pos), ?len) r" if "ok" "f" "r \<in> set us" "fst r = pos_nFile p" for r
    proof (cases "pos_nFile pos = pos_nFile p")
      case True
      then have "pos_nFile pos \<notin> ?W" using \<open>f \<longrightarrow> pos_nFile p \<notin> ?W\<close> that(2) by simp
      then show ?thesis using new [OF that(1)] that(3) by blast
    qed (use that(4) in \<open>auto simp: apart_def split: prod.split\<close>)
    then show "ok \<and> f = True \<longrightarrow> (\<forall>r\<in>set (if f then us else bs). fst r = pos_nFile p \<longrightarrow>
        apart (pos_nFile pos, unat (pos_nPos pos), ?len) r)" by simp
  qed auto
  note old_b = old [of False, simplified] and old_u = old [of True]
  have here: "stored_at fs2 ?us True pos' (ser_blockundo C u @ ser_hash (undo_checksum C hash u))"
    if "r = Some (True, pos')" "flushed io'" "pos_nFile pos' \<notin> ?W" for pos'
  proof -
    have ok: "ok" "undo_WriteToDisk C io' u pos hash fs1 = (Some (True, pos'), fs2)" using wr that(1) by (auto split: if_splits)
    note d = undo_WriteToDisk_done [OF ok(2) that(2)]
    then have "pos_nFile pos \<notin> ?W" using that(3) by auto
    moreover have "(pos_nFile pos, unat (pos_nPos pos), ?len) \<in> set ?us" using ok(1) by simp
    ultimately have "unat (pos_nPos pos) + ?len < 2 ^ 32" using al unfolding alloc_ok_def by blast
    then have "unat (word_of_nat (unat (pos_nPos pos) + 8) :: u32) = unat (pos_nPos pos) + 8"
      unfolding unat_of_nat by simp
    then show ?thesis using d ok(1) by (auto simp: stored_at_def pos_IsNull_def)
  qed
  have mem: "(p, c, h) \<in> set ?U \<Longrightarrow> (p, c, h) \<in> set U \<or> (c = u \<and> h = hash \<and> r = Some (True, p) \<and> flushed io')" for p c h
    by (auto split: option.splits prod.splits bool.splits if_splits)
  show ?thesis
    unfolding store_ok_def
  proof (intro conjI allI impI)
    fix p b
    assume m: "(p, b) \<in> set B"
    show "block_ok b" "pk_IsValid (cpbk b)" using m IH by (auto simp: store_ok_def)
    show "stored_at fs2 bs False p (ser_block b)" if "(False, pos_nFile p) \<notin> ?D"
      using m IH old_b that by (auto simp: store_ok_def)
  next
    fix p c h
    assume m: "(p, c, h) \<in> set ?U"
    show "fits_size (vtxundo c)" "list_all txundo_ok (vtxundo c)" using mem [OF m] IH u by (auto simp: store_ok_def)
    show "stored_at fs2 ?us True p (ser_blockundo C c @ ser_hash (undo_checksum C h c))"
      if "(True, pos_nFile p) \<notin> ?D \<and> pos_nFile p \<notin> ?W"
      using mem [OF m]
    proof
      assume "(p, c, h) \<in> set U"
      then have "stored_at fs us True p (ser_blockundo C c @ ser_hash (undo_checksum C h c))"
        using IH that sub by (auto simp: store_ok_def)
      then show ?thesis using old_u [of p "ser_blockundo C c @ ser_hash (undo_checksum C h c)"] that by simp
    qed (use here that in simp)
  qed
qed

lemma store_run_ok: "store_run C s fs B U bs us W D \<Longrightarrow> store_ok C fs B U bs us W D"
proof (induction rule: store_run.induct)
  case start
  show ?case by (simp add: store_ok_def)
next
  case (block s fs B U bs us W D b io space iw lw st pos0 h t ok st' pos s' fs1 io' r fs2)
  show ?case by (rule store_block_ok [OF block.hyps block.IH])
next
  case (undo s fs B U bs us W D u io space iw st n ok st' pos s' fs1 io' hash r fs2)
  show ?case by (rule store_undo_ok [OF undo.hyps undo.IH])
next
  case (flush s fs B U bs us W D io fFinalize)
  note al = alloc_run_ok [OF store_run_alloc [OF flush.hyps]]
  have "stored_at (FlushBlockFile io fFinalize s fs) (if f then us else bs) f p c"
    if "stored_at fs (if f then us else bs) f p c" "(f, pos_nFile p) \<notin> clobbers io" "f \<longrightarrow> pos_nFile p \<notin> W" for f p c
    by (rule stored_keeps [OF that(1,3) FlushBlockFile_keeps [OF al _ that(2)]]) auto
  from this [of True] this [of False] show ?case using flush.IH by (auto simp: store_ok_def)
qed

section \<open>Reading\<close>

lemma reader_blockundo: "stream_reader (unser_blockundo C)"
  unfolding unser_blockundo_def by (intro reader_bind reader_vector reader_txundo) auto

text \<open>Reading from a file answers with what reading all of it would give, or fails.\<close>

lemma file_get_reads:
  assumes "stream_reader get" and "get (file_from fs name off) = Inr (x, rest)"
  shows "(\<exists>e. get (file_get io fs name off) = Inl e) \<or> (\<exists>rest' more. get (file_get io fs name off) = Inr (x, rest') \<and> rest = rest' @ more)"
    and "can_read io name \<Longrightarrow> file_get io fs name off = file_from fs name off"
proof -
  let ?bs = "file_from fs name off"
  obtain more where m: "?bs = file_get io fs name off @ more"
  proof (cases "io_read io")
    case None
    then show thesis using that [of "[]"] by (simp add: file_get_def)
  next
    case (Some k)
    then show thesis using that [of "drop k ?bs"] by (simp add: file_get_def)
  qed
  show "(\<exists>e. get (file_get io fs name off) = Inl e) \<or> (\<exists>rest' more. get (file_get io fs name off) = Inr (x, rest') \<and> rest = rest' @ more)"
  proof (cases "get (file_get io fs name off)")
    case (Inr yr)
    obtain y r where yr: "yr = (y, r)" by (cases yr)
    have "get ?bs = Inr (y, r @ more)" using stream_reader.extend [OF assms(1)] Inr yr m by metis
    then show ?thesis using assms(2) Inr yr by auto
  qed simp
  show "can_read io name \<Longrightarrow> file_get io fs name off = file_from fs name off"
    by (simp add: can_read_def file_get_def)
qed

lemma open_read_only:
  "OpenDiskFile io fs pos f True = (r, fs') \<Longrightarrow> fs' = fs \<and> (r = None \<or> r = Some ((f, pos_nFile pos), unat (pos_nPos pos)))"
  by (auto simp: OpenDiskFile_def Let_def split: if_splits)

lemma block_reads_back:
  assumes s: "stored_at fs ranges False pos (ser_block b)" and b: "block_ok b" "pk_IsValid (cpbk b)" "pk_ok (cpbk this)"
  shows "\<exists>b'. GetBlockHeader b' = GetBlockHeader b \<and> vtx b' = vtx b \<and> blk_vchSig b' = blk_vchSig b \<and>
    pk_bytes (cpbk b') = pk_bytes (cpbk b) \<and> (\<forall>io. blk_ReadFromDisk io fs pos this \<in> {None, Some b'}) \<and>
    (\<forall>io. can_read io (False, pos_nFile pos) \<longrightarrow> blk_ReadFromDisk io fs pos this = Some b')"
proof -
  let ?n = "(False, pos_nFile pos)" and ?k = "unat (pos_nPos pos)"
  obtain rest where f: "file_from fs ?n ?k = ser_block b @ rest" "\<not> pos_IsNull pos" "fs ?n \<noteq> None"
    using stored_at_from [OF s] by blast
  have k: "pk_ok (cpbk (blk_SetNull this))" using b(3) by (simp add: blk_SetNull_def header_SetNull_def)
  obtain q where q: "unser_block (blk_SetNull this) (ser_block b @ rest) =
      Inr (b\<lparr>cpbk := q, vMerkleTree := vMerkleTree (blk_SetNull this)\<rparr>, rest)" "pk_bytes q = pk_bytes (cpbk b)"
    using unser_ser_block [OF b(1,2) k] by blast
  let ?b = "b\<lparr>cpbk := q, vMerkleTree := vMerkleTree (blk_SetNull this)\<rparr>"
  note g = file_get_reads [OF reader_block q(1) [folded f(1)]]
  have any: "blk_ReadFromDisk io fs pos this \<in> {None, Some ?b}" for io
  proof -
    obtain r fs' where 1: "OpenBlockFile io fs pos True = (r, fs')" by fastforce
    then have "fs' = fs \<and> (r = None \<or> r = Some (?n, ?k))" unfolding OpenBlockFile_def by (rule open_read_only)
    then show ?thesis using 1 g(1) [of io] by (auto simp: blk_ReadFromDisk_def)
  qed
  have all: "blk_ReadFromDisk io fs pos this = Some ?b" if "can_read io ?n" for io
    using open_to_read [of fs False pos io, OF f(3,2) that] g(2) [OF that] q(1) f(1) by (simp add: blk_ReadFromDisk_def OpenBlockFile_def)
  show ?thesis using any all q(2) by (intro exI [of _ ?b]) (simp add: GetBlockHeader_def)
qed

lemma undo_reads_back:
  fixes other :: uint256
  assumes s: "stored_at fs ranges True pos (ser_blockundo C u @ ser_hash (undo_checksum C h u))" and C: "point_compression C"
    and u: "fits_size (vtxundo u)" "list_all txundo_ok (vtxundo u)"
  defines "r \<equiv> Some (if undo_checksum C other u = undo_checksum C h u then Some u else None)"
  shows "undo_ReadFromDisk C io fs pos other \<in> {Some None, r}"
    and "can_read io (True, pos_nFile pos) \<Longrightarrow> undo_ReadFromDisk C io fs pos other = r"
proof -
  let ?n = "(True, pos_nFile pos)" and ?k = "unat (pos_nPos pos)"
  let ?c = "ser_hash (undo_checksum C h u)"
  obtain rest where f: "file_from fs ?n ?k = (ser_blockundo C u @ ?c) @ rest" "\<not> pos_IsNull pos" "fs ?n \<noteq> None"
    using stored_at_from [OF s] by blast
  note q = unser_ser_blockundo [OF C u, of "?c @ rest"]
  have hash: "unser_hash (?c @ more) = Inr (undo_checksum C h u, more)" for more by (simp add: hash.get_ser)
  define get where "get = rbind (unser_blockundo C) (\<lambda>x. rbind unser_hash (\<lambda>y. rreturn (x, y)))"
  have reader: "stream_reader get" unfolding get_def by (intro reader_bind reader_blockundo hash.stream_reader_axioms) auto
  have all: "get (file_from fs ?n ?k) = Inr ((Some u, undo_checksum C h u), rest)"
    using q hash [of rest] f(1) by (simp add: get_def rbind_def rreturn_def)
  note g = file_get_reads [OF reader all, of io]
  have b: "(\<exists>e. unser_blockundo C (file_get io fs ?n ?k) = Inl e) \<or> (\<exists>r'. unser_blockundo C (file_get io fs ?n ?k) = Inr (Some u, r'))"
  proof -
    have q2: "unser_blockundo C (file_from fs ?n ?k) = Inr (Some u, ?c @ rest)" using q f(1) by simp
    show ?thesis using file_get_reads(1) [OF reader_blockundo q2, of io] by auto
  qed
  have rd: "undo_ReadFromDisk C io fs pos other =
      (case get (file_get io fs ?n ?k) of Inl e \<Rightarrow> Some None
       | Inr ((Some u, c), _) \<Rightarrow> if bu_neq c (undo_checksum C other u) then Some None else Some (Some u) | _ \<Rightarrow> None)"
    if "OpenUndoFile io fs pos True = (Some (?n, ?k), fs)"
  proof (cases "get (file_get io fs ?n ?k)")
    case (Inl e)
    then show ?thesis using b that by (auto simp: undo_ReadFromDisk_def get_def rbind_def rreturn_def split: sum.splits)
  next
    case (Inr x)
    then show ?thesis using that
      by (auto simp: undo_ReadFromDisk_def get_def rbind_def rreturn_def split: sum.splits option.splits)
  qed
  have neq: "(if bu_neq (undo_checksum C h u) (undo_checksum C other u) then Some None else Some (Some u)) = r"
    by (auto simp: r_def bu_neq_hash)
  obtain o1 fs' where 1: "OpenUndoFile io fs pos True = (o1, fs')" by fastforce
  then have o: "fs' = fs \<and> (o1 = None \<or> o1 = Some (?n, ?k))" unfolding OpenUndoFile_def by (rule open_read_only)
  show "undo_ReadFromDisk C io fs pos other \<in> {Some None, r}"
  proof (cases o1)
    case None
    then show ?thesis using 1 by (simp add: undo_ReadFromDisk_def)
  next
    case (Some x)
    then show ?thesis using rd 1 o g(1) neq by auto
  qed
  show "undo_ReadFromDisk C io fs pos other = r" if c: "can_read io ?n"
    using rd open_to_read [of fs True pos io, OF f(3,2) c] g(2) [OF c] all neq by (simp add: OpenUndoFile_def)
qed

text \<open>C7: Everything stored in the block and undo files can be read back, after any sequence of further allocations, writes and
  flushes, in which files are cut to what their records count and space is allocated ahead, on every platform, and in which every
  call on a file or the database may fail: a block with its header, transactions, signature and key, and undo data with the hash
  it was stored for, and then only with a hash of the same checksum.  A file that cannot be opened or read then gives an error,
  never something else.  Stored is what a call answered with true and no failed flush, which the code does not look at, has
  lost; left out are the files that \<open>wb+\<close> could have emptied because \<open>rb+\<close> failed on them (\<open>D\<close>), the undo files whose size
  has wrapped around (\<open>W\<close>), and blocks at known positions, while the files are read again.\<close>

theorem stored_reads_back:
  assumes "store_run C s fs B U bs us W D" and "point_compression C"
  shows "((pos, b) \<in> set B \<and> (False, pos_nFile pos) \<notin> D \<and> pk_ok (cpbk this) \<longrightarrow>
        (\<exists>b'. GetBlockHeader b' = GetBlockHeader b \<and> vtx b' = vtx b \<and> blk_vchSig b' = blk_vchSig b \<and>
           pk_bytes (cpbk b') = pk_bytes (cpbk b) \<and> (\<forall>io. blk_ReadFromDisk io fs pos this \<in> {None, Some b'}) \<and>
           (\<forall>io. can_read io (False, pos_nFile pos) \<longrightarrow> blk_ReadFromDisk io fs pos this = Some b')))
    \<and> ((pos', u, hash) \<in> set U \<and> (True, pos_nFile pos') \<notin> D \<and> pos_nFile pos' \<notin> W \<longrightarrow>
        (\<forall>io. let r = Some (if undo_checksum C other u = undo_checksum C hash u then Some u else None)
          in undo_ReadFromDisk C io fs pos' other \<in> {Some None, r} \<and>
             (can_read io (True, pos_nFile pos') \<longrightarrow> undo_ReadFromDisk C io fs pos' other = r)))"
proof -
  have ok: "store_ok C fs B U bs us W D" by (rule store_run_ok [OF assms(1)])
  have b: "block_ok b" "pk_IsValid (cpbk b)" "stored_at fs bs False pos (ser_block b)"
    if "(pos, b) \<in> set B" "(False, pos_nFile pos) \<notin> D"
    using ok that unfolding store_ok_def by blast+
  have u: "fits_size (vtxundo u)" "list_all txundo_ok (vtxundo u)"
    "stored_at fs us True pos' (ser_blockundo C u @ ser_hash (undo_checksum C hash u))"
    if "(pos', u, hash) \<in> set U" "(True, pos_nFile pos') \<notin> D" "pos_nFile pos' \<notin> W"
    using ok that unfolding store_ok_def by blast+
  show ?thesis
    using block_reads_back [OF b(3) b(1,2)] undo_reads_back [OF u(3) assms(2) u(1,2)] unfolding Let_def by blast
qed

text \<open>A block of 179 bytes, and after it empty undo data for it; then both files are cut.\<close>

lemma good_io_facts:
  "clobbers good_io = {}" "flushed good_io" "can_read good_io name"
  "\<not> pos_IsNull pos \<Longrightarrow> \<exists>fs'. OpenDiskFile good_io fs pos f False = (Some ((f, pos_nFile pos), unat (pos_nPos pos)), fs')"
  by (auto simp: clobbers_def flushed_def can_read_def good_io_def OpenDiskFile_def Let_def)

lemma good_io_writes:
  assumes "\<not> pos_IsNull pos"
  shows "\<exists>pos' fs'. blk_WriteToDisk good_io b pos fs = (Some (True, pos'), fs')"
    and "\<exists>pos' fs'. undo_WriteToDisk C good_io u pos hash fs = (Some (True, pos'), fs')"
proof -
  have w: "file_put (io_write good_io i) fs n k bs = (True, file_write fs n k bs)" "io_tell good_io" for i fs n k bs
    by (simp_all add: good_io_def file_put_def)
  obtain fs1 fs2 where o: "OpenDiskFile good_io fs pos False False = (Some ((False, pos_nFile pos), unat (pos_nPos pos)), fs1)"
    "OpenDiskFile good_io fs pos True False = (Some ((True, pos_nFile pos), unat (pos_nPos pos)), fs2)"
    using good_io_facts(4) [OF assms] by blast
  show "\<exists>pos' fs'. blk_WriteToDisk good_io b pos fs = (Some (True, pos'), fs')"
    by (simp add: blk_WriteToDisk_def OpenBlockFile_def o w Let_def)
  show "\<exists>pos' fs'. undo_WriteToDisk C good_io u pos hash fs = (Some (True, pos'), fs')"
    by (simp add: undo_WriteToDisk_def OpenUndoFile_def o w Let_def)
qed

theorem stored_reads_back_witness:
  "\<exists>s fs pos pos' bs us. store_run example_curve s fs [(pos, coinbase_block 5)] [(pos', \<lparr>vtxundo = []\<rparr>, replicate 8 1)] bs us {} {}
    \<and> (\<exists>b'. blk_ReadFromDisk good_io fs pos blk_init = Some b' \<and> vtx b' = [coinbase_tx])
    \<and> undo_ReadFromDisk example_curve good_io fs pos' (replicate 8 1) = Some (Some \<lparr>vtxundo = []\<rparr>)"
proof -
  let ?b = "coinbase_block 5" and ?u = "\<lparr>vtxundo = []\<rparr>" and ?C = example_curve
  let ?p0 = "\<lparr>pos_nFile = 0, pos_nPos = 0\<rparr> :: CDiskBlockPos"
  let ?i = "AddBlock (info_SetNull\<lparr>nSize := 187\<rparr>) 0 7"
  let ?s = "files_init\<lparr>infoLastBlockFile := ?i, db_infos := [0 \<mapsto> ?i]\<rparr>"
  have null: "\<not> pos_IsNull ?p0" by (simp add: pos_IsNull_def)
  have ok: "block_ok ?b" "pk_IsValid (cpbk ?b)" "length (ser_block ?b) \<le> 1000000" "size_block ?b = 179"
    using size_block_ser [OF coinbase_block_ok(1) [of 5]] by (simp_all add: coinbase_block_ok coinbase_block_valid)
  obtain fs1 where f: "FindBlockPos good_io (\<lambda>_. True) True True vs_init pos_SetNull (size_block ?b + 8) 0 7 False files_init (\<lambda>_. None) =
      Some ((True, vs_init), ?p0, ?s, fs1)"
    using FindBlockPos_room [of files_init 187 good_io True vs_init pos_SetNull 0 7 "\<lambda>_. None"]
    unfolding ok(4) by (auto simp: files_init_def info_SetNull_def MAX_BLOCKFILE_SIZE_def Let_def)
  obtain pos fs2 where w: "blk_WriteToDisk good_io ?b ?p0 fs1 = (Some (True, pos), fs2)"
    using good_io_writes(1) [OF null] by blast
  have l: "unat (nLastBlockFile files_init) + 1 < 2 ^ 31" by (simp add: files_init_def)
  have r1: "store_run ?C ?s fs2 [(pos, ?b)] [] [(0, 0, 187)] [] {} {}"
    using store_run.block [OF store_run.start [of ?C] ok(1-3) l f, of good_io "Some (True, pos)" fs2] w ok(4)
    by (simp add: good_io_facts)
  have len: "length (ser_blockundo ?C ?u) = 1" by (simp add: ser_blockundo_def ser_vector_def WriteCompactSize_def)
  let ?n = "word_of_nat (length (ser_blockundo ?C ?u)) + 40 :: u32"
  obtain s2 fs3 where g: "FindUndoPos good_io (\<lambda>_. True) True vs_init 0 ?n ?s fs2 = ((True, vs_init), ?p0, s2, fs3)"
    unfolding len by (simp add: FindUndoPos_def files_init_def info_SetNull_def AddBlock_def Let_def)
  obtain pos' fs4 where v: "undo_WriteToDisk ?C good_io ?u ?p0 (replicate 8 1) fs3 = (Some (True, pos'), fs4)"
    using good_io_writes(2) [OF null] by blast
  have nw: "\<not> undo_wraps ?s 0 ?n"
    unfolding len by (simp add: undo_wraps_def files_init_def info_SetNull_def AddBlock_def Let_def)
  have r2: "store_run ?C s2 fs4 [(pos, ?b)] [(pos', ?u, replicate 8 1)] [(0, 0, 187)] [(0, 0, 41)] {} {}"
    using store_run.undo [OF r1 _ _ _ g, of good_io "replicate 8 1" "Some (True, pos')" fs4] v len nw
    by (simp add: good_io_facts)
  from store_run.flush [OF r2, of good_io True]
  have r3: "store_run ?C s2 (FlushBlockFile good_io True s2 fs4) [(pos, ?b)] [(pos', ?u, replicate 8 1)]
      [(0, 0, 187)] [(0, 0, 41)] {} {}" by (simp add: good_io_facts)
  have "pk_ok (cpbk blk_init)" "vtx ?b = [coinbase_tx]"
    by (simp_all add: blk_init_def blk_SetNull_def header_SetNull_def coinbase_block_valid coinbase_block_def)
  note all = stored_reads_back [OF r3 example_curve_compression, of pos ?b blk_init pos' ?u "replicate 8 1" "replicate 8 1"]
  have "\<exists>b'. blk_ReadFromDisk good_io (FlushBlockFile good_io True s2 fs4) pos blk_init = Some b' \<and> vtx b' = [coinbase_tx]"
    using all \<open>pk_ok (cpbk blk_init)\<close> \<open>vtx ?b = [coinbase_tx]\<close> good_io_facts(3) by auto
  moreover have "undo_ReadFromDisk ?C good_io (FlushBlockFile good_io True s2 fs4) pos' (replicate 8 1) = Some (Some ?u)"
    using all good_io_facts(3) by (auto simp: Let_def)
  ultimately show ?thesis using r3 by blast
qed

end
