(* ===== verification/TxDB.thy ===== *)
theory TxDB
  imports BlockFiles Utxo
begin

text \<open>
  The databases (\<open>leveldb.h\<close>, \<open>leveldb.cpp\<close>, \<open>txdb.cpp\<close>): objects are stored under their codes, as bytes.  What LevelDB itself does
  is taken from its documentation: it is an ordered map from byte strings to byte strings, a batch is applied as a whole, and an
  operation may fail, which the program turns into an exception (\<open>None\<close>).  The database of the unspent outputs keeps the contract
  of the views; the one of the block tree stores the block index, the records of the files and the transaction index.
\<close>

section \<open>Key-value stores\<close>

text \<open>Whether reading and writing succeed is part of the state.\<close>
record leveldb =
  entries :: "(byte list, byte list) omap"
  readable :: bool
  writable :: bool

datatype batch_op = Put "byte list" "byte list" | Delete "byte list"

fun apply_op :: "(byte list, byte list) omap \<Rightarrow> batch_op \<Rightarrow> (byte list, byte list) omap" where
  "apply_op m (Put k v) = om_put m k v"
| "apply_op m (Delete k) = om_del m k"

text \<open>\<open>None\<close>: an exception.  The inner \<open>None\<close>: not found, or a value that cannot be read.\<close>
definition db_Read :: "leveldb \<Rightarrow> byte list \<Rightarrow> 'a reader \<Rightarrow> 'a option option" where
  "db_Read d key get =
     (if \<not> readable d then None
      else case om_find (entries d) key of
             None \<Rightarrow> Some None
           | Some strValue \<Rightarrow> (case get strValue of Inl e \<Rightarrow> Some None | Inr (value, rest) \<Rightarrow> Some (Some value)))"

definition db_Exists :: "leveldb \<Rightarrow> byte list \<Rightarrow> bool option" where
  "db_Exists d key = (if \<not> readable d then None else Some (om_find (entries d) key \<noteq> None))"

definition db_WriteBatch :: "leveldb \<Rightarrow> batch_op list \<Rightarrow> (bool \<times> leveldb) option" where
  "db_WriteBatch d batch =
     (if \<not> writable d then None else Some (True, d\<lparr>entries := foldl apply_op (entries d) batch\<rparr>))"

definition db_Write :: "leveldb \<Rightarrow> byte list \<Rightarrow> byte list \<Rightarrow> (bool \<times> leveldb) option" where
  "db_Write d key value = db_WriteBatch d [Put key value]"

definition db_Erase :: "leveldb \<Rightarrow> byte list \<Rightarrow> (bool \<times> leveldb) option" where
  "db_Erase d key = db_WriteBatch d [Delete key]"

section \<open>The database of the unspent outputs\<close>

definition coin_key :: "uint256 \<Rightarrow> byte list" where
  "coin_key hash = 0x63 # ser_hash hash"

definition best_key :: "byte list" where "best_key = [0x42]"

text \<open>\<open>None\<close>: the assertion of the code fails.\<close>
definition BatchWriteCoins :: "('k, 'x) crypto_scheme \<Rightarrow> uint256 \<Rightarrow> CCoins \<Rightarrow> batch_op option" where
  "BatchWriteCoins C hash coins =
     (if coins_IsPruned coins then Some (Delete (coin_key hash))
      else map_option (Put (coin_key hash)) (ser_coins C coins))"

definition BatchWriteHashBestChain :: "uint256 \<Rightarrow> batch_op" where
  "BatchWriteHashBestChain hash = Put best_key (ser_hash hash)"

text \<open>Coins whose code fails an assertion end the program.\<close>
definition cdb_GetCoins :: "('k, 'x) crypto_scheme \<Rightarrow> leveldb \<Rightarrow> uint256 \<Rightarrow> (CCoins option \<times> leveldb) option" where
  "cdb_GetCoins C d txid =
     (case db_Read d (coin_key txid) (unser_coins C) of
        None \<Rightarrow> None
      | Some None \<Rightarrow> Some (None, d)
      | Some (Some None) \<Rightarrow> None
      | Some (Some (Some coins)) \<Rightarrow> Some (Some coins, d))"

definition cdb_SetCoins :: "('k, 'x) crypto_scheme \<Rightarrow> leveldb \<Rightarrow> uint256 \<Rightarrow> CCoins \<Rightarrow> (bool \<times> leveldb) option" where
  "cdb_SetCoins C d txid coins = do { b \<leftarrow> BatchWriteCoins C txid coins; db_WriteBatch d [b] }"

definition cdb_HaveCoins :: "leveldb \<Rightarrow> uint256 \<Rightarrow> (bool \<times> leveldb) option" where
  "cdb_HaveCoins d txid = do { f \<leftarrow> db_Exists d (coin_key txid); Some (f, d) }"

definition cdb_GetBestBlock :: "(uint256 \<Rightarrow> nat option) \<Rightarrow> leveldb \<Rightarrow> (block_ref \<times> leveldb) option" where
  "cdb_GetBestBlock mapBlockIndex d = do {
     r \<leftarrow> db_Read d best_key unser_hash;
     Some (case r of None \<Rightarrow> None | Some hashBestChain \<Rightarrow> mapBlockIndex hashBestChain, d) }"

definition cdb_SetBestBlock :: "bheap \<Rightarrow> leveldb \<Rightarrow> block_ref \<Rightarrow> (bool \<times> leveldb) option" where
  "cdb_SetBestBlock H d pindex = do {
     p \<leftarrow> pindex;
     db_WriteBatch d [BatchWriteHashBestChain (phashBlock (H p))] }"

definition cdb_BatchWrite ::
  "('k, 'x) crypto_scheme \<Rightarrow> bheap \<Rightarrow> leveldb \<Rightarrow> coins_map \<Rightarrow> block_ref \<Rightarrow> (bool \<times> leveldb) option" where
  "cdb_BatchWrite C H d mapCoins pindex = do {
     batch \<leftarrow> those (map (\<lambda>(k, coins). BatchWriteCoins C (hk_limbs k) coins) mapCoins);
     db_WriteBatch d (batch @ (case pindex of None \<Rightarrow> [] | Some p \<Rightarrow> [BatchWriteHashBestChain (phashBlock (H p))])) }"

definition coins_db :: "('k, 'x) crypto_scheme \<Rightarrow> bheap \<Rightarrow> (uint256 \<Rightarrow> nat option) \<Rightarrow> leveldb CCoinsView" where
  "coins_db C H mapBlockIndex =
     \<lparr>v_GetCoins = cdb_GetCoins C, v_SetCoins = cdb_SetCoins C, v_HaveCoins = cdb_HaveCoins,
      v_GetBestBlock = cdb_GetBestBlock mapBlockIndex, v_SetBestBlock = cdb_SetBestBlock H,
      v_BatchWrite = cdb_BatchWrite C H\<rparr>"

section \<open>The database keeps the contract of the views\<close>

definition cdb_utxo :: "('k, 'x) crypto_scheme \<Rightarrow> leveldb \<Rightarrow> uint256 \<Rightarrow> coin_info option" where
  "cdb_utxo C d h =
     (case om_find (entries d) (coin_key h) of
        None \<Rightarrow> None
      | Some v \<Rightarrow> (case unser_coins C v of Inr (Some coins, rest) \<Rightarrow> info_of coins | _ \<Rightarrow> None))"

text \<open>A database that can be read and written and holds nothing but codes of coins under the keys of coins.\<close>
definition cdb_good :: "('k, 'x) crypto_scheme \<Rightarrow> leveldb \<Rightarrow> bool" where
  "cdb_good C d \<longleftrightarrow> readable d \<and> writable d \<and> om_wf (entries d) \<and>
     (\<forall>h v. length h = WIDTH256 \<and> om_find (entries d) (coin_key h) = Some v \<longrightarrow>
        (\<exists>c. coins_ok c \<and> ser_coins C c = Some v))"

lemma coin_key_eq: "coin_key h = coin_key h' \<longleftrightarrow> h = h'"
proof
  assume "coin_key h = coin_key h'"
  then have e: "bu_bytes h = bu_bytes h'" by (simp add: coin_key_def ser_hash_def ser_flat_def)
  then have "length h = length h'" by (metis length_bu_bytes mult_left_cancel zero_neq_numeral)
  then show "h = h'" using e by (metis bu_of_bytes_bu_bytes)
qed simp

lemma coin_key_best: "coin_key h \<noteq> best_key"
  by (simp add: coin_key_def best_key_def)

lemma coins_ok_same:
  assumes "coins_ok c" and "c_nHeight c' = c_nHeight c" and "c_nVersion c' = c_nVersion c"
    and "live_outs (c_vout c') = live_outs (c_vout c)" and "compact (c_vout c')"
  shows "coins_ok c'"
proof -
  have "length (c_vout c') \<le> length (c_vout c)"
    unfolding compact_length [OF assms(5)] assms(4) by (simp add: live_outs_def is_avail_def)
  then show ?thesis using assms unfolding coins_ok_outs by simp
qed


lemma stored_coins:
  assumes "point_compression C" and "coins_ok c" and "ser_coins C c = Some v"
  shows "\<exists>c'. unser_coins C v = Inr (Some c', []) \<and> coins_ok c' \<and> info_of c' = info_of c"
proof -
  obtain c' where c': "unser_coins C (v @ []) = Inr (Some c', [])" "c_fCoinBase c' = c_fCoinBase c"
    "c_nHeight c' = c_nHeight c" "c_nVersion c' = c_nVersion c" "live_outs (c_vout c') = live_outs (c_vout c)" "compact (c_vout c')"
    using unser_ser_coins [OF assms, of "[]"] by blast
  moreover have "coins_ok c'" using coins_ok_same [OF assms(2)] c' by blast
  ultimately show ?thesis by (simp add: info_of_live)
qed

text \<open>What is found under the key of a hash.\<close>

lemma cdb_lookup:
  assumes "point_compression C" and "cdb_good C d" and "length h = WIDTH256"
  shows "case om_find (entries d) (coin_key h) of
      None \<Rightarrow> cdb_utxo C d h = None
    | Some v \<Rightarrow> \<exists>c. unser_coins C v = Inr (Some c, []) \<and> coins_ok c \<and> cdb_utxo C d h = info_of c"
proof (cases "om_find (entries d) (coin_key h)")
  case None
  then show ?thesis by (simp add: cdb_utxo_def)
next
  case (Some v)
  then obtain c where "coins_ok c" "ser_coins C c = Some v"
    using assms(2,3) by (auto simp: cdb_good_def)
  from stored_coins [OF assms(1) this] Some show ?thesis by (auto simp: cdb_utxo_def)
qed

definition written :: "('k, 'x) crypto_scheme \<Rightarrow> CCoins \<Rightarrow> byte list option" where
  "written C coins = (if coins_IsPruned coins then None else ser_coins C coins)"

lemma BatchWriteCoins_op:
  "\<exists>op. BatchWriteCoins C h coins = Some op \<and>
    (om_wf m \<longrightarrow> om_wf (apply_op m op) \<and>
       om_find (apply_op m op) = (om_find m)(coin_key h := written C coins))"
proof (cases "coins_IsPruned coins")
  case True
  then show ?thesis by (auto simp: BatchWriteCoins_def written_def om_find_del fun_eq_iff)
next
  case False
  then obtain code where "ser_coins C coins = Some code" using ser_coins_None [of C coins] by auto
  then show ?thesis using False by (auto simp: BatchWriteCoins_def written_def om_find_put fun_eq_iff)
qed

text \<open>The effect of writing coins, on the entries and on the map they stand for.\<close>

definition cdb_written :: "('k, 'x) crypto_scheme \<Rightarrow> leveldb \<Rightarrow> (uint256 \<Rightarrow> CCoins option) \<Rightarrow> leveldb \<Rightarrow> bool" where
  "cdb_written C d w d' \<longleftrightarrow> readable d' \<and> writable d' \<and> om_wf (entries d') \<and>
     (\<forall>h. om_find (entries d') (coin_key h) =
        (case w h of None \<Rightarrow> om_find (entries d) (coin_key h) | Some coins \<Rightarrow> written C coins))"

lemma cdb_written_good:
  assumes C: "point_compression C" and d: "cdb_good C d" and w: "cdb_written C d w d'"
    and ok: "\<And>h coins. w h = Some coins \<Longrightarrow> coins_ok coins"
  shows "cdb_good C d' \<and> cdb_utxo C d' = (\<lambda>h. case w h of None \<Rightarrow> cdb_utxo C d h | Some coins \<Rightarrow> info_of coins)"
proof -
  have "(\<exists>c. coins_ok c \<and> ser_coins C c = Some v)"
    if l: "length h = WIDTH256" and f: "om_find (entries d') (coin_key h) = Some v" for h v
  proof (cases "w h")
    case None
    then have "om_find (entries d) (coin_key h) = Some v" using w f by (simp add: cdb_written_def)
    then show ?thesis using d l by (simp add: cdb_good_def)
  next
    case (Some coins)
    then have "written C coins = Some v" using w f by (simp add: cdb_written_def)
    then show ?thesis using ok [OF Some] by (auto simp: written_def split: if_splits)
  qed
  then have "cdb_good C d'" using w by (auto simp: cdb_good_def cdb_written_def)
  moreover have "cdb_utxo C d' h = (case w h of None \<Rightarrow> cdb_utxo C d h | Some coins \<Rightarrow> info_of coins)" for h
  proof (cases "w h")
    case None
    then show ?thesis using w by (simp add: cdb_utxo_def cdb_written_def)
  next
    case (Some coins)
    then have f: "om_find (entries d') (coin_key h) = written C coins" using w by (simp add: cdb_written_def)
    show ?thesis
    proof (cases "coins_IsPruned coins")
      case True
      then show ?thesis using f Some by (simp add: cdb_utxo_def written_def info_of_def)
    next
      case False
      then obtain code where code: "ser_coins C coins = Some code" using ser_coins_None [of C coins] by auto
      then show ?thesis
        using stored_coins [OF C ok [OF Some] code] f Some False by (auto simp: cdb_utxo_def written_def)
    qed
  qed
  ultimately show ?thesis by auto
qed

lemma batch_ops:
  assumes "om_wf m" and "distinct (map fst cs)"
  shows "\<exists>batch. those (map (\<lambda>(k, coins). BatchWriteCoins C (hk_limbs k) coins) cs) = Some batch \<and>
    om_wf (foldl apply_op m batch) \<and>
    (\<forall>h. om_find (foldl apply_op m batch) (coin_key h) =
      (case map_of cs (HK h) of None \<Rightarrow> om_find m (coin_key h) | Some coins \<Rightarrow> written C coins))"
  using assms
proof (induction cs arbitrary: m)
  case Nil
  then show ?case by simp
next
  case (Cons e cs)
  obtain k coins where e: "e = (HK k, coins)" by (metis hash_key.exhaust_sel surj_pair)
  obtain op where op: "BatchWriteCoins C k coins = Some op" "om_wf (apply_op m op)"
    "om_find (apply_op m op) = (om_find m)(coin_key k := written C coins)"
    using BatchWriteCoins_op [of C k coins m] Cons.prems(1) by blast
  obtain batch where b: "those (map (\<lambda>(k, coins). BatchWriteCoins C (hk_limbs k) coins) cs) = Some batch"
    "om_wf (foldl apply_op (apply_op m op) batch)"
    "\<And>h. om_find (foldl apply_op (apply_op m op) batch) (coin_key h) =
      (case map_of cs (HK h) of None \<Rightarrow> om_find (apply_op m op) (coin_key h) | Some coins \<Rightarrow> written C coins)"
    using Cons.IH [OF op(2)] Cons.prems(2) by auto
  have "map_of cs (HK k) = None" using Cons.prems(2) e by (simp add: map_of_eq_None_iff image_iff)
  then show ?case
    using op(1) b by (intro exI [of _ "op # batch"]) (auto simp: e op(3) coin_key_eq split: option.split)
qed

lemma coins_db_contract:
  assumes C: "point_compression C"
  shows "coins_view (coins_db C H mapBlockIndex) (cdb_utxo C) (cdb_good C)"
proof
  fix d and h :: uint256
  assume d: "cdb_good C d" and h: "length h = WIDTH256"
  note l = cdb_lookup [OF C d h]
  show "\<exists>r d'. v_GetCoins (coins_db C H mapBlockIndex) d h = Some (r, d') \<and> cdb_good C d' \<and> cdb_utxo C d' = cdb_utxo C d \<and>
      info_opt r = cdb_utxo C d h \<and> (\<forall>c. r = Some c \<longrightarrow> coins_ok c)"
    using l d by (auto simp: coins_db_def cdb_GetCoins_def db_Read_def cdb_good_def split: option.splits)
  show "\<exists>f d'. v_HaveCoins (coins_db C H mapBlockIndex) d h = Some (f, d') \<and> cdb_good C d' \<and> cdb_utxo C d' = cdb_utxo C d \<and>
      (cdb_utxo C d h \<noteq> None \<longrightarrow> f)"
    using l d by (auto simp: coins_db_def cdb_HaveCoins_def db_Exists_def cdb_good_def split: option.splits)
next
  fix d and h :: uint256 and c
  assume d: "cdb_good C d" and s: "storable (HK h, c)"
  have ok: "coins_ok c" using s by (simp add: storable_def)
  obtain op where op: "BatchWriteCoins C h c = Some op" "om_wf (apply_op (entries d) op)"
    "om_find (apply_op (entries d) op) = (om_find (entries d))(coin_key h := written C c)"
    using BatchWriteCoins_op [of C h c "entries d"] d by (auto simp: cdb_good_def)
  let ?d = "d\<lparr>entries := apply_op (entries d) op\<rparr>"
  have "cdb_written C d [h \<mapsto> c] ?d"
    using d op by (auto simp: cdb_written_def cdb_good_def coin_key_eq)
  moreover have "[h \<mapsto> c] h' = Some coins \<Longrightarrow> coins_ok coins" for h' coins using ok by (simp split: if_splits)
  ultimately have "cdb_good C ?d \<and> cdb_utxo C ?d = (\<lambda>h'. case [h \<mapsto> c] h' of None \<Rightarrow> cdb_utxo C d h' | Some coins \<Rightarrow> info_of coins)"
    by (rule cdb_written_good [OF C d])
  then have "cdb_good C ?d" "cdb_utxo C ?d = (cdb_utxo C d)(h := info_of c)" by (auto simp: fun_eq_iff)
  then show "\<exists>f d'. v_SetCoins (coins_db C H mapBlockIndex) d h c = Some (f, d') \<and> cdb_good C d' \<and>
      cdb_utxo C d' = (if f then (cdb_utxo C d)(h := info_of c) else cdb_utxo C d)"
    using d op(1) by (intro exI [of _ True]) (simp add: coins_db_def cdb_SetCoins_def db_WriteBatch_def cdb_good_def)
next
  fix d assume d: "cdb_good C d"
  then show "\<exists>t d'. v_GetBestBlock (coins_db C H mapBlockIndex) d = Some (t, d') \<and> cdb_good C d' \<and> cdb_utxo C d' = cdb_utxo C d"
    by (auto simp: coins_db_def cdb_GetBestBlock_def db_Read_def cdb_good_def split: option.split sum.split)
next
  fix d t f d'
  assume d: "cdb_good C d" and w: "v_SetBestBlock (coins_db C H mapBlockIndex) d t = Some (f, d')"
  then obtain p where "d' = d\<lparr>entries := om_put (entries d) best_key (ser_hash (phashBlock (H p)))\<rparr>"
    by (auto simp: coins_db_def cdb_SetBestBlock_def db_WriteBatch_def BatchWriteHashBestChain_def cdb_good_def
        split: Option.bind_splits)
  then have "cdb_written C d Map.empty d'"
    using d coin_key_best by (auto simp: cdb_written_def cdb_good_def om_find_put)
  from cdb_written_good [OF C d this] show "cdb_good C d' \<and> cdb_utxo C d' = cdb_utxo C d" by simp
next
  fix d m t f d'
  assume d: "cdb_good C d" and m: "om_wf m" "list_all storable m"
    and w: "v_BatchWrite (coins_db C H mapBlockIndex) d m t = Some (f, d')"
  obtain batch where b: "those (map (\<lambda>(k, coins). BatchWriteCoins C (hk_limbs k) coins) m) = Some batch"
    "om_wf (foldl apply_op (entries d) batch)"
    "\<And>h. om_find (foldl apply_op (entries d) batch) (coin_key h) =
      (case map_of m (HK h) of None \<Rightarrow> om_find (entries d) (coin_key h) | Some coins \<Rightarrow> written C coins)"
    using batch_ops [of "entries d" m C] d m(1) by (auto simp: cdb_good_def om_wf_distinct)
  let ?e = "foldl apply_op (entries d) batch"
  have d': "f \<and> (d' = d\<lparr>entries := ?e\<rparr> \<or> (\<exists>v. d' = d\<lparr>entries := om_put ?e best_key v\<rparr>))"
    using w b(1) d
    by (auto simp: coins_db_def cdb_BatchWrite_def db_WriteBatch_def BatchWriteHashBestChain_def cdb_good_def split: option.splits)
  moreover have "om_find ?e (coin_key h) = (case om_find m (HK h) of None \<Rightarrow> om_find (entries d) (coin_key h) | Some coins \<Rightarrow> written C coins)" for h
    using b(3) by (simp only: om_find_map_of [of m])
  ultimately have "cdb_written C d (\<lambda>h. om_find m (HK h)) d'"
    using d b(2) coin_key_best by (auto simp: cdb_written_def cdb_good_def om_find_put)
  moreover have "om_find m (HK h) = Some coins \<Longrightarrow> coins_ok coins" for h coins using storable_find [OF m(2)] by blast
  ultimately show "cdb_good C d' \<and> (\<forall>h. cdb_utxo C d' h = (if f then case om_find m (HK h) of Some c \<Rightarrow> info_of c
      | None \<Rightarrow> cdb_utxo C d h else cdb_utxo C d h))"
    using cdb_written_good [OF C d] d' by (auto split: option.split)
qed


section \<open>The database of the block tree\<close>

definition info_key :: "u32 \<Rightarrow> byte list" where "info_key n = 0x66 # ser_int n"
definition last_key :: "byte list" where "last_key = [0x6C]"
definition block_key :: "uint256 \<Rightarrow> byte list" where "block_key hash = 0x62 # ser_hash hash"
definition tx_key :: "uint256 \<Rightarrow> byte list" where "tx_key txid = 0x74 # ser_hash txid"
definition flag_key :: "byte list \<Rightarrow> byte list" where "flag_key name = 0x46 # ser_string name"
definition reindex_key :: "byte list" where "reindex_key = [0x52]"

definition CLIENT_VERSION :: u32 where "CLIENT_VERSION = 1000000 * 0 + 10000 * 8 + 100 * 7 + 1 * 2"

definition WriteBlockIndex :: "('k, 'x) crypto_scheme \<Rightarrow> leveldb \<Rightarrow> CDiskBlockIndex \<Rightarrow> (bool \<times> leveldb) option" where
  "WriteBlockIndex C d blockindex =
     db_Write d (block_key (disk_GetBlockHash C blockindex)) (ser_disk CLIENT_VERSION blockindex)"

definition WriteBlockFileInfo :: "leveldb \<Rightarrow> u32 \<Rightarrow> CBlockFileInfo \<Rightarrow> (bool \<times> leveldb) option" where
  "WriteBlockFileInfo d n info = db_Write d (info_key n) (ser_info info)"

definition ReadBlockFileInfo :: "leveldb \<Rightarrow> u32 \<Rightarrow> CBlockFileInfo option option" where
  "ReadBlockFileInfo d n = db_Read d (info_key n) unser_info"

definition WriteLastBlockFile :: "leveldb \<Rightarrow> u32 \<Rightarrow> (bool \<times> leveldb) option" where
  "WriteLastBlockFile d n = db_Write d last_key (ser_int n)"

definition ReadLastBlockFile :: "leveldb \<Rightarrow> u32 option option" where
  "ReadLastBlockFile d = db_Read d last_key unser_int"

definition WriteReindexing :: "leveldb \<Rightarrow> bool \<Rightarrow> (bool \<times> leveldb) option" where
  "WriteReindexing d fReindexing = (if fReindexing then db_Write d reindex_key [0x31] else db_Erase d reindex_key)"

definition ReadReindexing :: "leveldb \<Rightarrow> bool option" where
  "ReadReindexing d = db_Exists d reindex_key"

definition ReadTxIndex :: "leveldb \<Rightarrow> uint256 \<Rightarrow> CDiskTxPos option option" where
  "ReadTxIndex d txid = db_Read d (tx_key txid) unser_txpos"

definition WriteTxIndex :: "leveldb \<Rightarrow> (uint256 \<times> CDiskTxPos) list \<Rightarrow> (bool \<times> leveldb) option" where
  "WriteTxIndex d vect = db_WriteBatch d (map (\<lambda>(txid, p). Put (tx_key txid) (ser_txpos p)) vect)"

definition WriteFlag :: "leveldb \<Rightarrow> byte list \<Rightarrow> bool \<Rightarrow> (bool \<times> leveldb) option" where
  "WriteFlag d name fValue = db_Write d (flag_key name) [if fValue then 0x31 else 0x30]"

text \<open>The result, and the value of the flag after the call.\<close>
definition ReadFlag :: "leveldb \<Rightarrow> byte list \<Rightarrow> bool \<Rightarrow> (bool \<times> bool) option" where
  "ReadFlag d name fValue = do {
     r \<leftarrow> db_Read d (flag_key name) (unser_int :: byte reader);
     Some (case r of None \<Rightarrow> (False, fValue) | Some ch \<Rightarrow> (True, ch = 0x31)) }"


lemma db_Read_Write:
  assumes "codec get ser ok" and "om_wf (entries d)" and "ok x" and "db_Write d key (ser x) = Some (f, d')"
  shows "f \<and> om_wf (entries d') \<and> (readable d \<longrightarrow> db_Read d' key get = Some (Some x))
    \<and> (\<forall>key'. key' \<noteq> key \<longrightarrow> db_Read d' key' get' = db_Read d key' get')"
proof -
  have "d' = d\<lparr>entries := om_put (entries d) key (ser x)\<rparr> \<and> f"
    using assms(4) by (auto simp: db_Write_def db_WriteBatch_def split: if_splits)
  then show ?thesis
    using assms(2) codec.get_ser_all [OF assms(1,3)] by (auto simp: db_Read_def om_find_put)
qed

text \<open>What is written to the block tree is read back, and leaves everything else as it is.\<close>

lemma block_file_info_stored:
  assumes "om_wf (entries d)" and "readable d" and "WriteBlockFileInfo d n info = Some (f, d')"
  shows "f \<and> ReadBlockFileInfo d' m = (if m = n then Some (Some info) else ReadBlockFileInfo d m)
    \<and> ReadLastBlockFile d' = ReadLastBlockFile d \<and> ReadTxIndex d' txid = ReadTxIndex d txid
    \<and> cdb_utxo C d' = cdb_utxo C d"
proof -
  note w = db_Read_Write [OF info.codec_axioms assms(1) TrueI assms(3) [unfolded WriteBlockFileInfo_def]]
  have i: "info_key m = info_key n \<Longrightarrow> m = n"
    using unser_ser_int [of m "[]"] unser_ser_int [of n "[]"] by (simp add: info_key_def)
  have d': "d' = d\<lparr>entries := om_put (entries d) (info_key n) (ser_info info)\<rparr>"
    using assms(3) by (auto simp: WriteBlockFileInfo_def db_Write_def db_WriteBatch_def split: if_splits)
  have "last_key \<noteq> info_key n" "tx_key txid \<noteq> info_key n" "coin_key h \<noteq> info_key n" for h
    by (simp_all add: info_key_def last_key_def tx_key_def coin_key_def)
  then show ?thesis
    using w [where get' = unser_info] w [where get' = unser_int] w [where get' = unser_txpos] assms(1,2) i d'
    by (auto simp: ReadBlockFileInfo_def ReadLastBlockFile_def ReadTxIndex_def cdb_utxo_def om_find_put fun_eq_iff)
qed

lemma tx_index_stored:
  assumes "om_wf (entries d)" and "readable d" and "WriteTxIndex d vect = Some (f, d')"
    and "distinct (map fst vect)" and "(txid, p) \<in> set vect" and "0 \<le>s pos_nFile p"
  shows "ReadTxIndex d' txid = Some (Some p)"
proof -
  have e: "entries d' = foldl apply_op (entries d) (map (\<lambda>(txid, p). Put (tx_key txid) (ser_txpos p)) vect)" "readable d'"
    using assms(2,3) by (auto simp: WriteTxIndex_def db_WriteBatch_def split: if_splits)
  have inj: "tx_key a = tx_key b \<longleftrightarrow> a = b" for a b
    using coin_key_eq [of a b] by (simp add: tx_key_def coin_key_def)
  have "om_find (foldl apply_op m (map (\<lambda>(txid, p). Put (tx_key txid) (ser_txpos p)) v)) (tx_key txid) =
      (case map_of v txid of None \<Rightarrow> om_find m (tx_key txid) | Some p \<Rightarrow> Some (ser_txpos p))"
    if "om_wf m" "distinct (map fst v)" for m and v :: "(uint256 \<times> CDiskTxPos) list"
    using that
  proof (induction v arbitrary: m)
    case (Cons a v)
    then have "map_of v (fst a) = None" by (simp add: map_of_eq_None_iff)
    with Cons show ?case by (auto simp: om_find_put inj split: option.split prod.split)
  qed simp
  from this [OF assms(1,4)] have "om_find (entries d') (tx_key txid) = Some (ser_txpos p)"
    using assms(4,5) e(1) by simp
  then show ?thesis using e(2) txpos.get_ser_all [OF assms(6)] by (simp add: ReadTxIndex_def db_Read_def)
qed

section \<open>The cache over the database\<close>

text \<open>C12: The database of the unspent outputs keeps the contract of the views, byte codes and all, so a cache over it is the map of
  unspent outputs; flushing it succeeds on a database that can be written, and a new cache over the database then finds exactly
  what the old one held.\<close>

theorem coins_db_refines:
  assumes "point_compression C" and "cdb_good C (vbase c)" and "cache_wf (cdb_good C) c"
  shows "coins_view (coins_db C H mapBlockIndex) (cdb_utxo C) (cdb_good C)
    \<and> (\<exists>c'. cache_Flush (coins_db C H mapBlockIndex) c = Some (True, c') \<and> cdb_good C (vbase c')
        \<and> cdb_utxo C (vbase c') = cache_utxo (cdb_utxo C) c
        \<and> (\<forall>h. length h = WIDTH256 \<longrightarrow> (\<exists>r c2. cache_GetCoins (coins_db C H mapBlockIndex) (cache_init (vbase c')) h = Some (r, c2)
             \<and> info_opt r = cache_utxo (cdb_utxo C) c h)))"
proof -
  let ?V = "coins_db C H mapBlockIndex"
  note cv = coins_db_contract [OF assms(1), of H mapBlockIndex]
  obtain batch where "those (map (\<lambda>(k, coins). BatchWriteCoins C (hk_limbs k) coins) (cacheCoins c)) = Some batch"
    using batch_ops [of "[]" "cacheCoins c" C] assms(3) by (auto simp: cache_wf_def om_wf_distinct)
  then obtain c' where c': "cache_Flush ?V c = Some (True, c')"
    using assms(2) by (auto simp: cache_Flush_def coins_db_def cdb_BatchWrite_def db_WriteBatch_def cdb_good_def)
  from coins_view.flush [OF cv assms(3) this]
  have f: "cdb_good C (vbase c')" "cdb_utxo C (vbase c') = cache_utxo (cdb_utxo C) c"
    by (auto simp: cache_wf_def)
  have wf: "cache_wf (cdb_good C) (cache_init (vbase c'))" using f(1) by (simp add: cache_wf_def cache_init_def)
  have "\<exists>r c2. cache_GetCoins ?V (cache_init (vbase c')) h = Some (r, c2) \<and> info_opt r = cache_utxo (cdb_utxo C) c h"
    if "length h = WIDTH256" for h
    using coins_view.fetch [OF cv wf that] f(2)
    by (auto simp: coins_view.GetCoins_fetch [OF cv] cache_utxo_def cache_init_def)
  then show ?thesis using cv c' f by blast
qed

theorem coins_db_refines_witness:
  "\<exists>c'. cache_Flush (coins_db example_curve (\<lambda>_. bi_init) (\<lambda>_. None))
      ((cache_init \<lparr>entries = [], readable = True, writable = True\<rparr>)
        \<lparr>cacheCoins := [(HK (replicate 8 1), example_coins)]\<rparr>) = Some (True, c')
    \<and> cdb_utxo example_curve (vbase c') (replicate 8 1) = info_of example_coins"
proof -
  let ?c = "(cache_init \<lparr>entries = [], readable = True, writable = True\<rparr>)
        \<lparr>cacheCoins := [(HK (replicate 8 1), example_coins)]\<rparr>"
  have g: "cdb_good example_curve (vbase ?c)" by (simp add: cdb_good_def cache_init_def)
  then have wf: "cache_wf (cdb_good example_curve) ?c"
    using example_coins_ok by (simp add: cache_wf_def storable_def cache_init_def)
  have "cache_utxo (cdb_utxo example_curve) ?c (replicate 8 1) = info_of example_coins" by (simp add: cache_utxo_def)
  with coins_db_refines [OF example_curve_compression g wf] show ?thesis by metis
qed

end
