(* ===== verification/Connect.thy ===== *)
theory Connect
  imports Inputs DiskFiles TxDB Fees
begin

text \<open>
  Connecting a block (\<open>CBlock::ConnectBlock\<close>, \<open>GetBlockValue\<close> of \<open>main.cpp\<close>, \<open>srges::CheckPbk\<close>, the checkpoints), its
  refinement to a transition of the map of unspent outputs, and what it means for the supply of money.
\<close>

section \<open>Checkpoints\<close>

definition mapCheckpoints :: "(int \<times> uint256) list" where
  "mapCheckpoints = [(0, SetHex WIDTH256 ''0x83504a97ee364685f287f0063fe950799c76f56be2f87e57ae1fa4e089e87847'')]"

text \<open>\<open>fCheckpoints\<close> is the argument \<open>-checkpoints\<close>; the test network has the same checkpoint.\<close>
definition Checkpoints_CheckBlock :: "bool \<Rightarrow> int \<Rightarrow> uint256 \<Rightarrow> bool" where
  "Checkpoints_CheckBlock fCheckpoints height hash =
     (if \<not> fCheckpoints then True
      else case map_of mapCheckpoints height of None \<Rightarrow> True | Some h \<Rightarrow> bu_eq hash h)"

definition GetTotalBlocksEstimate :: "bool \<Rightarrow> int" where
  "GetTotalBlocksEstimate fCheckpoints = (if \<not> fCheckpoints then 0 else fst (last mapCheckpoints))"

fun last_checkpoint :: "(uint256 \<Rightarrow> nat option) \<Rightarrow> (int \<times> uint256) list \<Rightarrow> nat option" where
  "last_checkpoint mapBlockIndex [] = None"
| "last_checkpoint mapBlockIndex ((height, hash) # r) =
     (case mapBlockIndex hash of Some p \<Rightarrow> Some p | None \<Rightarrow> last_checkpoint mapBlockIndex r)"

definition GetLastCheckpoint :: "bool \<Rightarrow> (uint256 \<Rightarrow> nat option) \<Rightarrow> nat option" where
  "GetLastCheckpoint fCheckpoints mapBlockIndex =
     (if \<not> fCheckpoints then None else last_checkpoint mapBlockIndex (rev mapCheckpoints))"

section \<open>The value of a block\<close>

definition issue :: "CashName \<Rightarrow> i64 \<Rightarrow> fees \<Rightarrow> cash" where
  "issue circuit SUCH_CASH nFees = cash_plus (cash_of_struct [(circuit, SUCH_CASH * COIN)]) (fees_to_cash nFees)"

definition GetBlockValue :: "int \<Rightarrow> fees \<Rightarrow> cash" where
  "GetBlockValue height nFees =
     (if height = 1 then issue ''EUR'' 10000000000 nFees
      else if height = 2 then issue ''FUTURE'' 99990000 nFees
      else if height = 3 then issue ''TESTCASH'' 7777777777 nFees
      else if height = 4 then issue ''CHF'' 100000 nFees
      else fees_to_cash nFees)"

definition RPBK :: string where "RPBK = ''02a001cc63d69dc398d0ace79f7c569b0b6cf1e4dfcd305d528fbfdad0fd5db501''"
definition second_key :: string where "second_key = ''03882e656b4a7aa105966f43320cdb86085b1841581678eabea5847cb3a7424966''"

text \<open>\<open>k.SetHex(hex) && k.IsValid() && test == k\<close>, with the key afterwards.\<close>
definition is_key :: "CPubKey \<Rightarrow> CPubKey \<Rightarrow> string \<Rightarrow> bool \<times> CPubKey" where
  "is_key test k hex =
     (case pk_SetHex k hex 33 of None \<Rightarrow> (False, k) | Some (f, k) \<Rightarrow> (f \<and> pk_IsValid k \<and> pk_eq test k, k))"

definition CheckPbk :: "CPubKey \<Rightarrow> bool" where
  "CheckPbk test =
     (let (f, k) = is_key test pk_invalid RPBK in if f then True else fst (is_key test k second_key))"

section \<open>ConnectBlock\<close>

text \<open>What the code reads from the configuration and its surroundings: the time, the hash of the first block, the options
  \<open>-checkpoints\<close> and \<open>-txindex\<close>, whether there are script threads, whether space is left, whether records
  of files are stored, and what becomes of the calls on files while space for the undo data is found and while it is written.\<close>
record connect_env =
  e_now :: int
  hashGenesisBlock :: uint256
  fCheckpoints :: bool
  fScriptThreads :: bool
  fTxIndex :: bool
  e_space :: "u32 \<Rightarrow> bool"
  e_info_stored :: bool
  e_find_io :: file_io
  e_write_io :: file_io

text \<open>The state of the node that connecting a block changes.\<close>
record 'b node =
  n_view :: "'b CCoinsViewCache"
  n_heap :: bheap
  n_files :: block_files
  n_disk :: disk
  pblocktree :: leveldb
  n_sigcache :: CSignatureCache
  pindexGenesisBlock :: block_ref

fun bip30_loop :: "'b CCoinsView \<Rightarrow> uint256 list \<Rightarrow> 'b CCoinsViewCache \<Rightarrow> (bool \<times> 'b CCoinsViewCache) option" where
  "bip30_loop V [] view = Some (False, view)"
| "bip30_loop V (hash # r) view = do {
     (f, view) \<leftarrow> cache_HaveCoins V view hash;
     (if \<not> f then bip30_loop V r view
      else do {
        (coins, view) \<leftarrow> cache_GetRef V view hash;
        (if \<not> coins_IsPruned coins then Some (True, view) else bip30_loop V r view) }) }"

text \<open>The local variables of the loop over the transactions.\<close>
record 'b connecting =
  b_view :: "'b CCoinsViewCache"
  nFees :: fees
  nSigOps :: u32
  vChecks :: "CScriptCheck list"
  b_pos :: CDiskTxPos
  vPos :: "(uint256 \<times> CDiskTxPos) list"
  blockundo :: "CTxUndo list"
  b_sigcache :: CSignatureCache

text \<open>The inputs of a transaction that is not the coinbase; \<open>None\<close> goes on, otherwise the answer of an early return.\<close>
definition connect_inputs ::
  "('k, 'x) crypto_scheme \<Rightarrow> 'l bn_lib \<Rightarrow> sig_env \<Rightarrow> 'b CCoinsView \<Rightarrow> bheap \<Rightarrow> bool \<Rightarrow> bool \<Rightarrow> bool \<Rightarrow> u32 \<Rightarrow>
   CValidationState \<Rightarrow> CTransaction \<Rightarrow> 'b connecting \<Rightarrow> failure + ((bool \<times> CValidationState) option \<times> 'b connecting)" where
  "connect_inputs C L E V H fScriptChecks threads fStrictPayToScriptHash flags st tx s =
     ebind (asserted (tx_HaveInputs V tx (b_view s))) (\<lambda>(f, view).
       let s = s\<lparr>b_view := view\<rparr>
       in if \<not> f then Inr (Some (vs_DoS st 100 False False), s)
          else ebind (if fStrictPayToScriptHash then asserted (tx_GetP2SHSigOpCount V tx (b_view s)) else Inr (0, b_view s)) (\<lambda>(n, view).
            let s = s\<lparr>b_view := view, nSigOps := nSigOps s + n\<rparr>
            in if fStrictPayToScriptHash \<and> nSigOps s > MAX_BLOCK_SIGOPS then Inr (Some (vs_DoS st 100 False False), s)
               else ebind (asserted (tx_GetValueIn V tx (b_view s))) (\<lambda>(nValueIn, view).
                 ebind (thrown (tx_GetValueOut tx)) (\<lambda>nValueOut.
                   let s = s\<lparr>b_view := view,
                             nFees := fst (fees_plus_assign (nFees s) (fees_of_cash (cash_minus nValueIn nValueOut)))\<rparr>
                   in ebind (CheckInputs C L E V H tx st (b_view s) fScriptChecks flags (if threads then Some [] else None)
                               (b_sigcache s)) (\<lambda>((ok, st), view, pvChecks, cache).
                        let s = s\<lparr>b_view := view, b_sigcache := cache\<rparr>
                        in if \<not> ok then Inr (Some (False, st), s)
                           else Inr (None, s\<lparr>vChecks := vChecks s @ (case pvChecks of Some q \<Rightarrow> q | None \<Rightarrow> [])\<rparr>))))))"

definition connect_tx ::
  "('k, 'x) crypto_scheme \<Rightarrow> 'l bn_lib \<Rightarrow> sig_env \<Rightarrow> 'b CCoinsView \<Rightarrow> bheap \<Rightarrow> bool \<Rightarrow> bool \<Rightarrow> bool \<Rightarrow> u32 \<Rightarrow> u32 \<Rightarrow>
   CValidationState \<Rightarrow> CTransaction \<Rightarrow> uint256 \<Rightarrow> 'b connecting \<Rightarrow>
   failure + ((bool \<times> CValidationState) option \<times> 'b connecting)" where
  "connect_tx C L E V H fScriptChecks threads fStrictPayToScriptHash flags height st tx hash s =
     (let s = s\<lparr>nSigOps := nSigOps s + tx_GetLegacySigOpCount tx\<rparr>
      in if nSigOps s > MAX_BLOCK_SIGOPS then Inr (Some (vs_DoS st 100 False False), s)
         else ebind (if \<not> tx_IsCoinBase tx
                     then connect_inputs C L E V H fScriptChecks threads fStrictPayToScriptHash flags st tx s
                     else Inr (None, s)) (\<lambda>(r, s).
           if r \<noteq> None then Inr (r, s)
           else ebind (asserted (tx_UpdateCoins V tx (b_view s) \<lparr>vprevout = []\<rparr> height hash)) (\<lambda>(view, txundo).
             Inr (None, s\<lparr>b_view := view,
                          blockundo := (if \<not> tx_IsCoinBase tx then blockundo s @ [txundo] else blockundo s),
                          vPos := vPos s @ [(hash, b_pos s)],
                          b_pos := (b_pos s)\<lparr>nTxOffset := nTxOffset (b_pos s) + size_tx tx\<rparr>\<rparr>))))"

fun connect_loop ::
  "('k, 'x) crypto_scheme \<Rightarrow> 'l bn_lib \<Rightarrow> sig_env \<Rightarrow> 'b CCoinsView \<Rightarrow> bheap \<Rightarrow> bool \<Rightarrow> bool \<Rightarrow> bool \<Rightarrow> u32 \<Rightarrow> u32 \<Rightarrow>
   CValidationState \<Rightarrow> (CTransaction \<times> uint256) list \<Rightarrow> 'b connecting \<Rightarrow>
   failure + ((bool \<times> CValidationState) option \<times> 'b connecting)" where
  "connect_loop C L E V H fScriptChecks threads strict flags height st [] s = Inr (None, s)"
| "connect_loop C L E V H fScriptChecks threads strict flags height st ((tx, hash) # r) s =
     ebind (connect_tx C L E V H fScriptChecks threads strict flags height st tx hash s) (\<lambda>(answer, s).
       if answer \<noteq> None then Inr (answer, s)
       else connect_loop C L E V H fScriptChecks threads strict flags height st r s)"

text \<open>\<open>control.Wait()\<close>: whether all the queued checks hold, which is what the queue returns under every interleaving of its
  threads.  The checks of a block do not store signatures, so their order does not matter for the cache either.\<close>
fun run_checks ::
  "('k, 'x) crypto_scheme \<Rightarrow> 'l bn_lib \<Rightarrow> sig_env \<Rightarrow> CScriptCheck list \<Rightarrow> CSignatureCache \<Rightarrow> failure + (bool \<times> CSignatureCache)" where
  "run_checks C L E [] cache = Inr (True, cache)"
| "run_checks C L E (check # r) cache =
     ebind (run_check C L E check cache) (\<lambda>(ok, cache).
       ebind (run_checks C L E r cache) (\<lambda>(oks, cache). Inr (ok \<and> oks, cache)))"

text \<open>An exception of the database leaves the function.\<close>
definition db_thrown :: "'a option \<Rightarrow> failure + 'a" where
  "db_thrown r = (case r of None \<Rightarrow> Inl (Thrown ''leveldb_error'') | Some x \<Rightarrow> Inr x)"

definition set_index :: "nat \<Rightarrow> CBlockIndex \<Rightarrow> 'b node \<Rightarrow> 'b node" where
  "set_index p i n = n\<lparr>n_heap := (n_heap n)(p := i)\<rparr>"

text \<open>The undo data of the block, in space found for it; the answer of an early return, if there is one.\<close>
definition store_undo ::
  "('k, 'x) crypto_scheme \<Rightarrow> connect_env \<Rightarrow> nat \<Rightarrow> CBlockUndo \<Rightarrow> CValidationState \<Rightarrow> 'b node \<Rightarrow>
   failure + ((bool \<times> CValidationState) option \<times> 'b node)" where
  "store_undo C env p u st n =
     (let i = n_heap n p
      in case FindUndoPos (e_find_io env) (e_space env) (e_info_stored env) st (nFile i)
                (word_of_nat (length (ser_blockundo C u)) + 40) (n_files n) (n_disk n) of
           ((ok, st), pos, files, fs) \<Rightarrow>
             let n = n\<lparr>n_files := files, n_disk := fs\<rparr>
             in if \<not> ok then Inr (Some (False, st), n)
                else ebind (deref (pprev i)) (\<lambda>q.
                  case undo_WriteToDisk C (e_write_io env) u pos (phashBlock (n_heap n q)) (n_disk n) of
                    (None, fs) \<Rightarrow> Inl (Thrown ''ios_base::failure'')
                  | (Some (ok, pos), fs) \<Rightarrow>
                      let n = n\<lparr>n_disk := fs\<rparr>
                      in if \<not> ok then Inr (Some (vs_Error st), n)
                         else Inr (None,
                           set_index p (i\<lparr>nUndoPos := pos_nPos pos, nStatus := nStatus i OR BLOCK_HAVE_UNDO\<rparr>) n)))"

text \<open>The undo data and the index entry of the block.\<close>
definition write_undo ::
  "('k, 'x) crypto_scheme \<Rightarrow> connect_env \<Rightarrow> nat \<Rightarrow> CBlockUndo \<Rightarrow> CValidationState \<Rightarrow> 'b node \<Rightarrow>
   failure + ((bool \<times> CValidationState) option \<times> 'b node)" where
  "write_undo C env p u st n =
     (let i = n_heap n p
      in if \<not> pos_IsNull (GetUndoPos i) \<and> \<not> nStatus i AND 7 < 5 then Inr (None, n)
         else
           ebind (if pos_IsNull (GetUndoPos i) then store_undo C env p u st n else Inr (None, n)) (\<lambda>(answer, n).
           if answer \<noteq> None then Inr (answer, n)
           else
             let i = n_heap n p; n = set_index p (i\<lparr>nStatus := (nStatus i AND NOT 7) OR 5\<rparr>) n
             in ebind (db_thrown (WriteBlockIndex C (pblocktree n) (disk_of (n_heap n) (n_heap n p)))) (\<lambda>(ok, d).
                  let n = n\<lparr>pblocktree := d\<rparr>
                  in if \<not> ok then Inr (Some (vs_Error st), n) else Inr (None, n))))"

text \<open>After the loop: what the coinbase pays, the queued checks, the undo data, the index of transactions and the best block.\<close>
definition finish_block ::
  "('k, 'x) crypto_scheme \<Rightarrow> 'l bn_lib \<Rightarrow> sig_env \<Rightarrow> connect_env \<Rightarrow> CBlock \<Rightarrow> nat \<Rightarrow> bool \<Rightarrow> CValidationState \<Rightarrow>
   'b connecting \<Rightarrow> 'b node \<Rightarrow> failure + ((bool \<times> CValidationState) \<times> 'b node)" where
  "finish_block C L E env b p fJustCheck st s n =
     ebind (thrown (tx_GetValueOut (vtx b ! 0))) (\<lambda>paid.
       if cash_gt paid (GetBlockValue (nHeight (n_heap n p)) (nFees s)) \<and> \<not> CheckPbk (cpbk b)
       then Inr (vs_DoS st 100 False False, n)
       else ebind (run_checks C L E (vChecks s) (n_sigcache n)) (\<lambda>(good, cache).
         let n = n\<lparr>n_sigcache := cache\<rparr>
         in if \<not> good then Inr (vs_DoS st 100 False False, n)
            else if fJustCheck then Inr ((True, st), n)
            else ebind (write_undo C env p \<lparr>vtxundo = blockundo s\<rparr> st n) (\<lambda>(answer, n).
              case answer of Some r \<Rightarrow> Inr (r, n)
              | None \<Rightarrow>
                ebind (if fTxIndex env then db_thrown (WriteTxIndex (pblocktree n) (vPos s))
                       else Inr (True, pblocktree n)) (\<lambda>(ok, d).
                  let n = n\<lparr>pblocktree := d\<rparr>
                  in if \<not> ok then Inr (vs_Error st, n)
                     else ebind (asserted (cache_SetBestBlock (n_view n) (Some p))) (\<lambda>(ok, view).
                       if \<not> ok then Inl Assertion
                       else Inr ((True, st), n\<lparr>n_view := view\<rparr>))))))"

definition ConnectBlock ::
  "('k, 'x) crypto_scheme \<Rightarrow> 'l bn_lib \<Rightarrow> sig_env \<Rightarrow> connect_env \<Rightarrow> 'b CCoinsView \<Rightarrow> CBlock \<Rightarrow> nat \<Rightarrow> bool \<Rightarrow>
   CValidationState \<Rightarrow> 'b node \<Rightarrow> failure + ((bool \<times> CValidationState) \<times> 'b node)" where
  "ConnectBlock C L E env V b p fJustCheck st n =
     ebind (asserted (CheckBlock C (e_now env) (\<not> fJustCheck) (\<not> fJustCheck) b st)) (\<lambda>((ok, st), b).
       if \<not> ok then Inr ((False, st), n)
       else ebind (asserted (cache_GetBestBlock V (n_view n))) (\<lambda>(best, view).
         let n = n\<lparr>n_view := view\<rparr>; i = n_heap n p
         in if pprev i \<noteq> best then Inl Assertion
            else if bu_eq (blk_GetHash C b) (hashGenesisBlock env)
            then ebind (asserted (cache_SetBestBlock (n_view n) (Some p))) (\<lambda>(_, view).
                   Inr ((True, st), n\<lparr>n_view := view, pindexGenesisBlock := Some p\<rparr>))
            else
              let fScriptChecks = (nHeight i \<ge> GetTotalBlocksEstimate (fCheckpoints env))
              in ebind (asserted (those (map (blk_GetTxHash (vMerkleTree b) (vtx b)) [0..<length (vtx b)]))) (\<lambda>hashes.
                 ebind (asserted (bip30_loop V hashes (n_view n))) (\<lambda>(overwrites, view).
                   let n = n\<lparr>n_view := view\<rparr>
                   in if overwrites then Inr (vs_DoS st 100 False False, n)
                      else
                        let strict = (uint (bi_nTime i) \<ge> 1409170687);
                            flags = SCRIPT_VERIFY_NOCACHE OR (if strict then SCRIPT_VERIFY_P2SH else SCRIPT_VERIFY_NONE);
                            s = \<lparr>b_view = view, nFees = cash_empty, nSigOps = 0, vChecks = [],
                                 b_pos = txpos_of (GetBlockPos i) (GetSizeOfCompactSize (word_of_nat (length (vtx b)))),
                                 vPos = [], blockundo = [], b_sigcache = n_sigcache n\<rparr>
                        in ebind (connect_loop C L E V (n_heap n) fScriptChecks (fScriptThreads env) strict flags
                                    (word_of_int (nHeight i)) st (zip (vtx b) hashes) s) (\<lambda>(answer, s).
                             let n = n\<lparr>n_view := b_view s, n_sigcache := b_sigcache s\<rparr>
                             in case answer of Some r \<Rightarrow> Inr (r, n)
                                | None \<Rightarrow> finish_block C L E env b p fJustCheck st s n)))))"

end
