(* ===== verification/Ledger.thy ===== *)
theory Ledger
  imports Connect
begin

text \<open>
  Connecting a block as a transition of the map of unspent outputs: \<open>ConnectBlock\<close> refines it, and so the money in
  circulation grows by what the coinbase pays and by nothing else.
\<close>

section \<open>The money in circulation\<close>

definition coin_at :: "utxo_map \<Rightarrow> uint256 \<times> nat \<Rightarrow> CTxOut option" where
  "coin_at U p = (case U (fst p) of None \<Rightarrow> None | Some (cb, ht, v, outs) \<Rightarrow> outs (snd p))"

definition coin_set :: "utxo_map \<Rightarrow> (uint256 \<times> nat) set" where
  "coin_set U = {p. coin_at U p \<noteq> None}"

definition worth :: "CTxOut option \<Rightarrow> CashName \<Rightarrow> int" where
  "worth out k = (case out of None \<Rightarrow> 0 | Some out \<Rightarrow> sint (amount (nValue out) k))"

definition circulating :: "utxo_map \<Rightarrow> CashName \<Rightarrow> int" where
  "circulating U k = (\<Sum>p\<in>coin_set U. worth (coin_at U p) k)"

lemma prev_out_coin: "prev_out U i = coin_at U (in_hash i, in_n i)"
  by (auto simp: prev_out_def coin_at_def split: option.split)

lemma worth_None [simp]: "worth None k = 0" by (simp add: worth_def)

lemma sane_worth: "all_sane U \<Longrightarrow> 0 \<le> worth (coin_at U p) k"
proof (cases "coin_at U p")
  case (Some out)
  assume "all_sane U"
  then have "sane_value (nValue out)"
    using Some unfolding all_sane_def coin_at_def by (auto split: option.splits)
  then show ?thesis using Some output_in_range_amount [of "nValue out"] by (auto simp: sane_value_def worth_def)
qed simp

lemma coin_at_spend1:
  assumes "live_input U i"
  shows "coin_at (spend1 U i) p = (if p = (in_hash i, in_n i) then None else coin_at U p)"
proof -
  obtain cb h v outs where u: "U (in_hash i) = Some (cb, h, v, outs)" using assms by (auto simp: live_input_def)
  obtain a n where p: "p = (a, n)" by (cases p)
  show ?thesis
    unfolding p
  proof (cases "outs(in_n i := None) = (\<lambda>_. None)")
    case True
    then have "n \<noteq> in_n i \<Longrightarrow> outs n = None" by (metis fun_upd_other)
    then show "coin_at (spend1 U i) (a, n) = (if (a, n) = (in_hash i, in_n i) then None else coin_at U (a, n))"
      using True by (cases "n = in_n i") (auto simp: coin_at_def spend1_def spend_info_def u)
  next
    case False
    then show "coin_at (spend1 U i) (a, n) = (if (a, n) = (in_hash i, in_n i) then None else coin_at U (a, n))"
      by (simp add: coin_at_def spend1_def spend_info_def u)
  qed
qed

lemma coin_set_spend1: "live_input U i \<Longrightarrow> coin_set (spend1 U i) = coin_set U - {(in_hash i, in_n i)}"
  by (auto simp: coin_set_def coin_at_spend1)

lemma circ_spend1:
  assumes "live_input U i" and "finite (coin_set U)"
  shows "circulating (spend1 U i) k = circulating U k - worth (prev_out U i) k"
proof -
  let ?p = "(in_hash i, in_n i)"
  have "?p \<in> coin_set U" using assms(1) by (simp add: coin_set_def live_prev_out prev_out_coin)
  from sum.remove [OF assms(2) this, of "\<lambda>p. worth (coin_at U p) k"]
  have "circulating U k = worth (coin_at U ?p) k + (\<Sum>p\<in>coin_set U - {?p}. worth (coin_at U p) k)" by (simp add: circulating_def)
  moreover have "circulating (spend1 U i) k = (\<Sum>p\<in>coin_set U - {?p}. worth (coin_at U p) k)"
    unfolding circulating_def coin_set_spend1 [OF assms(1)] by (intro sum.cong refl) (simp add: coin_at_spend1 [OF assms(1)])
  ultimately show ?thesis by (simp add: prev_out_coin)
qed

lemma spend_others:
  assumes "live_input U i" and "prevout i \<notin> set (map prevout v)"
  shows "map (prev_out (spend1 U i)) v = map (prev_out U) v" and "list_all (live_input (spend1 U i)) v = list_all (live_input U) v"
proof -
  have e: "prev_out (spend1 U i) j = prev_out U j" if "j \<in> set v" for j
  proof -
    have "prevout j \<noteq> prevout i" using that assms(2) by (metis imageI list.set_map)
    then have "(in_hash j, in_n j) \<noteq> (in_hash i, in_n i)"
      by (metis COutPoint.equality old.unit.exhaust prod.inject word_unat_eq_iff)
    then show ?thesis unfolding prev_out_coin coin_at_spend1 [OF assms(1)] by (simp only: if_False)
  qed
  then show "map (prev_out (spend1 U i)) v = map (prev_out U) v" by simp
  show "list_all (live_input (spend1 U i)) v = list_all (live_input U) v"
    using e by (simp add: list_all_iff live_prev_out)
qed

lemma circ_spent:
  assumes "list_all (live_input U) v" and "distinct (map prevout v)" and "finite (coin_set U)"
  shows "circulating (spent U v) k = circulating U k - credit (spent_outs U v) k" and "coin_set (spent U v) \<subseteq> coin_set U"
    and "coin_at (spent U v) p = None \<or> coin_at (spent U v) p = coin_at U p"
proof -
  have "circulating (spent U v) k = circulating U k - credit (spent_outs U v) k \<and> coin_set (spent U v) \<subseteq> coin_set U
    \<and> (coin_at (spent U v) p = None \<or> coin_at (spent U v) p = coin_at U p)"
    using assms
  proof (induction v arbitrary: U)
    case (Cons i v)
    have live: "live_input U i" and n: "prevout i \<notin> set (map prevout v)" using Cons.prems by simp_all
    obtain out where out: "prev_out U i = Some out" using live by (auto simp: live_prev_out)
    note o = spend_others [OF live n]
    have s: "spent_outs (spend1 U i) v = spent_outs U v"
      using arg_cong [OF o(1), of "map the"] by (simp add: comp_def)
    have f: "finite (coin_set (spend1 U i))" using Cons.prems(3) by (simp add: coin_set_spend1 [OF live])
    have IH: "circulating (spent (spend1 U i) v) k = circulating (spend1 U i) k - credit (spent_outs U v) k"
      "coin_set (spent (spend1 U i) v) \<subseteq> coin_set (spend1 U i)"
      "coin_at (spent (spend1 U i) v) p = None \<or> coin_at (spent (spend1 U i) v) p = coin_at (spend1 U i) p"
      using Cons.IH [of "spend1 U i"] Cons.prems o(2) f s by simp_all
    show ?case
    proof (intro conjI)
      show "circulating (spent U (i # v)) k = circulating U k - credit (spent_outs U (i # v)) k"
        using IH(1) circ_spend1 [OF live Cons.prems(3), of k] out by (simp add: credit_def worth_def)
      show "coin_set (spent U (i # v)) \<subseteq> coin_set U" using IH(2) coin_set_spend1 [OF live] by auto
      show "coin_at (spent U (i # v)) p = None \<or> coin_at (spent U (i # v)) p = coin_at U p"
        using IH(3) coin_at_spend1 [OF live, of p] by auto
    qed
  qed (simp add: credit_def)
  then show "circulating (spent U v) k = circulating U k - credit (spent_outs U v) k" "coin_set (spent U v) \<subseteq> coin_set U"
    "coin_at (spent U v) p = None \<or> coin_at (spent U v) p = coin_at U p" by blast+
qed

lemma null_worth: "txout_IsNull out \<Longrightarrow> amount (nValue out) k = 0"
  by (auto simp: txout_IsNull_def cash_size_def amount_def at_def)

lemma coin_at_update:
  "coin_at (U(h := info_of c)) p = (if fst p = h then live_outs (c_vout c) (snd p) else coin_at U p)"
  by (auto simp: coin_at_def info_of_def IsPruned_live)

lemma live_credit:
  "finite {n. live_outs v n \<noteq> None}" "(\<Sum>n\<in>{n. live_outs v n \<noteq> None}. worth (live_outs v n) k) = credit v k"
proof -
  have sub: "{n. live_outs v n \<noteq> None} \<subseteq> {..<length v}" by (auto simp: live_outs_def is_avail_def)
  show "finite {n. live_outs v n \<noteq> None}" by (rule finite_subset [OF sub]) simp
  have "(\<Sum>n\<in>{n. live_outs v n \<noteq> None}. worth (live_outs v n) k) = (\<Sum>n<length v. sint (amount (nValue (v ! n)) k))"
  proof (rule sum.mono_neutral_cong_left [OF _ sub])
    show "\<forall>n\<in>{..<length v} - {n. live_outs v n \<noteq> None}. sint (amount (nValue (v ! n)) k) = 0"
      by (auto simp: live_outs_def is_avail_def null_worth)
    show "worth (live_outs v n) k = sint (amount (nValue (v ! n)) k)" if "n \<in> {n. live_outs v n \<noteq> None}" for n
      using that by (auto simp: live_outs_def is_avail_def worth_def split: if_splits)
  qed simp
  also have "\<dots> = credit v k"
    by (simp add: credit_def sum_list_sum_nth atLeast0LessThan)
  finally show "(\<Sum>n\<in>{n. live_outs v n \<noteq> None}. worth (live_outs v n) k) = credit v k" .
qed

lemma circ_update:
  assumes "finite (coin_set U)" and "all_sane U"
  shows "finite (coin_set (U(h := info_of c)))" and "circulating (U(h := info_of c)) k \<le> circulating U k + credit (c_vout c) k"
proof -
  let ?old = "{p \<in> coin_set U. fst p \<noteq> h}" and ?new = "Pair h ` {n. live_outs (c_vout c) n \<noteq> None}"
  have e: "coin_set (U(h := info_of c)) = ?old \<union> ?new"
    by (auto simp: coin_set_def coin_at_update image_iff)
  have fin: "finite ?old" "finite ?new" using assms(1) live_credit(1) by auto
  then show "finite (coin_set (U(h := info_of c)))" unfolding e by simp
  have "circulating (U(h := info_of c)) k =
      (\<Sum>p\<in>?old. worth (coin_at (U(h := info_of c)) p) k) + (\<Sum>p\<in>?new. worth (coin_at (U(h := info_of c)) p) k)"
    unfolding circulating_def e by (rule sum.union_disjoint [OF fin]) auto
  also have "(\<Sum>p\<in>?new. worth (coin_at (U(h := info_of c)) p) k) = credit (c_vout c) k"
    unfolding live_credit(2) [symmetric] by (subst sum.reindex) (auto simp: inj_on_def coin_at_update)
  also have "(\<Sum>p\<in>?old. worth (coin_at (U(h := info_of c)) p) k) = (\<Sum>p\<in>?old. worth (coin_at U p) k)"
    by (intro sum.cong refl) (simp add: coin_at_update)
  also have "\<dots> \<le> circulating U k"
    unfolding circulating_def by (rule sum_mono2 [OF assms(1)]) (auto intro: sane_worth [OF assms(2)])
  finally show "circulating (U(h := info_of c)) k \<le> circulating U k + credit (c_vout c) k" by (simp only: add_right_mono)
qed

section \<open>The ledger\<close>

text \<open>A transaction against the unspent outputs: its inputs are there and cover what it pays out, and their scripts verify.\<close>
definition tx_valid :: "('k, 'x) crypto_scheme \<Rightarrow> 'l bn_lib \<Rightarrow> u32 \<Rightarrow> utxo_map \<Rightarrow> CTransaction \<Rightarrow> bool" where
  "tx_valid C L flags U tx \<longleftrightarrow> tx_IsCoinBase tx \<or>
     list_all (live_input U) (vin tx) \<and> (\<forall>k. credit (vout tx) k \<le> credit (spent_outs U (vin tx)) k) \<and>
     list_all (check_spec C L) (map (check_for U tx flags) [0..<length (vin tx)])"

text \<open>The transactions of a block with their hashes, one after the other.\<close>
fun txs_valid ::
  "('k, 'x) crypto_scheme \<Rightarrow> 'l bn_lib \<Rightarrow> u32 \<Rightarrow> u32 \<Rightarrow> utxo_map \<Rightarrow> (CTransaction \<times> uint256) list \<Rightarrow> bool" where
  "txs_valid C L flags height U [] = True"
| "txs_valid C L flags height U ((tx, hash) # r) =
     (tx_valid C L flags U tx \<and> txs_valid C L flags height (connected U tx height hash) r)"

fun txs_connected :: "u32 \<Rightarrow> utxo_map \<Rightarrow> (CTransaction \<times> uint256) list \<Rightarrow> utxo_map" where
  "txs_connected height U [] = U"
| "txs_connected height U ((tx, hash) # r) = txs_connected height (connected U tx height hash) r"

lemma all_sane_coin: "all_sane U \<longleftrightarrow> (\<forall>p out. coin_at U p = Some out \<longrightarrow> sane_value (nValue out))"
proof
  assume "all_sane U"
  then show "\<forall>p out. coin_at U p = Some out \<longrightarrow> sane_value (nValue out)"
    unfolding all_sane_def coin_at_def by (auto split: option.splits)
next
  assume r: "\<forall>p out. coin_at U p = Some out \<longrightarrow> sane_value (nValue out)"
  show "all_sane U" unfolding all_sane_def
  proof (intro allI impI)
    fix h cb ht v outs n out assume "U h = Some (cb, ht, v, outs) \<and> outs n = Some out"
    then have "coin_at U (h, n) = Some out" by (simp add: coin_at_def)
    then show "sane_value (nValue out)" using r by blast
  qed
qed

lemma heights_spent: "heights_set U \<Longrightarrow> list_all (live_input U) v \<Longrightarrow> distinct (map prevout v) \<Longrightarrow> heights_set (spent U v)"
proof (induction v arbitrary: U)
  case (Cons i v)
  obtain cb h w outs where u: "U (in_hash i) = Some (cb, h, w, outs)" using Cons.prems(2) by (auto simp: live_input_def)
  then have "h \<noteq> 0" using Cons.prems(1) unfolding heights_set_def by blast
  then have "heights_set (spend1 U i)"
    using Cons.prems(1) by (simp add: heights_set_def spend1_def spend_info_def u)
  then show ?case using Cons spend_others(2) [of U i v] by simp
qed simp

text \<open>What the ledger keeps, and the money it adds.\<close>
definition ledger_ok :: "utxo_map \<Rightarrow> bool" where
  "ledger_ok U \<longleftrightarrow> all_sane U \<and> heights_set U \<and> finite (coin_set U)"

lemma connected_ok:
  assumes "ledger_ok U" and "tx_sane tx" and "height \<noteq> 0"
    and "tx_IsCoinBase tx \<or> list_all (live_input U) (vin tx) \<and> (\<forall>k. credit (vout tx) k \<le> credit (spent_outs U (vin tx)) k)"
  shows "ledger_ok (connected U tx height hash)"
    and "circulating (connected U tx height hash) k \<le> circulating U k + (if tx_IsCoinBase tx then credit (vout tx) k else 0)"
proof -
  let ?S = "if tx_IsCoinBase tx then U else spent U (vin tx)"
  have U: "all_sane U" "heights_set U" "finite (coin_set U)" using assms(1) by (simp_all add: ledger_ok_def)
  have d: "distinct (map prevout (vin tx))" and outs: "\<forall>out\<in>set (vout tx). sane_value (nValue out)"
    using assms(2) by (simp_all add: tx_sane_def)
  have S: "all_sane ?S" "heights_set ?S" "finite (coin_set ?S)"
    "circulating ?S k \<le> circulating U k - (if tx_IsCoinBase tx then 0 else credit (vout tx) k)"
  proof -
    have live: "list_all (live_input U) (vin tx)" if "\<not> tx_IsCoinBase tx" using assms(4) that by simp
    show "all_sane ?S"
      unfolding all_sane_coin
    proof (intro allI impI)
      fix p out assume "coin_at ?S p = Some out"
      then have "coin_at U p = Some out"
        using circ_spent(3) [OF live d U(3), of p] by (cases "tx_IsCoinBase tx") auto
      then show "sane_value (nValue out)" using U(1) unfolding all_sane_coin by blast
    qed
    show "heights_set ?S" using U(2) heights_spent [OF U(2) live d] by simp
    show "finite (coin_set ?S)" using U(3) circ_spent(2) [OF live d U(3)] by (auto intro: finite_subset)
    show "circulating ?S k \<le> circulating U k - (if tx_IsCoinBase tx then 0 else credit (vout tx) k)"
      using circ_spent(1) [OF live d U(3), of k] assms(4) by (cases "tx_IsCoinBase tx") auto
  qed
  have e: "connected U tx height hash = ?S(hash := info_of (coins_of_tx tx height))" by (simp add: connected_def)
  have c: "c_vout (coins_of_tx tx height) = vout tx" "c_nHeight (coins_of_tx tx height) = height" by (simp_all add: coins_of_tx_def)
  show "circulating (connected U tx height hash) k \<le> circulating U k + (if tx_IsCoinBase tx then credit (vout tx) k else 0)"
    using circ_update(2) [OF S(3,1), of hash "coins_of_tx tx height" k] S(4) unfolding e c by (simp split: if_splits)
  have "all_sane (connected U tx height hash)"
    unfolding all_sane_coin e coin_at_update c
  proof (intro allI impI)
    fix p out assume o: "(if fst p = hash then live_outs (vout tx) (snd p) else coin_at ?S p) = Some out"
    show "sane_value (nValue out)"
    proof (cases "fst p = hash")
      case True
      then have "out \<in> set (vout tx)" using o by (auto simp: live_outs_def is_avail_def split: if_splits)
      then show ?thesis using outs by blast
    next
      case False
      then have "coin_at ?S p = Some out" using o by simp
      then show ?thesis using S(1) unfolding all_sane_coin by blast
    qed
  qed
  moreover have "heights_set (connected U tx height hash)"
    using S(2) assms(3) unfolding e by (auto simp: heights_set_def info_of_live c split: if_splits)
  moreover have "finite (coin_set (connected U tx height hash))"
    using circ_update(1) [OF S(3,1)] unfolding e .
  ultimately show "ledger_ok (connected U tx height hash)" by (simp add: ledger_ok_def)
qed

text \<open>The circulation grows by what the coinbases pay.\<close>
lemma txs_connected_ok:
  assumes "ledger_ok U" and "\<forall>(tx, hash)\<in>set txs. tx_sane tx" and "height \<noteq> 0" and "txs_valid C L flags height U txs"
  shows "ledger_ok (txs_connected height U txs)"
    and "circulating (txs_connected height U txs) k \<le> circulating U k + (\<Sum>(tx, hash)\<leftarrow>txs. if tx_IsCoinBase tx then credit (vout tx) k else 0)"
proof -
  have "ledger_ok (txs_connected height U txs) \<and> circulating (txs_connected height U txs) k \<le>
      circulating U k + (\<Sum>(tx, hash)\<leftarrow>txs. if tx_IsCoinBase tx then credit (vout tx) k else 0)"
    using assms
  proof (induction txs arbitrary: U)
    case (Cons a txs)
    obtain tx hash where a: "a = (tx, hash)" by (cases a)
    have s: "tx_sane tx" using Cons.prems(2) a by simp
    have v: "tx_IsCoinBase tx \<or> list_all (live_input U) (vin tx) \<and> (\<forall>k. credit (vout tx) k \<le> credit (spent_outs U (vin tx)) k)"
      using Cons.prems(4) a by (auto simp: tx_valid_def)
    note c = connected_ok [OF Cons.prems(1) s Cons.prems(3) v, of hash]
    have "ledger_ok (txs_connected height (connected U tx height hash) txs) \<and>
      circulating (txs_connected height (connected U tx height hash) txs) k \<le>
      circulating (connected U tx height hash) k + (\<Sum>(tx, hash)\<leftarrow>txs. if tx_IsCoinBase tx then credit (vout tx) k else 0)"
      using Cons.IH [OF c(1)] Cons.prems a by auto
    with c(2) [of k] show ?case unfolding a by simp
  qed simp
  then show "ledger_ok (txs_connected height U txs)" "circulating (txs_connected height U txs) k \<le>
      circulating U k + (\<Sum>(tx, hash)\<leftarrow>txs. if tx_IsCoinBase tx then credit (vout tx) k else 0)" by blast+
qed

section \<open>The loop over the transactions\<close>

lemma no_answer: "(\<forall>x y. a \<noteq> Some (x, y)) \<longleftrightarrow> a = None"
  by (cases a) auto

context coins_view begin

lemma GetOutputFor_ok:
  assumes "cache_wf good c" and "length (in_hash i) = WIDTH256" and "prev_out (cache_utxo utxo c) i = Some out"
  shows "\<exists>c'. tx_GetOutputFor V i c = Some (out, c') \<and> cache_wf good c' \<and> cache_utxo utxo c' = cache_utxo utxo c"
proof -
  have "cache_utxo utxo c (in_hash i) \<noteq> None" using assms(3) by (auto simp: prev_out_def split: option.splits)
  from ref [OF assms(1,2) this] obtain coins c' where r: "cache_GetRef V c (in_hash i) = Some (coins, c')" "cache_wf good c'"
    "cache_utxo utxo c' = cache_utxo utxo c" "info_of coins = cache_utxo utxo c (in_hash i)" by blast
  then have "live_outs (c_vout coins) (in_n i) = Some out"
    using assms(3) by (auto simp: prev_out_def info_of_Some split: option.splits)
  then have "coins_IsAvailable coins (in_n i)" "c_vout coins ! in_n i = out"
    by (auto simp: live_outs_def is_avail_def coins_IsAvailable_def split: if_splits)
  with r show ?thesis by (simp add: tx_GetOutputFor_def)
qed

lemma value_in_ok:
  assumes "cache_wf good c" and "list_all (\<lambda>i. length (in_hash i) = WIDTH256) v" and "list_all (live_input (cache_utxo utxo c)) v"
  shows "\<exists>c'. value_in_loop V v n c = Some (foldl cash_plus_assign n (map nValue (spent_outs (cache_utxo utxo c) v)), c')
    \<and> cache_wf good c' \<and> cache_utxo utxo c' = cache_utxo utxo c"
  using assms
proof (induction v arbitrary: c n)
  case (Cons i v)
  obtain out where out: "prev_out (cache_utxo utxo c) i = Some out" using Cons.prems(3) by (auto simp: live_prev_out)
  obtain c1 where c1: "tx_GetOutputFor V i c = Some (out, c1)" "cache_wf good c1" "cache_utxo utxo c1 = cache_utxo utxo c"
    using GetOutputFor_ok [OF Cons.prems(1) _ out] Cons.prems(2) by auto
  have v: "list_all (\<lambda>i. length (in_hash i) = WIDTH256) v" "list_all (live_input (cache_utxo utxo c)) v"
    using Cons.prems(2,3) by simp_all
  from Cons.IH [OF c1(2), unfolded c1(3), OF v, of "cash_plus_assign n (nValue out)"] c1(1) out show ?case by simp
qed simp

lemma p2sh_sigops_ok:
  assumes "cache_wf good c" and "list_all (\<lambda>i. length (in_hash i) = WIDTH256) v" and "list_all (live_input (cache_utxo utxo c)) v"
  shows "\<exists>m c'. p2sh_sigops_loop V v n c = Some (m, c') \<and> cache_wf good c' \<and> cache_utxo utxo c' = cache_utxo utxo c"
  using assms
proof (induction v arbitrary: c n)
  case (Cons i v)
  obtain out where out: "prev_out (cache_utxo utxo c) i = Some out" using Cons.prems(3) by (auto simp: live_prev_out)
  obtain c1 where c1: "tx_GetOutputFor V i c = Some (out, c1)" "cache_wf good c1" "cache_utxo utxo c1 = cache_utxo utxo c"
    using GetOutputFor_ok [OF Cons.prems(1) _ out] Cons.prems(2) by auto
  have v: "list_all (\<lambda>i. length (in_hash i) = WIDTH256) v" "list_all (live_input (cache_utxo utxo c)) v"
    using Cons.prems(2,3) by simp_all
  let ?n = "if IsPayToScriptHash (scriptPubKey out) then n + GetSigOpCount_p2sh (scriptPubKey out) (scriptSig i) else n"
  from Cons.IH [OF c1(2), unfolded c1(3), OF v, of ?n] c1(1) out show ?case by simp
qed simp

lemma fee_fixed:
  assumes "\<forall>out\<in>set ins. sane_value (nValue out)" and "\<forall>out\<in>set outs. sane_value (nValue out)"
  shows "fees_plus_assign f (fees_of_cash (cash_minus (total_out ins cash_empty) (total_out outs cash_empty))) = (f, fixed f \<noteq> 0)"
proof -
  have t: "cash_wf (total_out xs cash_empty) \<and> fixed (total_out xs cash_empty) = 0"
    if "\<forall>out\<in>set xs. sane_value (nValue out)" for xs
    using cash_sums [of cash_empty "map nValue xs"] that by (simp add: total_out_def sane_value_def)
  show ?thesis
    using t [OF assms(1)] t [OF assms(2)]
    by (simp add: fees_plus_assign_def fees_of_cash_def cash_assign_def cash_minus_simps(1))
qed

lemma connect_inputs_ok:
  assumes "cache_wf good (b_view s)" and "cache_sound C (b_sigcache s)" and "tx_sane tx" and "\<not> tx_IsCoinBase tx"
    and "all_sane (cache_utxo utxo (b_view s))"
    and "connect_inputs C L E V H fScriptChecks thr strict flags st tx s = Inr (None, s')"
  shows "\<exists>view n cache new. s' = s\<lparr>b_view := view, nSigOps := n, b_sigcache := cache, vChecks := vChecks s @ new\<rparr>
    \<and> cache_wf good view \<and> cache_utxo utxo view = cache_utxo utxo (b_view s) \<and> cache_sound C cache
    \<and> list_all (live_input (cache_utxo utxo (b_view s))) (vin tx)
    \<and> (\<forall>k. credit (vout tx) k \<le> credit (spent_outs (cache_utxo utxo (b_view s)) (vin tx)) k)
    \<and> (fScriptChecks \<longrightarrow> list_all (check_spec C L) new \<longrightarrow>
         list_all (check_spec C L) (map (check_for (cache_utxo utxo (b_view s)) tx flags) [0..<length (vin tx)]))"
proof -
  let ?U = "cache_utxo utxo (b_view s)"
  have tx: "tx_ok tx" using assms(3) by (simp add: tx_sane_def)
  obtain f v1 where h: "tx_HaveInputs V tx (b_view s) = Some (f, v1)"
    using assms(6) by (auto simp: connect_inputs_def ebind_eq_Inr asserted_eq_Inr)
  have f using assms(6) h by (cases f) (auto simp: connect_inputs_def)
  note live = HaveInputs_live [OF assms(1) tx assms(4) h]
  note in1 = live(3) [OF \<open>f\<close>]
  let ?p = "if strict then tx_GetP2SHSigOpCount V tx v1 else Some (0, v1)"
  obtain n v2 where p: "?p = Some (n, v2)" "cache_wf good v2" "cache_utxo utxo v2 = ?U"
  proof (cases strict)
    case True
    obtain n v2 where "p2sh_sigops_loop V (vin tx) 0 v1 = Some (n, v2)" "cache_wf good v2" "cache_utxo utxo v2 = ?U"
      using p2sh_sigops_ok [OF live(1,4)] in1 live(2) by metis
    then show ?thesis using that True assms(4) by (simp add: tx_GetP2SHSigOpCount_def)
  next
    case False
    then show ?thesis using that live(1,2) by simp
  qed
  have p': "(if strict then asserted (tx_GetP2SHSigOpCount V tx v1) else Inr (0, v1)) = Inr (n, v2)"
    using p(1) by (cases strict) simp_all
  have few: "\<not> (strict \<and> nSigOps s + n > MAX_BLOCK_SIGOPS)"
    using assms(6) h \<open>f\<close> p' by (auto simp: connect_inputs_def Let_def split: if_splits)
  let ?in = "total_out (spent_outs ?U (vin tx)) cash_empty"
  obtain v3 where v3: "tx_GetValueIn V tx v2 = Some (?in, v3)" "cache_wf good v3" "cache_utxo utxo v3 = ?U"
    using value_in_ok [OF p(2) live(4), unfolded p(3), OF in1, of cash_empty] assms(4)
    by (auto simp: tx_GetValueIn_def total_out_def)
  obtain vo where vo: "tx_GetValueOut tx = Inr vo"
    using assms(6) h \<open>f\<close> p' few v3 by (cases strict) (auto simp: connect_inputs_def Let_def ebind_eq_Inr thrown_eq_Inr)
  then have vo': "vo = total_out (vout tx) cash_empty"
    using GetValueOut_exact [OF tx] by (auto split: if_splits)
  have "\<forall>out\<in>set (spent_outs ?U (vin tx)). sane_value (nValue out)"
    using in1 sane_prev_out [OF assms(5)] by (auto simp: list_all_iff live_prev_out)
  moreover have "\<forall>out\<in>set (vout tx). sane_value (nValue out)" using assms(3) by (simp add: tx_sane_def)
  ultimately have fee: "fst (fees_plus_assign (nFees s) (fees_of_cash (cash_minus ?in vo))) = nFees s"
    unfolding vo' by (subst fee_fixed) simp_all
  let ?pv = "if thr then Some [] else None :: CScriptCheck list option"
  obtain st' v4 pv' cache where ci:
    "CheckInputs C L E V H tx st v3 fScriptChecks flags ?pv (b_sigcache s) = Inr ((True, st'), v4, pv', cache)"
    "s' = s\<lparr>b_view := v4, nSigOps := nSigOps s + n, b_sigcache := cache,
            vChecks := vChecks s @ (case pv' of Some q \<Rightarrow> q | None \<Rightarrow> [])\<rparr>"
    using assms(6) h \<open>f\<close> p' few v3(1) vo fee
    by (cases strict) (auto simp: connect_inputs_def Let_def ebind_eq_Inr thrown_def split: if_splits)
  have "all_sane (cache_utxo utxo v3)" using assms(5) v3(3) by simp
  note ok = CheckInputs_ok [OF v3(2) assms(2,3,4) this ci(1), unfolded v3(3)]
  let ?checks = "map (check_for ?U tx flags) [0..<length (vin tx)]"
  have pv: "pv' = (if fScriptChecks then map_option (\<lambda>q. q @ ?checks) ?pv else ?pv)"
    and now: "fScriptChecks \<and> ?pv = None \<longrightarrow> list_all (check_spec C L) ?checks"
    using ok by (auto simp: Let_def)
  have "fScriptChecks \<longrightarrow> list_all (check_spec C L) (case pv' of Some q \<Rightarrow> q | None \<Rightarrow> []) \<longrightarrow> list_all (check_spec C L) ?checks"
    using now unfolding pv by (cases thr) auto
  then show ?thesis using ok ci(2) by blast
qed

lemma connect_tx_ok:
  assumes "cache_wf good (b_view s)" and "cache_sound C (b_sigcache s)" and "tx_sane tx"
    and "ledger_ok (cache_utxo utxo (b_view s))" and "storable (HK hash, coins_of_tx tx height)"
    and "connect_tx C L E V H fScriptChecks thr strict flags height st tx hash s = Inr (None, s')"
  shows "cache_wf good (b_view s') \<and> cache_utxo utxo (b_view s') = connected (cache_utxo utxo (b_view s)) tx height hash
    \<and> cache_sound C (b_sigcache s') \<and> nFees s' = nFees s
    \<and> (tx_IsCoinBase tx \<or> list_all (live_input (cache_utxo utxo (b_view s))) (vin tx) \<and>
         (\<forall>k. credit (vout tx) k \<le> credit (spent_outs (cache_utxo utxo (b_view s)) (vin tx)) k))
    \<and> (\<exists>new. vChecks s' = vChecks s @ new
         \<and> (fScriptChecks \<longrightarrow> list_all (check_spec C L) new \<longrightarrow> tx_valid C L flags (cache_utxo utxo (b_view s)) tx))"
proof -
  let ?U = "cache_utxo utxo (b_view s)" and ?s = "s\<lparr>nSigOps := nSigOps s + tx_GetLegacySigOpCount tx\<rparr>"
  have few: "\<not> nSigOps ?s > MAX_BLOCK_SIGOPS" using assms(6) by (auto simp: connect_tx_def Let_def)
  obtain s1 where s1: "(if \<not> tx_IsCoinBase tx then connect_inputs C L E V H fScriptChecks thr strict flags st tx ?s
      else Inr (None, ?s)) = Inr (None, s1)"
    using assms(6) few unfolding connect_tx_def by (auto simp: ebind_eq_Inr Let_def no_answer split: if_splits)
  have a: "cache_wf good (b_view s1) \<and> cache_utxo utxo (b_view s1) = ?U \<and> cache_sound C (b_sigcache s1) \<and> nFees s1 = nFees s
    \<and> (tx_IsCoinBase tx \<or> list_all (live_input ?U) (vin tx) \<and> (\<forall>k. credit (vout tx) k \<le> credit (spent_outs ?U (vin tx)) k))
    \<and> (\<exists>new. vChecks s1 = vChecks s @ new
         \<and> (fScriptChecks \<longrightarrow> list_all (check_spec C L) new \<longrightarrow> tx_valid C L flags ?U tx))"
  proof (cases "tx_IsCoinBase tx")
    case True
    then show ?thesis using s1 assms(1,2) by (auto simp: tx_valid_def)
  next
    case False
    have "all_sane (cache_utxo utxo (b_view ?s))" using assms(4) by (simp add: ledger_ok_def)
    from connect_inputs_ok [OF _ _ assms(3) False this] s1 False assms(1,2) show ?thesis
      by (fastforce simp: tx_valid_def)
  qed
  have sp: "spendable (cache_utxo utxo (b_view s1)) (vin tx)" if cb: "\<not> tx_IsCoinBase tx"
  proof -
    have "list_all (\<lambda>i. length (in_hash i) = WIDTH256) (vin tx)" "distinct (map prevout (vin tx))"
      using assms(3) by (auto simp: tx_sane_def tx_ok_def txin_ok_def outpoint_ok_def list_all_iff)
    then have "tx_fits tx" using cb by (simp add: tx_fits_def)
    from live_spendable [OF this] show ?thesis using a assms(4) cb by (simp add: ledger_ok_def)
  qed
  have wf1: "cache_wf good (b_view s1)" using a by blast
  obtain view u where v: "tx_UpdateCoins V tx (b_view s1) \<lparr>vprevout = []\<rparr> height hash = Some (view, u)"
    "cache_wf good view" "cache_utxo utxo view = connected (cache_utxo utxo (b_view s1)) tx height hash"
    using UpdateCoins_ok [OF wf1 assms(5), of "\<lparr>vprevout = []\<rparr>"] sp by blast
  have "b_view s' = view" "b_sigcache s' = b_sigcache s1" "nFees s' = nFees s1" "vChecks s' = vChecks s1"
    using assms(6) few s1 v(1) by (auto simp: connect_tx_def Let_def)
  then show ?thesis using a v by simp
qed

lemma connect_loop_ok:
  assumes "cache_wf good (b_view s)" and "cache_sound C (b_sigcache s)"
    and "\<forall>(tx, hash)\<in>set txs. tx_sane tx \<and> storable (HK hash, coins_of_tx tx height)" and "height \<noteq> 0"
    and "ledger_ok (cache_utxo utxo (b_view s))"
    and "connect_loop C L E V H fScriptChecks thr strict flags height st txs s = Inr (None, s')"
  shows "cache_wf good (b_view s') \<and> cache_utxo utxo (b_view s') = txs_connected height (cache_utxo utxo (b_view s)) txs
    \<and> cache_sound C (b_sigcache s') \<and> nFees s' = nFees s
    \<and> (\<exists>new. vChecks s' = vChecks s @ new
         \<and> (fScriptChecks \<longrightarrow> list_all (check_spec C L) new \<longrightarrow> txs_valid C L flags height (cache_utxo utxo (b_view s)) txs))"
  using assms
proof (induction txs arbitrary: s)
  case Nil
  then show ?case by simp
next
  case (Cons a txs)
  obtain tx hash where a: "a = (tx, hash)" by (cases a)
  let ?U = "cache_utxo utxo (b_view s)"
  obtain s1 where s1: "connect_tx C L E V H fScriptChecks thr strict flags height st tx hash s = Inr (None, s1)"
    "connect_loop C L E V H fScriptChecks thr strict flags height st txs s1 = Inr (None, s')"
    using Cons.prems(6) by (auto simp: a ebind_eq_Inr no_answer split: if_splits)
  have tx: "tx_sane tx" "storable (HK hash, coins_of_tx tx height)" using Cons.prems(3) a by auto
  note c = connect_tx_ok [OF Cons.prems(1,2) tx(1) Cons.prems(5) tx(2) s1(1)]
  then have c': "cache_wf good (b_view s1)" "cache_sound C (b_sigcache s1)"
    "cache_utxo utxo (b_view s1) = connected ?U tx height hash" "nFees s1 = nFees s"
    "tx_IsCoinBase tx \<or> list_all (live_input ?U) (vin tx) \<and> (\<forall>k. credit (vout tx) k \<le> credit (spent_outs ?U (vin tx)) k)"
    by blast+
  obtain new where new: "vChecks s1 = vChecks s @ new"
    "fScriptChecks \<longrightarrow> list_all (check_spec C L) new \<longrightarrow> tx_valid C L flags ?U tx" using c by blast
  have led: "ledger_ok (cache_utxo utxo (b_view s1))"
    unfolding c'(3) by (rule connected_ok(1) [OF Cons.prems(5) tx(1) Cons.prems(4) c'(5)])
  have txs: "\<forall>(tx, hash)\<in>set txs. tx_sane tx \<and> storable (HK hash, coins_of_tx tx height)" using Cons.prems(3) by simp
  note IH = Cons.IH [OF c'(1,2) txs Cons.prems(4) led s1(2)]
  then obtain new2 where new2: "vChecks s' = vChecks s1 @ new2"
    "fScriptChecks \<longrightarrow> list_all (check_spec C L) new2 \<longrightarrow> txs_valid C L flags height (cache_utxo utxo (b_view s1)) txs" by blast
  have "vChecks s' = vChecks s @ (new @ new2)" using new(1) new2(1) by simp
  moreover have "fScriptChecks \<longrightarrow> list_all (check_spec C L) (new @ new2) \<longrightarrow> txs_valid C L flags height ?U (a # txs)"
    using new(2) new2(2) c'(3) by (simp add: a)
  ultimately show ?case using IH c'(3,4) unfolding a txs_connected.simps by auto
qed

end

lemma run_checks_ok:
  "cache_sound C cache \<Longrightarrow> run_checks C L E checks cache = Inr (ok, cache') \<Longrightarrow>
   cache_sound C cache' \<and> (ok \<longrightarrow> list_all (check_spec C L) checks)"
proof (induction checks arbitrary: cache ok)
  case (Cons check checks)
  obtain o1 c1 o2 where r: "run_check C L E check cache = Inr (o1, c1)" "run_checks C L E checks c1 = Inr (o2, cache')" "ok = (o1 \<and> o2)"
    using Cons.prems(2) by (auto simp: ebind_eq_Inr)
  have "sc_nIn check < length (vin (ptxTo check))"
    using r(1) by (auto simp: run_check_def element_def split: if_splits)
  from run_check_verdict [OF Cons.prems(1) this, of L E] r(1) have "cache_sound C c1" "o1 = check_spec C L check" by auto
  with Cons.IH [OF this(1) r(2)] r(3) show ?case by simp
qed simp

context coins_view begin

lemma bip30_ok:
  assumes "cache_wf good c" and "list_all (\<lambda>h. length h = WIDTH256) hs" and "bip30_loop V hs c = Some (f, c')"
  shows "cache_wf good c' \<and> cache_utxo utxo c' = cache_utxo utxo c \<and> (\<not> f \<longrightarrow> (\<forall>h\<in>set hs. cache_utxo utxo c h = None))"
  using assms
proof (induction hs arbitrary: c)
  case (Cons h hs)
  let ?U = "cache_utxo utxo c"
  have w: "length h = WIDTH256" "list_all (\<lambda>h. length h = WIDTH256) hs" using Cons.prems(2) by simp_all
  obtain r c1 where r: "cache_FetchCoins V c h = Some (r, c1)" "cache_wf good c1" "cache_utxo utxo c1 = ?U"
    "info_opt r = ?U h" using fetch [OF Cons.prems(1) w(1)] by blast
  show ?case
  proof (cases r)
    case None
    then have "bip30_loop V hs c1 = Some (f, c')" using Cons.prems(3) r(1) by (simp add: cache_HaveCoins_def)
    from Cons.IH [OF r(2) w(2) this] show ?thesis using None r(3,4) by simp
  next
    case (Some coins)
    obtain r2 c2 where r2: "cache_FetchCoins V c1 h = Some (r2, c2)" "cache_wf good c2" "cache_utxo utxo c2 = ?U"
      "info_opt r2 = ?U h" using fetch [OF r(2) w(1)] r(3) by metis
    obtain coins2 where s2: "r2 = Some coins2"
      using Cons.prems(3) r(1) r2(1) Some by (cases r2) (auto simp: cache_HaveCoins_def cache_GetRef_def)
    show ?thesis
    proof (cases "coins_IsPruned coins2")
      case True
      then have "bip30_loop V hs c2 = Some (f, c')"
        using Cons.prems(3) r(1) r2(1) Some s2 by (simp add: cache_HaveCoins_def cache_GetRef_def)
      from Cons.IH [OF r2(2) w(2) this] show ?thesis using True s2 r2(3,4) by (simp add: info_of_def)
    next
      case False
      then have "c' = c2" "f" using Cons.prems(3) r(1) r2(1) Some s2 by (simp_all add: cache_HaveCoins_def cache_GetRef_def)
      then show ?thesis using r2 by simp
    qed
  qed
qed simp

end

lemma tip_utxo: "cache_utxo utxo (c\<lparr>pindexTip := t\<rparr>) = cache_utxo utxo c"
  by (rule ext) (simp add: cache_utxo_def split: option.split)

lemma cash_gt_circuits:
  "cash_gt a b \<longleftrightarrow> (local_map a \<noteq> [] \<or> local_map b \<noteq> []) \<and> list_all (\<lambda>(c, v). sint (amount b c) < sint v) (local_map a)"
  by (auto simp: list_all_iff cash_gt_def gt_loop_iff getLocal_def cash_size_def amount_def)

lemma store_undo_view:
  assumes "store_undo C env p u st n = Inr (r, n')"
  shows "n_view n' = n_view n \<and> n_sigcache n' = n_sigcache n"
proof -
  obtain ok st' pos files fs where f: "FindUndoPos (e_find_io env) (e_space env) (e_info_stored env) st (nFile (n_heap n p))
      (word_of_nat (length (ser_blockundo C u)) + 40) (n_files n) (n_disk n) = ((ok, st'), pos, files, fs)"
    by (metis surj_pair)
  show ?thesis
  proof (cases ok)
    case False
    then show ?thesis using assms f by (auto simp: store_undo_def Let_def)
  next
    case True
    then obtain q where q: "deref (pprev (n_heap n p)) = Inr q" using assms f by (auto simp: store_undo_def Let_def ebind_eq_Inr)
    obtain a fs' where "undo_WriteToDisk C (e_write_io env) u pos (phashBlock (n_heap n q)) fs = (a, fs')" by fastforce
    then show ?thesis using assms f True q
      by (auto simp: store_undo_def Let_def set_index_def split: option.splits prod.splits if_splits)
  qed
qed

lemma write_undo_view:
  assumes "write_undo C env p u st n = Inr (r, n')"
  shows "n_view n' = n_view n \<and> n_sigcache n' = n_sigcache n"
proof (cases "\<not> pos_IsNull (GetUndoPos (n_heap n p)) \<and> \<not> nStatus (n_heap n p) AND 7 < 5")
  case True
  then show ?thesis using assms by (simp add: write_undo_def Let_def)
next
  case False
  then obtain answer n1 where 1: "(if pos_IsNull (GetUndoPos (n_heap n p)) then store_undo C env p u st n else Inr (None, n)) =
      Inr (answer, n1)"
    using assms by (auto simp: write_undo_def Let_def ebind_eq_Inr simp del: if_split)
  then have v: "n_view n1 = n_view n \<and> n_sigcache n1 = n_sigcache n" using store_undo_view [of C env p u st n answer n1] by (auto split: if_splits)
  have "n_view n' = n_view n1 \<and> n_sigcache n' = n_sigcache n1"
    using assms False 1 by (auto simp: write_undo_def set_index_def ebind_eq_Inr Let_def simp del: if_split split: if_split_asm)
  with v show ?thesis by simp
qed

lemma CheckBlock_accepts:
  assumes "block_ok b" and "length (ser_block b) < 2 ^ 32"
    and "CheckBlock C now fCheckPOW fCheckMerkleRoot b st = Some ((True, st'), b')"
  shows "st' = st \<and> b' = b\<lparr>vMerkleTree := snd (BuildMerkleTree C (vtx b))\<rparr>"
proof -
  have "block_rules C now fCheckMerkleRoot b" using CheckBlock_rules [OF assms] .
  then show ?thesis
    using assms(3) unfolding CheckBlock_cases [OF assms(1,2)] Let_def by (auto simp: block_rules_def list_all_iff)
qed

lemma tree_hashes:
  assumes "vtx b \<noteq> []"
  shows "those (map (blk_GetTxHash (snd (BuildMerkleTree C (vtx b))) (vtx b)) [0..<length (vtx b)]) = Some (txids C b)"
proof -
  have t: "take (length l) (concat (merkle_levels C l)) = l" for l
    by (subst merkle_levels.simps) simp
  let ?t = "snd (BuildMerkleTree C (vtx b))"
  have e: "take (length (vtx b)) ?t = txids C b"
    using t [of "map (tx_GetHash C) (vtx b)"] by (simp add: BuildMerkleTree_def Let_def merkle_tree_eq txids_def)
  have ne: "?t \<noteq> []" using e assms by (auto simp: txids_def)
  have len: "length (txids C b) = length (vtx b)" by (simp add: txids_def)
  have "map (blk_GetTxHash ?t (vtx b)) [0..<length (vtx b)] = map Some (txids C b)"
  proof (rule nth_equalityI)
    fix i assume "i < length (map (blk_GetTxHash ?t (vtx b)) [0..<length (vtx b)])"
    then have i: "i < length (vtx b)" by simp
    then have "?t ! i = txids C b ! i" unfolding e [symmetric] by simp
    then show "map (blk_GetTxHash ?t (vtx b)) [0..<length (vtx b)] ! i = map Some (txids C b) ! i"
      using i ne len by (simp add: blk_GetTxHash_def)
  qed (simp add: len)
  then show ?thesis by (simp add: those_Some)
qed

lemma block_tx_sane:
  assumes "block_ok b" and "block_rules C now f b" and "tx \<in> set (vtx b)"
  shows "tx_sane tx"
proof -
  have ok: "tx_ok tx" using assms(1,3) by (auto simp: block_ok_def list_all_iff)
  have "length (ser_tx tx) \<le> length (ser_vector ser_tx (vtx b))" by (rule element_length [OF assms(3)])
  also have "\<dots> \<le> length (ser_block b)" by (simp add: ser_block_def)
  also have "\<dots> < 2 ^ 32" using assms(2) by (simp add: block_rules_def block_fits_def)
  finally have len: "length (ser_tx tx) < 2 ^ 32" .
  have "tx_rules tx" using assms(2,3) by (simp add: block_rules_def)
  then have "fst (CheckTransaction tx vs_init)" using CheckTransaction_rules [OF ok, of vs_init] by simp
  then show ?thesis by (rule checked_tx_sane [OF ok len])
qed

lemma coinbase_credits:
  assumes "block_ok b" and "coinbase_first b" and "vtx b \<noteq> []" and "length hs = length (vtx b)"
  shows "(\<Sum>(tx, hash)\<leftarrow>zip (vtx b) hs. if tx_IsCoinBase tx then credit (vout tx) k else 0) = credit (vout (vtx b ! 0)) k"
proof -
  have "list_all tx_ok (vtx b)" using assms(1) by (simp add: block_ok_def)
  from coinbase_check [OF assms(3) this] assms(2)
  have c: "tx_IsCoinBase (vtx b ! 0)" "\<not> list_ex tx_IsCoinBase (drop 1 (vtx b))" by simp_all
  obtain tx r where v: "vtx b = tx # r" using assms(3) by (cases "vtx b") auto
  obtain h hs' where hs: "hs = h # hs'" using assms(4) v by (cases hs) auto
  have "(\<Sum>(tx, hash)\<leftarrow>zip l hs'. if tx_IsCoinBase tx then credit (vout tx) k else 0) = 0" if "\<not> list_ex tx_IsCoinBase l" for l
    using that
  proof (induction l arbitrary: hs')
    case (Cons x l)
    then show ?case by (cases hs') auto
  qed simp
  then show ?thesis using c by (simp add: v hs)
qed

section \<open>ConnectBlock refines the ledger\<close>

text \<open>An early return is a rejection.\<close>

lemma connect_inputs_answer:
  "connect_inputs C L E V H fScriptChecks thr strict flags st tx s = Inr (Some r, s') \<Longrightarrow> \<not> fst r"
  by (auto simp: connect_inputs_def ebind_eq_Inr Let_def split: if_splits)

lemma connect_tx_answer:
  "connect_tx C L E V H fScriptChecks thr strict flags height st tx hash s = Inr (Some r, s') \<Longrightarrow> \<not> fst r"
  using connect_inputs_answer
  by (fastforce simp: connect_tx_def ebind_eq_Inr Let_def split: if_splits)

lemma connect_loop_answer:
  "connect_loop C L E V H fScriptChecks thr strict flags height st txs s = Inr (Some r, s') \<Longrightarrow> \<not> fst r"
proof (induction txs arbitrary: s)
  case (Cons a txs)
  obtain tx hash where a: "a = (tx, hash)" by (cases a)
  obtain x s1 where x: "connect_tx C L E V H fScriptChecks thr strict flags height st tx hash s = Inr (x, s1)"
    "(if x \<noteq> None then Inr (x, s1) else connect_loop C L E V H fScriptChecks thr strict flags height st txs s1) = Inr (Some r, s')"
    using Cons.prems by (auto simp: a ebind_eq_Inr)
  show ?case
  proof (cases x)
    case None
    then show ?thesis using Cons.IH x(2) by simp
  next
    case (Some y)
    then show ?thesis using x connect_tx_answer by fastforce
  qed
qed simp

abbreviation block_txs :: "('k, 'x) crypto_scheme \<Rightarrow> CBlock \<Rightarrow> (CTransaction \<times> uint256) list" where
  "block_txs C b \<equiv> zip (vtx b) (txids C b)"

definition block_flags :: "CBlockIndex \<Rightarrow> u32" where
  "block_flags i = SCRIPT_VERIFY_NOCACHE OR (if uint (bi_nTime i) \<ge> 1409170687 then SCRIPT_VERIFY_P2SH else SCRIPT_VERIFY_NONE)"

text \<open>What the coinbase is allowed: the limit of the height without any fees, unless the block names one of two keys.\<close>
definition coinbase_allowed :: "int \<Rightarrow> CBlock \<Rightarrow> bool" where
  "coinbase_allowed height b \<longleftrightarrow>
     CheckPbk (cpbk b) \<or> \<not> cash_gt (total_out (vout (vtx b ! 0)) cash_empty) (GetBlockValue height cash_empty)"

text \<open>A block of a new height on top of the state of the node.\<close>
definition connectable :: "connect_env \<Rightarrow> ('k, 'x) crypto_scheme \<Rightarrow> bheap \<Rightarrow> CBlock \<Rightarrow> nat \<Rightarrow> bool" where
  "connectable env C H b p \<longleftrightarrow> block_ok b \<and> length (ser_block b) < 2 ^ 32 \<and> 0 < nHeight (H p) \<and> nHeight (H p) < 2 ^ 31 \<and>
     \<not> bu_eq (blk_GetHash C b) (hashGenesisBlock env) \<and>
     (\<forall>tx\<in>set (vtx b). coins_ok (coins_of_tx tx (word_of_int (nHeight (H p)))))"

context coins_view begin

lemma ConnectBlock_ok:
  assumes "cache_wf good (n_view n)" and "cache_sound C (n_sigcache n)" and "ledger_ok (cache_utxo utxo (n_view n))"
    and "connectable env C (n_heap n) b p"
    and "ConnectBlock C L E env V b p fJustCheck st n = Inr ((True, st'), n')"
  shows "cache_wf good (n_view n')"
    and "cache_sound C (n_sigcache n')"
    and "cache_utxo utxo (n_view n') =
      txs_connected (word_of_int (nHeight (n_heap n p))) (cache_utxo utxo (n_view n)) (block_txs C b)"
    and "txs_valid C L (block_flags (n_heap n p)) (word_of_int (nHeight (n_heap n p))) (cache_utxo utxo (n_view n)) (block_txs C b)"
    and "coinbase_allowed (nHeight (n_heap n p)) b"
    and "\<forall>h\<in>set (txids C b). cache_utxo utxo (n_view n) h = None"
    and "block_rules C (e_now env) (\<not> fJustCheck) b"
proof -
  let ?U = "cache_utxo utxo (n_view n)" and ?i = "n_heap n p"
  let ?h = "word_of_int (nHeight ?i) :: u32"
  have b: "block_ok b" "length (ser_block b) < 2 ^ 32" and hp: "0 < nHeight ?i" "nHeight ?i < 2 ^ 31"
    and nog: "\<not> bu_eq (blk_GetHash C b) (hashGenesisBlock env)"
    and co: "\<forall>tx\<in>set (vtx b). coins_ok (coins_of_tx tx ?h)"
    using assms(4) by (simp_all add: connectable_def)
  obtain st1 b1 where c: "CheckBlock C (e_now env) (\<not> fJustCheck) (\<not> fJustCheck) b st = Some ((True, st1), b1)"
    using assms(5) by (auto simp: ConnectBlock_def ebind_eq_Inr asserted_eq_Inr split: if_splits)
  note acc = CheckBlock_accepts [OF b c] and rules = CheckBlock_rules [OF b c]
  show "block_rules C (e_now env) (\<not> fJustCheck) b" by (rule rules)
  have b1: "b1 = b\<lparr>vMerkleTree := snd (BuildMerkleTree C (vtx b))\<rparr>" and st1: "st1 = st" using acc by simp_all
  have ne: "vtx b \<noteq> []" and cbf: "coinbase_first b" using rules by (simp_all add: block_rules_def block_fits_def)
  have b1s: "vtx b1 = vtx b" "cpbk b1 = cpbk b" "blk_GetHash C b1 = blk_GetHash C b"
    "those (map (blk_GetTxHash (vMerkleTree b1) (vtx b)) [0..<length (vtx b)]) = Some (txids C b)"
    using tree_hashes [OF ne] by (simp_all add: b1 blk_GetHash_def header_bytes_def)
  have nog1: "\<not> bu_eq (blk_GetHash C b1) (hashGenesisBlock env)" using nog b1s(3) by simp
  obtain best v1 where v1: "cache_GetBestBlock V (n_view n) = Some (best, v1)"
    using assms(5) c by (auto simp: ConnectBlock_def ebind_eq_Inr asserted_eq_Inr)
  note w1 = cache_best_ok [OF assms(1) v1]
  have at_best: "pprev ?i = best"
    using assms(5) c v1 by (auto simp: ConnectBlock_def Let_def split: if_splits)
  obtain o2 v2 where v2: "bip30_loop V (txids C b) v1 = Some (o2, v2)"
    using assms(5) c v1 at_best nog1 b1s
    by (auto simp: ConnectBlock_def Let_def ebind_eq_Inr asserted_eq_Inr)
  have wid: "list_all (\<lambda>h. length h = WIDTH256) (txids C b)" by (simp add: txids_def list_all_iff)
  have w1': "cache_wf good v1" "cache_utxo utxo v1 = ?U" using w1 by blast+
  note w2 = bip30_ok [OF w1'(1) wid v2, unfolded w1'(2)]
  have o2: "\<not> o2" using assms(5) c v1 at_best nog1 b1s v2 by (auto simp: ConnectBlock_def Let_def vs_DoS_def split: if_splits)
  then show "\<forall>h\<in>set (txids C b). ?U h = None" using w2 by blast
  have scr: "nHeight ?i \<ge> GetTotalBlocksEstimate (fCheckpoints env)"
    using hp by (simp add: GetTotalBlocksEstimate_def mapCheckpoints_def)
  let ?strict = "1409170687 \<le> uint (bi_nTime ?i)"
  let ?s = "\<lparr>b_view = v2, nFees = cash_empty, nSigOps = 0, vChecks = [],
      b_pos = txpos_of (GetBlockPos ?i) (GetSizeOfCompactSize (word_of_nat (length (vtx b)))),
      vPos = [], blockundo = [], b_sigcache = n_sigcache n\<rparr>"
  obtain a s where s: "connect_loop C L E V (n_heap n) True (fScriptThreads env) ?strict (block_flags ?i) ?h st (block_txs C b) ?s = Inr (a, s)"
    using assms(5) c v1 at_best nog1 b1s v2 o2 scr st1
    by (auto simp: ConnectBlock_def Let_def ebind_eq_Inr block_flags_def)
  have head: "ConnectBlock C L E env V b p fJustCheck st n =
      (let n = n\<lparr>n_view := b_view s, n_sigcache := b_sigcache s\<rparr>
       in case a of Some r \<Rightarrow> Inr (r, n) | None \<Rightarrow> finish_block C L E env b1 p fJustCheck st s n)"
    using c v1 at_best nog1 b1s v2 o2 scr st1 s
    by (simp add: ConnectBlock_def Let_def block_flags_def)
  have a: "a = None"
  proof (rule ccontr)
    assume "a \<noteq> None"
    then obtain r where r: "a = Some r" by auto
    then have "\<not> fst r" using connect_loop_answer s by blast
    moreover have "r = (True, st')" using head assms(5) r by (simp add: Let_def)
    ultimately show False by simp
  qed
  have fin: "finish_block C L E env b1 p fJustCheck st s (n\<lparr>n_view := b_view s, n_sigcache := b_sigcache s\<rparr>) = Inr ((True, st'), n')"
    using head assms(5) a by (simp add: Let_def)
  have sane: "\<forall>(tx, hash)\<in>set (block_txs C b). tx_sane tx \<and> storable (HK hash, coins_of_tx tx ?h)"
  proof (intro ballI, clarify)
    fix tx hash assume m: "(tx, hash) \<in> set (block_txs C b)"
    then have tx: "tx \<in> set (vtx b)" "hash \<in> set (txids C b)" by (auto dest: set_zip_leftD set_zip_rightD)
    then show "tx_sane tx \<and> storable (HK hash, coins_of_tx tx ?h)"
      using block_tx_sane [OF b(1) rules] co wid by (simp add: storable_def list_all_iff)
  qed
  have h0: "?h \<noteq> 0"
  proof
    assume "?h = 0"
    then have "uint ?h = 0" by simp
    then show False using hp by (simp add: uint_word_of_int)
  qed
  have wf2: "cache_wf good (b_view ?s)" "cache_utxo utxo (b_view ?s) = ?U" "cache_sound C (b_sigcache ?s)"
    using w2 assms(2) by simp_all
  have led: "ledger_ok (cache_utxo utxo (b_view ?s))" using assms(3) wf2(2) by simp
  from connect_loop_ok [OF wf2(1,3) sane h0 led s [unfolded a]]
  obtain new where loop: "cache_wf good (b_view s)" "cache_utxo utxo (b_view s) = txs_connected ?h ?U (block_txs C b)"
    "cache_sound C (b_sigcache s)" "nFees s = cash_empty" "vChecks s = new"
    "list_all (check_spec C L) new \<longrightarrow> txs_valid C L (block_flags ?i) ?h ?U (block_txs C b)"
    using wf2(2) by auto
  obtain paid where paid: "tx_GetValueOut (vtx b ! 0) = Inr paid"
    using fin b1s(1) by (auto simp: finish_block_def ebind_eq_Inr thrown_eq_Inr)
  have "tx_ok (vtx b ! 0)" using b(1) ne by (simp add: block_ok_def list_all_length)
  then have paid': "paid = total_out (vout (vtx b ! 0)) cash_empty"
    using GetValueOut_exact [of "vtx b ! 0"] paid by (auto split: if_splits)
  have lim: "\<not> (cash_gt paid (GetBlockValue (nHeight ?i) cash_empty) \<and> \<not> CheckPbk (cpbk b))"
    using fin b1s paid loop(4) by (auto simp: finish_block_def thrown_def vs_DoS_def split: if_splits)
  then show "coinbase_allowed (nHeight ?i) b" by (auto simp: coinbase_allowed_def paid')
  obtain ok cache where rc: "run_checks C L E new (b_sigcache s) = Inr (ok, cache)"
    using fin b1s paid loop(4,5) lim by (auto simp: finish_block_def thrown_def ebind_eq_Inr)
  have ok using fin b1s paid loop(4,5) lim rc by (auto simp: finish_block_def thrown_def vs_DoS_def Let_def split: if_splits)
  note checks = run_checks_ok [OF loop(3) rc]
  show "txs_valid C L (block_flags ?i) ?h ?U (block_txs C b)" using checks \<open>ok\<close> loop(6) by blast
  let ?n = "n\<lparr>n_view := b_view s, n_sigcache := cache\<rparr>"
  have rest: "(if fJustCheck then Inr ((True, st), ?n)
      else ebind (write_undo C env p \<lparr>vtxundo = blockundo s\<rparr> st ?n) (\<lambda>(answer, n).
        case answer of Some r \<Rightarrow> Inr (r, n)
        | None \<Rightarrow> ebind (if fTxIndex env then db_thrown (WriteTxIndex (pblocktree n) (vPos s)) else Inr (True, pblocktree n)) (\<lambda>(ok, d).
            let n = n\<lparr>pblocktree := d\<rparr>
            in if \<not> ok then Inr (vs_Error st, n)
               else ebind (asserted (cache_SetBestBlock (n_view n) (Some p))) (\<lambda>(ok, view).
                 if \<not> ok then Inl Assertion else Inr ((True, st), n\<lparr>n_view := view\<rparr>))))) = Inr ((True, st'), n')"
    using fin b1s paid loop(4,5) lim rc \<open>ok\<close> by (auto simp: finish_block_def thrown_def Let_def)
  have "\<exists>tip. n_view n' = (b_view s)\<lparr>pindexTip := tip\<rparr> \<and> n_sigcache n' = cache"
  proof (cases fJustCheck)
    case True
    then have "n' = ?n" using rest by simp
    then show ?thesis by (intro exI [of _ "pindexTip (b_view s)"]) simp
  next
    case False
    then obtain answer n1 where w: "write_undo C env p \<lparr>vtxundo = blockundo s\<rparr> st ?n = Inr (answer, n1)"
      using rest by (auto simp: ebind_eq_Inr)
    from write_undo_view [OF w] have v: "n_view n1 = b_view s" "n_sigcache n1 = cache" by simp_all
    show ?thesis
    proof (cases answer)
      case None
      then show ?thesis
        using rest False w v
        by (auto simp: ebind_eq_Inr Let_def cache_SetBestBlock_def vs_Error_def split: if_splits)
    next
      case (Some r)
      have "n' = n1" using rest False w Some by simp
      then show ?thesis using v by (intro exI [of _ "pindexTip (b_view s)"]) simp
    qed
  qed
  then obtain tip where n': "n_view n' = (b_view s)\<lparr>pindexTip := tip\<rparr>" "n_sigcache n' = cache" by blast
  show "cache_wf good (n_view n')" using loop(1) n' by (simp add: cache_wf_def)
  show "cache_sound C (n_sigcache n')" using checks n' by simp
  show "cache_utxo utxo (n_view n') = txs_connected ?h ?U (block_txs C b)"
    using loop(2) unfolding n'(1) by (simp add: tip_utxo)
qed

end

text \<open>C2: A block that \<open>ConnectBlock\<close> accepts on top of the best block is a step of the ledger: the view of the unspent outputs
  becomes the one after its transactions, each of which finds its inputs, covers what it pays out and satisfies every script;
  no unspent transaction is overwritten; the coinbase keeps to the limit of its height unless the block names one of two keys;
  and the caches stay sound.  This holds over any view with the contract, with and without script threads, and when the block
  is only checked.\<close>

theorem ConnectBlock_refines:
  assumes "coins_view V utxo good" and "cache_wf good (n_view n)" and "cache_sound C (n_sigcache n)"
    and "ledger_ok (cache_utxo utxo (n_view n))" and "connectable env C (n_heap n) b p"
    and "ConnectBlock C L E env V b p fJustCheck st n = Inr ((True, st'), n')"
  defines "U \<equiv> cache_utxo utxo (n_view n)" and "height \<equiv> nHeight (n_heap n p)"
  shows "cache_wf good (n_view n') \<and> cache_sound C (n_sigcache n')
    \<and> cache_utxo utxo (n_view n') = txs_connected (word_of_int height) U (block_txs C b)
    \<and> txs_valid C L (block_flags (n_heap n p)) (word_of_int height) U (block_txs C b)
    \<and> (\<forall>h\<in>set (txids C b). U h = None) \<and> coinbase_allowed height b"
  using coins_view.ConnectBlock_ok [OF assms(1-6)] unfolding U_def height_def by blast

text \<open>C1: A block that \<open>ConnectBlock\<close> accepts adds to the money in circulation, in every circuit, at most what its coinbase pays;
  the transactions between the coinbases create nothing.  What the coinbase pays is in turn bounded only in part: unless the
  block names one of two keys, some circuit the coinbase pays in stays within the limit of the height, or it pays nothing.\<close>

theorem money_supply:
  assumes "coins_view V utxo good" and "cache_wf good (n_view n)" and "cache_sound C (n_sigcache n)"
    and "ledger_ok (cache_utxo utxo (n_view n))" and "connectable env C (n_heap n) b p"
    and "ConnectBlock C L E env V b p fJustCheck st n = Inr ((True, st'), n')"
  defines "coinbase \<equiv> vout (vtx b ! 0)"
  shows "ledger_ok (cache_utxo utxo (n_view n'))
    \<and> circulating (cache_utxo utxo (n_view n')) k \<le> circulating (cache_utxo utxo (n_view n)) k + credit coinbase k
    \<and> (CheckPbk (cpbk b) \<or> local_map (total_out coinbase cash_empty) = []
        \<or> (\<exists>c v. (c, v) \<in> set (local_map (total_out coinbase cash_empty)) \<and>
             sint v \<le> sint (amount (GetBlockValue (nHeight (n_heap n p)) cash_empty) c)))"
proof (intro conjI)
  note ok = coins_view.ConnectBlock_ok [OF assms(1-6)]
  let ?h = "word_of_int (nHeight (n_heap n p)) :: u32"
  have b: "block_ok b" using assms(5) by (simp add: connectable_def)
  have r: "coinbase_first b" "vtx b \<noteq> []" using ok(7) by (simp_all add: block_rules_def block_fits_def)
  have sane: "\<forall>(tx, hash)\<in>set (block_txs C b). tx_sane tx"
    using block_tx_sane [OF b ok(7)] by (auto dest: set_zip_leftD)
  have "0 < nHeight (n_heap n p)" "nHeight (n_heap n p) < 2 ^ 31" using assms(5) by (simp_all add: connectable_def)
  then have "uint ?h \<noteq> 0" by (simp add: uint_word_of_int)
  then have h0: "?h \<noteq> 0" by auto
  note t = txs_connected_ok [OF assms(4) sane h0 ok(4)]
  have c: "(\<Sum>(tx, hash)\<leftarrow>block_txs C b. if tx_IsCoinBase tx then credit (vout tx) k else 0) = credit coinbase k"
    unfolding coinbase_def by (rule coinbase_credits [OF b r]) (simp add: txids_def)
  show "ledger_ok (cache_utxo utxo (n_view n'))" using t(1) ok(3) by simp
  show "circulating (cache_utxo utxo (n_view n')) k \<le> circulating (cache_utxo utxo (n_view n)) k + credit coinbase k"
    using t(2) [of k] ok(3) c by simp
  show "CheckPbk (cpbk b) \<or> local_map (total_out coinbase cash_empty) = []
      \<or> (\<exists>c v. (c, v) \<in> set (local_map (total_out coinbase cash_empty)) \<and>
           sint v \<le> sint (amount (GetBlockValue (nHeight (n_heap n p)) cash_empty) c))"
    using ok(5) unfolding coinbase_allowed_def coinbase_def cash_gt_circuits list_all_iff
    by (auto simp: not_less)
qed

section \<open>A coinbase that pays a circuit without limit\<close>

text \<open>A block of height 6, where no coinbase is due anything, with a coinbase that pays a large amount in one circuit and
  nothing in another: it is accepted.\<close>

definition generous_tx :: CTransaction where
  "generous_tx = coinbase_tx\<lparr>vout := [\<lparr>nValue = \<lparr>local_map = [(''EUR'', 1840000000000), (''TET'', 0)], fixed = 0\<rparr>,
     scriptPubKey = [0x76, 0xA9]\<rparr>]\<rparr>"

definition generous_block :: CBlock where
  "generous_block = (coinbase_block 5)\<lparr>vtx := [generous_tx], hashMerkleRoot := tx_GetHash example_crypto generous_tx\<rparr>"

abbreviation (input) generous_env :: connect_env where
  "generous_env \<equiv> \<lparr>e_now = 0, hashGenesisBlock = map (\<lambda>x. x + 1) (blk_GetHash example_crypto generous_block), fCheckpoints = True,
     fScriptThreads = True, fTxIndex = False, e_space = (\<lambda>_. True), e_info_stored = True, e_find_io = good_io, e_write_io = good_io\<rparr>"

abbreviation (input) generous_node :: "unit node" where
  "generous_node \<equiv> \<lparr>n_view = (cache_init ())\<lparr>pindexTip := Some 0\<rparr>,
     n_heap = (\<lambda>p. if p = 0 then bi_init\<lparr>nHeight := 5\<rparr> else bi_init\<lparr>nHeight := 6, pprev := Some 0\<rparr>),
     n_files = files_init, n_disk = (\<lambda>_. None), pblocktree = \<lparr>entries = [], readable = True, writable = True\<rparr>,
     n_sigcache = sigcache_init, pindexGenesisBlock = None\<rparr>"

lemma null_outpoint: "op_IsNull op_SetNull"
  by code_simp

lemma generous_tx_facts:
  "tx_ok generous_tx" "tx_rules generous_tx" "tx_sigops generous_tx = 0" "length (ser_tx generous_tx) = 82"
  "tx_IsCoinBase generous_tx"
proof -
  have v: "vin generous_tx = vin coinbase_tx" "nVersion generous_tx = nVersion coinbase_tx"
    "nLockTime generous_tx = nLockTime coinbase_tx" "Attachments generous_tx = []"
    by (simp_all add: generous_tx_def coinbase_tx_def)
  have n: "length (ser_CashName ''TET'') = 4" "length (ser_CashName ''EUR'') = 4"
    by (simp_all add: ser_CashName_def bytes_of_string_def ser_string_def ser_vch_def WriteCompactSize_def)
  then show *: "length (ser_tx generous_tx) = 82"
    by (simp add: generous_tx_def coinbase_tx_def ser_tx_def ser_vector_def ser_txin_def ser_outpoint_def ser_flat_def ser_txout_def ser_vch_def
        ser_cash_def ser_map_def ser_pair_def WriteCompactSize_def op_SetNull_def bu_of64_def)
  show ok: "tx_ok generous_tx"
    by (simp add: generous_tx_def coinbase_tx_def op_SetNull_def tx_ok_def txin_ok_def outpoint_ok_def txout_ok_def cash_ok_def cash_wf_def bu_of64_def)
  have "size_tx generous_tx = 82" using size_tx_ser [OF ok] * by simp
  then show "tx_rules generous_tx"
    by (simp add: tx_rules_def tx_in_bounds_def) (simp add: generous_tx_def coinbase_tx_def output_in_range_def total_in_range_def total_out_def cash_plus_assign_def getLocal_def cash_empty_def at_def)
  show "tx_sigops generous_tx = 0"
    using coinbase_tx_facts(3) by (simp add: tx_sigops_def generous_tx_def coinbase_tx_def)
  show "tx_IsCoinBase generous_tx" unfolding tx_IsCoinBase_def v by (simp add: coinbase_tx_def null_outpoint)
qed

lemma generous_block_facts:
  "block_ok generous_block" "length (ser_block generous_block) < 2 ^ 32" "vtx generous_block = [generous_tx]"
  "txids example_crypto generous_block = [tx_GetHash example_crypto generous_tx]"
  "CheckBlock example_crypto 0 False False generous_block st =
     Some ((True, st), generous_block\<lparr>vMerkleTree := [tx_GetHash example_crypto generous_tx]\<rparr>)"
proof -
  show v: "vtx generous_block = [generous_tx]" by (simp add: generous_block_def)
  then show i: "txids example_crypto generous_block = [tx_GetHash example_crypto generous_tx]" by (simp add: txids_def)
  have "block_ok (coinbase_block 5)" by (rule coinbase_block_ok)
  then show ok: "block_ok generous_block"
    by (simp add: block_ok_def generous_block_def generous_tx_facts)
  have "length (ser_block generous_block) = length (ser_block (coinbase_block 5)) + 12"
    by (simp add: generous_block_def coinbase_block_def ser_block_def ser_header_def ser_vector_def generous_tx_facts coinbase_tx_facts length_ser_hash)
  then have l: "length (ser_block generous_block) = 191" by (simp add: coinbase_block_ok)
  then show len: "length (ser_block generous_block) < 2 ^ 32" by simp
  have "merkle_levels example_crypto [h] = [[h]]" for h by (simp add: merkle_levels.simps)
  moreover have "map prevout (vin generous_tx) = [op_SetNull]" by (simp add: generous_tx_def coinbase_tx_def)
  moreover have "GetBlockTime generous_block = 5" by (simp add: GetBlockTime_def generous_block_def coinbase_block_def)
  ultimately show "CheckBlock example_crypto 0 False False generous_block st =
     Some ((True, st), generous_block\<lparr>vMerkleTree := [tx_GetHash example_crypto generous_tx]\<rparr>)"
    by (simp add: CheckBlock_cases [OF ok len] block_fits_def l v i coinbase_first_def generous_tx_facts BuildMerkleTree_def merkle_tree_eq Let_def)
qed

lemma map_neq: "l \<noteq> [] \<Longrightarrow> map (\<lambda>x. x + 1) l \<noteq> (l :: u32 list)"
  by (cases l) auto

lemma generous_connects:
  "\<exists>n'. ConnectBlock example_crypto L example_env generous_env null_view generous_block 1 True vs_init generous_node = Inr ((True, vs_init), n')"
proof -
  let ?tx = generous_tx and ?b = generous_block
  let ?hash = "tx_GetHash example_crypto ?tx"
  let ?b1 = "?b\<lparr>vMerkleTree := [?hash]\<rparr>"
  let ?v = "(cache_init ())\<lparr>pindexTip := Some 0\<rparr> :: unit CCoinsViewCache"
  let ?h = "blk_GetHash example_crypto ?b"
  have "length ?h = WIDTH256" by (simp add: blk_GetHash_def Hash_def Let_def)
  then have "?h \<noteq> []" by auto
  then have ne: "?h \<noteq> map (\<lambda>x. x + 1) ?h" using map_neq by metis
  have "blk_GetHash example_crypto ?b1 = ?h" by (simp add: blk_GetHash_def header_bytes_def)
  then have g: "\<not> bu_eq (blk_GetHash example_crypto ?b1) (map (\<lambda>x. x + 1) ?h)"
    using ne by (simp add: bu_eq_iff)
  have best: "cache_GetBestBlock null_view ?v = Some (Some 0, ?v)" by (simp add: cache_GetBestBlock_def)
  have bip: "bip30_loop null_view [?hash] ?v = Some (False, ?v)"
    by (simp add: cache_HaveCoins_def cache_FetchCoins_def cache_init_def null_view_def)
  have sig: "tx_GetLegacySigOpCount ?tx = 0"
    using legacy_sigops_word [of ?tx] by (simp add: generous_tx_facts)
  obtain view u where up: "tx_UpdateCoins null_view ?tx ?v \<lparr>vprevout = []\<rparr> 6 ?hash = Some (view, u)"
    by (simp add: tx_UpdateCoins_def generous_tx_facts cache_SetCoins_def)
  have total: "total_out (vout ?tx) cash_empty = \<lparr>local_map = [(''EUR'', 1840000000000), (''TET'', 0)], fixed = 0\<rparr>"
    by (simp add: generous_tx_def total_out_def cash_plus_assign_def getLocal_def cash_empty_def at_def)
  have "tx_GetValueOut ?tx = Inr (total_out (vout ?tx) cash_empty)"
    using generous_tx_facts(1,2) by (simp add: GetValueOut_exact tx_rules_def tx_in_bounds_def)
  then have pays: "tx_GetValueOut ?tx = Inr \<lparr>local_map = [(''EUR'', 1840000000000), (''TET'', 0)], fixed = 0\<rparr>"
    unfolding total .
  have lim: "\<not> cash_gt \<lparr>local_map = [(''EUR'', 1840000000000), (''TET'', 0)], fixed = 0\<rparr> (GetBlockValue 6 cash_empty)"
    by (simp add: cash_gt_circuits GetBlockValue_def fees_to_cash_def amount_def at_def cash_empty_def)
  have est: "GetTotalBlocksEstimate True = 0" by (simp add: GetTotalBlocksEstimate_def mapCheckpoints_def)
  show ?thesis
    using g
    by (simp add: ConnectBlock_def generous_block_facts best bip est connect_tx_def sig generous_tx_facts up finish_block_def
        pays lim thrown_def Let_def blk_GetTxHash_def bi_init_def MAX_BLOCK_SIZE_def
        del: bip30_loop.simps)
qed

lemma generous_start:
  "cache_wf (\<lambda>_. True) (n_view generous_node)" "cache_utxo (\<lambda>_ _. None) (n_view generous_node) = (\<lambda>_. None)"
  "ledger_ok (cache_utxo (\<lambda>_ _. None) (n_view generous_node))"
  "connectable generous_env example_crypto (n_heap generous_node) generous_block 1"
proof -
  show "cache_wf (\<lambda>_. True) (n_view generous_node)" by (simp add: cache_wf_def cache_init_def)
  show u: "cache_utxo (\<lambda>_ _. None) (n_view generous_node) = (\<lambda>_. None)"
    by (rule ext) (simp add: cache_utxo_def cache_init_def)
  show "ledger_ok (cache_utxo (\<lambda>_ _. None) (n_view generous_node))"
    unfolding u by (simp add: ledger_ok_def all_sane_def heights_set_def coin_set_def coin_at_def)
  let ?h = "blk_GetHash example_crypto generous_block"
  have "length ?h = WIDTH256" by (simp add: blk_GetHash_def Hash_def Let_def)
  then have "?h \<noteq> []" by auto
  then have "\<not> bu_eq ?h (map (\<lambda>x. x + 1) ?h)" using map_neq [of ?h] by (simp add: bu_eq_iff)
  moreover have "coins_ok (coins_of_tx generous_tx 6)"
    by (simp add: coins_ok_def coins_of_tx_def generous_tx_def coinbase_tx_def txout_compr_ok_def cash_ok_def cash_wf_def
        script_fits_def word_sle_eq)
  ultimately show "connectable generous_env example_crypto (n_heap generous_node) generous_block 1"
    using generous_block_facts(2) by (simp add: connectable_def generous_block_facts bi_init_def)
qed

theorem ConnectBlock_refines_witness:
  "\<forall>L :: 'l bn_lib. \<exists>n'. ConnectBlock example_crypto L example_env generous_env null_view generous_block 1 True vs_init
       generous_node = Inr ((True, vs_init), n')
    \<and> cache_utxo (\<lambda>_ _. None) (n_view n') = txs_connected 6 (\<lambda>_. None) [(generous_tx, tx_GetHash example_crypto generous_tx)]"
proof
  fix L :: "'l bn_lib"
  obtain n' where n': "ConnectBlock example_crypto L example_env generous_env null_view generous_block 1 True vs_init generous_node =
      Inr ((True, vs_init), n')" using generous_connects by blast
  have s: "cache_sound example_crypto (n_sigcache generous_node)" by simp
  from ConnectBlock_refines [OF null_view.coins_view_axioms generous_start(1) s generous_start(3,4) n']
  have "cache_utxo (\<lambda>_ _. None) (n_view n') = txs_connected (word_of_int (nHeight (n_heap generous_node 1)))
      (cache_utxo (\<lambda>_ _. None) (n_view generous_node)) (zip (vtx generous_block) (txids example_crypto generous_block))" by blast
  then show "\<exists>n'. ConnectBlock example_crypto L example_env generous_env null_view generous_block 1 True vs_init
       generous_node = Inr ((True, vs_init), n')
    \<and> cache_utxo (\<lambda>_ _. None) (n_view n') = txs_connected 6 (\<lambda>_. None) [(generous_tx, tx_GetHash example_crypto generous_tx)]"
    using n' by (intro exI [of _ n'] conjI n') (simp add: generous_block_facts generous_start(2) [simplified] bi_init_def)
qed

theorem money_supply_witness:
  "\<forall>L :: 'l bn_lib. \<exists>n'. ConnectBlock example_crypto L example_env generous_env null_view generous_block 1 True vs_init
       generous_node = Inr ((True, vs_init), n')
    \<and> circulating (cache_utxo (\<lambda>_ _. None) (n_view n')) ''EUR'' \<le> 1840000000000
    \<and> circulating (cache_utxo (\<lambda>_ _. None) (n_view n')) ''TET'' \<le> 0
    \<and> amount (GetBlockValue 6 cash_empty) ''EUR'' = 0"
proof
  fix L :: "'l bn_lib"
  obtain n' where n': "ConnectBlock example_crypto L example_env generous_env null_view generous_block 1 True vs_init generous_node =
      Inr ((True, vs_init), n')" using generous_connects by blast
  have s: "cache_sound example_crypto (n_sigcache generous_node)" by simp
  note m = money_supply [OF null_view.coins_view_axioms generous_start(1) s generous_start(3,4) n']
  have c: "credit (vout (vtx generous_block ! 0)) ''EUR'' = 1840000000000" "credit (vout (vtx generous_block ! 0)) ''TET'' = 0"
    by (simp_all add: generous_block_facts generous_tx_def credit_def amount_def at_def)
  have z: "circulating (\<lambda>_. None) k = 0" for k by (simp add: circulating_def coin_set_def coin_at_def)
  have "amount (GetBlockValue 6 cash_empty) ''EUR'' = 0"
    by (simp add: GetBlockValue_def fees_to_cash_def amount_def at_def cash_empty_def)
  with m [of "''EUR''"] m [of "''TET''"] c z n'
  show "\<exists>n'. ConnectBlock example_crypto L example_env generous_env null_view generous_block 1 True vs_init
       generous_node = Inr ((True, vs_init), n')
    \<and> circulating (cache_utxo (\<lambda>_ _. None) (n_view n')) ''EUR'' \<le> 1840000000000
    \<and> circulating (cache_utxo (\<lambda>_ _. None) (n_view n')) ''TET'' \<le> 0
    \<and> amount (GetBlockValue 6 cash_empty) ''EUR'' = 0"
    unfolding generous_start(2) by (intro exI [of _ n'] conjI) (simp_all add: z)
qed

end
