(* ===== verification/Spec2Isabelle.thy ===== *)
theory Spec2Isabelle
  imports Fees DataStream KeyStore ScriptEval CheckQueue Ledger
begin

text \<open>
  A verification development for Tetra, a node of a multi-currency crypto-coin network that descends
  from Bitcoin 0.8 (\<open>src/src\<close>).  The node keeps amounts per currency circuit, moves them by
  transactions whose outputs are guarded by scripts, and stores the keys that satisfy those scripts.

  \<^bold>\<open>Parts and theories.\<close>

  \<^item> \<open>Tetra_Prelude\<close>: machine types, little-endian byte codes, the top bit of a byte, generic lemmas.
  \<^item> \<open>Omap\<close>: \<open>std::map\<close> as a locale of an ordered map, interpreted on key-sorted association lists.
  \<^item> \<open>Cash\<close> (\<open>cash.h\<close>, \<open>cash.cpp\<close>): amounts, a map from circuit names to 64-bit integers with a fixed
    part; every operator, minimum and maximum, the money range of \<open>main.h\<close>, amount compression.
  \<^item> \<open>Fees\<close> (\<open>fees.cpp\<close>): fees per circuit and their arithmetic with amounts.
  \<^item> \<open>Uint256\<close> (\<open>uint256.h\<close>): fixed-width integers as lists of 32-bit limbs; \<open>HashKey\<close>: such numbers as
    the keys of maps, an instance of \<open>linorder\<close> by their \<open>operator<\<close>.
  \<^item> \<open>Serialize\<close> (\<open>serialize.h\<close>): readers over the bytes of a stream with the exceptions of the code as
    values; compact sizes, variable-length integers and the container templates.  The locales
    \<open>stream_reader\<close>, \<open>codec\<close>, \<open>codec_pair\<close> and \<open>sized_writer\<close> are the contracts of readers and
    writers and are interpreted on every format.
  \<^item> \<open>DataStream\<close> (\<open>serialize.h\<close>): \<open>CDataStream\<close>, a buffer with a read position, refining the readers.
  \<^item> \<open>BigNum\<close> (\<open>bignum.h\<close>): \<open>CBigNum\<close> over the functions of OpenSSL, which are a parameter with its
    documented contract as the locale \<open>bignum\<close>, interpreted on integers.
  \<^item> \<open>Script\<close> (\<open>script.h\<close>, \<open>script.cpp\<close>): the instruction set, builders, the instruction reader and the
    checks on the bytes of scripts, against a reference parser.
  \<^item> \<open>Keys\<close> (\<open>hash.h\<close>, \<open>key.h\<close>, \<open>key.cpp\<close>): hashes, public and secret keys; digests and curve operations
    are the fields of the parameter \<open>crypto\<close>.
  \<^item> \<open>KeyStore\<close> (\<open>crypter.cpp\<close>, \<open>keystore.cpp\<close>): secret encryption and the lockable key store, a state
    machine with reachability, in which the failure of \<open>EncryptKeys\<close> is a step with its own state.
  \<^item> \<open>Transaction\<close> (\<open>main.h\<close>, \<open>main.cpp\<close>): transactions, their codes, hash and order of replacement, and
    the context-free check.
  \<^item> \<open>Signature\<close> (\<open>script.cpp\<close>): what a signature signs, the cache of valid signatures and the check.
  \<^item> \<open>Interpreter\<close> (\<open>script.cpp\<close>): the stack machine; the locale \<open>sig_oracle\<close> is the contract of the
    signature checker it calls, interpreted on the check with its cache and on a check without one.
  \<^item> \<open>Compressor\<close>, \<open>Coins\<close> (\<open>script.cpp\<close>, \<open>main.h\<close>): the compact codes of scripts and outputs, the unspent
    outputs of a transaction (\<open>CCoins\<close>) and the undo records; a round trip through the coin database needs the
    parity rule of compressed points, the hypothesis \<open>point_compression\<close> on the curve, shown to hold of a concrete one.
  \<^item> \<open>CoinsView\<close> (\<open>main.h\<close>, \<open>main.cpp\<close>): views of the unspent outputs as records of their virtual functions; the
    locale \<open>coins_view\<close> is what every view promises of the map it holds, interpreted on the base class and on a cache over any view.
  \<^item> \<open>Utxo\<close> (\<open>main.cpp\<close>): inputs, spending with undo data, and disconnecting; spending and restoring are
    refined to updates of that map.
  \<^item> \<open>Merkle\<close> (\<open>main.h\<close>, \<open>main.cpp\<close>): the Merkle tree of a block, its branches and partial trees, against the levels
    of the tree; soundness holds up to an explicit pair of colliding hash inputs.
  \<^item> \<open>Block\<close> (\<open>main.h\<close>, \<open>main.cpp\<close>): headers and blocks, their codes and hash, the context-free checks, and what the
    Merkle root of a checked block commits to.
  \<^item> \<open>Chain\<close> (\<open>main.h\<close>, \<open>main.cpp\<close>): the tree of block index entries on a heap, median times, locators, search by height, and
    adding entries and switching the main chain as a step relation with its invariant.
  \<^item> \<open>ScriptEval\<close>: verification against its specification, the standard scripts, the numeric and
    multisignature operations, and the resource limits of scripts that succeed.

  \<^item> \<open>CheckQueue\<close> (\<open>checkqueue.h\<close>): the queue of script checks as interleaved steps of its threads, with its result, the
    return of the master under every schedule, and workers that do not sleep over queued checks.
  \<^item> \<open>Files\<close> (\<open>main.cpp\<close>, \<open>util.cpp\<close>, \<open>serialize.h\<close>): the block and undo files as byte lists, with opening, writing,
    reading, cutting and pre-allocating; a record of outcomes, one field for each call of the C library that can fail, is
    an argument of every operation.  \<open>BlockFiles\<close> (\<open>main.h\<close>, \<open>main.cpp\<close>): positions on disk, block index entries on
    disk, and the allocation of space in those files with what it does to them.
  \<^item> \<open>TxDB\<close> (\<open>txdb.cpp\<close>, \<open>leveldb.h\<close>): the coin database, shown to keep the contract \<open>coins_view\<close>, and the block tree database,
    over an ordered map of byte strings.
  \<^item> \<open>Inputs\<close> (\<open>main.cpp\<close>): the checks of a transaction's inputs with the script checks they run or queue, and what a
    transaction that passes may spend and pay.
  \<^item> \<open>DiskFiles\<close> (\<open>main.h\<close>): writing and reading blocks and undo data; what is stored reads back under every later sequence
    of allocations, writes and flushes in which any call may fail, with the two ways to lose a file as sets of the run.
  \<^item> \<open>Connect\<close> (\<open>main.cpp\<close>, \<open>checkpoints.cpp\<close>, \<open>srges.h\<close>): \<open>ConnectBlock\<close>, which calls almost everything above, with the limit
    on the coinbase and the checkpoints; \<open>Ledger\<close>: its specification as a transition of the map of unspent outputs, and
    what it implies for the money in circulation.

  \<^bold>\<open>How the code is rendered.\<close>  A class is a record of its members and a method a function that returns
  the updated record; an exception or an early \<open>return false\<close> is a branch of an option, a sum or a
  pair with the flag.  Machine integers are words, read by \<open>sint\<close> where the code has a signed type.
  An out-of-bounds write, a division by zero or a loop that never ends is \<open>None\<close>.  Loops are recursive
  functions that end on every input, by structural recursion or a measure, except the search for a
  key among random draws, which is a partial function with a lemma that it returns when a draw is
  acceptable.  No fuel is used anywhere.  The logging of the code, its locks and the contents of
  uninitialised memory have no counterpart.

  \<^bold>\<open>Not modelled.\<close>  The network, the wallet and its database, the user interface and the remote procedure
  calls, the memory pool, start-up, the selection of blocks and the reorganisation that calls \<open>ConnectBlock\<close> (its pointer
  updates are part of \<open>Chain\<close>), and the vendored libraries under \<open>src/src/leveldb\<close> and \<open>src/src/json\<close>.
\<close>

end
